(* ===== verification/CPrelude.thy ===== *)
theory CPrelude
  imports Main "HOL-Library.Word"
begin

text \<open>
  Shared vocabulary of the development: what a C or C++ function can do besides returning a value (fault on a bad access, fail
  to allocate), and the parts of the C library on characters and
  NUL-terminated strings that several components use.

  Conventions. A C string is a \<^typ>\<open>string\<close> without the character NUL; a
  \<^verbatim>\<open>char *\<close> that may be NULL is a \<^typ>\<open>string option\<close>. An undefined access
  (NULL dereference, out-of-bounds index, buffer overrun, signed overflow, use of
  a released object or of an uninitialised variable) is a value of \<open>c_fault\<close> on the left of a sum, so that memory safety is a theorem
  about the model and not an assumption of it. Character classification is
  that of the C locale.
\<close>

named_theorems char_simps \<open>facts on the character predicates of the C library\<close>
named_theorems mem_simps \<open>facts on the allocation oracle\<close>

subsection \<open>Faults and fallible computations\<close>

text \<open>\<^verbatim>\<open>KeyOverflow\<close> is the write that leaves the buffer in which \<^verbatim>\<open>iniparser_load\<close> joins section and key.\<close>

datatype c_fault =
    NullDeref
  | OutOfBounds
  | BufOverflow
  | KeyOverflow
  | IntOverflow
  | UseAfterFree
  | Uninitialised

type_synonym 'a cres = "c_fault + 'a"

definition cbind :: "'e + 'a \<Rightarrow> ('a \<Rightarrow> 'e + 'b) \<Rightarrow> 'e + 'b" where
  "cbind r f = (case r of Inl e \<Rightarrow> Inl e | Inr x \<Rightarrow> f x)"

lemma cbind_simps [simp]:
  "cbind (Inl e) f = Inl e"
  "cbind (Inr x) f = f x"
  by (simp_all add: cbind_def)

lemma cbind_cong [fundef_cong]:
  "r = r' \<Longrightarrow> (\<And>x. r' = Inr x \<Longrightarrow> f x = g x) \<Longrightarrow> cbind r f = cbind r' g"
  by (cases r') simp_all

lemma cbind_Inr_iff: "cbind r f = Inr y \<longleftrightarrow> (\<exists>x. r = Inr x \<and> f x = Inr y)"
  by (cases r) auto

lemma cbind_assoc: "cbind (cbind r f) g = cbind r (\<lambda>x. cbind (f x) g)"
  by (cases r) auto

text \<open>Reading and writing element \<open>i\<close> of an array; a NULL array has no element.\<close>

definition aget :: "'a list \<Rightarrow> nat \<Rightarrow> 'a cres" where
  "aget xs i = (if i < length xs then Inr (xs ! i) else Inl OutOfBounds)"

definition aset :: "'a list \<Rightarrow> nat \<Rightarrow> 'a \<Rightarrow> 'a list cres" where
  "aset xs i x = (if i < length xs then Inr (xs[i := x]) else Inl OutOfBounds)"

lemma aget_Inr [simp]: "i < length xs \<Longrightarrow> aget xs i = Inr (xs ! i)"
  by (simp add: aget_def)

lemma aset_Inr [simp]: "i < length xs \<Longrightarrow> aset xs i x = Inr (xs[i := x])"
  by (simp add: aset_def)

lemma nth_update_if: "xs[j := x] ! i = (if i = j \<and> j < length xs then x else xs ! i)"
  by (cases "j < length xs") (auto simp: nth_list_update list_update_beyond)

definition int_max :: nat where
  "int_max = 2147483647"

subsection \<open>Allocation\<close>

text \<open>
  Whether a call of \<^verbatim>\<open>malloc\<close> or \<^verbatim>\<open>calloc\<close> succeeds is decided by the
  environment: an oracle lists the outcome of the coming calls, and when the
  list is used up every call succeeds.
\<close>

type_synonym mem = "bool list"

definition malloc :: "mem \<Rightarrow> bool \<times> mem" where
  "malloc m = (case m of [] \<Rightarrow> (True, []) | b # m' \<Rightarrow> (b, m'))"

definition no_fail :: "mem \<Rightarrow> bool" where
  "no_fail m = list_all (\<lambda>b. b) m"

lemma malloc_no_fail [mem_simps]:
  "no_fail m \<Longrightarrow> malloc m = (True, tl m)"
  by (auto simp: malloc_def no_fail_def split: list.splits)

lemma no_fail_tl [mem_simps]: "no_fail m \<Longrightarrow> no_fail (tl m)"
  by (cases m) (auto simp: no_fail_def)

lemma no_fail_Nil [simp]: "no_fail []"
  by (simp add: no_fail_def)

subsection \<open>Characters of the C locale\<close>

definition NUL :: char where
  "NUL = CHR 0x00"

definition isspace :: "char \<Rightarrow> bool" where
  "isspace c \<longleftrightarrow> c = CHR 0x20 \<or> c = CHR 0x09 \<or> c = CHR 0x0A \<or> c = CHR 0x0B
     \<or> c = CHR 0x0C \<or> c = CHR 0x0D"

definition tolower :: "char \<Rightarrow> char" where
  "tolower c = (let k = (of_char c :: nat) in
     if 65 \<le> k \<and> k \<le> 90 then char_of (k + 32) else c)"

definition isdigit :: "char \<Rightarrow> bool" where
  "isdigit c \<longleftrightarrow> 48 \<le> (of_char c :: nat) \<and> (of_char c :: nat) \<le> 57"

definition isupper :: "char \<Rightarrow> bool" where
  "isupper c \<longleftrightarrow> 65 \<le> (of_char c :: nat) \<and> (of_char c :: nat) \<le> 90"

lemma tolower_lower [char_simps]: "\<not> isupper c \<Longrightarrow> tolower c = c"
  by (auto simp: tolower_def isupper_def Let_def)

lemma tolower_not_upper [char_simps]: "\<not> isupper (tolower c)"
  by (auto simp: tolower_def isupper_def Let_def)

lemma tolower_idem [char_simps]: "tolower (tolower c) = tolower c"
  by (rule tolower_lower) (rule tolower_not_upper)

lemma isspace_newline [simp]: "isspace (CHR 0x0A)" "isspace (CHR 0x20)"
  by (simp_all add: isspace_def)

text \<open>A string that \<^verbatim>\<open>tolower\<close> leaves alone.\<close>

definition lowercase :: "string \<Rightarrow> bool" where
  "lowercase s = list_all (\<lambda>c. \<not> isupper c) s"

lemma map_tolower_lowercase [char_simps]: "lowercase s \<Longrightarrow> map tolower s = s"
  by (induction s) (auto simp: lowercase_def char_simps)

lemma lowercase_map_tolower [char_simps]: "lowercase (map tolower s)"
  by (induction s) (auto simp: lowercase_def char_simps)

lemma lowercase_append [simp]: "lowercase (s @ t) \<longleftrightarrow> lowercase s \<and> lowercase t"
  by (simp add: lowercase_def)

subsection \<open>Strings\<close>

definition cstr :: "string \<Rightarrow> bool" where
  "cstr s = (NUL \<notin> set s)"

text \<open>The C string at the start of an array of bytes ends at the first NUL.\<close>

definition c_str :: "string \<Rightarrow> string" where
  "c_str s = takeWhile (\<lambda>c. c \<noteq> NUL) s"

lemma c_str_id: "NUL \<notin> set s \<Longrightarrow> c_str s = s"
  unfolding c_str_def by (rule takeWhile_eq_all_conv [THEN iffD2]) blast

lemma cstr_c_str [simp]: "NUL \<notin> set (c_str s)"
  unfolding c_str_def using set_takeWhileD by fastforce

lemma c_str_append_NUL: "c_str (s @ NUL # t) = c_str s"
  by (induction s) (simp_all add: c_str_def)

text \<open>\<^verbatim>\<open>strstr\<close> and \<^verbatim>\<open>std::string::find\<close>: the first position of a substring.\<close>

fun prefix_of :: "string \<Rightarrow> string \<Rightarrow> bool" where
  "prefix_of [] s = True"
| "prefix_of (c # p) [] = False"
| "prefix_of (c # p) (d # s) = (c = d \<and> prefix_of p s)"

fun find_sub :: "string \<Rightarrow> string \<Rightarrow> nat option" where
  "find_sub p [] = (if p = [] then Some 0 else None)"
| "find_sub p (c # s) =
     (if prefix_of p (c # s) then Some 0 else map_option Suc (find_sub p s))"

definition contains_sub :: "string \<Rightarrow> string \<Rightarrow> bool" where
  "contains_sub p s = (find_sub p s \<noteq> None)"

lemma prefix_of_iff: "prefix_of p s \<longleftrightarrow> (\<exists>t. s = p @ t)"
  by (induction p s rule: prefix_of.induct) auto

lemma find_sub_Some: "find_sub p s = Some i \<Longrightarrow> \<exists>a b. s = a @ p @ b \<and> length a = i"
proof (induction s arbitrary: i)
  case Nil
  then show ?case by (simp split: if_splits)
next
  case (Cons c s)
  show ?case
  proof (cases "prefix_of p (c # s)")
    case True
    with Cons.prems show ?thesis by (auto simp: prefix_of_iff)
  next
    case False
    with Cons.prems obtain j where j: "find_sub p s = Some j" "i = Suc j" by auto
    from Cons.IH [OF j(1)] obtain a b where "s = a @ p @ b" "length a = j" by auto
    with j(2) have "c # s = (c # a) @ p @ b \<and> length (c # a) = i" by simp
    then show ?thesis by blast
  qed
qed

lemma find_sub_skip:
  assumes "\<And>i. i < length x \<Longrightarrow> \<not> prefix_of p (drop i (x @ y))" and "p \<noteq> []"
  shows "find_sub p (x @ y) = map_option ((+) (length x)) (find_sub p y)"
  using assms(1)
proof (induction x)
  case Nil
  show ?case by (simp add: option.map_ident)
next
  case (Cons c x)
  have "\<not> prefix_of p (drop i (x @ y))" if "i < length x" for i using Cons.prems [of "Suc i"] that by simp
  moreover have "\<not> prefix_of p (c # x @ y)" using Cons.prems [of 0] by simp
  ultimately show ?case using Cons.IH by (simp add: option.map_comp comp_def)
qed

lemma find_sub_None: "find_sub p s = None \<Longrightarrow> s \<noteq> a @ p @ b"
proof (induction s arbitrary: a)
  case Nil
  then show ?case by (auto split: if_splits)
next
  case (Cons c s)
  then have np: "\<not> prefix_of p (c # s)" and n: "find_sub p s = None"
    by (auto split: if_splits)
  show ?case
  proof (cases a)
    case Nil
    with np show ?thesis by (auto simp: prefix_of_iff)
  next
    case (Cons d a')
    with Cons.IH [OF n, of a'] show ?thesis by auto
  qed
qed

lemma contains_sub_iff: "contains_sub p s \<longleftrightarrow> (\<exists>a b. s = a @ p @ b)"
  unfolding contains_sub_def by (metis find_sub_Some find_sub_None not_None_eq)

text \<open>Removing trailing white space.\<close>

definition rstrip :: "string \<Rightarrow> string" where
  "rstrip s = rev (dropWhile isspace (rev s))"

lemma rstrip_snoc_space [simp]: "isspace c \<Longrightarrow> rstrip (s @ [c]) = rstrip s"
  by (simp add: rstrip_def)

lemma rstrip_snoc_other [simp]: "\<not> isspace c \<Longrightarrow> rstrip (s @ [c]) = s @ [c]"
  by (simp add: rstrip_def)

lemma rstrip_Nil [simp]: "rstrip [] = []"
  by (simp add: rstrip_def)

lemma rstrip_id: "s = [] \<or> \<not> isspace (last s) \<Longrightarrow> rstrip s = s"
  by (cases s rule: rev_cases) auto

lemma rstrip_last: "rstrip s \<noteq> [] \<Longrightarrow> \<not> isspace (last (rstrip s))"
proof -
  assume "rstrip s \<noteq> []"
  then have "dropWhile isspace (rev s) \<noteq> []" by (simp add: rstrip_def)
  then show ?thesis by (simp add: rstrip_def last_rev hd_dropWhile)
qed

lemma length_rstrip [simp]: "length (rstrip s) \<le> length s"
  using length_dropWhile_le [of isspace "rev s"] by (simp add: rstrip_def)

lemma rstrip_append_id:
  "t \<noteq> [] \<Longrightarrow> \<not> isspace (last t) \<Longrightarrow> rstrip (s @ t) = s @ t"
  by (rule rstrip_id) auto

end
