(* ===== verification/Dictionary.thy ===== *)
theory Dictionary
  imports CPrelude
begin

text \<open>
  The string dictionary of \<^verbatim>\<open>utils/dictionary.cpp\<close>: three parallel arrays
  (values, keys, hashes) in which a slot is free when its key is NULL. The
  operations are translated with every array access checked, so that an
  ill-formed dictionary (for instance one whose arrays were lost when growing
  failed) faults where the code would dereference NULL. The invariant
  \<open>dict_wf\<close> rules faults out; under it the dictionary is the finite map
  \<open>dict_map\<close>, and the operations are lookup, update and deletion of that map.
  The interface the ini parser relies on is the locale \<open>string_store\<close>,
  interpreted on these operations.
\<close>

unbundle bit_operations_syntax

subsection \<open>State and operations\<close>

record dictionary =
  d_n :: int
  d_size :: nat
  d_val :: "string option list"
  d_key :: "string option list"
  d_hash :: "32 word list"

text \<open>The \<^verbatim>\<open>char *\<close> results of a lookup: NULL, a string, or the sentinel \<^verbatim>\<open>(char*)-1\<close>.\<close>

datatype char_ptr = PNull | PStr string | PInvalid

definition ptr_of :: "string option \<Rightarrow> char_ptr" where
  "ptr_of v = (case v of None \<Rightarrow> PNull | Some s \<Rightarrow> PStr s)"

definition DICTMINSZ :: nat where
  "DICTMINSZ = 128"

text \<open>
  \<open>mem_double m xs nb esz z\<close> doubles an array of \<open>nb\<close> elements of \<open>esz\<close>
  bytes; \<open>z\<close> is the all-zero element of the new half. The byte counts are
  \<^verbatim>\<open>int\<close>s. A failed allocation gives NULL, here the array with no element.
\<close>

definition mem_double :: "mem \<Rightarrow> 'a list \<Rightarrow> nat \<Rightarrow> nat \<Rightarrow> 'a \<Rightarrow> ((bool \<times> 'a list) \<times> mem) cres" where
  "mem_double m xs nb esz z =
     (if int_max < 2 * (nb * esz) then Inl IntOverflow
      else let (ok, m') = malloc m in
        if \<not> ok then Inr ((False, []), m')
        else if length xs < nb then Inl OutOfBounds
        else Inr ((True, take nb xs @ replicate nb z), m'))"

definition xstrdup :: "mem \<Rightarrow> string option \<Rightarrow> string option \<times> mem" where
  "xstrdup m s =
     (case s of None \<Rightarrow> (None, m)
      | Some t \<Rightarrow> let (ok, m') = malloc m in (if ok then Some t else None, m'))"

definition hash_char :: "char \<Rightarrow> 32 word" where
  "hash_char c = (let k = (of_char c :: int) in word_of_int (if k < 128 then k else k - 256))"

definition hash_step :: "32 word \<Rightarrow> char \<Rightarrow> 32 word" where
  "hash_step hash c =
     (let h1 = hash + hash_char c;
          h2 = h1 + push_bit 10 h1
      in h2 XOR drop_bit 6 h2)"

definition dictionary_hash :: "string \<Rightarrow> 32 word" where
  "dictionary_hash key =
     (let h = foldl hash_step 0 key;
          h1 = h + push_bit 3 h;
          h2 = h1 XOR drop_bit 11 h1
      in h2 + push_bit 15 h2)"

definition calloc_array :: "mem \<Rightarrow> nat \<Rightarrow> 'a \<Rightarrow> 'a list \<times> mem" where
  "calloc_array m sz z = (let (ok, m') = malloc m in (if ok then replicate sz z else [], m'))"

definition dictionary_new :: "mem \<Rightarrow> int \<Rightarrow> dictionary option \<times> mem" where
  "dictionary_new m sz0 =
     (let sz = (if sz0 < int DICTMINSZ then DICTMINSZ else nat sz0);
          (ok, m0) = malloc m
      in if \<not> ok then (None, m0)
         else let (vs, m1) = calloc_array m0 sz None;
                  (ks, m2) = calloc_array m1 sz None;
                  (hs, m3) = calloc_array m2 sz 0
              in (Some \<lparr>d_n = 0, d_size = sz, d_val = vs, d_key = ks, d_hash = hs\<rparr>, m3))"

function dict_del_loop :: "dictionary \<Rightarrow> nat \<Rightarrow> unit cres" where
  "dict_del_loop d i =
     (if i < d_size d
      then cbind (aget (d_key d) i) (\<lambda>_. cbind (aget (d_val d) i) (\<lambda>_. dict_del_loop d (Suc i)))
      else Inr ())"
  by pat_completeness auto
termination
  by (relation "measure (\<lambda>(d, i). d_size d - i)") auto

definition dictionary_del :: "dictionary option \<Rightarrow> unit cres" where
  "dictionary_del dp = (case dp of None \<Rightarrow> Inr () | Some d \<Rightarrow> dict_del_loop d 0)"

text \<open>
  The search loop that \<^verbatim>\<open>dictionary_get\<close>, \<^verbatim>\<open>dictionary_set\<close> and
  \<^verbatim>\<open>dictionary_unset\<close> share: the first slot from \<open>i\<close> on with this hash and
  key, or \<^verbatim>\<open>d->size\<close>.
\<close>

function dict_find :: "dictionary \<Rightarrow> 32 word \<Rightarrow> string \<Rightarrow> nat \<Rightarrow> nat cres" where
  "dict_find d hash key i =
     (if i < d_size d
      then cbind (aget (d_key d) i) (\<lambda>k. case k of
             None \<Rightarrow> dict_find d hash key (Suc i)
           | Some ks \<Rightarrow> cbind (aget (d_hash d) i) (\<lambda>h.
               if hash = h \<and> key = ks then Inr i else dict_find d hash key (Suc i)))
      else Inr i)"
  by pat_completeness auto
termination
  by (relation "measure (\<lambda>(d, h, k, i). d_size d - i)") auto

definition dictionary_get :: "dictionary \<Rightarrow> string \<Rightarrow> char_ptr \<Rightarrow> char_ptr cres" where
  "dictionary_get d key def =
     cbind (dict_find d (dictionary_hash key) key 0) (\<lambda>i.
       if i < d_size d then cbind (aget (d_val d) i) (\<lambda>v. Inr (ptr_of v)) else Inr def)"

function dict_free_slot :: "dictionary \<Rightarrow> nat \<Rightarrow> nat cres" where
  "dict_free_slot d i =
     (if i < d_size d
      then cbind (aget (d_key d) i) (\<lambda>k.
             if k = None then Inr i else dict_free_slot d (Suc i))
      else Inr i)"
  by pat_completeness auto
termination
  by (relation "measure (\<lambda>(d, i). d_size d - i)") auto

text \<open>Growing: all three arrays are replaced before the three results are tested.\<close>

definition dict_grow :: "mem \<Rightarrow> dictionary \<Rightarrow> (bool \<times> dictionary \<times> mem) cres" where
  "dict_grow m d =
     cbind (mem_double m (d_val d) (d_size d) 8 None) (\<lambda>((okv, vs), m1).
     cbind (mem_double m1 (d_key d) (d_size d) 8 None) (\<lambda>((okk, ks), m2).
     cbind (mem_double m2 (d_hash d) (d_size d) 4 0) (\<lambda>((okh, hs), m3).
       let d' = d\<lparr>d_val := vs, d_key := ks, d_hash := hs\<rparr>
       in if okv \<and> okk \<and> okh then Inr (True, d'\<lparr>d_size := 2 * d_size d\<rparr>, m3)
          else Inr (False, d', m3))))"

definition dict_insert :: "mem \<Rightarrow> dictionary \<Rightarrow> string \<Rightarrow> string option \<Rightarrow> (int \<times> dictionary \<times> mem) cres" where
  "dict_insert m d key val =
     cbind (dict_free_slot d 0) (\<lambda>i.
       let (k', m1) = xstrdup m (Some key);
           (v', m2) = xstrdup m1 val
       in cbind (aset (d_key d) i k') (\<lambda>ks.
          cbind (aset (d_val d) i v') (\<lambda>vs.
          cbind (aset (d_hash d) i (dictionary_hash key)) (\<lambda>hs.
            Inr (0, d\<lparr>d_key := ks, d_val := vs, d_hash := hs, d_n := d_n d + 1\<rparr>, m2)))))"

definition dictionary_set ::
    "mem \<Rightarrow> dictionary option \<Rightarrow> string option \<Rightarrow> string option \<Rightarrow> (int \<times> dictionary option \<times> mem) cres" where
  "dictionary_set m dp keyp val =
     (case (dp, keyp) of
        (Some d, Some key) \<Rightarrow>
          cbind (if 0 < d_n d then dict_find d (dictionary_hash key) key 0 else Inr (d_size d)) (\<lambda>i.
            if i < d_size d
            then let (v', m') = xstrdup m val
                 in cbind (aset (d_val d) i v') (\<lambda>vs. Inr (0, Some (d\<lparr>d_val := vs\<rparr>), m'))
            else cbind (if d_n d = int (d_size d) then dict_grow m d else Inr (True, d, m)) (\<lambda>(ok, d1, m1).
              if \<not> ok then Inr (- 1, Some d1, m1)
              else cbind (dict_insert m1 d1 key val) (\<lambda>(r, d2, m2). Inr (r, Some d2, m2))))
      | _ \<Rightarrow> Inr (- 1, dp, m))"

definition dictionary_unset :: "dictionary option \<Rightarrow> string option \<Rightarrow> dictionary option cres" where
  "dictionary_unset dp keyp =
     (case keyp of None \<Rightarrow> Inr dp
      | Some key \<Rightarrow> (case dp of None \<Rightarrow> Inl NullDeref
        | Some d \<Rightarrow>
            cbind (dict_find d (dictionary_hash key) key 0) (\<lambda>i.
              if d_size d \<le> i then Inr (Some d)
              else cbind (aset (d_key d) i None) (\<lambda>ks.
                   cbind (aset (d_val d) i None) (\<lambda>vs.
                   cbind (aset (d_hash d) i 0) (\<lambda>hs.
                     Inr (Some (d\<lparr>d_key := ks, d_val := vs, d_hash := hs, d_n := d_n d - 1\<rparr>))))))))"

definition pad_left :: "nat \<Rightarrow> string \<Rightarrow> string" where
  "pad_left w s = replicate (w - length s) (CHR '' '') @ s"

function dict_dump_loop :: "dictionary \<Rightarrow> nat \<Rightarrow> string cres" where
  "dict_dump_loop d i =
     (if i < d_size d
      then cbind (aget (d_key d) i) (\<lambda>k. case k of
             None \<Rightarrow> dict_dump_loop d (Suc i)
           | Some ks \<Rightarrow> cbind (aget (d_val d) i) (\<lambda>v.
               cbind (dict_dump_loop d (Suc i)) (\<lambda>out.
                 Inr (pad_left 20 ks @ [CHR 0x09] @ ''['' @ (case v of None \<Rightarrow> ''UNDEF'' | Some s \<Rightarrow> s)
                      @ '']'' @ [CHR 0x0A] @ out))))
      else Inr [])"
  by pat_completeness auto
termination
  by (relation "measure (\<lambda>(d, i). d_size d - i)") auto

definition dictionary_dump :: "dictionary option \<Rightarrow> string cres" where
  "dictionary_dump dp =
     (case dp of None \<Rightarrow> Inr []
      | Some d \<Rightarrow> if d_n d < 1 then Inr (''empty dictionary'' @ [CHR 0x0A]) else dict_dump_loop d 0)"

declare dict_del_loop.simps [simp del] dict_find.simps [simp del]
  dict_free_slot.simps [simp del] dict_dump_loop.simps [simp del]


subsection \<open>Abstraction and invariant\<close>

fun entries :: "string option list \<Rightarrow> string option list \<Rightarrow> (string \<times> string option) list" where
  "entries (Some k # ks) (v # vs) = (k, v) # entries ks vs"
| "entries (None # ks) (v # vs) = entries ks vs"
| "entries _ _ = []"

definition dict_entries :: "dictionary \<Rightarrow> (string \<times> string option) list" where
  "dict_entries d = entries (d_key d) (d_val d)"

definition dict_map :: "dictionary \<Rightarrow> (string \<rightharpoonup> string option)" where
  "dict_map d = map_of (dict_entries d)"

fun nkeys :: "string option list \<Rightarrow> nat" where
  "nkeys [] = 0"
| "nkeys (k # ks) = (if k = None then 0 else 1) + nkeys ks"

definition keys_distinct :: "string option list \<Rightarrow> bool" where
  "keys_distinct ks = (\<forall>i<length ks. \<forall>j<length ks. ks ! i \<noteq> None \<longrightarrow> ks ! i = ks ! j \<longrightarrow> i = j)"

definition hashes_ok :: "string option list \<Rightarrow> 32 word list \<Rightarrow> bool" where
  "hashes_ok ks hs = (\<forall>i<length ks. case ks ! i of None \<Rightarrow> True | Some k \<Rightarrow> hs ! i = dictionary_hash k)"

definition dict_arrays :: "dictionary \<Rightarrow> bool" where
  "dict_arrays d \<longleftrightarrow> length (d_val d) = d_size d \<and> length (d_key d) = d_size d
     \<and> length (d_hash d) = d_size d"

definition dict_wf :: "dictionary \<Rightarrow> bool" where
  "dict_wf d \<longleftrightarrow> dict_arrays d \<and> 0 < d_size d \<and> keys_distinct (d_key d)
     \<and> hashes_ok (d_key d) (d_hash d)
     \<and> int (nkeys (d_key d)) \<le> d_n d \<and> d_n d \<le> int (d_size d)"

text \<open>Room for doubling: the byte counts of \<^verbatim>\<open>mem_double\<close> stay within \<^verbatim>\<open>int\<close>.\<close>

definition dict_room :: "dictionary \<Rightarrow> bool" where
  "dict_room d = (16 * d_size d \<le> int_max)"

subsection \<open>Lists of slots\<close>

lemma nkeys_update:
  "j < length ks \<Longrightarrow>
   nkeys (ks[j := k]) + (if ks ! j = None then 0 else 1) = nkeys ks + (if k = None then 0 else 1)"
proof (induction ks arbitrary: j)
  case Nil
  then show ?case by simp
next
  case (Cons a ks)
  show ?case
  proof (cases j)
    case 0
    then show ?thesis by simp
  next
    case (Suc i)
    with Cons.IH [of i] Cons.prems show ?thesis by simp
  qed
qed

lemma nkeys_le [simp]: "nkeys ks \<le> length ks"
  by (induction ks) auto

lemma nkeys_free: "nkeys ks < length ks \<Longrightarrow> None \<in> set ks"
  by (induction ks) (auto split: if_splits)

lemma nkeys_append [simp]: "nkeys (ks @ ls) = nkeys ks + nkeys ls"
  by (induction ks) auto

lemma nkeys_replicate [simp]: "nkeys (replicate j None) = 0"
  by (induction j) auto

lemma nkeys_zero: "nkeys ks = 0 \<Longrightarrow> Some k \<notin> set ks"
  by (induction ks) (auto split: if_splits)

lemma entries_append_None [simp]:
  "length ks = length vs \<Longrightarrow> entries (ks @ replicate j None) (vs @ replicate j w) = entries ks vs"
proof (induction ks vs rule: list_induct2)
  case Nil
  have "entries (replicate j None) (replicate j w) = []" by (induction j) auto
  then show ?case by simp
next
  case (Cons x xs y ys)
  then show ?case by (cases x) auto
qed

lemma map_of_entries_None:
  "length ks = length vs \<Longrightarrow> map_of (entries ks vs) k = None \<longleftrightarrow> Some k \<notin> set ks"
proof (induction ks vs rule: list_induct2)
  case Nil
  then show ?case by simp
next
  case (Cons x xs y ys)
  then show ?case by (cases x) auto
qed

lemma set_entries:
  "length ks = length vs \<Longrightarrow> set (entries ks vs) = {(k, v). \<exists>j<length ks. ks ! j = Some k \<and> vs ! j = v}"
proof (induction ks vs rule: list_induct2)
  case Nil
  then show ?case by simp
next
  case (Cons x xs y ys)
  have "(\<exists>j<length (x # xs). (x # xs) ! j = Some k \<and> (y # ys) ! j = v)
     \<longleftrightarrow> (x = Some k \<and> y = v) \<or> (\<exists>j<length xs. xs ! j = Some k \<and> ys ! j = v)" for k v
    by (auto simp: less_Suc_eq_0_disj)
  with Cons show ?case by (cases x) auto
qed

lemma keys_distinctD:
  "keys_distinct ks \<Longrightarrow> i < length ks \<Longrightarrow> j < length ks \<Longrightarrow> ks ! i = Some k \<Longrightarrow> ks ! j = Some k \<Longrightarrow> i = j"
  unfolding keys_distinct_def by (metis option.distinct(1))

lemma keys_distinctI:
  assumes "\<And>i j k. i < length ks \<Longrightarrow> j < length ks \<Longrightarrow> ks ! i = Some k \<Longrightarrow> ks ! j = Some k \<Longrightarrow> i = j"
  shows "keys_distinct ks"
  unfolding keys_distinct_def using assms by (metis not_None_eq)

lemma keys_distinct_Cons:
  assumes "keys_distinct (x # xs)"
  shows "keys_distinct xs" and "x = Some k \<Longrightarrow> Some k \<notin> set xs"
proof -
  note d = keys_distinctD [OF assms]
  show "keys_distinct xs"
    using d [of "Suc i" "Suc j" for i j] by (intro keys_distinctI) auto
  show "Some k \<notin> set xs" if "x = Some k"
    using d [of 0 "Suc j" k for j] that by (auto simp: in_set_conv_nth)
qed

lemma distinct_entries:
  "length ks = length vs \<Longrightarrow> keys_distinct ks \<Longrightarrow> distinct (map fst (entries ks vs))"
proof (induction ks vs rule: list_induct2)
  case Nil
  then show ?case by simp
next
  case (Cons x xs y ys)
  show ?case
  proof (cases x)
    case None
    with Cons keys_distinct_Cons(1) show ?thesis by auto
  next
    case (Some k)
    with keys_distinct_Cons(2) [OF Cons.prems] have "map_of (entries xs ys) k = None"
      by (simp add: map_of_entries_None [OF Cons.hyps])
    then have "k \<notin> fst ` set (entries xs ys)" by (simp add: map_of_eq_None_iff)
    with Cons.IH [OF keys_distinct_Cons(1) [OF Cons.prems]] Some show ?thesis by simp
  qed
qed

lemma map_of_entries_Some:
  "length ks = length vs \<Longrightarrow> keys_distinct ks \<Longrightarrow>
   map_of (entries ks vs) k = Some v \<longleftrightarrow> (\<exists>j<length ks. ks ! j = Some k \<and> vs ! j = v)"
  by (simp add: map_of_eq_Some_iff distinct_entries set_entries)

subsection \<open>The loops\<close>

lemma hashes_okD: "hashes_ok ks hs \<Longrightarrow> i < length ks \<Longrightarrow> ks ! i = Some k \<Longrightarrow> hs ! i = dictionary_hash k"
  unfolding hashes_ok_def by (drule spec [of _ i]) simp

lemma dict_find_step:
  assumes "dict_arrays d" and "hashes_ok (d_key d) (d_hash d)" and "i < d_size d"
  shows "dict_find d (dictionary_hash k) k i =
    (if d_key d ! i = Some k then Inr i else dict_find d (dictionary_hash k) k (Suc i))"
  using assms hashes_okD [OF assms(2), of i k]
  by (subst dict_find.simps) (auto simp: dict_arrays_def split: option.split)

lemma dict_find_spec:
  assumes "dict_arrays d" and "hashes_ok (d_key d) (d_hash d)" and "i \<le> d_size d"
  shows "\<exists>j. dict_find d (dictionary_hash k) k i = Inr j \<and> i \<le> j \<and> j \<le> d_size d
           \<and> (\<forall>l. i \<le> l \<longrightarrow> l < j \<longrightarrow> d_key d ! l \<noteq> Some k) \<and> (j < d_size d \<longrightarrow> d_key d ! j = Some k)"
  using assms(3)
proof (induction i rule: inc_induct)
  case base
  then show ?case by (subst dict_find.simps) simp
next
  case (step i)
  note unfold = dict_find_step [OF assms(1,2) step.hyps(2), of k]
  show ?case
  proof (cases "d_key d ! i = Some k")
    case True
    with step.hyps show ?thesis by (auto simp: unfold)
  next
    case False
    from step.IH obtain j where j: "dict_find d (dictionary_hash k) k (Suc i) = Inr j" "Suc i \<le> j"
      "j \<le> d_size d" "\<forall>l. Suc i \<le> l \<longrightarrow> l < j \<longrightarrow> d_key d ! l \<noteq> Some k"
      "j < d_size d \<longrightarrow> d_key d ! j = Some k" by blast
    have "\<forall>l. i \<le> l \<longrightarrow> l < j \<longrightarrow> d_key d ! l \<noteq> Some k"
      using j(4) False by (metis Suc_leI le_neq_implies_less)
    with j(3,5) Suc_leD [OF j(2)] have "i \<le> j \<and> j \<le> d_size d
        \<and> (\<forall>l. i \<le> l \<longrightarrow> l < j \<longrightarrow> d_key d ! l \<noteq> Some k)
        \<and> (j < d_size d \<longrightarrow> d_key d ! j = Some k)" by blast
    moreover from unfold False j(1) have "dict_find d (dictionary_hash k) k i = Inr j" by simp
    ultimately show ?thesis by blast
  qed
qed

lemma dict_find_cases:
  assumes "dict_arrays d" and "hashes_ok (d_key d) (d_hash d)"
  obtains (absent) "dict_find d (dictionary_hash k) k 0 = Inr (d_size d)" "Some k \<notin> set (d_key d)"
  | (present) j where "dict_find d (dictionary_hash k) k 0 = Inr j" "j < d_size d" "d_key d ! j = Some k"
      "\<forall>l<j. d_key d ! l \<noteq> Some k"
proof -
  from dict_find_spec [OF assms, of 0 k] obtain j where j: "dict_find d (dictionary_hash k) k 0 = Inr j"
    "j \<le> d_size d" "\<forall>l<j. d_key d ! l \<noteq> Some k" "j < d_size d \<longrightarrow> d_key d ! j = Some k"
    by auto
  show thesis
  proof (cases "j < d_size d")
    case True
    with j present show thesis by blast
  next
    case False
    with j have "j = d_size d" by simp
    with j assms(1) have "Some k \<notin> set (d_key d)" by (auto simp: in_set_conv_nth dict_arrays_def)
    with \<open>j = d_size d\<close> j absent show thesis by blast
  qed
qed

lemma dict_free_slot_step:
  assumes "dict_arrays d" and "i < d_size d"
  shows "dict_free_slot d i = (if d_key d ! i = None then Inr i else dict_free_slot d (Suc i))"
  using assms by (subst dict_free_slot.simps) (simp add: dict_arrays_def)

lemma dict_free_slot_spec:
  assumes "dict_arrays d" and "i \<le> j" and "j < d_size d" and "d_key d ! j = None"
  shows "\<exists>l. dict_free_slot d i = Inr l \<and> l < d_size d \<and> d_key d ! l = None"
  using assms(2)
proof (induction i rule: inc_induct)
  case base
  from dict_free_slot_step [OF assms(1,3)] assms(3,4) show ?case by simp
next
  case (step i)
  from step.hyps(2) assms(3) have "i < d_size d" by simp
  with step.IH dict_free_slot_step [OF assms(1), of i] show ?case by (cases "d_key d ! i = None") auto
qed

lemma dict_del_loop_ok:
  assumes "dict_arrays d"
  shows "dict_del_loop d i = Inr ()"
proof (cases "i \<le> d_size d")
  case True
  then show ?thesis
  proof (induction i rule: inc_induct)
    case base
    show ?case by (subst dict_del_loop.simps) simp
  next
    case (step i)
    with assms show ?case by (subst dict_del_loop.simps) (simp add: dict_arrays_def)
  qed
next
  case False
  then show ?thesis by (subst dict_del_loop.simps) simp
qed

lemmas dict_wf_arrays = dict_wf_def [THEN iffD1, THEN conjunct1]

lemma dictionary_del_ok: "dict_wf d \<Longrightarrow> dictionary_del (Some d) = Inr ()"
  by (simp add: dictionary_del_def dict_del_loop_ok dict_wf_arrays)

subsection \<open>The operations on well-formed dictionaries\<close>

lemma dict_wfD:
  assumes "dict_wf d"
  shows "length (d_val d) = d_size d" "length (d_key d) = d_size d" "length (d_hash d) = d_size d"
    "keys_distinct (d_key d)" "hashes_ok (d_key d) (d_hash d)" "0 < d_size d"
    "int (nkeys (d_key d)) \<le> d_n d" "d_n d \<le> int (d_size d)" "dict_arrays d"
  using assms by (auto simp: dict_wf_def dict_arrays_def)

lemma dict_entries_facts:
  assumes "dict_wf d"
  shows "distinct (map fst (dict_entries d))" "dict_map d k = Some v \<longleftrightarrow> (k, v) \<in> set (dict_entries d)"
  using distinct_entries [of "d_key d" "d_val d"] dict_wfD(1,2,4) [OF assms]
  by (simp_all add: dict_map_def dict_entries_def map_of_eq_Some_iff)

lemma dict_map_Some:
  "dict_wf d \<Longrightarrow> dict_map d k = Some v \<longleftrightarrow> (\<exists>j<d_size d. d_key d ! j = Some k \<and> d_val d ! j = v)"
  by (simp add: dict_map_def dict_entries_def map_of_entries_Some dict_wfD)

lemma dict_map_None: "dict_wf d \<Longrightarrow> dict_map d k = None \<longleftrightarrow> Some k \<notin> set (d_key d)"
  by (simp add: dict_map_def dict_entries_def map_of_entries_None dict_wfD)

lemma dictionary_get_map:
  assumes "dict_wf d"
  shows "dictionary_get d k def = Inr (case dict_map d k of None \<Rightarrow> def | Some v \<Rightarrow> ptr_of v)"
proof (rule dict_find_cases [OF dict_wfD(9,5) [OF assms], of k])
  assume f: "dict_find d (dictionary_hash k) k 0 = Inr (d_size d)" and "Some k \<notin> set (d_key d)"
  then have "dict_map d k = None" using assms by (simp add: dict_map_None)
  with f show ?thesis by (simp add: dictionary_get_def)
next
  fix j
  assume f: "dict_find d (dictionary_hash k) k 0 = Inr j" "j < d_size d" "d_key d ! j = Some k"
  then have "dict_map d k = Some (d_val d ! j)" using assms by (auto simp: dict_map_Some)
  with f assms show ?thesis by (simp add: dictionary_get_def dict_wfD)
qed

lemma keys_distinct_update_None:
  assumes "keys_distinct ks"
  shows "keys_distinct (ks[j := None])"
proof (rule keys_distinctI)
  fix a b k
  assume "a < length (ks[j := None])" "b < length (ks[j := None])"
    "ks[j := None] ! a = Some k" "ks[j := None] ! b = Some k"
  then show "a = b"
    using keys_distinctD [OF assms, of a b k] by (auto simp: nth_update_if split: if_splits)
qed

lemma keys_distinct_update_Some:
  assumes "keys_distinct ks" and "Some k \<notin> set ks"
  shows "keys_distinct (ks[j := Some k])"
proof (rule keys_distinctI)
  have fresh: "ks ! i \<noteq> Some k" if "i < length ks" for i
    using assms(2) that by (metis nth_mem)
  fix a b k'
  assume "a < length (ks[j := Some k])" "b < length (ks[j := Some k])"
    "ks[j := Some k] ! a = Some k'" "ks[j := Some k] ! b = Some k'"
  then show "a = b"
    using fresh keys_distinctD [OF assms(1), of a b k'] by (auto simp: nth_update_if split: if_splits)
qed

lemma hashes_ok_update:
  "hashes_ok ks hs \<Longrightarrow> length ks = length hs \<Longrightarrow> (\<And>k. x = Some k \<Longrightarrow> h = dictionary_hash k)
   \<Longrightarrow> hashes_ok (ks[j := x]) (hs[j := h])"
  by (auto simp: hashes_ok_def nth_update_if split: option.split)

lemma dict_wfI:
  assumes "length vs = sz" "length ks = sz" "length hs = sz" "0 < sz" "keys_distinct ks" "hashes_ok ks hs"
    "int (nkeys ks) \<le> c" "c \<le> int sz"
  shows "dict_wf \<lparr>d_n = c, d_size = sz, d_val = vs, d_key = ks, d_hash = hs\<rparr>"
  using assms by (simp add: dict_wf_def dict_arrays_def)

lemma xstrdup_no_fail [mem_simps]:
  "no_fail m \<Longrightarrow> fst (xstrdup m v) = v" "no_fail m \<Longrightarrow> no_fail (snd (xstrdup m v))"
  by (auto simp: xstrdup_def mem_simps split: option.split)

lemma xstrdup_cases: "fst (xstrdup m v) = v \<or> fst (xstrdup m v) = None"
  by (auto simp: xstrdup_def split: option.split prod.split)

lemma map_upd_ext:
  assumes "\<And>k' v'. f k' = Some v' \<longleftrightarrow> (if k' = k then w = Some v' else g k' = Some v')"
  shows "f = g(k := w)"
proof
  fix k'
  have "f k' = Some v' \<longleftrightarrow> (g(k := w)) k' = Some v'" for v'
    using assms [of k' v'] by simp
  then show "f k' = (g(k := w)) k'" by (metis not_None_eq)
qed

text \<open>Writing a free slot.\<close>

lemma dict_slot_write:
  fixes v :: "string option"
  assumes wf: "dict_wf d" and j: "j < d_size d" "d_key d ! j = None" and fresh: "Some k \<notin> set (d_key d)"
    and lt: "d_n d < int (d_size d)" and x: "x = Some k \<or> x = None"
  defines "d' \<equiv> d\<lparr>d_key := (d_key d)[j := x], d_val := (d_val d)[j := v],
                   d_hash := (d_hash d)[j := dictionary_hash k], d_n := d_n d + 1\<rparr>"
  shows "dict_wf d'" and "x = Some k \<Longrightarrow> dict_map d' = (dict_map d)(k \<mapsto> v)"
proof -
  note wfd = dict_wfD [OF wf]
  have nk: "int (nkeys ((d_key d)[j := x])) \<le> d_n d + 1"
    using nkeys_update [of j "d_key d" x] wfd(2,7) j by (auto split: if_splits)
  have "keys_distinct ((d_key d)[j := x])"
    using x fresh wfd(4) by (auto intro: keys_distinct_update_Some keys_distinct_update_None)
  moreover have "hashes_ok ((d_key d)[j := x]) ((d_hash d)[j := dictionary_hash k])"
    using x wfd by (intro hashes_ok_update) auto
  ultimately show wf': "dict_wf d'"
    using nk lt wfd by (simp add: d'_def dict_wf_def dict_arrays_def)
  show "dict_map d' = (dict_map d)(k \<mapsto> v)" if xk: "x = Some k"
  proof (rule map_upd_ext)
    fix k' v'
    have nf: "d_key d ! i \<noteq> Some k" if "i < d_size d" for i
      using fresh that wfd(2) by (metis nth_mem)
    have "dict_map d' k' = Some v' \<longleftrightarrow>
        (\<exists>i<d_size d. (d_key d)[j := x] ! i = Some k' \<and> (d_val d)[j := v] ! i = v')"
      using dict_map_Some [OF wf'] by (simp add: d'_def)
    also have "\<dots> \<longleftrightarrow> (if k' = k then v = v'
        else \<exists>i<d_size d. d_key d ! i = Some k' \<and> d_val d ! i = v')"
      using j xk nf wfd(1,2) by (auto simp: nth_update_if split: if_splits) (metis option.distinct(1))
    also have "\<dots> \<longleftrightarrow> (if k' = k then Some v = Some v' else dict_map d k' = Some v')"
      using dict_map_Some [OF wf] by simp
    finally show "dict_map d' k' = Some v' \<longleftrightarrow> (if k' = k then Some v = Some v' else dict_map d k' = Some v')" .
  qed
qed

lemma dict_insert_ok:
  assumes wf: "dict_wf d" and fresh: "Some k \<notin> set (d_key d)" and lt: "d_n d < int (d_size d)"
  shows "\<exists>d' m'. dict_insert m d k v = Inr (0, d', m') \<and> dict_wf d' \<and> d_size d' = d_size d
           \<and> d_n d' = d_n d + 1
           \<and> (no_fail m \<longrightarrow> no_fail m' \<and> dict_map d' = (dict_map d)(k \<mapsto> v))"
proof -
  note wfd = dict_wfD [OF wf]
  have "nkeys (d_key d) < length (d_key d)" using wfd lt by simp
  then obtain j where "j < d_size d" "d_key d ! j = None"
    using nkeys_free wfd(2) by (metis in_set_conv_nth)
  then obtain l where l: "dict_free_slot d 0 = Inr l" "l < d_size d" "d_key d ! l = None"
    using dict_free_slot_spec [OF wfd(9), of 0 j] by auto
  obtain k1 m1 where k1: "xstrdup m (Some k) = (k1, m1)" by force
  obtain v1 m2 where v1: "xstrdup m1 v = (v1, m2)" by force
  from xstrdup_cases [of m "Some k"] k1 have "k1 = Some k \<or> k1 = None" by simp
  note w = dict_slot_write [OF wf l(2,3) fresh lt this, of v1]
  have nf: "no_fail m \<Longrightarrow> k1 = Some k \<and> no_fail m1" "no_fail m1 \<Longrightarrow> v1 = v \<and> no_fail m2"
    using xstrdup_no_fail [of m "Some k"] xstrdup_no_fail [of m1 v] k1 v1 by auto
  from l k1 v1 wfd w nf show ?thesis by (auto simp: dict_insert_def)
qed

text \<open>Growing keeps the entries and leaves a free slot; it fails only when an allocation fails.\<close>

lemma mem_double_ok:
  "length xs = nb \<Longrightarrow> 2 * (nb * esz) \<le> int_max \<Longrightarrow>
   mem_double m xs nb esz z =
     Inr ((fst (malloc m), if fst (malloc m) then xs @ replicate nb z else []), snd (malloc m))"
  by (auto simp: mem_double_def split: prod.split)

lemma keys_distinct_append_None:
  assumes "keys_distinct ks"
  shows "keys_distinct (ks @ replicate b None)"
proof (rule keys_distinctI)
  fix i j k
  assume "i < length (ks @ replicate b None)" "j < length (ks @ replicate b None)"
    "(ks @ replicate b None) ! i = Some k" "(ks @ replicate b None) ! j = Some k"
  then show "i = j"
    using keys_distinctD [OF assms, of i j k] by (auto simp: nth_append split: if_splits)
qed

lemma hashes_ok_append_None:
  "hashes_ok ks hs \<Longrightarrow> length ks = length hs \<Longrightarrow> hashes_ok (ks @ replicate b None) (hs @ replicate b h)"
  by (auto simp: hashes_ok_def nth_append split: option.split)

lemma dict_grow_ok:
  assumes wf: "dict_wf d" and room: "dict_room d" and full: "d_n d = int (d_size d)"
  shows "\<exists>ok d' m'. dict_grow m d = Inr (ok, d', m') \<and> (no_fail m \<longrightarrow> ok \<and> no_fail m')
    \<and> (ok \<longrightarrow> dict_wf d' \<and> dict_map d' = dict_map d \<and> d_n d' = d_n d
          \<and> d_size d' = 2 * d_size d \<and> set (d_key d') = insert None (set (d_key d)))"
proof -
  note wfd = dict_wfD [OF wf]
  have b8: "2 * (d_size d * 8) \<le> int_max" and b4: "2 * (d_size d * 4) \<le> int_max"
    using room by (simp_all add: dict_room_def)
  define m1 m2 where "m1 = snd (malloc m)" and "m2 = snd (malloc m1)"
  define ok where "ok = (fst (malloc m) \<and> fst (malloc m1) \<and> fst (malloc m2))"
  define d1 where "d1 = d\<lparr>d_val := d_val d @ replicate (d_size d) None,
    d_key := d_key d @ replicate (d_size d) None, d_hash := d_hash d @ replicate (d_size d) 0,
    d_size := 2 * d_size d\<rparr>"
  have eq: "\<exists>d'. dict_grow m d = Inr (ok, d', snd (malloc m2)) \<and> (ok \<longrightarrow> d' = d1)"
    by (auto simp: dict_grow_def mem_double_ok [OF wfd(1) b8] mem_double_ok [OF wfd(2) b8]
        mem_double_ok [OF wfd(3) b4] Let_def m1_def m2_def ok_def d1_def)
  have nf: "no_fail m \<Longrightarrow> ok \<and> no_fail (snd (malloc m2))"
    by (simp add: ok_def m1_def m2_def mem_simps)
  have "dict_wf d1"
    using wfd full
    by (simp add: d1_def dict_wf_def dict_arrays_def keys_distinct_append_None hashes_ok_append_None)
  moreover have "dict_map d1 = dict_map d"
    using wfd by (simp add: d1_def dict_map_def dict_entries_def)
  moreover have "set (d_key d1) = insert None (set (d_key d))"
    using wfd(6) by (auto simp: d1_def)
  moreover have "d_n d1 = d_n d" "d_size d1 = 2 * d_size d"
    by (simp_all add: d1_def)
  moreover obtain d' where "dict_grow m d = Inr (ok, d', snd (malloc m2))" "ok \<longrightarrow> d' = d1"
    using eq by blast
  ultimately show ?thesis
    using nf by (intro exI [of _ ok] exI [of _ d'] exI [of _ "snd (malloc m2)"]) simp
qed

lemma dict_value_write:
  assumes wf: "dict_wf d" and j: "j < d_size d" "d_key d ! j = Some k"
  shows "dict_wf (d\<lparr>d_val := (d_val d)[j := v]\<rparr>)"
    and "dict_map (d\<lparr>d_val := (d_val d)[j := v]\<rparr>) = (dict_map d)(k \<mapsto> v)"
proof -
  note wfd = dict_wfD [OF wf]
  show wf': "dict_wf (d\<lparr>d_val := (d_val d)[j := v]\<rparr>)"
    using wf by (simp add: dict_wf_def dict_arrays_def)
  show "dict_map (d\<lparr>d_val := (d_val d)[j := v]\<rparr>) = (dict_map d)(k \<mapsto> v)"
  proof (rule map_upd_ext)
    fix k' v'
    have uniq: "i = j" if "i < d_size d" "d_key d ! i = Some k" for i
      using keys_distinctD [OF wfd(4), of i j k] that j wfd(2) by simp
    show "dict_map (d\<lparr>d_val := (d_val d)[j := v]\<rparr>) k' = Some v'
      \<longleftrightarrow> (if k' = k then Some v = Some v' else dict_map d k' = Some v')"
    proof (cases "k' = k")
      case True
      have "(d_val d)[j := v] ! j = v" using j wfd(1) by simp
      with uniq j have "(\<exists>i<d_size d. d_key d ! i = Some k \<and> (d_val d)[j := v] ! i = v') \<longleftrightarrow> v = v'"
        by metis
      with True show ?thesis by (simp add: dict_map_Some [OF wf'])
    next
      case False
      then have "d_key d ! i = Some k' \<and> (d_val d)[j := v] ! i = v'
          \<longleftrightarrow> d_key d ! i = Some k' \<and> d_val d ! i = v'" for i
        using j by (cases "i = j") (auto simp: nth_update_if)
      with False show ?thesis
        by (simp add: dict_map_Some [OF wf'] dict_map_Some [OF wf])
    qed
  qed
qed

lemma dictionary_set_ok:
  assumes wf: "dict_wf d" and room: "dict_room d"
  shows "\<exists>r d' m'. dictionary_set m (Some d) (Some k) v = Inr (r, Some d', m') \<and> (r = 0 \<or> r = - 1)
    \<and> (r = 0 \<longrightarrow> dict_wf d' \<and> d_n d' \<le> d_n d + 1
          \<and> (d_size d' = d_size d \<or> d_n d = int (d_size d) \<and> d_size d' = 2 * d_size d))
    \<and> (no_fail m \<longrightarrow> r = 0 \<and> no_fail m' \<and> dict_map d' = (dict_map d)(k \<mapsto> v))"
proof -
  note wfd = dict_wfD [OF wf]
  consider (new) "(if 0 < d_n d then dict_find d (dictionary_hash k) k 0 else Inr (d_size d)) = Inr (d_size d)"
      "Some k \<notin> set (d_key d)"
    | (old) j where "0 < d_n d" "dict_find d (dictionary_hash k) k 0 = Inr j" "j < d_size d" "d_key d ! j = Some k"
  proof (rule dict_find_cases [OF wfd(9,5), of k])
    fix j
    assume "dict_find d (dictionary_hash k) k 0 = Inr j" "j < d_size d" "d_key d ! j = Some k"
    then show thesis
    proof (cases "0 < d_n d")
      case False
      with wfd(7) have "nkeys (d_key d) = 0" by simp
      then have "Some k \<notin> set (d_key d)" by (rule nkeys_zero)
      with \<open>j < d_size d\<close> \<open>d_key d ! j = Some k\<close> wfd(2) show thesis by (metis nth_mem)
    qed (use that(2) in blast)
  qed (use that(1) in simp)
  then show ?thesis
  proof cases
    case old
    obtain v1 m1 where v1: "xstrdup m v = (v1, m1)" by force
    with old dict_value_write [OF wf old(3,4), of v1] xstrdup_no_fail [of m v] wfd
    show ?thesis by (auto simp: dictionary_set_def Let_def)
  next
    case new
    show ?thesis
    proof (cases "d_n d = int (d_size d)")
      case True
      obtain ok d1 m1 where g: "dict_grow m d = Inr (ok, d1, m1)" "no_fail m \<longrightarrow> ok \<and> no_fail m1"
        "ok \<longrightarrow> dict_wf d1 \<and> dict_map d1 = dict_map d \<and> d_n d1 = d_n d
           \<and> d_size d1 = 2 * d_size d \<and> set (d_key d1) = insert None (set (d_key d))"
        using dict_grow_ok [OF wf room True, of m] by blast
      show ?thesis
      proof (cases ok)
        case ok: True
        with g(3) new(2) True wfd(6) have "dict_wf d1" "Some k \<notin> set (d_key d1)" "d_n d1 < int (d_size d1)"
          by auto
        from dict_insert_ok [OF this, of m1 v] g new True ok show ?thesis
          by (fastforce simp: dictionary_set_def)
      next
        case False
        with g new True show ?thesis by (simp add: dictionary_set_def)
      qed
    next
      case False
      with wfd(8) have "d_n d < int (d_size d)" by simp
      from dict_insert_ok [OF wf new(2) this, of m v] new False show ?thesis
        by (fastforce simp: dictionary_set_def)
    qed
  qed
qed

lemma dictionary_unset_ok:
  assumes wf: "dict_wf d"
  shows "\<exists>d'. dictionary_unset (Some d) (Some k) = Inr (Some d') \<and> dict_wf d'
           \<and> d_size d' = d_size d \<and> dict_map d' = (dict_map d)(k := None)"
proof (rule dict_find_cases [OF dict_wfD(9,5) [OF wf], of k])
  assume "dict_find d (dictionary_hash k) k 0 = Inr (d_size d)" "Some k \<notin> set (d_key d)"
  with wf show ?thesis by (simp add: dictionary_unset_def fun_upd_idem dict_map_None)
next
  fix j
  assume j: "dict_find d (dictionary_hash k) k 0 = Inr j" "j < d_size d" "d_key d ! j = Some k"
  note wfd = dict_wfD [OF wf]
  define d' where "d' = d\<lparr>d_key := (d_key d)[j := None], d_val := (d_val d)[j := None],
     d_hash := (d_hash d)[j := 0], d_n := d_n d - 1\<rparr>"
  have nk: "nkeys ((d_key d)[j := None]) + 1 = nkeys (d_key d)"
    using nkeys_update [of j "d_key d" None] j wfd(2) by simp
  then have wf': "dict_wf d'"
    using wfd keys_distinct_update_None [OF wfd(4), of j]
      hashes_ok_update [OF wfd(5), of None 0 j] by (simp add: d'_def dict_wf_def dict_arrays_def)
  have "dict_map d' = (dict_map d)(k := None)"
  proof (rule map_upd_ext)
    fix k' v'
    have uniq: "i = j" if "i < d_size d" "d_key d ! i = Some k" for i
      using keys_distinctD [OF wfd(4), of i j k] that j wfd(2) by simp
    have eqv: "i < d_size d \<and> (d_key d)[j := None] ! i = Some k' \<and> (d_val d)[j := None] ! i = v'
        \<longleftrightarrow> i < d_size d \<and> k' \<noteq> k \<and> d_key d ! i = Some k' \<and> d_val d ! i = v'" for i
    proof (cases "i = j")
      case True
      with j(2,3) wfd(2) show ?thesis by simp
    next
      case False
      then have "i < d_size d \<and> d_key d ! i = Some k' \<Longrightarrow> k' \<noteq> k" using uniq by blast
      with False show ?thesis by auto
    qed
    have "dict_map d' k' = Some v' \<longleftrightarrow> (\<exists>i. i < d_size d \<and> (d_key d)[j := None] ! i = Some k'
        \<and> (d_val d)[j := None] ! i = v')"
      using dict_map_Some [OF wf'] by (simp add: d'_def)
    also have "\<dots> \<longleftrightarrow> (\<exists>i. i < d_size d \<and> k' \<noteq> k \<and> d_key d ! i = Some k' \<and> d_val d ! i = v')"
      by (simp only: eqv)
    also have "\<dots> \<longleftrightarrow> (if k' = k then None = Some v' else dict_map d k' = Some v')"
      using dict_map_Some [OF wf, of k' v'] by auto
    finally show "dict_map d' k' = Some v' \<longleftrightarrow> (if k' = k then None = Some v' else dict_map d k' = Some v')" .
  qed
  with j wf' wfd show ?thesis by (simp add: dictionary_unset_def d'_def)
qed

lemma entries_replicate [simp]: "entries (replicate b None) vs = []"
proof (induction b arbitrary: vs)
  case (Suc b)
  then show ?case by (cases vs) auto
qed simp

lemma free_slots_ok [simp]: "keys_distinct (replicate b None)" "hashes_ok (replicate b None) hs"
  by (simp_all add: keys_distinct_def hashes_ok_def)

lemma dictionary_new_ok:
  assumes "no_fail m"
  shows "\<exists>d m'. dictionary_new m sz = (Some d, m') \<and> dict_wf d \<and> dict_map d = Map.empty \<and> no_fail m'
    \<and> d_n d = 0 \<and> d_size d = (if sz < 128 then 128 else nat sz)"
  using assms
  by (simp add: dictionary_new_def calloc_array_def DICTMINSZ_def mem_simps dict_wf_def dict_arrays_def
      dict_map_def dict_entries_def Let_def)

text \<open>Slots from position \<open>i\<close> on, one unfolding.\<close>

lemma entries_drop_step:
  assumes "dict_arrays d" and "i < d_size d"
  shows "entries (drop i (d_key d)) (drop i (d_val d)) =
    (case d_key d ! i of None \<Rightarrow> [] | Some k \<Rightarrow> [(k, d_val d ! i)])
      @ entries (drop (Suc i) (d_key d)) (drop (Suc i) (d_val d))"
proof -
  have "drop i (d_key d) = d_key d ! i # drop (Suc i) (d_key d)"
    and "drop i (d_val d) = d_val d ! i # drop (Suc i) (d_val d)"
    using assms by (simp_all add: dict_arrays_def Cons_nth_drop_Suc)
  then show ?thesis by (auto split: option.split)
qed

fun dump_line :: "string \<times> string option \<Rightarrow> string" where
  "dump_line (k, v) = pad_left 20 k @ [CHR 0x09] @ ''['' @ (case v of None \<Rightarrow> ''UNDEF'' | Some s \<Rightarrow> s)
     @ '']'' @ [CHR 0x0A]"

lemma dict_dump_loop_entries:
  assumes "dict_arrays d" and "i \<le> d_size d"
  shows "dict_dump_loop d i = Inr (concat (map dump_line (entries (drop i (d_key d)) (drop i (d_val d)))))"
  using assms(2)
proof (induction i rule: inc_induct)
  case base
  show ?case using assms(1) by (subst dict_dump_loop.simps) (simp add: dict_arrays_def)
next
  case (step i)
  note len = assms(1) [unfolded dict_arrays_def]
  from step len show ?case
    by (subst dict_dump_loop.simps, cases "d_key d ! i") (simp_all add: entries_drop_step [OF assms(1)])
qed

subsection \<open>The interface of a string store\<close>

text \<open>
  What the ini parser relies on: a lookup function, and the laws of reading,
  writing and deleting entries. Writing is safe whatever the allocator does;
  it has its effect when no allocation fails.
\<close>

locale string_store =
  fixes invar :: "'d \<Rightarrow> bool"
    and room :: "'d \<Rightarrow> bool"
    and lookup :: "'d \<Rightarrow> string \<Rightarrow> string option option"
    and get :: "'d \<Rightarrow> string \<Rightarrow> char_ptr \<Rightarrow> char_ptr cres"
    and put :: "mem \<Rightarrow> 'd option \<Rightarrow> string option \<Rightarrow> string option \<Rightarrow> (int \<times> 'd option \<times> mem) cres"
    and del :: "'d option \<Rightarrow> string option \<Rightarrow> 'd option cres"
  assumes get_law: "invar d \<Longrightarrow> get d k def = Inr (case lookup d k of None \<Rightarrow> def | Some v \<Rightarrow> ptr_of v)"
    and put_safe: "invar d \<Longrightarrow> room d \<Longrightarrow>
      \<exists>r d' m'. put m (Some d) (Some k) v = Inr (r, Some d', m') \<and> (r = 0 \<or> r = - 1) \<and> (r = 0 \<longrightarrow> invar d')"
    and put_law: "invar d \<Longrightarrow> room d \<Longrightarrow> no_fail m \<Longrightarrow>
      \<exists>d' m'. put m (Some d) (Some k) v = Inr (0, Some d', m') \<and> invar d' \<and> no_fail m'
              \<and> lookup d' = (lookup d)(k \<mapsto> v)"
    and put_null: "put m None kp v = Inr (- 1, None, m)" "put m dp None v = Inr (- 1, dp, m)"
    and del_law: "invar d \<Longrightarrow> \<exists>d'. del (Some d) (Some k) = Inr (Some d') \<and> invar d'
              \<and> lookup d' = (lookup d)(k := None)"
begin

lemma get_put:
  assumes "invar d" "room d" "no_fail m" "put m (Some d) (Some k) v = Inr (r, Some d', m')"
  shows "r = 0 \<and> get d' k def = Inr (ptr_of v) \<and> (k' \<noteq> k \<longrightarrow> get d' k' def = get d k' def)"
proof -
  from put_law [OF assms(1-3), of k v] assms(4) have "r = 0" "invar d'" "lookup d' = (lookup d)(k \<mapsto> v)"
    by auto
  with assms(1) show ?thesis by (simp add: get_law)
qed

lemma put_keeps:
  assumes "invar d" "room d" "put m (Some d) (Some k) v = Inr (r, Some d', m')" "r = 0"
  shows "invar d'"
  using put_safe [OF assms(1,2), of m k v] assms(3,4) by auto

lemma get_del:
  assumes "invar d" "del (Some d) (Some k) = Inr (Some d')"
  shows "invar d' \<and> get d' k def = Inr def \<and> (k' \<noteq> k \<longrightarrow> get d' k' def = get d k' def)"
proof -
  from del_law [OF assms(1), of k] assms(2) have "invar d'" "lookup d' = (lookup d)(k := None)"
    by auto
  with assms(1) show ?thesis by (simp add: get_law)
qed

end

interpretation dict: string_store dict_wf dict_room dict_map dictionary_get dictionary_set dictionary_unset
proof unfold_locales
  fix d k and v :: "string option" and m
  assume wf: "dict_wf d"
  show "\<exists>d'. dictionary_unset (Some d) (Some k) = Inr (Some d') \<and> dict_wf d' \<and> dict_map d' = (dict_map d)(k := None)"
    using dictionary_unset_ok [OF wf] by blast
  assume room: "dict_room d"
  show "\<exists>r d' m'. dictionary_set m (Some d) (Some k) v = Inr (r, Some d', m')
      \<and> (r = 0 \<or> r = - 1) \<and> (r = 0 \<longrightarrow> dict_wf d')"
    using dictionary_set_ok [OF wf room] by blast
  assume "no_fail m"
  then show "\<exists>d' m'. dictionary_set m (Some d) (Some k) v = Inr (0, Some d', m') \<and> dict_wf d' \<and> no_fail m'
      \<and> dict_map d' = (dict_map d)(k \<mapsto> v)"
    using dictionary_set_ok [OF wf room, of m k v] by auto
qed (auto simp: dictionary_get_map dictionary_set_def split: option.split)

subsection \<open>Properties\<close>

text \<open>A dictionary with one entry and one free slot, and a full one, for the examples below.\<close>

definition ex_dict :: dictionary where
  "ex_dict = \<lparr>d_n = 1, d_size = 2, d_val = [Some ''v'', None], d_key = [Some ''k'', None],
     d_hash = [dictionary_hash ''k'', 0]\<rparr>"

definition ex_full :: dictionary where
  "ex_full = \<lparr>d_n = 1, d_size = 1, d_val = [None], d_key = [Some ''k''], d_hash = [dictionary_hash ''k'']\<rparr>"

lemma ex_dict_wf: "dict_wf ex_dict" "dict_room ex_dict" "dict_wf ex_full" "dict_room ex_full"
  by (simp_all add: ex_dict_def ex_full_def dict_wf_def dict_arrays_def dict_room_def int_max_def
      keys_distinct_def hashes_ok_def less_Suc_eq numeral_2_eq_2)

text \<open>
  C19. Setting a key of a well-formed dictionary succeeds when memory is available and keeps the
  dictionary well-formed; a later get of that key returns the value just set, and the result of
  getting any other key is what it was before.
\<close>

theorem dictionary_set_get:
  assumes "dict_wf d" and "dict_room d" and "no_fail m"
  shows "\<exists>d' m'. dictionary_set m (Some d) (Some k) v = Inr (0, Some d', m') \<and> dict_wf d'
    \<and> (\<forall>def. dictionary_get d' k def = Inr (ptr_of v))
    \<and> (\<forall>k' def. k' \<noteq> k \<longrightarrow> dictionary_get d' k' def = dictionary_get d k' def)"
proof -
  obtain d' m' where set: "dictionary_set m (Some d) (Some k) v = Inr (0, Some d', m')" "dict_wf d'"
    using dict.put_law [OF assms] by blast
  with dict.get_put [OF assms set(1)] show ?thesis by blast
qed

theorem dictionary_set_get_witness:
  "\<exists>d' m'. dictionary_set [] (Some ex_dict) (Some ''a'') (Some ''b'') = Inr (0, Some d', m') \<and> dict_wf d'
    \<and> dictionary_get d' ''a'' PNull = Inr (PStr ''b'')
    \<and> dictionary_get d' ''k'' PNull = dictionary_get ex_dict ''k'' PNull"
proof -
  have "''k'' \<noteq> ''a''" by simp
  with dictionary_set_get [OF ex_dict_wf(1,2) no_fail_Nil, of "''a''" "Some ''b''"] show ?thesis
    by (fastforce simp: ptr_of_def)
qed

text \<open>
  C38. Whatever the allocator does, setting a key of a well-formed dictionary never accesses memory
  out of bounds: it returns 0 or -1, and after 0 the dictionary is well-formed.
\<close>

theorem dictionary_set_safe:
  assumes "dict_wf d" and "dict_room d"
  shows "\<exists>r d' m'. dictionary_set m (Some d) (Some k) v = Inr (r, Some d', m')
    \<and> (r = 0 \<or> r = - 1) \<and> (r = 0 \<longrightarrow> dict_wf d')"
  by (rule dict.put_safe [OF assms])

theorem dictionary_set_safe_witness:
  "\<exists>r d' m'. dictionary_set [False] (Some ex_full) (Some ''a'') None = Inr (r, Some d', m')
    \<and> (r = 0 \<or> r = - 1) \<and> (r = 0 \<longrightarrow> dict_wf d')"
  using dictionary_set_safe [OF ex_dict_wf(3,4)] .

text \<open>
  Unsetting a key removes exactly that key: a later get of it returns the default, every other
  key reads as before, and the dictionary stays well-formed.
\<close>

theorem dictionary_unset_get:
  assumes "dict_wf d"
  shows "\<exists>d'. dictionary_unset (Some d) (Some k) = Inr (Some d') \<and> dict_wf d'
    \<and> (\<forall>def. dictionary_get d' k def = Inr def)
    \<and> (\<forall>k' def. k' \<noteq> k \<longrightarrow> dictionary_get d' k' def = dictionary_get d k' def)"
proof -
  obtain d' where "dictionary_unset (Some d) (Some k) = Inr (Some d')"
    using dict.del_law [OF assms] by blast
  with dict.get_del [OF assms this] show ?thesis by blast
qed

theorem dictionary_unset_get_witness:
  "\<exists>d'. dictionary_unset (Some ex_dict) (Some ''k'') = Inr (Some d') \<and> dict_wf d'
    \<and> dictionary_get d' ''k'' PInvalid = Inr PInvalid"
  using dictionary_unset_get [OF ex_dict_wf(1), of "''k''"] by blast

text \<open>
  When a full dictionary cannot grow because an allocation fails, \<^verbatim>\<open>dictionary_set\<close> reports -1
  but has already replaced the array pointers, and releasing the dictionary with
  \<^verbatim>\<open>dictionary_del\<close> then dereferences a NULL array.
\<close>

theorem dictionary_grow_failure:
  assumes "dict_wf d" and "dict_room d" and "d_n d = int (d_size d)" and "dict_map d k = None"
  shows "\<exists>d' m'. dictionary_set (False # m) (Some d) (Some k) v = Inr (- 1, Some d', m')
    \<and> dictionary_del (Some d') = Inl OutOfBounds"
proof -
  note wfd = dict_wfD [OF assms(1)]
  have b8: "2 * (d_size d * 8) \<le> int_max" and b4: "2 * (d_size d * 4) \<le> int_max"
    using assms(2) by (simp_all add: dict_room_def)
  have find: "dict_find d (dictionary_hash k) k 0 = Inr (d_size d)"
  proof (rule dict_find_cases [OF wfd(9,5), of k])
    fix j assume "j < d_size d" "d_key d ! j = Some k"
    with assms(1,4) wfd(2) show ?thesis by (metis dict_map_None nth_mem)
  qed simp
  have "\<exists>d' m'. dict_grow (False # m) d = Inr (False, d', m') \<and> d_size d' = d_size d \<and> d_val d' = []"
    by (simp add: dict_grow_def mem_double_ok [OF wfd(1) b8] mem_double_ok [OF wfd(2) b8]
        mem_double_ok [OF wfd(3) b4] malloc_def Let_def)
  then obtain d' m' where g: "dict_grow (False # m) d = Inr (False, d', m')" "d_size d' = d_size d" "d_val d' = []"
    by blast
  have "dictionary_del (Some d') = Inl OutOfBounds"
    using g(2,3) wfd(6)
    by (simp add: dictionary_del_def dict_del_loop.simps [of d' 0] aget_def)
  with find g assms(3) wfd(6) show ?thesis by (simp add: dictionary_set_def)
qed

theorem dictionary_grow_failure_witness:
  "\<exists>d' m'. dictionary_set [False] (Some ex_full) (Some ''a'') None = Inr (- 1, Some d', m')
    \<and> dictionary_del (Some d') = Inl OutOfBounds"
  by (rule dictionary_grow_failure [OF ex_dict_wf(3,4)])
    (simp_all add: ex_full_def dict_map_def dict_entries_def)

end
