(* ===== verification/CStdio.thy ===== *)
theory CStdio
  imports CPrelude
begin

text \<open>
  The parts of the C library on formatted input and output that the
  configuration code uses: \<^verbatim>\<open>fgets\<close> on the remaining bytes of a file,
  \<^verbatim>\<open>sscanf\<close> for the conversions that occur (\<^verbatim>\<open>%[...]\<close>, white space and
  ordinary characters), decimal printing of \<^verbatim>\<open>%d\<close>, the padding of \<^verbatim>\<open>%-30s\<close>,
  and \<^verbatim>\<open>strtol\<close> with base 0 and 10.
\<close>

subsection \<open>fgets\<close>

definition newline :: char where
  "newline = CHR 0x0A"

fun fgets_take :: "nat \<Rightarrow> string \<Rightarrow> string \<times> string" where
  "fgets_take 0 s = ([], s)"
| "fgets_take (Suc k) [] = ([], [])"
| "fgets_take (Suc k) (c # s) =
     (if c = newline then ([c], s) else let (a, b) = fgets_take k s in (c # a, b))"

text \<open>
  \<open>fgets n s\<close>: the bytes read with a buffer of \<open>n\<close> bytes and the rest of the
  file, or None for NULL (end of file, or a buffer that holds no character).
\<close>

definition fgets :: "nat \<Rightarrow> string \<Rightarrow> (string \<times> string) option" where
  "fgets n s = (if n \<le> 1 \<or> s = [] then None else Some (fgets_take (n - 1) s))"

lemma fgets_take_append: "fgets_take k s = (a, b) \<Longrightarrow> s = a @ b"
  by (induction k s arbitrary: a b rule: fgets_take.induct) (auto split: if_splits prod.splits)

lemma fgets_take_length: "fgets_take k s = (a, b) \<Longrightarrow> length a \<le> k"
  by (induction k s arbitrary: a b rule: fgets_take.induct) (auto split: if_splits prod.splits)

lemma fgets_take_nonempty: "fgets_take (Suc k) s = (a, b) \<Longrightarrow> s \<noteq> [] \<Longrightarrow> a \<noteq> []"
  by (cases s) (auto split: if_splits prod.splits)

lemma fgets_shorter:
  assumes "fgets n s = Some (a, b)"
  shows "length b < length s"
proof -
  from assms have f: "fgets_take (Suc (n - 2)) s = (a, b)" and "s \<noteq> []"
    by (auto simp: fgets_def numeral_2_eq_2 Suc_diff_Suc split: if_splits)
  from fgets_take_nonempty [OF this] fgets_take_append [OF f] show ?thesis by simp
qed

lemma fgets_length: "fgets n s = Some (a, b) \<Longrightarrow> length a < n"
  using fgets_take_length [of "n - 1" s a b] by (auto simp: fgets_def split: if_splits)

lemma fgets_take_line:
  "newline \<notin> set l \<Longrightarrow> length l < k \<Longrightarrow> fgets_take k (l @ newline # s) = (l @ [newline], s)"
proof (induction l arbitrary: k)
  case Nil
  then show ?case by (cases k) auto
next
  case (Cons c l)
  then show ?case by (cases k) auto
qed

lemma fgets_line:
  "newline \<notin> set l \<Longrightarrow> length l + 1 < n \<Longrightarrow> fgets n (l @ newline # s) = Some (l @ [newline], s)"
  by (auto simp: fgets_def fgets_take_line)

subsection \<open>sscanf\<close>

datatype scan_item =
    ScanSet "char \<Rightarrow> bool"
  | ScanWS
  | ScanLit char

text \<open>The strings assigned, in order; their number is the value \<^verbatim>\<open>sscanf\<close> returns.\<close>

fun sscanf :: "scan_item list \<Rightarrow> string \<Rightarrow> string list" where
  "sscanf [] s = []"
| "sscanf (ScanSet p # fs) s =
     (if takeWhile p s = [] then [] else takeWhile p s # sscanf fs (dropWhile p s))"
| "sscanf (ScanWS # fs) s = sscanf fs (dropWhile isspace s)"
| "sscanf (ScanLit c # fs) s = (case s of [] \<Rightarrow> [] | d # s' \<Rightarrow> if d = c then sscanf fs s' else [])"

lemma sscanf_length: "w \<in> set (sscanf fs s) \<Longrightarrow> length w \<le> length s"
proof (induction fs s rule: sscanf.induct)
  case (2 p fs s)
  then show ?case
    using length_takeWhile_le [of p s] length_dropWhile_le [of p s]
    by (auto split: if_splits)
next
  case (3 fs s)
  then show ?case using length_dropWhile_le [of isspace s] by auto
qed (auto split: list.splits if_splits)

subsection \<open>Printing and reading numbers\<close>

definition digit_char :: "nat \<Rightarrow> char" where
  "digit_char k = char_of (48 + k)"

fun show_nat :: "nat \<Rightarrow> string" where
  "show_nat n = (if n < 10 then [digit_char n] else show_nat (n div 10) @ [digit_char (n mod 10)])"

declare show_nat.simps [simp del]

definition show_int :: "int \<Rightarrow> string" where
  "show_int i = (if i < 0 then CHR ''-'' # show_nat (nat (- i)) else show_nat (nat i))"

definition pad_right :: "nat \<Rightarrow> string \<Rightarrow> string" where
  "pad_right w s = s @ replicate (w - length s) (CHR '' '')"

text \<open>The value of a digit in a base up to 36, if it is one.\<close>

definition digit_val :: "char \<Rightarrow> nat option" where
  "digit_val c = (let k = (of_char c :: nat) in
     if 48 \<le> k \<and> k \<le> 57 then Some (k - 48)
     else if 65 \<le> k \<and> k \<le> 90 then Some (k - 55)
     else if 97 \<le> k \<and> k \<le> 122 then Some (k - 87)
     else None)"

fun read_digits :: "nat \<Rightarrow> int \<Rightarrow> string \<Rightarrow> int" where
  "read_digits base acc [] = acc"
| "read_digits base acc (c # s) =
     (case digit_val c of None \<Rightarrow> acc
      | Some d \<Rightarrow> if d < base then read_digits base (acc * int base + int d) s else acc)"

definition clamp_long :: "int \<Rightarrow> int" where
  "clamp_long v = max (- (2 ^ 63)) (min (2 ^ 63 - 1) v)"

text \<open>Sign and digits after white space; base 0 takes the C prefixes into account.\<close>

definition strtol_base :: "nat \<Rightarrow> string \<Rightarrow> nat \<times> string" where
  "strtol_base base s =
     (if base = 0
      then (case s of
          c # d # s' \<Rightarrow> if c = CHR ''0'' \<and> (d = CHR ''x'' \<or> d = CHR ''X'') then (16, s')
                         else if c = CHR ''0'' then (8, s) else (10, s)
        | [c] \<Rightarrow> if c = CHR ''0'' then (8, s) else (10, s)
        | [] \<Rightarrow> (10, s))
      else (base, s))"

definition strtol :: "nat \<Rightarrow> string \<Rightarrow> int" where
  "strtol base s =
     (let s1 = dropWhile isspace s;
          neg = (case s1 of c # _ \<Rightarrow> c = CHR ''-'' | [] \<Rightarrow> False);
          s2 = (case s1 of c # s' \<Rightarrow> if c = CHR ''-'' \<or> c = CHR ''+'' then s' else s1 | [] \<Rightarrow> []);
          (b, s3) = strtol_base base s2;
          v = read_digits b 0 s3
      in clamp_long (if neg then - v else v))"

text \<open>Conversion of a \<^verbatim>\<open>long\<close> to a 32-bit \<^verbatim>\<open>int\<close>.\<close>

definition to_int32 :: "int \<Rightarrow> int" where
  "to_int32 v = (v + 2 ^ 31) mod 2 ^ 32 - 2 ^ 31"

definition is_int32 :: "int \<Rightarrow> bool" where
  "is_int32 v \<longleftrightarrow> - (2 ^ 31) \<le> v \<and> v < 2 ^ 31"

lemma to_int32_id: "is_int32 v \<Longrightarrow> to_int32 v = v"
  by (simp add: is_int32_def to_int32_def)

subsection \<open>Reading back what was printed\<close>

lemma of_digit_char [simp]: "k < 10 \<Longrightarrow> (of_char (digit_char k) :: nat) = 48 + k"
  by (simp add: digit_char_def)

lemma digit_val_digit_char [simp]: "k < 10 \<Longrightarrow> digit_val (digit_char k) = Some k"
  by (simp add: digit_val_def Let_def)

lemma read_digits_append:
  "(\<forall>c\<in>set s. isdigit c) \<Longrightarrow> 10 \<le> base \<Longrightarrow>
   read_digits base acc (s @ t) = read_digits base (read_digits base acc s) t"
  by (induction s arbitrary: acc) (auto simp: digit_val_def isdigit_def Let_def)

lemma show_nat_digits: "\<forall>c\<in>set (show_nat n). isdigit c"
proof (induction n rule: show_nat.induct)
  case (1 n)
  then show ?case
    by (cases "n < 10") (auto simp: show_nat.simps [of n] isdigit_def)
qed

lemma show_nat_nonempty [simp]: "show_nat n \<noteq> []"
  by (subst show_nat.simps) simp

lemma read_show_nat: "read_digits 10 0 (show_nat n) = int n"
proof (induction n rule: show_nat.induct)
  case (1 n)
  show ?case
  proof (cases "n < 10")
    case True
    then show ?thesis by (simp add: show_nat.simps [of n])
  next
    case False
    then have "read_digits 10 0 (show_nat n) = int (n div 10) * 10 + int (n mod 10)"
      using 1 by (simp add: show_nat.simps [of n] read_digits_append show_nat_digits)
    also have "\<dots> = int n" by presburger
    finally show ?thesis .
  qed
qed

lemma show_nat_hd: "0 < n \<Longrightarrow> hd (show_nat n) \<noteq> CHR ''0''"
proof (induction n rule: show_nat.induct)
  case (1 n)
  show ?case
  proof (cases "n < 10")
    case True
    have "digit_char n \<noteq> CHR ''0''"
    proof
      assume "digit_char n = CHR ''0''"
      from arg_cong [OF this, of "of_char :: char \<Rightarrow> nat"] True "1.prems" show False by simp
    qed
    with True show ?thesis by (simp add: show_nat.simps [of n])
  next
    case False
    with 1 show ?thesis by (simp add: show_nat.simps [of n])
  qed
qed

lemma isdigit_not: "isdigit c \<Longrightarrow> \<not> isspace c \<and> c \<noteq> CHR ''-'' \<and> c \<noteq> CHR ''+'' \<and> c \<noteq> CHR ''x'' \<and> c \<noteq> CHR ''X''"
  by (auto simp: isdigit_def isspace_def)

lemma strtol_base_show_nat: "\<exists>b. strtol_base 0 (show_nat n) = (b, show_nat n) \<and> read_digits b 0 (show_nat n) = int n"
proof (cases "n = 0")
  case True
  then show ?thesis
    by (simp add: show_nat.simps strtol_base_def digit_char_def digit_val_def Let_def)
next
  case False
  then obtain c s where cs: "show_nat n = c # s" "c \<noteq> CHR ''0''"
    using show_nat_hd [of n] by (cases "show_nat n") auto
  then have "strtol_base 0 (show_nat n) = (10, show_nat n)"
    by (simp add: strtol_base_def split: list.split)
  then show ?thesis by (simp add: read_show_nat)
qed

lemma strtol_show_int:
  assumes "is_int32 v"
  shows "strtol 0 (show_int v) = v"
proof -
  obtain c s where cs: "show_nat (nat \<bar>v\<bar>) = c # s" by (cases "show_nat (nat \<bar>v\<bar>)") auto
  with show_nat_digits [of "nat \<bar>v\<bar>"] have "isdigit c" by simp
  note nd = isdigit_not [OF this]
  obtain b where b: "strtol_base 0 (c # s) = (b, c # s)" "read_digits b 0 (c # s) = \<bar>v\<bar>"
    using strtol_base_show_nat [of "nat \<bar>v\<bar>"] cs by auto
  have "clamp_long v = v" using assms by (simp add: is_int32_def clamp_long_def)
  with b nd cs show ?thesis
    by (cases "v < 0") (simp_all add: strtol_def show_int_def isspace_def)
qed

lemma int_show_roundtrip: "is_int32 v \<Longrightarrow> to_int32 (strtol 0 (show_int v)) = v"
  by (simp add: strtol_show_int to_int32_id)

lemma show_int_chars: "c \<in> set (show_int v) \<Longrightarrow> isdigit c \<or> c = CHR ''-''"
  using show_nat_digits by (auto simp: show_int_def split: if_splits)

lemma show_int_nonempty [simp]: "show_int v \<noteq> []"
  by (simp add: show_int_def)

lemma show_nat_length: "n < 10 ^ k \<Longrightarrow> 0 < k \<Longrightarrow> length (show_nat n) \<le> k"
proof (induction k arbitrary: n)
  case (Suc k)
  show ?case
  proof (cases "n < 10")
    case True
    then show ?thesis by (simp add: show_nat.simps [of n])
  next
    case False
    with Suc.prems have "0 < k" by (cases k) auto
    moreover have "n div 10 < 10 ^ k" using Suc.prems by (simp add: less_mult_imp_div_less mult.commute)
    ultimately show ?thesis using Suc.IH [of "n div 10"] False by (simp add: show_nat.simps [of n])
  qed
qed simp

lemma show_int_length:
  assumes "is_int32 v"
  shows "length (show_int v) \<le> 11"
proof -
  have "nat v < 10 ^ 10" "nat (- v) < 10 ^ 10" using assms unfolding is_int32_def by simp_all linarith+
  from show_nat_length [OF this(1)] show_nat_length [OF this(2)] show ?thesis by (simp add: show_int_def)
qed

end
