(* ===== verification/IniParser.thy ===== *)
theory IniParser
  imports Dictionary CStdio
begin

text \<open>
  The ini parser of \<^verbatim>\<open>utils/iniparser.cpp\<close> on top of the dictionary: a section
  \<^verbatim>\<open>[s]\<close> is stored as the key \<open>s\<close> with a NULL value, an entry \<^verbatim>\<open>k = v\<close> of it as
  the key \<open>s:k\<close>. \<open>iniparser_load\<close> takes the bytes of the file (None when it
  cannot be opened) and the allocation oracle; messages on stderr are not
  modelled. The functions that write a file return its bytes. Every fixed-size
  buffer of the source is respected: a write that does not fit is the fault
  \<^const>\<open>BufOverflow\<close>, or \<^const>\<open>KeyOverflow\<close> for the buffer of the joined key.
\<close>

definition ASCIILINESZ :: nat where
  "ASCIILINESZ = 1024"

datatype line_status =
    LINE_UNPROCESSED
  | LINE_ERROR
  | LINE_EMPTY
  | LINE_COMMENT
  | LINE_SECTION
  | LINE_VALUE

definition strlwc :: "string option \<Rightarrow> string option" where
  "strlwc sp = map_option (\<lambda>s. map tolower (take ASCIILINESZ s)) sp"

text \<open>\<^verbatim>\<open>strcpy\<close> into the static buffer of 1025 bytes happens before the end is trimmed.\<close>

definition strstrip :: "string \<Rightarrow> string cres" where
  "strstrip s =
     (let s1 = dropWhile isspace s
      in if ASCIILINESZ < length s1 then Inl BufOverflow else Inr (rstrip s1))"

definition is_section :: "string \<Rightarrow> bool" where
  "is_section k = (CHR '':'' \<notin> set k)"

function getnsec_loop :: "dictionary \<Rightarrow> nat \<Rightarrow> int \<Rightarrow> int cres" where
  "getnsec_loop d i nsec =
     (if i < d_size d
      then cbind (aget (d_key d) i) (\<lambda>k. case k of
             None \<Rightarrow> getnsec_loop d (Suc i) nsec
           | Some ks \<Rightarrow> getnsec_loop d (Suc i) (if is_section ks then nsec + 1 else nsec))
      else Inr nsec)"
  by pat_completeness auto
termination
  by (relation "measure (\<lambda>(d, i, nsec). d_size d - i)") auto

definition iniparser_getnsec :: "dictionary option \<Rightarrow> int cres" where
  "iniparser_getnsec dp = (case dp of None \<Rightarrow> Inr (- 1) | Some d \<Rightarrow> getnsec_loop d 0 0)"

text \<open>The loop of \<^verbatim>\<open>iniparser_getsecname\<close> ends with the index and the sections found.\<close>

function getsecname_loop :: "dictionary \<Rightarrow> int \<Rightarrow> nat \<Rightarrow> int \<Rightarrow> (nat \<times> int) cres" where
  "getsecname_loop d n i foundsec =
     (if i < d_size d
      then cbind (aget (d_key d) i) (\<lambda>k. case k of
             None \<Rightarrow> getsecname_loop d n (Suc i) foundsec
           | Some ks \<Rightarrow>
               if is_section ks
               then if n < foundsec + 1 then Inr (i, foundsec + 1)
                    else getsecname_loop d n (Suc i) (foundsec + 1)
               else getsecname_loop d n (Suc i) foundsec)
      else Inr (i, foundsec))"
  by pat_completeness auto
termination
  by (relation "measure (\<lambda>(d, n, i, f). d_size d - i)") auto

definition iniparser_getsecname :: "dictionary option \<Rightarrow> int \<Rightarrow> string option cres" where
  "iniparser_getsecname dp n =
     (case dp of None \<Rightarrow> Inr None
      | Some d \<Rightarrow> if n < 0 then Inr None
          else cbind (getsecname_loop d n 0 0) (\<lambda>(i, foundsec).
                 if foundsec \<le> n then Inr None else aget (d_key d) i))"

function ini_dump_loop :: "dictionary \<Rightarrow> nat \<Rightarrow> string cres" where
  "ini_dump_loop d i =
     (if i < d_size d
      then cbind (aget (d_key d) i) (\<lambda>k. case k of
             None \<Rightarrow> ini_dump_loop d (Suc i)
           | Some ks \<Rightarrow> cbind (aget (d_val d) i) (\<lambda>v.
               cbind (ini_dump_loop d (Suc i)) (\<lambda>out.
                 Inr ((case v of Some s \<Rightarrow> ''['' @ ks @ '']=['' @ s @ '']''
                       | None \<Rightarrow> ''['' @ ks @ '']=UNDEF'') @ [newline] @ out))))
      else Inr [])"
  by pat_completeness auto
termination
  by (relation "measure (\<lambda>(d, i). d_size d - i)") auto

definition iniparser_dump :: "dictionary option \<Rightarrow> string cres" where
  "iniparser_dump dp = (case dp of None \<Rightarrow> Inr [] | Some d \<Rightarrow> ini_dump_loop d 0)"

text \<open>Without sections, \<^verbatim>\<open>iniparser_dump_ini\<close> prints every entry; a NULL value prints as \<^verbatim>\<open>(null)\<close>.\<close>

function dump_keys_loop :: "dictionary \<Rightarrow> nat \<Rightarrow> string cres" where
  "dump_keys_loop d i =
     (if i < d_size d
      then cbind (aget (d_key d) i) (\<lambda>k. case k of
             None \<Rightarrow> dump_keys_loop d (Suc i)
           | Some ks \<Rightarrow> cbind (aget (d_val d) i) (\<lambda>v.
               cbind (dump_keys_loop d (Suc i)) (\<lambda>out.
                 Inr (ks @ '' = '' @ (case v of Some s \<Rightarrow> s | None \<Rightarrow> ''(null)'') @ [newline] @ out))))
      else Inr [])"
  by pat_completeness auto
termination
  by (relation "measure (\<lambda>(d, i). d_size d - i)") auto

definition entry_text :: "string \<Rightarrow> string option \<Rightarrow> string" where
  "entry_text k v = pad_right 30 k @ '' = '' @ (case v of Some s \<Rightarrow> s | None \<Rightarrow> '''') @ [newline]"

function dump_section_loop :: "dictionary \<Rightarrow> string \<Rightarrow> nat \<Rightarrow> string cres" where
  "dump_section_loop d secname j =
     (if j < d_size d
      then cbind (aget (d_key d) j) (\<lambda>k. case k of
             None \<Rightarrow> dump_section_loop d secname (Suc j)
           | Some ks \<Rightarrow>
               if prefix_of (secname @ '':'') ks
               then cbind (aget (d_val d) j) (\<lambda>v.
                    cbind (dump_section_loop d secname (Suc j)) (\<lambda>out.
                      Inr (entry_text (drop (length secname + 1) ks) v @ out)))
               else dump_section_loop d secname (Suc j))
      else Inr [])"
  by pat_completeness auto
termination
  by (relation "measure (\<lambda>(d, s, j). d_size d - j)") auto

function dump_sections_loop :: "dictionary \<Rightarrow> int \<Rightarrow> int \<Rightarrow> string cres" where
  "dump_sections_loop d nsec i =
     (if i < nsec
      then cbind (iniparser_getsecname (Some d) i) (\<lambda>sp. case sp of
             None \<Rightarrow> Inl NullDeref
           | Some secname \<Rightarrow>
               if ASCIILINESZ < length secname + 1 then Inl BufOverflow
               else cbind (dump_section_loop d secname 0) (\<lambda>body.
                    cbind (dump_sections_loop d nsec (i + 1)) (\<lambda>out.
                      Inr ([newline] @ ''['' @ secname @ '']'' @ [newline] @ body @ out))))
      else Inr [])"
  by pat_completeness auto
termination
  by (relation "measure (\<lambda>(d, nsec, i). nat (nsec - i))") auto

definition iniparser_dump_ini :: "dictionary option \<Rightarrow> string cres" where
  "iniparser_dump_ini dp =
     (case dp of None \<Rightarrow> Inr []
      | Some d \<Rightarrow> cbind (iniparser_getnsec (Some d)) (\<lambda>nsec.
          if nsec < 1 then dump_keys_loop d 0
          else cbind (dump_sections_loop d nsec 0) (\<lambda>out. Inr (out @ [newline]))))"

subsection \<open>Queries and updates\<close>

definition iniparser_getstring :: "dictionary option \<Rightarrow> string option \<Rightarrow> char_ptr \<Rightarrow> char_ptr cres" where
  "iniparser_getstring dp key def =
     (case (dp, strlwc key) of (Some d, Some lc_key) \<Rightarrow> dictionary_get d lc_key def | _ \<Rightarrow> Inr def)"

definition iniparser_getint :: "dictionary option \<Rightarrow> string option \<Rightarrow> int \<Rightarrow> int cres" where
  "iniparser_getint dp key notfound =
     cbind (iniparser_getstring dp key PInvalid) (\<lambda>str. case str of
       PInvalid \<Rightarrow> Inr notfound
     | PNull \<Rightarrow> Inl NullDeref
     | PStr s \<Rightarrow> Inr (to_int32 (strtol 0 s)))"

definition iniparser_getlong :: "dictionary option \<Rightarrow> string option \<Rightarrow> int \<Rightarrow> int cres" where
  "iniparser_getlong dp key notfound =
     cbind (iniparser_getstring dp key PInvalid) (\<lambda>str. case str of
       PInvalid \<Rightarrow> Inr notfound
     | PNull \<Rightarrow> Inl NullDeref
     | PStr s \<Rightarrow> Inr (strtol 10 s))"

text \<open>The conversion \<^verbatim>\<open>atof\<close> is a parameter.\<close>

definition iniparser_getdouble ::
    "(string \<Rightarrow> 'f) \<Rightarrow> dictionary option \<Rightarrow> string option \<Rightarrow> 'f \<Rightarrow> 'f cres" where
  "iniparser_getdouble atof dp key notfound =
     cbind (iniparser_getstring dp key PInvalid) (\<lambda>str. case str of
       PInvalid \<Rightarrow> Inr notfound
     | PNull \<Rightarrow> Inl NullDeref
     | PStr s \<Rightarrow> Inr (atof s))"

definition iniparser_getboolean :: "dictionary option \<Rightarrow> string option \<Rightarrow> int \<Rightarrow> int cres" where
  "iniparser_getboolean dp key notfound =
     cbind (iniparser_getstring dp key PInvalid) (\<lambda>c. case c of
       PInvalid \<Rightarrow> Inr notfound
     | PNull \<Rightarrow> Inl NullDeref
     | PStr s \<Rightarrow> Inr (case s of
           [] \<Rightarrow> notfound
         | c0 # _ \<Rightarrow> if c0 \<in> set ''yY1tT'' then 1 else if c0 \<in> set ''nN0fF'' then 0 else notfound))"

definition iniparser_find_entry :: "dictionary option \<Rightarrow> string option \<Rightarrow> int cres" where
  "iniparser_find_entry ini entry =
     cbind (iniparser_getstring ini entry PInvalid) (\<lambda>r. Inr (if r \<noteq> PInvalid then 1 else 0))"

definition iniparser_set ::
    "mem \<Rightarrow> dictionary option \<Rightarrow> string option \<Rightarrow> string option \<Rightarrow> (int \<times> dictionary option \<times> mem) cres" where
  "iniparser_set m ini entry val = dictionary_set m ini (strlwc entry) val"

text \<open>The printed number always fits the buffer of 128 bytes.\<close>

definition iniparser_set_int ::
    "mem \<Rightarrow> dictionary option \<Rightarrow> string option \<Rightarrow> int \<Rightarrow> (int \<times> dictionary option \<times> mem) cres" where
  "iniparser_set_int m ini entry val = dictionary_set m ini (strlwc entry) (Some (take 127 (show_int val)))"

definition iniparser_set_long ::
    "mem \<Rightarrow> dictionary option \<Rightarrow> string option \<Rightarrow> int \<Rightarrow> (int \<times> dictionary option \<times> mem) cres" where
  "iniparser_set_long m ini entry val = dictionary_set m ini (strlwc entry) (Some (take 127 (show_int val)))"

definition iniparser_unset :: "dictionary option \<Rightarrow> string option \<Rightarrow> dictionary option cres" where
  "iniparser_unset ini entry = dictionary_unset ini (strlwc entry)"

subsection \<open>Parsing\<close>

record line_bufs =
  b_section :: string
  b_key :: string
  b_value :: string

definition scan_assign :: "string list \<Rightarrow> line_bufs \<Rightarrow> line_bufs" where
  "scan_assign ws b =
     (case ws of [] \<Rightarrow> b
      | [k] \<Rightarrow> b\<lparr>b_key := k\<rparr>
      | k # v # _ \<Rightarrow> b\<lparr>b_key := k, b_value := v\<rparr>)"

text \<open>The formats of \<^verbatim>\<open>iniparser_line\<close>.\<close>

definition fmt_section :: "scan_item list" where
  "fmt_section = [ScanLit (CHR ''[''), ScanSet (\<lambda>c. c \<noteq> CHR '']'')]"

definition fmt_quoted :: "char \<Rightarrow> scan_item list" where
  "fmt_quoted q = [ScanSet (\<lambda>c. c \<noteq> CHR ''=''), ScanWS, ScanLit (CHR ''=''), ScanWS, ScanLit q,
     ScanSet (\<lambda>c. c \<noteq> q), ScanLit q]"

definition fmt_plain :: "scan_item list" where
  "fmt_plain = [ScanSet (\<lambda>c. c \<noteq> CHR ''=''), ScanWS, ScanLit (CHR ''=''), ScanWS,
     ScanSet (\<lambda>c. c \<noteq> CHR '';'' \<and> c \<noteq> CHR ''#'')]"

definition fmt_comment :: "scan_item list" where
  "fmt_comment = [ScanSet (\<lambda>c. c \<noteq> CHR ''=''), ScanWS, ScanLit (CHR ''=''), ScanWS,
     ScanSet (\<lambda>c. c = CHR '';'' \<or> c = CHR ''#'')]"

definition fmt_bare :: "scan_item list" where
  "fmt_bare = [ScanSet (\<lambda>c. c \<noteq> CHR ''=''), ScanWS, ScanSet (\<lambda>c. c = CHR ''='')]"

text \<open>Formats are tried in turn until one assigns both strings; all assignments persist.\<close>

fun scan_first :: "scan_item list list \<Rightarrow> string \<Rightarrow> line_bufs \<Rightarrow> bool \<times> line_bufs" where
  "scan_first [] line b = (False, b)"
| "scan_first (f # fs) line b =
     (let ws = sscanf f line; b' = scan_assign ws b
      in if length ws = 2 then (True, b') else scan_first fs line b')"

definition lower_strip :: "string \<Rightarrow> string cres" where
  "lower_strip s = cbind (strstrip s) (\<lambda>t. Inr (map tolower (take ASCIILINESZ t)))"

definition iniparser_line :: "string \<Rightarrow> line_bufs \<Rightarrow> (line_status \<times> line_bufs) cres" where
  "iniparser_line input_line b =
     cbind (strstrip input_line) (\<lambda>line.
       if line = [] then Inr (LINE_EMPTY, b)
       else if hd line = CHR ''#'' then Inr (LINE_COMMENT, b)
       else if hd line = CHR ''['' \<and> last line = CHR '']'' then
         let sec = (case sscanf fmt_section line of [] \<Rightarrow> b_section b | s # _ \<Rightarrow> s)
         in cbind (lower_strip sec) (\<lambda>sec'. Inr (LINE_SECTION, b\<lparr>b_section := sec'\<rparr>))
       else
         let (found, b1) = scan_first [fmt_quoted (CHR 0x22), fmt_quoted (CHR 0x27), fmt_plain] line b
         in if found then
              cbind (lower_strip (b_key b1)) (\<lambda>key.
              cbind (strstrip (b_value b1)) (\<lambda>value.
                let value' = (if value = [CHR 0x22, CHR 0x22] \<or> value = [CHR 0x27, CHR 0x27] then [] else value)
                in Inr (LINE_VALUE, b1\<lparr>b_key := key, b_value := value'\<rparr>)))
            else
              let (found2, b2) = scan_first [fmt_comment, fmt_bare] line b1
              in if found2 then
                   cbind (lower_strip (b_key b2)) (\<lambda>key.
                     Inr (LINE_VALUE, b2\<lparr>b_key := key, b_value := []\<rparr>))
                 else Inr (LINE_ERROR, b2))"

text \<open>
  What one complete line does to the dictionary and the error count. The
  buffer \<^verbatim>\<open>tmp\<close> for \<^verbatim>\<open>section:key\<close> holds 1024 characters.
\<close>

definition ini_line_effect ::
    "mem \<Rightarrow> dictionary \<Rightarrow> int \<Rightarrow> line_status \<Rightarrow> line_bufs \<Rightarrow> (int \<times> dictionary \<times> mem) cres" where
  "ini_line_effect m d errs sta b =
     (case sta of
        LINE_SECTION \<Rightarrow>
          cbind (dictionary_set m (Some d) (Some (b_section b)) None) (\<lambda>(r, dp, m').
            Inr (r, case dp of Some d' \<Rightarrow> d' | None \<Rightarrow> d, m'))
      | LINE_VALUE \<Rightarrow>
          if ASCIILINESZ < length (b_section b) + 1 + length (b_key b) then Inl KeyOverflow
          else cbind (dictionary_set m (Some d) (Some (b_section b @ '':'' @ b_key b)) (Some (b_value b)))
                 (\<lambda>(r, dp, m'). Inr (r, case dp of Some d' \<Rightarrow> d' | None \<Rightarrow> d, m'))
      | LINE_ERROR \<Rightarrow> Inr (errs + 1, d, m)
      | _ \<Rightarrow> Inr (errs, d, m))"

text \<open>
  The read loop of \<^verbatim>\<open>iniparser_load\<close>. \<open>pre\<close> is what a preceding continuation
  line left in the buffer \<^verbatim>\<open>line\<close>. The result is the dictionary and the
  error count at the end of the loop, or None when a line is too long.
\<close>

function ini_load_loop ::
    "mem \<Rightarrow> string \<Rightarrow> string \<Rightarrow> line_bufs \<Rightarrow> dictionary \<Rightarrow> int \<Rightarrow> ((dictionary \<times> int) option \<times> mem) cres" where
  "ini_load_loop m input pre b d errs =
     (case fgets (ASCIILINESZ - length pre) input of
        None \<Rightarrow> Inr (Some (d, errs), m)
      | Some (chunk, rest) \<Rightarrow>
          let line = pre @ takeWhile (\<lambda>c. c \<noteq> NUL) chunk
          in if line = [] then Inl OutOfBounds
             else if last line \<noteq> newline then
               cbind (dictionary_del (Some d)) (\<lambda>_. Inr (None, m))
             else
               let line' = rstrip line
               in if line' \<noteq> [] \<and> last line' = CHR 0x5C
                  then ini_load_loop m rest (butlast line') b d errs
                  else cbind (iniparser_line line' b) (\<lambda>(sta, b').
                       cbind (ini_line_effect m d errs sta b') (\<lambda>(errs', d', m').
                         if errs' < 0 then Inr (Some (d', errs'), m')
                         else ini_load_loop m' rest [] b' d' errs')))"
  by pat_completeness auto
termination
  by (relation "measure (\<lambda>(m, input, _). length input)") (auto dest: fgets_shorter)

definition iniparser_load :: "mem \<Rightarrow> string option \<Rightarrow> (dictionary option \<times> mem) cres" where
  "iniparser_load m file =
     (case file of None \<Rightarrow> Inr (None, m)
      | Some input \<Rightarrow>
          (case dictionary_new m 0 of
             (None, m1) \<Rightarrow> Inr (None, m1)
           | (Some dict, m1) \<Rightarrow>
               cbind (ini_load_loop m1 input [] \<lparr>b_section = [], b_key = [], b_value = []\<rparr> dict 0) (\<lambda>(r, m2).
                 case r of None \<Rightarrow> Inr (None, m2)
                 | Some (d, errs) \<Rightarrow>
                     if errs \<noteq> 0 then cbind (dictionary_del (Some d)) (\<lambda>_. Inr (None, m2))
                     else Inr (Some d, m2))))"

definition iniparser_freedict :: "dictionary option \<Rightarrow> unit cres" where
  "iniparser_freedict d = dictionary_del d"

declare getnsec_loop.simps [simp del] getsecname_loop.simps [simp del] ini_dump_loop.simps [simp del]
  dump_keys_loop.simps [simp del] dump_section_loop.simps [simp del] dump_sections_loop.simps [simp del]
  ini_load_loop.simps [simp del]

subsection \<open>The loops over the slots as functions of the entries\<close>

definition ini_sections :: "dictionary \<Rightarrow> string list" where
  "ini_sections d = filter is_section (map fst (dict_entries d))"

abbreviation entries_from :: "dictionary \<Rightarrow> nat \<Rightarrow> (string \<times> string option) list" where
  "entries_from d i \<equiv> entries (drop i (d_key d)) (drop i (d_val d))"

lemma entries_dict [simp]: "entries (d_key d) (d_val d) = dict_entries d"
  by (simp add: dict_entries_def)

lemma entries_from_end [simp]: "dict_arrays d \<Longrightarrow> entries_from d (d_size d) = []"
  by (simp add: dict_arrays_def)

lemma getnsec_loop_entries:
  assumes "dict_arrays d" and "i \<le> d_size d"
  shows "getnsec_loop d i c = Inr (c + int (length (filter is_section (map fst (entries_from d i)))))"
  using assms(2)
proof (induction i arbitrary: c rule: inc_induct)
  case base
  show ?case using assms(1) by (subst getnsec_loop.simps) simp
next
  case (step i)
  with assms(1) [unfolded dict_arrays_def] show ?case
    by (subst getnsec_loop.simps, cases "d_key d ! i") (simp_all add: entries_drop_step [OF assms(1)])
qed

lemma iniparser_getnsec_eq:
  "dict_wf d \<Longrightarrow> iniparser_getnsec (Some d) = Inr (int (length (ini_sections d)))"
  by (simp add: iniparser_getnsec_def getnsec_loop_entries dict_wf_arrays ini_sections_def)

lemma getsecname_loop_entries:
  assumes "dict_arrays d" and "i \<le> d_size d" and "f \<le> n"
  shows "\<exists>j f'. getsecname_loop d n i f = Inr (j, f')
    \<and> (let ss = filter is_section (map fst (entries_from d i)) in
         if nat (n - f) < length ss then f' = n + 1 \<and> j < d_size d \<and> d_key d ! j = Some (ss ! nat (n - f))
         else f' \<le> n)"
  using assms(2,3)
proof (induction i arbitrary: f rule: inc_induct)
  case base
  then show ?case using assms(1) by (subst getsecname_loop.simps) simp
next
  case (step i)
  note len = assms(1) [unfolded dict_arrays_def]
  show ?case
  proof (cases "\<exists>ks. d_key d ! i = Some ks \<and> is_section ks")
    case False
    with step.hyps len have "getsecname_loop d n i f = getsecname_loop d n (Suc i) f"
      by (subst getsecname_loop.simps) (auto split: option.split)
    moreover from False have "filter is_section (map fst (entries_from d i))
        = filter is_section (map fst (entries_from d (Suc i)))"
      using step.hyps by (auto simp: entries_drop_step [OF assms(1)] split: option.split)
    ultimately show ?thesis using step.IH [OF step.prems] by simp
  next
    case True
    then obtain ks where ks: "d_key d ! i = Some ks" "is_section ks" by blast
    then have ss: "filter is_section (map fst (entries_from d i))
        = ks # filter is_section (map fst (entries_from d (Suc i)))"
      using step.hyps by (simp add: entries_drop_step [OF assms(1)])
    show ?thesis
    proof (cases "f = n")
      case True
      with ks step.hyps len have "getsecname_loop d n i f = Inr (i, n + 1)"
        by (subst getsecname_loop.simps) simp
      with ss True ks step.hyps show ?thesis by simp
    next
      case False
      with ks step.hyps step.prems len have "getsecname_loop d n i f = getsecname_loop d n (Suc i) (f + 1)"
        by (subst getsecname_loop.simps) simp
      moreover from False step.prems have "nat (n - f) = Suc (nat (n - (f + 1)))" and "f + 1 \<le> n"
        by simp_all
      moreover obtain j f' where "getsecname_loop d n (Suc i) (f + 1) = Inr (j, f')"
        "let ss = filter is_section (map fst (entries_from d (Suc i))) in
         if nat (n - (f + 1)) < length ss
         then f' = n + 1 \<and> j < d_size d \<and> d_key d ! j = Some (ss ! nat (n - (f + 1))) else f' \<le> n"
        using step.IH [OF \<open>f + 1 \<le> n\<close>] by blast
      ultimately show ?thesis unfolding ss by (simp add: Let_def split: if_splits)
    qed
  qed
qed

lemma iniparser_getsecname_eq:
  assumes "dict_wf d"
  shows "iniparser_getsecname (Some d) (int n)
    = Inr (if n < length (ini_sections d) then Some (ini_sections d ! n) else None)"
proof -
  from getsecname_loop_entries [OF dict_wf_arrays [OF assms], of 0 0 "int n"]
  show ?thesis
    using dict_wfD(2) [OF assms]
    by (auto simp: iniparser_getsecname_def ini_sections_def Let_def split: if_splits)
qed

definition section_entries :: "string \<Rightarrow> (string \<times> string option) list \<Rightarrow> (string \<times> string option) list" where
  "section_entries s es = filter (\<lambda>e. prefix_of (s @ '':'') (fst e)) es"

definition section_text :: "string \<Rightarrow> (string \<times> string option) list \<Rightarrow> string" where
  "section_text s es = concat (map (\<lambda>(k, v). entry_text (drop (length s + 1) k) v) (section_entries s es))"

lemma dump_section_loop_entries:
  assumes "dict_arrays d" and "j \<le> d_size d"
  shows "dump_section_loop d s j = Inr (section_text s (entries_from d j))"
  using assms(2)
proof (induction j rule: inc_induct)
  case base
  show ?case using assms(1) by (subst dump_section_loop.simps) (simp add: section_text_def section_entries_def)
next
  case (step j)
  with assms(1) [unfolded dict_arrays_def] show ?case
    by (subst dump_section_loop.simps, cases "d_key d ! j")
      (simp_all add: entries_drop_step [OF assms(1)] section_text_def section_entries_def)
qed

definition block_text :: "dictionary \<Rightarrow> string \<Rightarrow> string" where
  "block_text d s = [newline] @ ''['' @ s @ '']'' @ [newline] @ section_text s (dict_entries d)"

lemma dump_sections_loop_entries:
  assumes wf: "dict_wf d" and short: "\<forall>s\<in>set (ini_sections d). length s < ASCIILINESZ"
    and "i \<le> length (ini_sections d)"
  shows "dump_sections_loop d (int (length (ini_sections d))) (int i)
    = Inr (concat (map (block_text d) (drop i (ini_sections d))))"
  using assms(3)
proof (induction i rule: inc_induct)
  case base
  show ?case by (subst dump_sections_loop.simps) simp
next
  case (step i)
  let ?s = "ini_sections d ! i"
  have dr: "drop i (ini_sections d) = ?s # drop (Suc i) (ini_sections d)"
    using step.hyps by (simp add: Cons_nth_drop_Suc)
  have "length ?s < ASCIILINESZ" using short step.hyps by simp
  moreover have "dump_sections_loop d (int (length (ini_sections d))) (int i + 1)
      = Inr (concat (map (block_text d) (drop (Suc i) (ini_sections d))))"
    using step.IH by (simp add: add.commute)
  moreover have "dump_section_loop d ?s 0 = Inr (section_text ?s (dict_entries d))"
    using dump_section_loop_entries [OF dict_wf_arrays [OF wf], of 0 ?s] by simp
  ultimately show ?case
    using step.hyps
    by (subst dump_sections_loop.simps) (simp add: iniparser_getsecname_eq [OF wf] dr block_text_def [of d ?s])
qed

lemma dump_ini_eq:
  assumes wf: "dict_wf d" and short: "\<forall>s\<in>set (ini_sections d). length s < ASCIILINESZ"
    and some: "ini_sections d \<noteq> []"
  shows "iniparser_dump_ini (Some d) = Inr (concat (map (block_text d) (ini_sections d)) @ [newline])"
proof -
  from some have "\<not> int (length (ini_sections d)) < 1" by (cases "ini_sections d") auto
  with dump_sections_loop_entries [OF wf short, of 0] show ?thesis
    by (simp add: iniparser_dump_ini_def iniparser_getnsec_eq [OF wf])
qed

subsection \<open>Properties\<close>

text \<open>
  An integer stored with \<^verbatim>\<open>iniparser_set_int\<close> is the one \<^verbatim>\<open>iniparser_getint\<close> returns, for
  every value of \<^verbatim>\<open>int\<close>, under the key in any case; no other key reads differently.
\<close>

theorem iniparser_set_int_get:
  assumes "dict_wf d" and "dict_room d" and "no_fail m" and "is_int32 v" and "strlwc (Some k') = strlwc (Some k)"
  shows "\<exists>d' m'. iniparser_set_int m (Some d) (Some k) v = Inr (0, Some d', m') \<and> dict_wf d'
    \<and> iniparser_getint (Some d') (Some k') notfound = Inr v
    \<and> (\<forall>k2. strlwc (Some k2) \<noteq> strlwc (Some k) \<longrightarrow>
          iniparser_getstring (Some d') (Some k2) def = iniparser_getstring (Some d) (Some k2) def)"
proof -
  let ?k = "map tolower (take ASCIILINESZ k)" and ?v = "Some (show_int v)"
  from dict.put_law [OF assms(1-3), of ?k ?v] obtain d' m' where
    put: "dictionary_set m (Some d) (Some ?k) ?v = Inr (0, Some d', m')" and wf: "dict_wf d'" by blast
  note g = dict.get_put [OF assms(1-3) put]
  have "iniparser_set_int m (Some d) (Some k) v = Inr (0, Some d', m')"
    using put show_int_length [OF assms(4)] by (simp add: iniparser_set_int_def strlwc_def)
  moreover have "iniparser_getint (Some d') (Some k') notfound = Inr v"
    using g [of PInvalid] assms(5) int_show_roundtrip [OF assms(4)]
    by (simp add: iniparser_getint_def iniparser_getstring_def strlwc_def ptr_of_def)
  ultimately show ?thesis
    using g [of def] wf by (simp add: iniparser_getstring_def strlwc_def)
qed

theorem iniparser_set_int_get_witness:
  "\<exists>d' m'. iniparser_set_int [] (Some ex_dict) (Some ''Sec:Key'') (- 5) = Inr (0, Some d', m') \<and> dict_wf d'
    \<and> iniparser_getint (Some d') (Some ''sec:KEY'') 0 = Inr (- 5)
    \<and> (\<forall>k2. strlwc (Some k2) \<noteq> strlwc (Some ''Sec:Key'') \<longrightarrow>
          iniparser_getstring (Some d') (Some k2) PNull = iniparser_getstring (Some ex_dict) (Some k2) PNull)"
proof (rule iniparser_set_int_get [OF ex_dict_wf(1,2)])
  show "is_int32 (- 5)" by (simp add: is_int32_def)
  show "strlwc (Some ''sec:KEY'') = strlwc (Some ''Sec:Key'')" by code_simp
qed simp

text \<open>
  The sections of a dictionary can be enumerated: \<^verbatim>\<open>iniparser_getnsec\<close> counts the keys
  without colon, and \<^verbatim>\<open>iniparser_getsecname\<close> returns them one by one, each once, and
  NULL outside this range.
\<close>

theorem iniparser_sections:
  assumes "dict_wf d"
  shows "\<exists>ss. distinct ss \<and> set ss = {k. is_section k \<and> dict_map d k \<noteq> None}
    \<and> iniparser_getnsec (Some d) = Inr (int (length ss))
    \<and> (\<forall>n. iniparser_getsecname (Some d) n = Inr (if 0 \<le> n \<and> n < int (length ss) then Some (ss ! nat n) else None))"
proof (intro exI conjI allI)
  show "distinct (ini_sections d)"
    by (simp add: ini_sections_def dict_entries_facts [OF assms] distinct_filter)
  show "set (ini_sections d) = {k. is_section k \<and> dict_map d k \<noteq> None}"
    by (force simp: ini_sections_def dict_entries_facts(2) [OF assms])
  show "iniparser_getnsec (Some d) = Inr (int (length (ini_sections d)))"
    by (rule iniparser_getnsec_eq [OF assms])
  fix n
  show "iniparser_getsecname (Some d) n =
      Inr (if 0 \<le> n \<and> n < int (length (ini_sections d)) then Some (ini_sections d ! nat n) else None)"
    using iniparser_getsecname_eq [OF assms, of "nat n"]
    by (cases "0 \<le> n") (auto simp: iniparser_getsecname_def)
qed

theorem iniparser_sections_witness:
  "\<exists>ss. distinct ss \<and> set ss = {k. is_section k \<and> dict_map ex_dict k \<noteq> None}
    \<and> iniparser_getnsec (Some ex_dict) = Inr (int (length ss))
    \<and> (\<forall>n. iniparser_getsecname (Some ex_dict) n = Inr (if 0 \<le> n \<and> n < int (length ss) then Some (ss ! nat n) else None))"
  by (rule iniparser_sections [OF ex_dict_wf(1)])

end
