(* ===== verification/IniRoundtrip.thy ===== *)
theory IniRoundtrip
  imports IniParser
begin

text \<open>
  What the parser makes of a file that \<^const>\<open>iniparser_dump_ini\<close> wrote. First
  single lines: section headers, entries and blank lines; then the read loop
  on a whole file of such lines, as a fold over abstract items; finally the
  round trip from a dictionary through its dump back to a dictionary.
\<close>

subsection \<open>Lines\<close>

definition trimmed :: "string \<Rightarrow> bool" where
  "trimmed s \<longleftrightarrow> s \<noteq> [] \<and> \<not> isspace (hd s) \<and> \<not> isspace (last s)"

definition one_line :: "string \<Rightarrow> bool" where
  "one_line s \<longleftrightarrow> newline \<notin> set s \<and> NUL \<notin> set s"

text \<open>Names of sections and entries, and values, that the syntax of ini files can express.\<close>

definition ini_sec_ok :: "string \<Rightarrow> bool" where
  "ini_sec_ok s \<longleftrightarrow> trimmed s \<and> one_line s \<and> lowercase s \<and> CHR '']'' \<notin> set s \<and> is_section s
     \<and> length s + 2 \<le> 1022"

definition ini_key_ok :: "string \<Rightarrow> bool" where
  "ini_key_ok k \<longleftrightarrow> trimmed k \<and> one_line k \<and> lowercase k \<and> CHR ''='' \<notin> set k
     \<and> hd k \<noteq> CHR ''#'' \<and> hd k \<noteq> CHR ''[''"

definition ini_val_ok :: "string \<Rightarrow> bool" where
  "ini_val_ok v \<longleftrightarrow> v = [] \<or> (trimmed v \<and> one_line v \<and> CHR '';'' \<notin> set v \<and> CHR ''#'' \<notin> set v
     \<and> hd v \<noteq> CHR 0x22 \<and> hd v \<noteq> CHR 0x27 \<and> last v \<noteq> CHR 0x5C)"

lemma trimmed_simps:
  assumes "trimmed s"
  shows "dropWhile isspace s = s" "rstrip s = s" "dropWhile isspace (s @ t) = s @ t" "s \<noteq> []"
    "hd (s @ t) = hd s"
  using assms by (cases s; auto simp: trimmed_def rstrip_id)+

lemma lower_strip_trimmed:
  "trimmed s \<Longrightarrow> lowercase s \<Longrightarrow> length s \<le> 1024 \<Longrightarrow> lower_strip s = Inr s"
  by (simp add: lower_strip_def strstrip_def ASCIILINESZ_def trimmed_simps char_simps)

lemma rstrip_spaces: "rstrip (s @ replicate j (CHR '' '')) = rstrip s"
proof (induction j)
  case (Suc j)
  have "s @ replicate (Suc j) (CHR '' '') = (s @ replicate j (CHR '' '')) @ [CHR '' '']"
    by (simp add: replicate_append_same)
  with Suc show ?case using rstrip_snoc_space [OF isspace_newline(2)] by metis
qed simp

lemma lower_strip_padded:
  "trimmed s \<Longrightarrow> lowercase s \<Longrightarrow> length s + j \<le> 1024 \<Longrightarrow>
   lower_strip (s @ replicate j (CHR '' '')) = Inr s"
  by (simp add: lower_strip_def strstrip_def ASCIILINESZ_def trimmed_simps char_simps rstrip_spaces)

lemma section_line:
  assumes "ini_sec_ok s"
  shows "iniparser_line (''['' @ s @ '']'') b = Inr (LINE_SECTION, b\<lparr>b_section := s\<rparr>)"
proof -
  note ok = assms [unfolded ini_sec_ok_def]
  have strip: "strstrip (''['' @ s @ '']'') = Inr (''['' @ s @ '']'')"
  proof -
    have "rstrip ((''['' @ s) @ '']'') = (''['' @ s) @ '']''"
      by (rule rstrip_append_id) (auto simp: isspace_def)
    then show ?thesis using ok by (simp add: strstrip_def ASCIILINESZ_def isspace_def)
  qed
  have "takeWhile (\<lambda>c. c \<noteq> CHR '']'') (s @ '']'') = s"
    using ok by (subst takeWhile_append2) auto
  then have "sscanf fmt_section (''['' @ s @ '']'') = [s]"
    using ok by (simp add: fmt_section_def trimmed_def)
  with strip ok show ?thesis
    by (simp add: iniparser_line_def lower_strip_trimmed)
qed

lemma blank_line: "iniparser_line [] b = Inr (LINE_EMPTY, b)"
  by (simp add: iniparser_line_def strstrip_def)

text \<open>The part of an entry line before the equals sign, and the scan of it.\<close>

definition padded_key :: "string \<Rightarrow> string" where
  "padded_key k = k @ replicate (30 - length k + 1) (CHR '' '')"

lemma entry_text_padded: "entry_text k v = padded_key k @ ''= '' @ (case v of Some s \<Rightarrow> s | None \<Rightarrow> []) @ [newline]"
  by (simp add: entry_text_def padded_key_def pad_right_def replicate_append_same [symmetric] split: option.split)

lemma padded_key_facts:
  assumes "ini_key_ok k"
  shows "padded_key k \<noteq> []" "CHR ''='' \<notin> set (padded_key k)" "hd (padded_key k) = hd k"
    "one_line (padded_key k)" "dropWhile isspace (padded_key k @ t) = padded_key k @ t"
proof -
  note ok = assms [unfolded ini_key_ok_def trimmed_def one_line_def]
  show "padded_key k \<noteq> []" "hd (padded_key k) = hd k" using ok by (simp_all add: padded_key_def)
  show "CHR ''='' \<notin> set (padded_key k)" using ok by (auto simp: padded_key_def)
  show "one_line (padded_key k)" using ok by (auto simp: padded_key_def one_line_def newline_def NUL_def)
  show "dropWhile isspace (padded_key k @ t) = padded_key k @ t"
    using ok by (cases k) (auto simp: padded_key_def)
qed

lemma scan_key:
  assumes "CHR ''='' \<notin> set p"
  shows "takeWhile (\<lambda>c. c \<noteq> CHR ''='') (p @ CHR ''='' # t) = p"
    and "dropWhile (\<lambda>c. c \<noteq> CHR ''='') (p @ CHR ''='' # t) = CHR ''='' # t"
  using assms by (auto simp: takeWhile_append dropWhile_append)

lemma equals_not_space [simp]: "\<not> isspace (CHR ''='')"
  by (simp add: isspace_def)

lemma entry_line_empty:
  assumes k: "ini_key_ok k" and len: "length (padded_key k) + 1 \<le> 1024"
  shows "iniparser_line (padded_key k @ ''='') b = Inr (LINE_VALUE, b\<lparr>b_key := k, b_value := []\<rparr>)"
proof -
  note pk = padded_key_facts [OF k]
  have strip: "strstrip (padded_key k @ ''='') = Inr (padded_key k @ ''='')"
    using len pk(5) rstrip_append_id [of "''=''" "padded_key k"] by (simp add: strstrip_def ASCIILINESZ_def)
  note sc = scan_key [OF pk(2), of "[]"]
  have "sscanf (fmt_quoted q) (padded_key k @ ''='') = [padded_key k]" for q
    by (simp add: fmt_quoted_def sc pk(1))
  moreover have "sscanf fmt_plain (padded_key k @ ''='') = [padded_key k]"
    "sscanf fmt_comment (padded_key k @ ''='') = [padded_key k]"
    "sscanf fmt_bare (padded_key k @ ''='') = [padded_key k, ''='']"
    by (simp_all add: fmt_plain_def fmt_comment_def fmt_bare_def sc pk(1))
  moreover have "lower_strip (padded_key k) = Inr k"
    unfolding padded_key_def
    using k len by (intro lower_strip_padded) (auto simp: ini_key_ok_def padded_key_def)
  ultimately show ?thesis
    using strip pk k by (simp add: iniparser_line_def scan_assign_def ini_key_ok_def)
qed

lemma entry_line_value:
  assumes k: "ini_key_ok k" and v: "ini_val_ok v" "v \<noteq> []" and len: "length (padded_key k) + 2 + length v \<le> 1024"
  shows "iniparser_line (padded_key k @ ''= '' @ v) b = Inr (LINE_VALUE, b\<lparr>b_key := k, b_value := v\<rparr>)"
proof -
  note pk = padded_key_facts [OF k]
  from v have vt: "trimmed v" and vs: "CHR '';'' \<notin> set v" "CHR ''#'' \<notin> set v"
    "hd v \<noteq> CHR 0x22" "hd v \<noteq> CHR 0x27" by (auto simp: ini_val_ok_def)
  have "rstrip ((padded_key k @ ''= '') @ v) = (padded_key k @ ''= '') @ v"
    using vt by (intro rstrip_append_id) (auto simp: trimmed_def)
  then have strip: "strstrip (padded_key k @ ''= '' @ v) = Inr (padded_key k @ ''= '' @ v)"
    using len pk(5) by (simp add: strstrip_def ASCIILINESZ_def)
  obtain c v' where cv: "v = c # v'" using v(2) by (cases v) auto
  note sc = scan_key [OF pk(2)]
  have q: "sscanf (fmt_quoted q) (padded_key k @ ''= '' @ v) = [padded_key k]" if "hd v \<noteq> q" for q
    using that vt cv by (simp add: fmt_quoted_def trimmed_def sc pk(1))
  have tv: "takeWhile (\<lambda>c. c \<noteq> CHR '';'' \<and> c \<noteq> CHR ''#'') v = v"
    using vs by (auto simp: takeWhile_eq_all_conv)
  have "sscanf fmt_plain (padded_key k @ ''= '' @ v) = [padded_key k, v]"
    using vt v(2) by (simp add: fmt_plain_def trimmed_simps(1) sc pk(1) tv)
  moreover have "lower_strip (padded_key k) = Inr k"
    unfolding padded_key_def
    using k len by (intro lower_strip_padded) (auto simp: ini_key_ok_def padded_key_def)
  moreover have "strstrip v = Inr v"
    using vt len by (simp add: strstrip_def trimmed_simps ASCIILINESZ_def)
  moreover have "v \<noteq> [CHR 0x22, CHR 0x22]" "v \<noteq> [CHR 0x27, CHR 0x27]"
    using vs by auto
  ultimately show ?thesis
    using strip pk k q vs by (simp add: iniparser_line_def scan_assign_def ini_key_ok_def)
qed

subsection \<open>Files\<close>

lemma ini_load_line:
  assumes "one_line l" and "length l \<le> 1022" and "rstrip l = [] \<or> last (rstrip l) \<noteq> CHR 0x5C"
  shows "ini_load_loop m (l @ newline # rest) [] b d errs =
    cbind (iniparser_line (rstrip l) b) (\<lambda>(sta, b').
    cbind (ini_line_effect m d errs sta b') (\<lambda>(errs', d', m').
      if errs' < 0 then Inr (Some (d', errs'), m') else ini_load_loop m' rest [] b' d' errs'))"
proof -
  have "fgets 1024 (l @ newline # rest) = Some (l @ [newline], rest)"
    using assms(1,2) by (intro fgets_line) (auto simp: one_line_def)
  moreover have "takeWhile (\<lambda>c. c \<noteq> NUL) (l @ [newline]) = l @ [newline]"
    using assms(1) by (auto simp: takeWhile_eq_all_conv one_line_def newline_def NUL_def)
  moreover have "rstrip (l @ [newline]) = rstrip l"
    by (rule rstrip_snoc_space) (simp add: newline_def)
  ultimately show ?thesis
    using assms(3) by (subst ini_load_loop.simps) (auto simp: ASCIILINESZ_def Let_def)
qed

lemma ini_load_end [simp]: "ini_load_loop m [] [] b d errs = Inr (Some (d, errs), m)"
  by (subst ini_load_loop.simps) (simp add: fgets_def)

datatype ini_item = Blank | Sec string | Ent string string

fun item_text :: "ini_item \<Rightarrow> string" where
  "item_text Blank = [newline]"
| "item_text (Sec s) = ''['' @ s @ '']'' @ [newline]"
| "item_text (Ent k v) = entry_text k (Some v)"

definition ent_ok :: "string \<Rightarrow> string \<Rightarrow> string \<Rightarrow> bool" where
  "ent_ok s k v \<longleftrightarrow> ini_key_ok k \<and> ini_val_ok v \<and> length (padded_key k) + 2 + length v \<le> 1022
     \<and> length s + 1 + length k \<le> 1024"

fun items_ok :: "string \<Rightarrow> ini_item list \<Rightarrow> bool" where
  "items_ok s [] = True"
| "items_ok s (Blank # its) = items_ok s its"
| "items_ok s (Sec s' # its) = (ini_sec_ok s' \<and> items_ok s' its)"
| "items_ok s (Ent k v # its) = (ent_ok s k v \<and> items_ok s its)"

fun items_run :: "string \<Rightarrow> (string \<rightharpoonup> string option) \<Rightarrow> ini_item list \<Rightarrow> (string \<rightharpoonup> string option)" where
  "items_run s mp [] = mp"
| "items_run s mp (Blank # its) = items_run s mp its"
| "items_run s mp (Sec s' # its) = items_run s' (mp(s' \<mapsto> None)) its"
| "items_run s mp (Ent k v # its) = items_run s (mp(s @ '':'' @ k \<mapsto> Some v)) its"

text \<open>A bound on the capacity after \<open>c\<close> insertions, to know that growing does not overflow.\<close>

definition dict_cap :: "dictionary \<Rightarrow> nat \<Rightarrow> bool" where
  "dict_cap d c \<longleftrightarrow> d_n d \<le> int c \<and> d_size d \<le> max 128 (2 * c)"

lemma dict_cap_room: "dict_cap d c \<Longrightarrow> c < 2 ^ 26 \<Longrightarrow> dict_room d"
  by (auto simp: dict_cap_def dict_room_def int_max_def max_def split: if_splits)

lemma dict_cap_mono: "dict_cap d c \<Longrightarrow> c \<le> c' \<Longrightarrow> dict_cap d c'"
  by (auto simp: dict_cap_def)

lemma set_cap:
  assumes "dict_wf d" and "dict_cap d c" and "c < 2 ^ 26" and "no_fail m"
  shows "\<exists>d' m'. dictionary_set m (Some d) (Some k) v = Inr (0, Some d', m') \<and> dict_wf d'
    \<and> dict_cap d' (Suc c) \<and> no_fail m' \<and> dict_map d' = (dict_map d)(k \<mapsto> v)"
proof -
  from dictionary_set_ok [OF assms(1) dict_cap_room [OF assms(2,3)], of m k v] assms(4)
  obtain d' m' where r: "dictionary_set m (Some d) (Some k) v = Inr (0, Some d', m')" "dict_wf d'"
    "d_n d' \<le> d_n d + 1" "d_size d' = d_size d \<or> d_n d = int (d_size d) \<and> d_size d' = 2 * d_size d"
    "no_fail m'" "dict_map d' = (dict_map d)(k \<mapsto> v)" by auto
  have "dict_cap d' (Suc c)" using r(3,4) assms(2) by (auto simp: dict_cap_def)
  with r show ?thesis by blast
qed

lemma load_blank:
  "ini_load_loop m (item_text Blank @ rest) [] b d errs =
     (if errs < 0 then Inr (Some (d, errs), m) else ini_load_loop m rest [] b d errs)"
  using ini_load_line [of "[]" m rest b d errs]
  by (simp add: one_line_def blank_line ini_line_effect_def)

lemma load_section:
  assumes "ini_sec_ok s"
  shows "ini_load_loop m (item_text (Sec s) @ rest) [] b d errs =
    cbind (dictionary_set m (Some d) (Some s) None) (\<lambda>(r, dp, m').
      let d' = (case dp of Some d' \<Rightarrow> d' | None \<Rightarrow> d)
      in if r < 0 then Inr (Some (d', r), m') else ini_load_loop m' rest [] (b\<lparr>b_section := s\<rparr>) d' r)"
proof -
  note ok = assms [unfolded ini_sec_ok_def]
  have rs: "rstrip (''['' @ s @ '']'') = ''['' @ s @ '']''"
    using rstrip_append_id [of "'']''" "''['' @ s"] by (simp add: isspace_def)
  have "one_line (''['' @ s @ '']'')" using ok by (auto simp: one_line_def newline_def NUL_def)
  from ini_load_line [OF this, of m rest b d errs] ok rs section_line [OF assms, of b] show ?thesis
    by (cases "dictionary_set m (Some d) (Some s) None") (auto simp: ini_line_effect_def Let_def)
qed

lemma load_entry:
  assumes "ent_ok (b_section b) k v"
  shows "ini_load_loop m (item_text (Ent k v) @ rest) [] b d errs =
    cbind (dictionary_set m (Some d) (Some (b_section b @ '':'' @ k)) (Some v)) (\<lambda>(r, dp, m').
      let d' = (case dp of Some d' \<Rightarrow> d' | None \<Rightarrow> d)
      in if r < 0 then Inr (Some (d', r), m')
         else ini_load_loop m' rest [] (b\<lparr>b_key := k, b_value := v\<rparr>) d' r)"
proof -
  note ok = assms [unfolded ent_ok_def]
  let ?l = "padded_key k @ ''= '' @ v"
  have line: "item_text (Ent k v) = ?l @ [newline]" by (simp add: entry_text_padded)
  have ol: "one_line ?l"
    using ok padded_key_facts(4) [of k]
    by (auto simp: one_line_def ini_val_ok_def newline_def NUL_def)
  have "\<exists>l'. rstrip ?l = l' \<and> l' \<noteq> [] \<and> last l' \<noteq> CHR 0x5C
      \<and> iniparser_line l' b = Inr (LINE_VALUE, b\<lparr>b_key := k, b_value := v\<rparr>)"
  proof (cases "v = []")
    case True
    have "rstrip (padded_key k @ ''= '') = padded_key k @ ''=''"
      using rstrip_snoc_space [of "CHR '' ''" "padded_key k @ ''=''"]
        rstrip_append_id [of "''=''" "padded_key k"] by simp
    with True ok entry_line_empty [of k b] show ?thesis by simp
  next
    case False
    with ok have vt: "trimmed v" and "last v \<noteq> CHR 0x5C" by (auto simp: ini_val_ok_def)
    moreover from vt have "rstrip ((padded_key k @ ''= '') @ v) = (padded_key k @ ''= '') @ v"
      by (intro rstrip_append_id) (auto simp: trimmed_def)
    ultimately show ?thesis using False ok entry_line_value [of k v b] by simp
  qed
  with ini_load_line [OF ol, of m rest b d errs] ok line show ?thesis
    by (cases "dictionary_set m (Some d) (Some (b_section b @ '':'' @ k)) (Some v)")
      (auto simp: ini_line_effect_def Let_def ASCIILINESZ_def)
qed

lemma load_items:
  assumes "items_ok (b_section b) its" and "dict_wf d" and "no_fail m" and "dict_cap d c"
    and "c + length its < 2 ^ 26"
  shows "\<exists>d' m'. ini_load_loop m (concat (map item_text its)) [] b d 0 = Inr (Some (d', 0), m')
    \<and> dict_wf d' \<and> no_fail m' \<and> dict_cap d' (c + length its) \<and> dict_map d' = items_run (b_section b) (dict_map d) its"
  using assms
proof (induction its arbitrary: m b d c)
  case Nil
  then show ?case by simp
next
  case (Cons it its)
  from Cons.prems(5) have c: "c < 2 ^ 26" by simp
  show ?case
  proof (cases it)
    case Blank
    with Cons.prems dict_cap_mono [OF Cons.prems(4), of "Suc c"] Cons.IH [of b d m "Suc c"]
      load_blank [of m "concat (map item_text its)" b d 0]
    show ?thesis by simp
  next
    case (Sec s)
    with Cons.prems(1) have ok: "ini_sec_ok s" "items_ok s its" by simp_all
    from set_cap [OF Cons.prems(2,4) c Cons.prems(3), of s None] obtain d' m' where
      d': "dictionary_set m (Some d) (Some s) None = Inr (0, Some d', m')" "dict_wf d'" "dict_cap d' (Suc c)"
      "no_fail m'" "dict_map d' = (dict_map d)(s \<mapsto> None)" by blast
    with load_section [OF ok(1), of m "concat (map item_text its)" b d 0]
      ok Cons.prems(5) Cons.IH [of "b\<lparr>b_section := s\<rparr>" d' m' "Suc c"] Sec
    show ?thesis by (simp add: fun_upd_def)
  next
    case (Ent k v)
    with Cons.prems(1) have ok: "ent_ok (b_section b) k v" "items_ok (b_section b) its" by simp_all
    from set_cap [OF Cons.prems(2,4) c Cons.prems(3), of "b_section b @ '':'' @ k" "Some v"] obtain d' m' where
      d': "dictionary_set m (Some d) (Some (b_section b @ '':'' @ k)) (Some v) = Inr (0, Some d', m')" "dict_wf d'"
      "dict_cap d' (Suc c)" "no_fail m'" "dict_map d' = (dict_map d)(b_section b @ '':'' @ k \<mapsto> Some v)" by blast
    with load_entry [OF ok(1), of m "concat (map item_text its)" d 0]
      ok Cons.prems(5) Cons.IH [of "b\<lparr>b_key := k, b_value := v\<rparr>" d' m' "Suc c"] Ent
    show ?thesis by (simp add: fun_upd_def)
  qed
qed

subsection \<open>Dumping a dictionary and loading the dump\<close>

definition val_str :: "string option \<Rightarrow> string" where
  "val_str v = (case v of Some s \<Rightarrow> s | None \<Rightarrow> [])"

definition sec_of :: "string \<Rightarrow> string" where
  "sec_of k = takeWhile (\<lambda>c. c \<noteq> CHR '':'') k"

definition key_of :: "string \<Rightarrow> string" where
  "key_of k = tl (dropWhile (\<lambda>c. c \<noteq> CHR '':'') k)"

text \<open>
  Dictionaries an ini file can represent: section names, and the entries of the
  sections that are keys themselves, are expressible. Entries of other
  sections are not written as long as there is some section.
\<close>

definition ini_dict_ok :: "dictionary \<Rightarrow> bool" where
  "ini_dict_ok d = ((\<forall>(k, v)\<in>set (dict_entries d).
     if is_section k then ini_sec_ok k
     else sec_of k \<in> set (ini_sections d) \<longrightarrow> ent_ok (sec_of k) (key_of k) (val_str v))
   \<and> (ini_sections d = [] \<longrightarrow> dict_entries d = []))"

text \<open>A section comes back with a NULL value, an entry whose value is NULL with an empty one.\<close>

definition reload_value :: "string \<Rightarrow> string option \<Rightarrow> string option" where
  "reload_value k v = (if is_section k then None else Some (val_str v))"

text \<open>What a dump keeps of a mapping: the sections, and the entries of sections.\<close>

definition reload_map :: "(string \<rightharpoonup> string option) \<Rightarrow> (string \<rightharpoonup> string option)" where
  "reload_map mp k =
     (if is_section k \<or> mp (sec_of k) \<noteq> None then map_option (reload_value k) (mp k) else None)"

lemma is_section_sec_of [simp]: "is_section (sec_of k)"
  unfolding is_section_def sec_of_def using set_takeWhileD by fastforce

lemma sec_of_section [simp]: "is_section k \<Longrightarrow> sec_of k = k"
  unfolding is_section_def sec_of_def by (rule takeWhile_eq_all_conv [THEN iffD2]) blast

definition block_items :: "dictionary \<Rightarrow> string \<Rightarrow> ini_item list" where
  "block_items d s = Blank # Sec s #
     map (\<lambda>(k, v). Ent (drop (length s + 1) k) (val_str v)) (section_entries s (dict_entries d))"

definition ini_items :: "dictionary \<Rightarrow> string list \<Rightarrow> ini_item list" where
  "ini_items d ss = concat (map (block_items d) ss) @ [Blank]"

lemma entry_text_val_str: "entry_text k v = entry_text k (Some (val_str v))"
  by (cases v) (simp_all add: entry_text_def val_str_def)

lemma block_items_text: "concat (map item_text (block_items d s)) = block_text d s"
proof -
  have "concat (map (item_text \<circ> (\<lambda>(k, v). Ent (drop (Suc (length s)) k) (val_str v))) es)
      = concat (map (\<lambda>(k, v). entry_text (drop (Suc (length s)) k) v) es)" for es
    by (induction es) (auto simp: entry_text_val_str [symmetric])
  then show ?thesis by (simp add: block_items_def block_text_def section_text_def)
qed

lemma ini_items_text: "concat (map item_text (ini_items d ss)) = concat (map (block_text d) ss) @ [newline]"
  by (induction ss) (simp_all add: ini_items_def block_items_text)

text \<open>A key with this section prefix has this section, and conversely.\<close>

lemma prefix_section:
  assumes "is_section s"
  shows "prefix_of (s @ '':'') k \<longleftrightarrow> \<not> is_section k \<and> sec_of k = s"
proof
  assume "prefix_of (s @ '':'') k"
  then obtain t where k: "k = s @ CHR '':'' # t" by (auto simp: prefix_of_iff)
  with assms show "\<not> is_section k \<and> sec_of k = s"
    by (auto simp: is_section_def sec_of_def takeWhile_append)
next
  assume a: "\<not> is_section k \<and> sec_of k = s"
  have "k = sec_of k @ dropWhile (\<lambda>c. c \<noteq> CHR '':'') k" by (simp add: sec_of_def)
  moreover obtain c t where ct: "dropWhile (\<lambda>c. c \<noteq> CHR '':'') k = c # t"
    using a by (cases "dropWhile (\<lambda>c. c \<noteq> CHR '':'') k") (auto simp: is_section_def dropWhile_eq_Nil_conv)
  moreover from ct have "c = CHR '':''" by (metis (full_types) hd_dropWhile list.discI list.sel(1))
  ultimately have "k = s @ '':'' @ t" using a by simp
  then show "prefix_of (s @ '':'') k" by (auto simp: prefix_of_iff)
qed

lemma section_key_split:
  assumes "is_section s" and "prefix_of (s @ '':'') k"
  shows "drop (length s + 1) k = key_of k" and "s @ '':'' @ key_of k = k"
proof -
  obtain t where k: "k = s @ CHR '':'' # t" using assms(2) by (auto simp: prefix_of_iff)
  have "dropWhile (\<lambda>c. c \<noteq> CHR '':'') k = CHR '':'' # t"
    using assms(1) k by (auto simp: is_section_def dropWhile_append)
  with k show "drop (length s + 1) k = key_of k" "s @ '':'' @ key_of k = k" by (auto simp: key_of_def)
qed

lemma block_items_keys:
  assumes "is_section s"
  shows "block_items d s = Blank # Sec s #
    map (\<lambda>(k, v). Ent (key_of k) (val_str v)) (section_entries s (dict_entries d))"
  using section_key_split(1) [OF assms] by (auto simp: section_entries_def block_items_def)

text \<open>What the items of a dump write, and that they satisfy the side conditions of parsing.\<close>

fun items_updates :: "string \<Rightarrow> ini_item list \<Rightarrow> (string \<times> string option) list" where
  "items_updates s [] = []"
| "items_updates s (Blank # its) = items_updates s its"
| "items_updates s (Sec s' # its) = (s', None) # items_updates s' its"
| "items_updates s (Ent k v # its) = (s @ '':'' @ k, Some v) # items_updates s its"

lemma items_run_updates:
  assumes "\<forall>(x, w)\<in>set (items_updates s its). f x = Some w"
  shows "items_run s mp its x = (if x \<in> fst ` set (items_updates s its) then f x else mp x)"
  using assms
proof (induction s mp its rule: items_run.induct)
  case (3 s mp s' its)
  then show ?case by (cases "x = s'") (auto simp: image_iff fun_upd_def)
next
  case (4 s mp k v its)
  then show ?case by (cases "x = s @ '':'' @ k") (auto simp: image_iff fun_upd_def)
qed auto

lemma items_updates_entries:
  "items_updates s (map (\<lambda>(k, v). Ent (key_of k) (val_str v)) es @ its)
    = map (\<lambda>(k, v). (s @ '':'' @ key_of k, Some (val_str v))) es @ items_updates s its"
  by (induction es) auto

lemma items_ok_entries:
  "(\<forall>(k, v)\<in>set es. ent_ok s (key_of k) (val_str v)) \<Longrightarrow> items_ok s its \<Longrightarrow>
   items_ok s (map (\<lambda>(k, v). Ent (key_of k) (val_str v)) es @ its)"
  by (induction es) auto

lemma ini_items_updates:
  assumes "\<forall>s\<in>set ss. is_section s"
  shows "set (items_updates c (ini_items d ss)) = {(s, None) |s. s \<in> set ss}
    \<union> {(k, Some (val_str v)) |k v. (k, v) \<in> set (dict_entries d) \<and> \<not> is_section k \<and> sec_of k \<in> set ss}"
  using assms
proof (induction ss arbitrary: c)
  case Nil
  then show ?case by (simp add: ini_items_def)
next
  case (Cons s ss)
  then have sec: "is_section s" by simp
  have "set (map (\<lambda>(k, v). (s @ '':'' @ key_of k, Some (val_str v))) (section_entries s (dict_entries d)))
      = {(k, Some (val_str v)) |k v. (k, v) \<in> set (dict_entries d) \<and> \<not> is_section k \<and> sec_of k = s}"
  proof -
    have "map (\<lambda>(k, v). (s @ '':'' @ key_of k, Some (val_str v))) (section_entries s (dict_entries d))
        = map (\<lambda>(k, v). (k, Some (val_str v))) (section_entries s (dict_entries d))"
      using section_key_split(2) [OF sec] by (auto simp: section_entries_def)
    also have "set \<dots> = {(k, Some (val_str v)) |k v. (k, v) \<in> set (dict_entries d) \<and> \<not> is_section k \<and> sec_of k = s}"
      by (auto simp: section_entries_def prefix_section [OF sec] image_iff)
    finally show ?thesis .
  qed
  with Cons show ?case
    by (auto simp: ini_items_def block_items_keys [OF sec] items_updates_entries)
qed

lemma ini_items_ok:
  assumes "ini_dict_ok d" and "set ss \<subseteq> set (ini_sections d)"
  shows "items_ok c (ini_items d ss)"
  using assms(2)
proof (induction ss arbitrary: c)
  case Nil
  then show ?case by (simp add: ini_items_def)
next
  case (Cons s ss)
  then have sec: "is_section s" "s \<in> set (map fst (dict_entries d))" by (auto simp: ini_sections_def)
  have "ini_sec_ok s" using assms(1) sec by (auto simp: ini_dict_ok_def)
  moreover have "\<forall>(k, v)\<in>set (section_entries s (dict_entries d)). ent_ok s (key_of k) (val_str v)"
    using assms(1) prefix_section [OF sec(1)] Cons.prems by (fastforce simp: ini_dict_ok_def section_entries_def)
  ultimately show ?case
    using Cons by (simp add: ini_items_def block_items_keys [OF sec(1)] items_ok_entries)
qed

text \<open>The number of items of a dump is bounded by the number of slots.\<close>

lemma sum_filter_le:
  assumes "distinct ss" and "\<And>s e. P s e \<Longrightarrow> f e = s"
  shows "(\<Sum>s\<leftarrow>ss. length (filter (P s) es)) \<le> length es"
proof (induction es)
  case Nil
  then show ?case by (induction ss) simp_all
next
  case (Cons e es)
  have "(\<Sum>s\<leftarrow>ss'. length (filter (P s) (e # es)))
      = length (filter (\<lambda>s. P s e) ss') + (\<Sum>s\<leftarrow>ss'. length (filter (P s) es))" for ss'
    by (induction ss') simp_all
  moreover have "set (filter (\<lambda>s. P s e) ss) \<subseteq> {f e}" using assms(2) by auto
  then have "length (filter (\<lambda>s. P s e) ss) \<le> 1"
    using assms(1) distinct_card [of "filter (\<lambda>s. P s e) ss"]
      card_mono [of "{f e}" "set (filter (\<lambda>s. P s e) ss)"] by simp
  ultimately show ?case using Cons by simp
qed

lemma ini_sections_distinct: "dict_wf d \<Longrightarrow> distinct (ini_sections d)"
  by (simp add: ini_sections_def dict_entries_facts distinct_filter)

lemma length_entries: "length (entries ks vs) \<le> length ks"
  by (induction ks vs rule: entries.induct) auto

lemma ini_items_length:
  assumes "dict_wf d"
  shows "length (ini_items d (ini_sections d)) \<le> 3 * length (dict_entries d) + 1"
proof -
  have len: "length (ini_items d ss) = 2 * length ss + (\<Sum>s\<leftarrow>ss. length (section_entries s (dict_entries d))) + 1" for ss
    by (induction ss) (simp_all add: ini_items_def block_items_def)
  have "section_entries s es = filter (\<lambda>e. is_section s \<and> prefix_of (s @ '':'') (fst e)) es"
    if "s \<in> set (ini_sections d)" for s es
    using that by (simp add: ini_sections_def section_entries_def)
  then have "(\<Sum>s\<leftarrow>ini_sections d. length (section_entries s (dict_entries d)))
      = (\<Sum>s\<leftarrow>ini_sections d. length (filter (\<lambda>e. is_section s \<and> prefix_of (s @ '':'') (fst e)) (dict_entries d)))"
    by (intro arg_cong [of _ _ sum_list] map_cong) auto
  also have "\<dots> \<le> length (dict_entries d)"
    by (rule sum_filter_le [OF ini_sections_distinct [OF assms], of _ "\<lambda>e. sec_of (fst e)"])
      (use prefix_section in blast)
  finally have "(\<Sum>s\<leftarrow>ini_sections d. length (section_entries s (dict_entries d))) \<le> length (dict_entries d)" .
  moreover have "length (ini_sections d) \<le> length (dict_entries d)"
    using length_filter_le [of is_section "map fst (dict_entries d)"] by (simp add: ini_sections_def)
  ultimately show ?thesis by (simp add: len)
qed

lemma dump_keys_loop_empty:
  assumes "dict_arrays d" and "i \<le> d_size d" and "entries_from d i = []"
  shows "dump_keys_loop d i = Inr []"
  using assms(2,3)
proof (induction i rule: inc_induct)
  case base
  show ?case using assms(1) by (subst dump_keys_loop.simps) simp
next
  case (step i)
  with assms(1) [unfolded dict_arrays_def] show ?case
    by (subst dump_keys_loop.simps, cases "d_key d ! i") (simp_all add: entries_drop_step [OF assms(1)])
qed

lemma no_sections_empty: "ini_dict_ok d \<Longrightarrow> ini_sections d = [] \<Longrightarrow> dict_entries d = []"
  by (simp add: ini_dict_ok_def)

lemma ini_dump_text:
  assumes "dict_wf d" and "ini_dict_ok d"
  shows "iniparser_dump_ini (Some d) = Inr (if ini_sections d = [] then []
    else concat (map item_text (ini_items d (ini_sections d))))"
proof (cases "ini_sections d = []")
  case True
  with no_sections_empty [OF assms(2)] dump_keys_loop_empty [of d 0] dict_wf_arrays [OF assms(1)]
  show ?thesis by (simp add: iniparser_dump_ini_def iniparser_getnsec_eq [OF assms(1)])
next
  case False
  have "\<forall>s\<in>set (ini_sections d). length s < ASCIILINESZ"
    using assms(2) by (fastforce simp: ini_dict_ok_def ini_sections_def ini_sec_ok_def ASCIILINESZ_def)
  from dump_ini_eq [OF assms(1) this False] False show ?thesis by (simp add: ini_items_text)
qed

lemma ini_items_map:
  assumes "dict_wf d" and "ini_dict_ok d"
  shows "items_run c Map.empty (ini_items d (ini_sections d)) k = reload_map (dict_map d) k"
proof -
  let ?f = "reload_map (dict_map d)"
  let ?U = "set (items_updates c (ini_items d (ini_sections d)))"
  have secs: "\<forall>s\<in>set (ini_sections d). is_section s" by (simp add: ini_sections_def)
  have ent: "dict_map d k = Some v \<longleftrightarrow> (k, v) \<in> set (dict_entries d)" for k v
    by (rule dict_entries_facts(2) [OF assms(1)])
  have secD: "s \<in> set (ini_sections d) \<longleftrightarrow> is_section s \<and> (\<exists>v. (s, v) \<in> set (dict_entries d))" for s
    by (force simp: ini_sections_def)
  have secM: "s \<in> set (ini_sections d) \<longleftrightarrow> is_section s \<and> dict_map d s \<noteq> None" for s
    using secD ent by blast
  have "\<forall>(x, w)\<in>?U. ?f x = Some w"
    unfolding ini_items_updates [OF secs] using ent secM by (auto simp: reload_map_def reload_value_def)
  moreover have "?f x = None" if "x \<notin> fst ` ?U" for x
  proof (rule ccontr)
    assume "?f x \<noteq> None"
    then obtain v where v: "dict_map d x = Some v" "is_section x \<or> dict_map d (sec_of x) \<noteq> None"
      by (auto simp: reload_map_def split: if_splits)
    then have "x \<in> set (ini_sections d) \<or> \<not> is_section x \<and> sec_of x \<in> set (ini_sections d)"
      by (auto simp: secM)
    with v(1) have "(x, None) \<in> ?U \<or> (x, Some (val_str v)) \<in> ?U"
      unfolding ini_items_updates [OF secs] using ent by blast
    then have "x \<in> fst ` ?U" by (auto simp: image_iff Bex_def)
    with that show False by contradiction
  qed
  ultimately show ?thesis
    using items_run_updates [of c "ini_items d (ini_sections d)" ?f Map.empty k] by (auto split: if_splits)
qed

lemma dump_load_ok:
  assumes "dict_wf d" and "ini_dict_ok d" and "length (dict_entries d) < 2 ^ 24" and "no_fail m"
  shows "\<exists>out d' m'. iniparser_dump_ini (Some d) = Inr out
    \<and> iniparser_load m (Some out) = Inr (Some d', m') \<and> dict_wf d' \<and> no_fail m'
    \<and> dict_cap d' (3 * length (dict_entries d) + 1) \<and> dict_map d' = reload_map (dict_map d)"
proof -
  define its where "its = (if ini_sections d = [] then [] else ini_items d (ini_sections d))"
  let ?b = "\<lparr>b_section = [], b_key = [], b_value = []\<rparr>"
  have out: "iniparser_dump_ini (Some d) = Inr (concat (map item_text its))"
    by (simp add: ini_dump_text [OF assms(1,2)] its_def)
  from dictionary_new_ok [OF assms(4), of 0] obtain d0 m0 where new:
    "dictionary_new m 0 = (Some d0, m0)" "dict_wf d0" "dict_map d0 = Map.empty" "no_fail m0"
    "d_n d0 = 0" "d_size d0 = 128" by auto
  have len: "length its \<le> 3 * length (dict_entries d) + 1"
    using ini_items_length [OF assms(1)] by (simp add: its_def)
  have "items_ok (b_section ?b) its" using ini_items_ok [OF assms(2)] by (simp add: its_def)
  moreover have "dict_cap d0 0" using new by (simp add: dict_cap_def)
  moreover have "0 + length its < 2 ^ 26" using len assms(3) by simp
  ultimately obtain d' m' where load:
    "ini_load_loop m0 (concat (map item_text its)) [] ?b d0 0 = Inr (Some (d', 0), m')"
    "dict_wf d'" "dict_map d' = items_run [] Map.empty its" "no_fail m'" "dict_cap d' (length its)"
    using load_items [of ?b its d0 m0 0] new by auto
  have "items_run [] Map.empty its k = reload_map (dict_map d) k" for k
    using ini_items_map [OF assms(1,2), of "[]" k] no_sections_empty [OF assms(2)]
    by (simp add: its_def dict_map_def reload_map_def)
  then have "dict_map d' = reload_map (dict_map d)" using load(3) by auto
  with out load new dict_cap_mono [OF load(5) len] show ?thesis by (simp add: iniparser_load_def)
qed

subsection \<open>Properties\<close>

definition ex_ini :: dictionary where
  "ex_ini = \<lparr>d_n = 3, d_size = 4, d_val = [None, Some ''10.0.0.1'', None, None],
     d_key = [Some ''net'', Some ''net:ip'', None, Some ''net:dns''],
     d_hash = [dictionary_hash ''net'', dictionary_hash ''net:ip'', 0, dictionary_hash ''net:dns'']\<rparr>"

text \<open>
  C9. Writing a dictionary with \<^verbatim>\<open>iniparser_dump_ini\<close> and loading the file with
  \<^verbatim>\<open>iniparser_load\<close> gives back the same keys and values, for every dictionary an
  ini file can represent: both functions return without a fault, sections keep
  their NULL value, an entry with a NULL value comes back with the empty string,
  and exactly the entries whose section is not itself a key are lost.
\<close>

theorem ini_dump_load:
  assumes "dict_wf d" and "ini_dict_ok d" and "length (dict_entries d) < 2 ^ 24" and "no_fail m"
  shows "\<exists>out d' m'. iniparser_dump_ini (Some d) = Inr out
    \<and> iniparser_load m (Some out) = Inr (Some d', m') \<and> dict_wf d'
    \<and> dict_map d' = reload_map (dict_map d)"
  using dump_load_ok [OF assms] by blast

theorem ini_dump_load_witness:
  "dict_wf ex_ini \<and> ini_dict_ok ex_ini \<and>
   (\<exists>out d' m'. iniparser_dump_ini (Some ex_ini) = Inr out
    \<and> iniparser_load [] (Some out) = Inr (Some d', m') \<and> dict_wf d'
    \<and> dict_map d' = reload_map (dict_map ex_ini))"
proof -
  have "dict_wf ex_ini"
    by (simp add: ex_ini_def dict_wf_def dict_arrays_def keys_distinct_def hashes_ok_def less_Suc_eq numeral_eq_Suc)
  moreover have "ini_dict_ok ex_ini" by code_simp
  ultimately show ?thesis using ini_dump_load [of ex_ini "[]"] by (simp add: ex_ini_def no_fail_def dict_entries_def)
qed

end
