(* ===== verification/IniSafety.thy ===== *)
theory IniSafety
  imports IniRoundtrip
begin

text \<open>
  Memory safety of \<^const>\<open>iniparser_load\<close> on arbitrary files. The buffers of the line
  parser always suffice, continuation lines never exhaust the line buffer, and
  the dictionary stays well-formed; the only write that can leave its buffer is
  the \<^verbatim>\<open>sprintf\<close> that joins a section and a key, and it cannot when no line is
  longer than 511 characters.
\<close>

subsection \<open>Bounds on the line buffers\<close>

definition bufs_le :: "nat \<Rightarrow> line_bufs \<Rightarrow> bool" where
  "bufs_le n b \<longleftrightarrow> length (b_section b) \<le> n \<and> length (b_key b) \<le> n \<and> length (b_value b) \<le> n"

lemma strstrip_ok:
  assumes "length s \<le> n" and "n \<le> ASCIILINESZ"
  shows "\<exists>t. strstrip s = Inr t \<and> length t \<le> n"
proof -
  have "length (rstrip (dropWhile isspace s)) \<le> n"
    using assms(1) length_dropWhile_le [of isspace s] length_rstrip [of "dropWhile isspace s"] by linarith
  then show ?thesis using assms length_dropWhile_le [of isspace s] by (simp add: strstrip_def Let_def)
qed

lemma lower_strip_ok:
  "length s \<le> n \<Longrightarrow> n \<le> ASCIILINESZ \<Longrightarrow> \<exists>t. lower_strip s = Inr t \<and> length t \<le> n"
  using strstrip_ok [of s n] by (auto simp: lower_strip_def)

lemma scan_first_le:
  "length line \<le> n \<Longrightarrow> bufs_le n b \<Longrightarrow> bufs_le n (snd (scan_first fs line b))"
proof (induction fs line b rule: scan_first.induct)
  case (2 f fs line b)
  have "\<forall>w\<in>set (sscanf f line). length w \<le> n" using sscanf_length 2(2) by fastforce
  then have "bufs_le n (scan_assign (sscanf f line) b)"
    using 2(3) by (auto simp: bufs_le_def scan_assign_def split: list.split)
  with 2 show ?case by (simp add: Let_def)
qed simp

lemma section_scan_le:
  assumes "length line \<le> n" and "bufs_le n b"
  shows "length (case sscanf fmt_section line of [] \<Rightarrow> b_section b | s # _ \<Rightarrow> s) \<le> n"
proof (cases "sscanf fmt_section line")
  case Nil
  then show ?thesis using assms(2) by (simp add: bufs_le_def)
next
  case (Cons w ws)
  then show ?thesis using sscanf_length [of w fmt_section line] assms(1) by simp
qed

lemma iniparser_line_ok:
  assumes "length l \<le> n" and "n \<le> ASCIILINESZ" and "bufs_le n b"
  shows "\<exists>sta b'. iniparser_line l b = Inr (sta, b') \<and> bufs_le n b'"
proof -
  obtain line where line: "strstrip l = Inr line" "length line \<le> n"
    using strstrip_ok [OF assms(1,2)] by blast
  obtain f1 b1 where s1: "scan_first [fmt_quoted (CHR 0x22), fmt_quoted (CHR 0x27), fmt_plain] line b = (f1, b1)"
    by fastforce
  obtain f2 b2 where s2: "scan_first [fmt_comment, fmt_bare] line b1 = (f2, b2)" by fastforce
  have b1: "bufs_le n b1" using scan_first_le [OF line(2) assms(3)] s1 by (metis snd_conv)
  have b2: "bufs_le n b2" using scan_first_le [OF line(2) b1] s2 by (metis snd_conv)
  obtain sec where "lower_strip (case sscanf fmt_section line of [] \<Rightarrow> b_section b | s # _ \<Rightarrow> s) = Inr sec"
    "length sec \<le> n"
    using lower_strip_ok [OF section_scan_le [OF line(2) assms(3)] assms(2)] by blast
  moreover obtain k1 where "lower_strip (b_key b1) = Inr k1" "length k1 \<le> n"
    using lower_strip_ok [OF _ assms(2), of "b_key b1"] b1 by (auto simp: bufs_le_def)
  moreover obtain v1 where "strstrip (b_value b1) = Inr v1" "length v1 \<le> n"
    using strstrip_ok [OF _ assms(2), of "b_value b1"] b1 by (auto simp: bufs_le_def)
  moreover obtain k2 where "lower_strip (b_key b2) = Inr k2" "length k2 \<le> n"
    using lower_strip_ok [OF _ assms(2), of "b_key b2"] b2 by (auto simp: bufs_le_def)
  ultimately show ?thesis
    using line(1) s1 s2 b1 b2 assms(3)
    by (simp add: iniparser_line_def Let_def bufs_le_def del: scan_first.simps)
qed

subsection \<open>The read loop\<close>

text \<open>No stretch of the file without a newline is longer than \<open>n\<close>.\<close>

definition short_lines :: "nat \<Rightarrow> string \<Rightarrow> bool" where
  "short_lines n file \<longleftrightarrow> (\<forall>a l b. file = a @ l @ b \<longrightarrow> newline \<notin> set l \<longrightarrow> length l \<le> n)"

lemma short_lines_suffix: "short_lines n (a @ s) \<Longrightarrow> short_lines n s"
  unfolding short_lines_def by (metis append.assoc)

lemma short_lines_length: "length file \<le> n \<Longrightarrow> short_lines n file"
  by (auto simp: short_lines_def)

lemma fgets_take_newline: "fgets_take k s = (a, b) \<Longrightarrow> newline \<notin> set (butlast a)"
  by (induction k s arbitrary: a b rule: fgets_take.induct) (auto split: if_splits prod.splits)

lemma fgets_facts:
  assumes "fgets n s = Some (a, b)"
  shows "s = a @ b" "newline \<notin> set (butlast a)" "length a < n" "a \<noteq> []"
proof -
  from assms have f: "fgets_take (n - 1) s = (a, b)" by (simp add: fgets_def split: if_splits)
  show "s = a @ b" by (rule fgets_take_append [OF f])
  then show "a \<noteq> []" using fgets_shorter [OF assms] by auto
  show "newline \<notin> set (butlast a)" by (rule fgets_take_newline [OF f])
  show "length a < n" by (rule fgets_length [OF assms])
qed

lemma ini_line_effect_ok:
  assumes "dict_wf d" and "dict_cap d c" and "c < 2 ^ 26" and "no_fail m"
  shows "(\<exists>errs' d' m'. ini_line_effect m d errs sta b = Inr (errs', d', m')
      \<and> dict_wf d' \<and> dict_cap d' (Suc c) \<and> no_fail m')
    \<or> ini_line_effect m d errs sta b = Inl KeyOverflow \<and> ASCIILINESZ < length (b_section b) + 1 + length (b_key b)"
proof -
  have cap: "dict_cap d (Suc c)" using assms(2) by (rule dict_cap_mono) simp
  obtain d1 m1 where "dictionary_set m (Some d) (Some (b_section b)) None = Inr (0, Some d1, m1)"
    "dict_wf d1" "dict_cap d1 (Suc c)" "no_fail m1" using set_cap [OF assms] by blast
  moreover obtain d2 m2 where
    "dictionary_set m (Some d) (Some (b_section b @ '':'' @ b_key b)) (Some (b_value b)) = Inr (0, Some d2, m2)"
    "dict_wf d2" "dict_cap d2 (Suc c)" "no_fail m2" using set_cap [OF assms] by blast
  ultimately show ?thesis
    using assms cap by (cases sta) (auto simp: ini_line_effect_def)
qed

text \<open>
  What holds between the iterations of the read loop. With \<open>short\<close>, the file
  has short lines only and no continuation line.
\<close>

definition loop_inv :: "bool \<Rightarrow> nat \<Rightarrow> mem \<Rightarrow> string \<Rightarrow> string \<Rightarrow> line_bufs \<Rightarrow> dictionary \<Rightarrow> bool" where
  "loop_inv short c m input pre b d \<longleftrightarrow> NUL \<notin> set input \<and> length pre \<le> 1021 \<and> dict_wf d \<and> dict_cap d c
     \<and> c + length input < 2 ^ 26 \<and> no_fail m \<and> bufs_le 1023 b
     \<and> (short \<longrightarrow> CHR 0x5C \<notin> set input \<and> pre = [] \<and> bufs_le 511 b \<and> short_lines 511 input)"

definition loop_result :: "bool \<Rightarrow> ((dictionary \<times> int) option \<times> mem) cres \<Rightarrow> bool" where
  "loop_result short r = (case r of
     Inl f \<Rightarrow> f = KeyOverflow \<and> \<not> short
   | Inr (res, m) \<Rightarrow> (case res of None \<Rightarrow> True | Some (d, errs) \<Rightarrow> dict_wf d))"

lemma rstrip_newline_shorter:
  assumes "line \<noteq> []" and "last line = newline"
  shows "length (rstrip line) < length line"
proof -
  have "rstrip (butlast line @ [newline]) = rstrip (butlast line)" by (simp add: newline_def)
  then have "rstrip line = rstrip (butlast line)" using assms append_butlast_last_id by metis
  moreover have "0 < length line" using assms(1) by simp
  ultimately show ?thesis using length_rstrip [of "butlast line"] by (simp del: length_rstrip length_greater_0_conv)
qed

lemma set_rstrip: "set (rstrip s) \<subseteq> set s"
  using set_dropWhileD [of _ isspace "rev s"] by (auto simp: rstrip_def)

text \<open>One iteration on a line that ends with a newline.\<close>

lemma ini_load_newline:
  assumes "fgets (ASCIILINESZ - length pre) input = Some (chunk, rest)" and "NUL \<notin> set chunk"
    and "last chunk = newline" and "l = rstrip (pre @ chunk)"
  shows "ini_load_loop m input pre b d errs =
    (if l \<noteq> [] \<and> last l = CHR 0x5C then ini_load_loop m rest (butlast l) b d errs
     else cbind (iniparser_line l b) (\<lambda>(sta, b').
          cbind (ini_line_effect m d errs sta b') (\<lambda>(errs', d', m').
            if errs' < 0 then Inr (Some (d', errs'), m') else ini_load_loop m' rest [] b' d' errs')))"
proof -
  have tw: "takeWhile (\<lambda>c. c \<noteq> NUL) chunk = chunk" using assms(2) by (auto simp: takeWhile_eq_all_conv)
  from assms fgets_facts(4) [OF assms(1)] show ?thesis
    by (subst ini_load_loop.simps) (simp add: tw Let_def)
qed

lemma short_line_le:
  assumes "short_lines n (chunk @ rest)" and "newline \<notin> set (butlast chunk)" and "last chunk = newline"
    and "chunk \<noteq> []"
  shows "length (rstrip chunk) \<le> n"
proof -
  have "chunk @ rest = [] @ butlast chunk @ last chunk # rest" using assms(4) by simp
  with assms(1,2) have "length (butlast chunk) \<le> n" unfolding short_lines_def by blast
  with rstrip_newline_shorter [OF assms(4,3)] show ?thesis by simp
qed

text \<open>
  The iteration keeps the invariant, or ends the loop well, or overflows the
  buffer of the joined key.
\<close>

lemma ini_load_step_safe:
  assumes pre: "loop_inv short c m input pre b d"
    and fg: "fgets (ASCIILINESZ - length pre) input = Some (chunk, rest)"
    and ff: "input = chunk @ rest" "newline \<notin> set (butlast chunk)" "length chunk < ASCIILINESZ - length pre" "chunk \<noteq> []"
    and nul: "NUL \<notin> set chunk" and nl: "last chunk = newline"
    and rec: "\<And>c m pre b d errs. loop_inv short c m rest pre b d \<Longrightarrow> loop_result short (ini_load_loop m rest pre b d errs)"
  shows "loop_result short (ini_load_loop m input pre b d errs)"
proof -
  note inv = pre [unfolded loop_inv_def]
  define l where "l = rstrip (pre @ chunk)"
  note step = ini_load_newline [OF fg nul nl l_def, of m b d errs]
  have l: "length l \<le> 1022"
    using rstrip_newline_shorter [of "pre @ chunk"] ff(3,4) nl by (simp add: l_def ASCIILINESZ_def)
  have ls: "short \<Longrightarrow> length l \<le> 511 \<and> CHR 0x5C \<notin> set l"
    using short_line_le [of 511 chunk rest] ff nl inv set_rstrip [of chunk] by (auto simp: l_def)
  have rest: "NUL \<notin> set rest" "Suc c + length rest < 2 ^ 26" "short \<Longrightarrow> CHR 0x5C \<notin> set rest \<and> short_lines 511 rest"
    using inv ff short_lines_suffix [of 511 chunk rest] by (auto simp: Suc_le_eq neq_Nil_conv)
  show ?thesis
  proof (cases "l \<noteq> [] \<and> last l = CHR 0x5C")
    case True
    with ls have "\<not> short" by (metis last_in_set)
    then have "loop_inv short c m rest (butlast l) b d"
      using inv l rest by (auto simp: loop_inv_def)
    with rec step True show ?thesis by simp
  next
    case False
    obtain sta b' where line: "iniparser_line l b = Inr (sta, b')" "bufs_le 1023 b'"
      using iniparser_line_ok [of l 1023 b] l inv by (auto simp: ASCIILINESZ_def)
    have sb: "short \<Longrightarrow> bufs_le 511 b'"
      using iniparser_line_ok [of l 511 b] ls inv line by (auto simp: ASCIILINESZ_def)
    have c: "c < 2 ^ 26" using rest(2) by simp
    from inv have d: "dict_wf d" "dict_cap d c" "no_fail m" by simp_all
    consider (ok) errs' d' m' where "ini_line_effect m d errs sta b' = Inr (errs', d', m')" "dict_wf d'"
        "dict_cap d' (Suc c)" "no_fail m'"
      | (overflow) "ini_line_effect m d errs sta b' = Inl KeyOverflow"
        "ASCIILINESZ < length (b_section b') + 1 + length (b_key b')"
      using ini_line_effect_ok [OF d(1,2) c d(3), of errs sta b'] by blast
    then show ?thesis
    proof cases
      case ok
      then have "loop_inv short (Suc c) m' rest [] b' d'"
        using rest line sb by (simp add: loop_inv_def)
      with rec ok step False line show ?thesis by (auto simp: loop_result_def)
    next
      case overflow
      then have "\<not> short" using sb by (auto simp: bufs_le_def ASCIILINESZ_def)
      with overflow step False line show ?thesis by (simp add: loop_result_def)
    qed
  qed
qed

lemma ini_load_loop_safe:
  "loop_inv short c m input pre b d \<Longrightarrow> loop_result short (ini_load_loop m input pre b d errs)"
proof (induction "length input" arbitrary: c m input pre b d errs rule: less_induct)
  case less
  note inv = less.prems [unfolded loop_inv_def]
  show ?case
  proof (cases "fgets (ASCIILINESZ - length pre) input")
    case None
    then show ?thesis using inv by (subst ini_load_loop.simps) (simp add: loop_result_def)
  next
    case (Some p)
    then obtain chunk rest where fg: "fgets (ASCIILINESZ - length pre) input = Some (chunk, rest)" by (cases p) auto
    note ff = fgets_facts [OF fg]
    have nul: "NUL \<notin> set chunk" using inv ff(1) by simp
    then have tw: "takeWhile (\<lambda>c. c \<noteq> NUL) chunk = chunk" by (auto simp: takeWhile_eq_all_conv)
    show ?thesis
    proof (cases "last chunk = newline")
      case False
      then show ?thesis using fg ff(4) inv
        by (subst ini_load_loop.simps) (simp add: tw Let_def loop_result_def dictionary_del_ok)
    next
      case True
      show ?thesis by (rule ini_load_step_safe [OF less.prems fg ff nul True]) (auto intro: less.hyps fgets_shorter [OF fg])
    qed
  qed
qed

lemma load_result:
  assumes "NUL \<notin> set input" and "length input < 2 ^ 26" and "no_fail m"
    and "short \<longrightarrow> CHR 0x5C \<notin> set input \<and> short_lines 511 input"
  shows "(\<exists>r m'. iniparser_load m (Some input) = Inr (r, m') \<and> (case r of None \<Rightarrow> True | Some d \<Rightarrow> dict_wf d))
    \<or> iniparser_load m (Some input) = Inl KeyOverflow \<and> \<not> short"
proof -
  let ?b = "\<lparr>b_section = [], b_key = [], b_value = []\<rparr>"
  from dictionary_new_ok [OF assms(3), of 0] obtain d0 m0 where new:
    "dictionary_new m 0 = (Some d0, m0)" "dict_wf d0" "no_fail m0" "d_n d0 = 0" "d_size d0 = 128" by auto
  then have "loop_inv short 0 m0 input [] ?b d0"
    using assms by (simp add: loop_inv_def dict_cap_def bufs_le_def)
  note res = ini_load_loop_safe [OF this, of 0]
  show ?thesis
  proof (cases "ini_load_loop m0 input [] ?b d0 0")
    case (Inl f)
    with res new show ?thesis by (simp add: iniparser_load_def loop_result_def)
  next
    case (Inr q)
    show ?thesis
    proof (cases "fst q")
      case None
      with Inr new show ?thesis by (cases q) (simp add: iniparser_load_def)
    next
      case (Some e)
      then obtain d errs m2 where q: "q = (Some (d, errs), m2)" by (cases q; cases e) auto
      with res Inr have "dict_wf d" by (simp add: loop_result_def)
      with q Inr new show ?thesis by (cases "errs = 0") (simp_all add: iniparser_load_def dictionary_del_ok)
    qed
  qed
qed

text \<open>Lines that are neither blank, comment, section nor entry.\<close>

definition malformed :: "string \<Rightarrow> bool" where
  "malformed l \<longleftrightarrow> trimmed l \<and> one_line l \<and> length l \<le> 1022 \<and> CHR ''='' \<notin> set l
     \<and> hd l \<noteq> CHR ''#'' \<and> hd l \<noteq> CHR ''['' \<and> last l \<noteq> CHR 0x5C"

lemma malformed_line:
  assumes "malformed l"
  shows "iniparser_line l b = Inr (LINE_ERROR, b\<lparr>b_key := l\<rparr>)"
proof -
  note ok = assms [unfolded malformed_def]
  have tw: "takeWhile (\<lambda>c. c \<noteq> CHR ''='') l = l" "dropWhile (\<lambda>c. c \<noteq> CHR ''='') l = []"
    using ok by (auto simp: takeWhile_eq_all_conv dropWhile_eq_Nil_conv)
  have "l \<noteq> []" using ok by (simp add: trimmed_def)
  then have "sscanf (fmt_quoted q) l = [l]" "sscanf fmt_plain l = [l]" "sscanf fmt_comment l = [l]"
    "sscanf fmt_bare l = [l]" for q
    by (simp_all add: fmt_quoted_def fmt_plain_def fmt_comment_def fmt_bare_def tw)
  moreover have "strstrip l = Inr l" using ok by (simp add: strstrip_def trimmed_simps ASCIILINESZ_def)
  ultimately show ?thesis using ok \<open>l \<noteq> []\<close> by (simp add: iniparser_line_def scan_assign_def)
qed

lemma load_malformed:
  assumes "malformed l"
  shows "ini_load_loop m (l @ newline # rest) [] b d 0 = ini_load_loop m rest [] (b\<lparr>b_key := l\<rparr>) d 1"
proof -
  note ok = assms [unfolded malformed_def]
  from ini_load_line [of l m rest b d 0] malformed_line [OF assms, of b] ok show ?thesis
    by (simp add: trimmed_simps ini_line_effect_def)
qed

subsection \<open>Properties\<close>



text \<open>
  When moreover no line is longer than 511 characters and none is continued by a backslash,
  loading never faults.
\<close>

theorem iniparser_load_safe:
  assumes "NUL \<notin> set input" and "CHR 0x5C \<notin> set input" and "short_lines 511 input"
    and "length input < 2 ^ 26" and "no_fail m"
  shows "\<exists>r m'. iniparser_load m (Some input) = Inr (r, m') \<and> (case r of None \<Rightarrow> True | Some d \<Rightarrow> dict_wf d)"
  using load_result [OF assms(1,4,5), of True] assms(2,3) by simp

theorem iniparser_load_safe_witness:
  "\<exists>r m'. iniparser_load [] (Some ''[b]'') = Inr (r, m') \<and> (case r of None \<Rightarrow> True | Some d \<Rightarrow> dict_wf d)"
  using iniparser_load_safe [of "''[b]''" "[]"] by (simp add: NUL_def no_fail_def short_lines_length)

text \<open>
  A section and a key can each be fine for the line parser and for \<^verbatim>\<open>iniparser_dump_ini\<close>
  and yet be too long together: loading a file with that section and key overflows \<^verbatim>\<open>tmp\<close>.
\<close>

theorem iniparser_load_overflow:
  assumes "ini_sec_ok s" and "ini_key_ok k" and "length (padded_key k) + 2 \<le> 1022"
    and "1024 < length s + 1 + length k" and "no_fail m"
  shows "iniparser_load m (Some (item_text (Sec s) @ entry_text k None)) = Inl KeyOverflow"
proof -
  let ?b = "\<lparr>b_section = [], b_key = [], b_value = []\<rparr>"
  from dictionary_new_ok [OF assms(5), of 0] obtain d0 m0 where new:
    "dictionary_new m 0 = (Some d0, m0)" "dict_wf d0" "no_fail m0" "d_n d0 = 0" "d_size d0 = 128" by auto
  then have "dict_cap d0 0" by (simp add: dict_cap_def)
  then obtain d1 m1 where set1: "dictionary_set m0 (Some d0) (Some s) None = Inr (0, Some d1, m1)"
    using set_cap [OF new(2), of 0 m0 s None] new by auto
  have rs: "rstrip (padded_key k @ ''= '') = padded_key k @ ''=''"
    using rstrip_snoc_space [of "CHR '' ''" "padded_key k @ ''=''"]
      rstrip_append_id [of "''=''" "padded_key k"] by simp
  have "one_line (padded_key k @ ''= '')"
    using padded_key_facts(4) [OF assms(2)] by (auto simp: one_line_def newline_def NUL_def)
  from ini_load_line [OF this, of m1 "[]" "?b\<lparr>b_section := s\<rparr>" d1 0]
    entry_line_empty [OF assms(2), of "?b\<lparr>b_section := s\<rparr>"] assms(3,4) rs
  have "ini_load_loop m1 (entry_text k None) [] (?b\<lparr>b_section := s\<rparr>) d1 0 = Inl KeyOverflow"
    by (simp add: entry_text_padded ini_line_effect_def ASCIILINESZ_def)
  with load_section [OF assms(1), of m0 "entry_text k None" ?b d0 0] set1 new show ?thesis
    by (simp add: iniparser_load_def)
qed

theorem iniparser_load_overflow_witness:
  "iniparser_load [] (Some (item_text (Sec (replicate 600 (CHR ''a''))) @ entry_text (replicate 600 (CHR ''b'')) None))
    = Inl KeyOverflow"
proof -
  have "ini_sec_ok (replicate 600 (CHR ''a''))"
    by (simp add: ini_sec_ok_def trimmed_def one_line_def lowercase_def is_section_def newline_def NUL_def
        isspace_def isupper_def list_all_iff hd_replicate last_replicate)
  moreover have "ini_key_ok (replicate 600 (CHR ''b''))"
    by (simp add: ini_key_ok_def trimmed_def one_line_def lowercase_def newline_def NUL_def isspace_def isupper_def
        list_all_iff hd_replicate last_replicate)
  ultimately show ?thesis by (intro iniparser_load_overflow) (simp_all add: padded_key_def no_fail_def)
qed

text \<open>
  A syntax error is remembered only until the next section or entry: the result of
  \<^verbatim>\<open>dictionary_set\<close> overwrites the error count. A malformed line followed by an entry loads as if
  it were not there; the same two lines in the other order are rejected.
\<close>

theorem iniparser_load_forgets_error:
  assumes "malformed l" and "ent_ok [] k v" and "no_fail m"
  shows "\<exists>d m' m''. iniparser_load m (Some (l @ newline # entry_text k (Some v))) = Inr (Some d, m')
    \<and> dict_map d = [CHR '':'' # k \<mapsto> Some v]
    \<and> iniparser_load m (Some (entry_text k (Some v) @ l @ [newline])) = Inr (None, m'')"
proof -
  let ?b = "\<lparr>b_section = [], b_key = [], b_value = []\<rparr>"
  from dictionary_new_ok [OF assms(3), of 0] obtain d0 m0 where new:
    "dictionary_new m 0 = (Some d0, m0)" "dict_wf d0" "no_fail m0" "d_n d0 = 0" "d_size d0 = 128"
    "dict_map d0 = Map.empty" by auto
  then have "dict_cap d0 0" by (simp add: dict_cap_def)
  then obtain d1 m1 where set1: "dictionary_set m0 (Some d0) (Some (CHR '':'' # k)) (Some v) = Inr (0, Some d1, m1)"
    "dict_map d1 = [CHR '':'' # k \<mapsto> Some v]" "dict_wf d1"
    using set_cap [OF new(2), of 0 m0 "CHR '':'' # k" "Some v"] new by auto
  have "ini_load_loop m0 (entry_text k (Some v) @ rest) [] b d0 e =
      ini_load_loop m1 rest [] (b\<lparr>b_key := k, b_value := v\<rparr>) d1 0" if "b_section b = []" for b rest e
    using load_entry [of b k v m0 rest d0 e] assms(2) set1(1) that by simp
  note entry = this [of ?b "l @ [newline]" 0] this [of "?b\<lparr>b_key := l\<rparr>" "[]" 1]
  from load_malformed [OF assms(1), of m0 "entry_text k (Some v)" ?b d0] entry(2)
  have "ini_load_loop m0 (l @ newline # entry_text k (Some v)) [] ?b d0 0 = Inr (Some (d1, 0), m1)" by simp
  moreover from load_malformed [OF assms(1), of m1 "[]" "?b\<lparr>b_key := k, b_value := v\<rparr>" d1] entry(1)
  have "ini_load_loop m0 (entry_text k (Some v) @ l @ [newline]) [] ?b d0 0 = Inr (Some (d1, 1), m1)" by simp
  ultimately show ?thesis using new(1) set1(2,3) by (simp add: iniparser_load_def dictionary_del_ok)
qed

theorem iniparser_load_forgets_error_witness:
  "\<exists>d m' m''. iniparser_load [] (Some (''bad'' @ newline # entry_text ''k'' (Some ''1''))) = Inr (Some d, m')
    \<and> dict_map d = ['':k'' \<mapsto> Some ''1'']
    \<and> iniparser_load [] (Some (entry_text ''k'' (Some ''1'') @ ''bad'' @ [newline])) = Inr (None, m'')"
proof -
  have "malformed ''bad''" by code_simp
  moreover have "ent_ok [] ''k'' ''1''" by code_simp
  ultimately show ?thesis using iniparser_load_forgets_error [of "''bad''" "''k''" "''1''" "[]"] by simp
qed

end
