(* ===== verification/CFloat.thy ===== *)
theory CFloat
  imports Complex_Main CStdio "HOL-Library.Log_Nat"
begin

text \<open>
  The C types \<^verbatim>\<open>double\<close> and \<^verbatim>\<open>float\<close> (IEEE 754 binary64 and binary32, rounding to
  nearest, ties to even) as far as the JSON code and the percentages use them: a finite value is a rational number, the result of an
  operation is the rounded exact result. The two zeros are not
  distinguished; no operation used here does. Conversion to \<^verbatim>\<open>int\<close> of a value
  that does not fit, which C leaves undefined, gives \<^verbatim>\<open>INT_MIN\<close>, the result of
  the x86-64 instruction.
\<close>

datatype double =
    Fin rat
  | Inf bool
  | NaN

subsection \<open>Rounding\<close>

text \<open>The integer part of the binary logarithm of a positive number.\<close>

definition ilog2 :: "rat \<Rightarrow> int" where
  "ilog2 x = (let (p, q) = quotient_of x; k = bitlen p - bitlen q
     in if 2 powi k \<le> x then k else k - 1)"

definition round_even :: "rat \<Rightarrow> int" where
  "round_even x = (let f = \<lfloor>x\<rfloor>; r = x - of_int f
     in if r < 1 / 2 then f else if 1 / 2 < r then f + 1 else if even f then f else f + 1)"

text \<open>
  Rounding to a format with \<open>p\<close> fraction bits, smallest exponent \<open>emin\<close> of a unit
  and values below two to the power \<open>emax\<close>; binary64 and binary32 are instances.
\<close>

definition rnd_to :: "int \<Rightarrow> int \<Rightarrow> nat \<Rightarrow> rat \<Rightarrow> double" where
  "rnd_to p emin emax x = (if x = 0 then Fin 0
     else let u = 2 powi (max (ilog2 \<bar>x\<bar> - p) emin);
              y = of_int (round_even (x / u)) * u
          in if 2 ^ emax \<le> \<bar>y\<bar> then Inf (x < 0) else Fin y)"

abbreviation rnd :: "rat \<Rightarrow> double" where
  "rnd \<equiv> rnd_to 52 (- 1074) 1024"

abbreviation rnd_f :: "rat \<Rightarrow> double" where
  "rnd_f \<equiv> rnd_to 23 (- 149) 128"

lemma round_even_int [simp]: "round_even (of_int z) = z"
  by (simp add: round_even_def)

lemma ilog2_int:
  assumes "0 < n" and "n < 2 ^ k"
  shows "ilog2 (of_int n) < int k"
proof -
  have "bitlen n \<le> int k" using assms bitlen_le_iff_power [of n k] by simp
  moreover have "bitlen 1 = 1" by code_simp
  ultimately show ?thesis by (simp add: ilog2_def Let_def quotient_of_int)
qed

lemma rnd_to_int:
  assumes "\<bar>n\<bar> < 2 ^ Suc p" and "emin \<le> 0" and "Suc p \<le> emax"
  shows "rnd_to (int p) emin emax (of_int n) = Fin (of_int n)"
proof (cases "n = 0")
  case False
  define e where "e = max (ilog2 \<bar>of_int n\<bar> - int p) emin"
  have "ilog2 (of_int \<bar>n\<bar>) < int (Suc p)" using assms False by (intro ilog2_int) auto
  then have e: "e \<le> 0" using assms(2) by (simp add: e_def)
  define k where "k = nat (- e)"
  have u: "(2 :: rat) powi e = inverse (2 ^ k)"
    using e by (cases "e = 0") (simp_all add: k_def power_int_def power_inverse [symmetric])
  have "of_int n / ((2 :: rat) powi e) = of_int (n * 2 ^ k)" by (simp add: u field_simps)
  then have "round_even (of_int n / ((2 :: rat) powi e)) = n * 2 ^ k" by (simp del: of_int_mult)
  then have y: "of_int (round_even (of_int n / ((2 :: rat) powi e))) * (2 :: rat) powi e = of_int n"
    by (simp add: u)
  have "\<bar>of_int n :: rat\<bar> < 2 ^ Suc p" using assms(1) by (metis of_int_abs of_int_less_iff of_int_numeral of_int_power)
  also have "(2 :: rat) ^ Suc p \<le> 2 ^ emax" using assms(3) by (intro power_increasing) simp_all
  finally show ?thesis using False y by (simp add: rnd_to_def Let_def e_def [symmetric])
qed (simp add: rnd_to_def)

lemma rnd_int: "\<bar>n\<bar> < 2 ^ 53 \<Longrightarrow> rnd (of_int n) = Fin (of_int n)"
  using rnd_to_int [of n 52 "- 1074" 1024] by simp

lemma rnd_f_int: "\<bar>n\<bar> < 2 ^ 24 \<Longrightarrow> rnd_f (of_int n) = Fin (of_int n)"
  using rnd_to_int [of n 23 "- 149" 128] by simp

subsection \<open>Operations\<close>

fun d_neg_sign :: "double \<Rightarrow> bool" where
  "d_neg_sign (Fin x) = (x < 0)"
| "d_neg_sign (Inf s) = s"
| "d_neg_sign NaN = False"

fun d_add :: "double \<Rightarrow> double \<Rightarrow> double" where
  "d_add (Fin x) (Fin y) = rnd (x + y)"
| "d_add (Fin x) (Inf s) = Inf s"
| "d_add (Inf s) (Fin y) = Inf s"
| "d_add (Inf s) (Inf t) = (if s = t then Inf s else NaN)"
| "d_add _ _ = NaN"

fun d_neg :: "double \<Rightarrow> double" where
  "d_neg (Fin x) = Fin (- x)"
| "d_neg (Inf s) = Inf (\<not> s)"
| "d_neg NaN = NaN"

definition d_sub :: "double \<Rightarrow> double \<Rightarrow> double" where
  "d_sub x y = d_add x (d_neg y)"

text \<open>A product of zero and an infinity is not a number.\<close>

fun d_mul :: "double \<Rightarrow> double \<Rightarrow> double" where
  "d_mul (Fin x) (Fin y) = rnd (x * y)"
| "d_mul NaN _ = NaN"
| "d_mul _ NaN = NaN"
| "d_mul x y = (if x = Fin 0 \<or> y = Fin 0 then NaN else Inf (d_neg_sign x \<noteq> d_neg_sign y))"

fun d_abs :: "double \<Rightarrow> double" where
  "d_abs (Fin x) = Fin \<bar>x\<bar>"
| "d_abs (Inf s) = Inf False"
| "d_abs NaN = NaN"

fun d_floor :: "double \<Rightarrow> double" where
  "d_floor (Fin x) = Fin (of_int \<lfloor>x\<rfloor>)"
| "d_floor x = x"

fun d_less :: "double \<Rightarrow> double \<Rightarrow> bool" where
  "d_less (Fin x) (Fin y) = (x < y)"
| "d_less (Fin x) (Inf s) = (\<not> s)"
| "d_less (Inf s) (Fin y) = s"
| "d_less (Inf s) (Inf t) = (s \<and> \<not> t)"
| "d_less _ _ = False"

definition d_le :: "double \<Rightarrow> double \<Rightarrow> bool" where
  "d_le x y \<longleftrightarrow> d_less x y \<or> (x = y \<and> x \<noteq> NaN)"

definition d_of_int :: "int \<Rightarrow> double" where
  "d_of_int i = rnd (of_int i)"

definition rat_trunc :: "rat \<Rightarrow> int" where
  "rat_trunc x = (if x < 0 then - \<lfloor>- x\<rfloor> else \<lfloor>x\<rfloor>)"

definition int_min :: int where
  "int_min = - 2147483648"

fun d_to_int :: "double \<Rightarrow> int" where
  "d_to_int (Fin x) = (if is_int32 (rat_trunc x) then rat_trunc x else int_min)"
| "d_to_int _ = int_min"

subsection \<open>Printing with printf\<close>

definition sign_text :: "rat \<Rightarrow> string" where
  "sign_text x = (if x < 0 then ''-'' else [])"

definition zero_pad :: "nat \<Rightarrow> string \<Rightarrow> string" where
  "zero_pad w s = replicate (w - length s) (CHR ''0'') @ s"

text \<open>\<^verbatim>\<open>%.0f\<close> and \<^verbatim>\<open>%f\<close> (six decimals).\<close>

definition fmt_f0 :: "rat \<Rightarrow> string" where
  "fmt_f0 x = sign_text x @ show_nat (nat (round_even \<bar>x\<bar>))"

definition fmt_f6 :: "rat \<Rightarrow> string" where
  "fmt_f6 x = (let m = nat (round_even (\<bar>x\<bar> * 10 ^ 6))
     in sign_text x @ show_nat (m div 10 ^ 6) @ ''.'' @ zero_pad 6 (show_nat (m mod 10 ^ 6)))"

text \<open>
  The decimal exponent of a positive number, by steps from 0; the exponents of
  doubles lie between -324 and 308, so 700 steps always reach it.
\<close>

fun dec_exp :: "nat \<Rightarrow> rat \<Rightarrow> int \<Rightarrow> int" where
  "dec_exp 0 x e = e"
| "dec_exp (Suc k) x e =
     (if x < 10 powi e then dec_exp k x (e - 1) else if 10 powi (e + 1) \<le> x then dec_exp k x (e + 1) else e)"

definition fmt_e6 :: "rat \<Rightarrow> string" where
  "fmt_e6 x =
     (let e = (if x = 0 then 0 else dec_exp 700 \<bar>x\<bar> 0);
          m = nat (round_even (\<bar>x\<bar> / 10 powi e * 10 ^ 6));
          (m', e') = (if 10 ^ 7 \<le> m then (m div 10, e + 1) else (m, e))
      in sign_text x @ show_nat (m' div 10 ^ 6) @ ''.'' @ zero_pad 6 (show_nat (m' mod 10 ^ 6))
         @ ''e'' @ (if e' < 0 then ''-'' else ''+'') @ zero_pad 2 (show_nat (nat \<bar>e'\<bar>)))"

lemma d_of_int_exact: "is_int32 i \<Longrightarrow> d_of_int i = Fin (of_int i)"
  unfolding d_of_int_def is_int32_def by (rule rnd_int) auto

lemma rat_trunc_int [simp]: "rat_trunc (of_int i) = i"
  by (simp add: rat_trunc_def flip: of_int_minus)

lemma d_to_int_of_int: "is_int32 i \<Longrightarrow> d_to_int (Fin (of_int i)) = i"
  by simp

subsection \<open>How long the printed texts are\<close>

text \<open>The range of the finite values of \<^verbatim>\<open>double\<close>.\<close>

fun in_range :: "double \<Rightarrow> bool" where
  "in_range (Fin x) = (x = 0 \<or> 1 / 2 ^ 1074 \<le> \<bar>x\<bar> \<and> \<bar>x\<bar> < 2 ^ 1024)"
| "in_range _ = True"

lemma round_even_le: "x \<le> of_int z \<Longrightarrow> round_even x \<le> z"
proof -
  assume x: "x \<le> of_int z"
  then have "\<lfloor>x\<rfloor> \<le> z" by linarith
  moreover have "\<lfloor>x\<rfloor> + 1 \<le> z" if "0 < x - of_int \<lfloor>x\<rfloor>" using that x by linarith
  ultimately show ?thesis by (auto simp: round_even_def Let_def)
qed

lemma dec_exp_bounds: "\<bar>dec_exp k x e\<bar> \<le> \<bar>e\<bar> + int k"
proof (induction k arbitrary: e)
  case (Suc k)
  from Suc.IH [of "e - 1"] Suc.IH [of "e + 1"] show ?case by auto
qed simp

lemma dec_exp_correct:
  assumes "10 powi (e - int k) \<le> x" "x < 10 powi (e + int k + 1)"
  shows "10 powi (dec_exp k x e) \<le> x \<and> x < 10 powi (dec_exp k x e + 1)"
  using assms
proof (induction k arbitrary: e)
  case (Suc k)
  have mono: "(10 :: rat) powi a \<le> 10 powi b" if "a \<le> b" for a b by (rule power_int_increasing) (use that in auto)
  consider "x < 10 powi e" | "10 powi e \<le> x" "10 powi (e + 1) \<le> x" | "10 powi e \<le> x" "x < 10 powi (e + 1)" by linarith
  then show ?case
  proof cases
    case 1
    moreover from this mono [of e "e - 1 + int k + 1"] have "x < 10 powi (e - 1 + int k + 1)" by simp
    moreover have "10 powi (e - 1 - int k) \<le> x" using Suc.prems(1) by (simp add: algebra_simps)
    ultimately show ?thesis using Suc.IH [of "e - 1"] by simp
  next
    case 2
    moreover from this mono [of "e + 1 - int k" "e + 1"] have "10 powi (e + 1 - int k) \<le> x" by simp
    moreover have "x < 10 powi (e + 1 + int k + 1)" using Suc.prems(2) by (simp add: algebra_simps)
    ultimately show ?thesis using Suc.IH [of "e + 1"] by simp
  qed simp
qed simp

lemma zero_pad_length: "length (zero_pad w s) = max w (length s)"
  by (simp add: zero_pad_def)

lemma sign_text_length: "length (sign_text x) \<le> 1"
  by (simp add: sign_text_def)

lemma fmt_f0_length:
  assumes "\<bar>x\<bar> < 10 ^ 60"
  shows "length (fmt_f0 x) \<le> 62"
proof -
  have "round_even \<bar>x\<bar> \<le> 10 ^ 60" using assms by (intro round_even_le) simp
  then have "nat (round_even \<bar>x\<bar>) < 10 ^ 61" by simp
  from show_nat_length [OF this] sign_text_length [of x] show ?thesis by (simp add: fmt_f0_def)
qed

lemma six_digits: "length (zero_pad 6 (show_nat (m mod 10 ^ 6))) = 6"
  using show_nat_length [of "m mod 10 ^ 6" 6] by (simp add: zero_pad_length)

lemma fmt_f6_length:
  assumes "\<bar>x\<bar> \<le> 10 ^ 9"
  shows "length (fmt_f6 x) \<le> 18"
proof -
  have "round_even (\<bar>x\<bar> * 10 ^ 6) \<le> 10 ^ 15" using assms by (intro round_even_le) simp
  then have "nat (round_even (\<bar>x\<bar> * 10 ^ 6)) div 10 ^ 6 < 10 ^ 10" by simp
  from show_nat_length [OF this] sign_text_length [of x] six_digits show ?thesis by (simp add: fmt_f6_def Let_def)
qed

lemma fmt_e6_length:
  assumes "in_range (Fin x)"
  shows "length (fmt_e6 x) \<le> 14"
proof -
  define e where "e = (if x = 0 then 0 else dec_exp 700 \<bar>x\<bar> 0)"
  define m where "m = nat (round_even (\<bar>x\<bar> / 10 powi e * 10 ^ 6))"
  define m' e' where "m' = (if 10 ^ 7 \<le> m then m div 10 else m)" and "e' = (if 10 ^ 7 \<le> m then e + 1 else e)"
  have t: "fmt_e6 x = sign_text x @ show_nat (m' div 10 ^ 6) @ ''.'' @ zero_pad 6 (show_nat (m' mod 10 ^ 6))
      @ ''e'' @ (if e' < 0 then ''-'' else ''+'') @ zero_pad 2 (show_nat (nat \<bar>e'\<bar>))"
    by (simp add: fmt_e6_def e_def m_def m'_def e'_def Let_def)
  have "\<bar>x\<bar> / 10 powi e * 10 ^ 6 \<le> 10 ^ 7"
  proof (cases "x = 0")
    case False
    have lo: "(10 :: rat) powi (0 - int 700) \<le> 1 / 2 ^ 1074" by (simp add: power_int_def field_simps)
    have hi: "(2 :: rat) ^ 1024 \<le> 10 powi (0 + int 700 + 1)" by (simp add: power_int_def)
    have "1 / 2 ^ 1074 \<le> \<bar>x\<bar> \<and> \<bar>x\<bar> < 2 ^ 1024" using assms False unfolding in_range.simps by blast
    then have "10 powi (0 - int 700) \<le> \<bar>x\<bar>" "\<bar>x\<bar> < 10 powi (0 + int 700 + 1)"
      using order_trans [OF lo] less_le_trans [OF _ hi] by blast+
    from dec_exp_correct [OF this] have "10 powi e \<le> \<bar>x\<bar> \<and> \<bar>x\<bar> < 10 powi (e + 1)" using False by (simp only: e_def if_False)
    then have "\<bar>x\<bar> / 10 powi e \<le> 10" by (simp add: power_int_add field_simps)
    from mult_right_mono [OF this, of "10 ^ 6"] show ?thesis by (simp only: power_Suc [symmetric]) simp
  qed simp
  then have "round_even (\<bar>x\<bar> / 10 powi e * 10 ^ 6) \<le> 10 ^ 7" by (intro round_even_le) simp
  then have "m \<le> 10 ^ 7" by (simp add: m_def)
  then have "m' div 10 ^ 6 < 10 ^ 1" by (auto simp: m'_def)
  from show_nat_length [OF this] have l: "length (show_nat (m' div 10 ^ 6)) \<le> 1" by simp
  have "\<bar>e'\<bar> \<le> 701" using dec_exp_bounds [of 700 "\<bar>x\<bar>" 0] by (auto simp: e'_def e_def)
  then have "nat \<bar>e'\<bar> < 10 ^ 3" by simp
  from show_nat_length [OF this] have "length (zero_pad 2 (show_nat (nat \<bar>e'\<bar>))) \<le> 3" by (simp add: zero_pad_length)
  with l sign_text_length [of x] six_digits [of m'] show ?thesis unfolding t by (cases "e' < 0") simp_all
qed

end
