(* ===== verification/CJson.thy ===== *)
theory CJson
  imports CFloat
begin

text \<open>
  The JSON library of \<^verbatim>\<open>common/json.cpp\<close>. A \<^verbatim>\<open>cJSON\<close> node with its chain of
  children is a value of the type \<open>cjson\<close>; the links \<^verbatim>\<open>next\<close> and \<^verbatim>\<open>prev\<close> of a chain are the order of the
  list of children. A \<^verbatim>\<open>char *\<close> into the text that is
  parsed is the rest of the text from there on, so that the terminating NUL is
  the empty rest; moving a pointer beyond the NUL is a fault, as is a write
  outside an allocated buffer. Items that share their children with another
  item (\<^verbatim>\<open>cJSON_IsReference\<close>) are not modelled. Parameters: the result of
  \<^verbatim>\<open>pow(10.0, x)\<close> and the text printed for a value that is not a number.
\<close>

unbundle bit_operations_syntax

record platform =
  pow10 :: "double \<Rightarrow> double"
  nan_text :: string

subsection \<open>Items\<close>

datatype ctype =
    cJSON_False
  | cJSON_True
  | cJSON_NULL
  | cJSON_Number
  | cJSON_String
  | cJSON_Array
  | cJSON_Object

datatype cjson = CJSON
  (j_child: "cjson list")
  (j_type: ctype)
  (j_valuestring: "string option")
  (j_valueint: int)
  (j_valuedouble: double)
  (j_string: "string option")

fun set_name :: "string option \<Rightarrow> cjson \<Rightarrow> cjson" where
  "set_name s (CJSON ch t vs vi vd _) = CJSON ch t vs vi vd s"

fun set_child :: "cjson list \<Rightarrow> cjson \<Rightarrow> cjson" where
  "set_child ch (CJSON _ t vs vi vd s) = CJSON ch t vs vi vd s"

text \<open>One allocation: what to do when it fails and when it succeeds.\<close>

definition alloc :: "mem \<Rightarrow> (mem \<Rightarrow> 'a) \<Rightarrow> (mem \<Rightarrow> 'a) \<Rightarrow> 'a" where
  "alloc m failed ok = (let (b, m') = malloc m in if b then ok m' else failed m')"

lemma alloc_cong [fundef_cong]:
  "m = m' \<Longrightarrow> (\<And>m1. f m1 = f' m1) \<Longrightarrow> (\<And>m1. malloc m' = (True, m1) \<Longrightarrow> g m1 = g' m1) \<Longrightarrow>
   alloc m f g = alloc m' f' g'"
  by (simp add: alloc_def split: prod.split)

definition cJSON_strdup :: "mem \<Rightarrow> string \<Rightarrow> string option \<times> mem" where
  "cJSON_strdup m str = alloc m (\<lambda>m'. (None, m')) (\<lambda>m'. (Some str, m'))"

fun strcasecmp_loop :: "string \<Rightarrow> string \<Rightarrow> int" where
  "strcasecmp_loop [] [] = 0"
| "strcasecmp_loop [] (d # t) = - of_char (tolower d)"
| "strcasecmp_loop (c # s) [] = of_char (tolower c)"
| "strcasecmp_loop (c # s) (d # t) =
     (if tolower c = tolower d then strcasecmp_loop s t else of_char (tolower c) - of_char (tolower d))"

definition cJSON_strcasecmp :: "string option \<Rightarrow> string option \<Rightarrow> int" where
  "cJSON_strcasecmp s1 s2 =
     (case s1 of None \<Rightarrow> if s2 = None then 0 else 1
      | Some a \<Rightarrow> (case s2 of None \<Rightarrow> 1 | Some b \<Rightarrow> strcasecmp_loop a b))"

subsection \<open>Numbers\<close>

definition peek :: "string \<Rightarrow> char" where
  "peek s = (case s of [] \<Rightarrow> NUL | c # _ \<Rightarrow> c)"

definition dig :: "char \<Rightarrow> int" where
  "dig c = of_char c - 48"

fun num_digits :: "double \<Rightarrow> string \<Rightarrow> double \<times> string" where
  "num_digits n [] = (n, [])"
| "num_digits n (c # s) =
     (if isdigit c then num_digits (d_add (d_mul n (Fin 10)) (d_of_int (dig c))) s else (n, c # s))"

fun num_frac :: "double \<Rightarrow> double \<Rightarrow> string \<Rightarrow> double \<times> double \<times> string" where
  "num_frac n scale [] = (n, scale, [])"
| "num_frac n scale (c # s) =
     (if isdigit c
      then num_frac (d_add (d_mul n (Fin 10)) (d_of_int (dig c))) (d_sub scale (Fin 1)) s
      else (n, scale, c # s))"

fun num_exp :: "int \<Rightarrow> string \<Rightarrow> (int \<times> string) cres" where
  "num_exp subscale [] = Inr (subscale, [])"
| "num_exp subscale (c # s) =
     (if isdigit c
      then let v = subscale * 10 + dig c in if int int_max < v then Inl IntOverflow else num_exp v s
      else Inr (subscale, c # s))"

text \<open>The parts of a number: sign, integer, fraction and exponent.\<close>

definition num_sign :: "string \<Rightarrow> double \<times> string" where
  "num_sign num = (if peek num = CHR ''-'' then (Fin (- 1), tl num) else (Fin 1, num))"

definition num_int :: "string \<Rightarrow> double \<times> string" where
  "num_int num =
     (let num' = (if peek num = CHR ''0'' then tl num else num)
      in if isdigit (peek num') \<and> peek num' \<noteq> CHR ''0'' then num_digits (Fin 0) num' else (Fin 0, num'))"

definition num_fraction :: "double \<Rightarrow> string \<Rightarrow> double \<times> double \<times> string" where
  "num_fraction n num =
     (if peek num = CHR ''.'' \<and> isdigit (peek (tl num)) then num_frac n (Fin 0) (tl num) else (n, Fin 0, num))"

definition num_exponent :: "string \<Rightarrow> (int \<times> string) cres" where
  "num_exponent num =
     (if peek num = CHR ''e'' \<or> peek num = CHR ''E''
      then let num' = tl num;
               (signsubscale, num'') = (if peek num' = CHR ''+'' then (1, tl num')
                 else if peek num' = CHR ''-'' then (- 1, tl num') else (1, num'))
           in cbind (num_exp 0 num'') (\<lambda>(subscale, rest). Inr (subscale * signsubscale, rest))
      else Inr (0, num))"

definition parse_number :: "platform \<Rightarrow> string \<Rightarrow> (cjson \<times> string) cres" where
  "parse_number P num =
     (let (sign, num1) = num_sign num;
          (n1, num2) = num_int num1;
          (n2, scale, num3) = num_fraction n1 num2
      in cbind (num_exponent num3) (\<lambda>(e, num4).
           let n = d_mul (d_mul sign n2) (pow10 P (d_add scale (d_of_int e)))
           in Inr (CJSON [] cJSON_Number None (d_to_int n) n None, num4)))"

definition DBL_EPSILON :: double where
  "DBL_EPSILON = Fin (1 / 2 ^ 52)"

fun fmt_double :: "platform \<Rightarrow> (rat \<Rightarrow> string) \<Rightarrow> double \<Rightarrow> string" where
  "fmt_double P f (Fin x) = f x"
| "fmt_double P f (Inf s) = (if s then ''-inf'' else ''inf'')"
| "fmt_double P f NaN = nan_text P"

text \<open>Writing a text and its NUL into a fresh buffer of \<open>cap\<close> bytes.\<close>

definition fill :: "nat \<Rightarrow> string \<Rightarrow> mem \<Rightarrow> (string option \<times> mem) cres" where
  "fill cap str m = (if length str + 1 \<le> cap then Inr (Some str, m) else Inl BufOverflow)"

text \<open>
  The constants \<^verbatim>\<open>1.0e60\<close> and \<^verbatim>\<open>1.0e-6\<close> are the nearest doubles; \<^verbatim>\<open>1.0e9\<close> is exact.
\<close>

definition float_text :: "platform \<Rightarrow> double \<Rightarrow> string" where
  "float_text P d =
     (if d_le (d_abs (d_sub (d_floor d) d)) DBL_EPSILON
         \<and> d_less (d_abs d) (Fin 999999999999999949387135297074018866963645011013410073083904)
      then fmt_double P fmt_f0 d
      else if d_less (d_abs d) (Fin (4722366482869645 / 2 ^ 72)) \<or> d_less (Fin (10 ^ 9)) (d_abs d)
      then fmt_double P fmt_e6 d
      else fmt_double P fmt_f6 d)"

definition print_number :: "platform \<Rightarrow> mem \<Rightarrow> cjson \<Rightarrow> (string option \<times> mem) cres" where
  "print_number P m item =
     (let d = j_valuedouble item in
      if d_le (d_abs (d_sub (d_of_int (j_valueint item)) d)) DBL_EPSILON
         \<and> d_le d (d_of_int 2147483647) \<and> d_le (d_of_int int_min) d
      then alloc m (\<lambda>m'. Inr (None, m')) (fill 21 (show_int (j_valueint item)))
      else alloc m (\<lambda>m'. Inr (None, m')) (fill 64 (float_text P d)))"

subsection \<open>Strings\<close>

definition hexval :: "char \<Rightarrow> nat option" where
  "hexval c = (let k = (of_char c :: nat) in
     if 48 \<le> k \<and> k \<le> 57 then Some (k - 48)
     else if 65 \<le> k \<and> k \<le> 70 then Some (10 + k - 65)
     else if 97 \<le> k \<and> k \<le> 102 then Some (10 + k - 97)
     else None)"

definition parse_hex4 :: "string \<Rightarrow> nat" where
  "parse_hex4 s =
     (case s of a # b # c # d # _ \<Rightarrow>
        (case (hexval a, hexval b, hexval c, hexval d) of
           (Some h1, Some h2, Some h3, Some h4) \<Rightarrow> ((h1 * 16 + h2) * 16 + h3) * 16 + h4
         | _ \<Rightarrow> 0)
      | _ \<Rightarrow> 0)"

text \<open>
  The first pass of \<^verbatim>\<open>parse_string\<close>: the length the second pass is given. Lengths of type
  \<^verbatim>\<open>int\<close> are natural numbers here; where one is used, a value above \<^verbatim>\<open>INT_MAX\<close> is the fault of a signed overflow.
\<close>

fun string_len :: "string \<Rightarrow> nat cres" where
  "string_len [] = Inr 0"
| "string_len (c # s) =
     (if c = CHR 0x22 then Inr 0
      else if c = CHR 0x5C then (case s of [] \<Rightarrow> Inl OutOfBounds | _ # s' \<Rightarrow> cbind (string_len s') (\<lambda>k. Inr (Suc k)))
      else cbind (string_len s) (\<lambda>k. Inr (Suc k)))"

definition utf8 :: "nat \<Rightarrow> string" where
  "utf8 uc =
     (let cont = (\<lambda>u. char_of ((u OR 0x80) AND 0xBF) :: char);
          u1 = drop_bit 6 uc; u2 = drop_bit 6 u1; u3 = drop_bit 6 u2
      in if uc < 0x80 then [char_of (uc OR 0x00)]
         else if uc < 0x800 then [char_of (u1 OR 0xC0), cont uc]
         else if uc < 0x10000 then [char_of (u2 OR 0xE0), cont u1, cont uc]
         else [char_of (u3 OR 0xF0), cont u2, cont u1, cont uc])"

text \<open>
  The escape \<^verbatim>\<open>\u\<close>, with \<open>s\<close> the text after the \<open>u\<close>: the bytes to write and how far
  the pointer moves from the \<open>u\<close>.
\<close>

definition unescape_u :: "string \<Rightarrow> string \<times> nat" where
  "unescape_u s =
     (let uc = parse_hex4 s in
      if (0xDC00 \<le> uc \<and> uc \<le> 0xDFFF) \<or> uc = 0 then ([], 4)
      else if 0xD800 \<le> uc \<and> uc \<le> 0xDBFF
      then let t = drop 4 s in
           if peek t \<noteq> CHR 0x5C \<or> peek (tl t) \<noteq> CHR ''u'' then ([], 4)
           else let uc2 = parse_hex4 (drop 2 t) in
                if uc2 < 0xDC00 \<or> 0xDFFF < uc2 then ([], 10)
                else (utf8 (0x10000 + (push_bit 10 (uc AND 0x3FF) OR (uc2 AND 0x3FF))), 10)
      else (utf8 uc, 4))"

definition unescape_char :: "char \<Rightarrow> char" where
  "unescape_char c =
     (if c = CHR ''b'' then CHR 0x08 else if c = CHR ''f'' then CHR 0x0C else if c = CHR ''n'' then CHR 0x0A
      else if c = CHR ''r'' then CHR 0x0D else if c = CHR ''t'' then CHR 0x09 else c)"

definition emit :: "nat \<Rightarrow> string \<Rightarrow> string \<Rightarrow> string cres" where
  "emit len out bs = (if length out + length bs \<le> len + 1 then Inr (out @ bs) else Inl BufOverflow)"

text \<open>
  The second pass, with the buffer of \<open>len + 1\<close> bytes: what was written and the
  rest from the closing quote or the end on.
\<close>

function unescape :: "nat \<Rightarrow> string \<Rightarrow> string \<Rightarrow> (string \<times> string) cres" where
  "unescape len ptr out =
     (case ptr of
        [] \<Rightarrow> Inr (out, [])
      | c # s \<Rightarrow>
          if c = CHR 0x22 then Inr (out, ptr)
          else if c \<noteq> CHR 0x5C then cbind (emit len out [c]) (\<lambda>out'. unescape len s out')
          else (case s of
              [] \<Rightarrow> cbind (emit len out [NUL]) (\<lambda>_. Inl OutOfBounds)
            | e # s' \<Rightarrow>
                if e = CHR ''u'' then
                  let (bs, k) = unescape_u s'
                  in cbind (if bs = [] then Inr out else emit len out bs) (\<lambda>out'.
                       if k \<le> length s' then unescape len (drop k s') out' else Inl OutOfBounds)
                else cbind (emit len out [unescape_char e]) (\<lambda>out'. unescape len s' out')))"
  by pat_completeness auto
termination
  by (relation "measure (\<lambda>(len, ptr, out). length ptr)") auto

declare unescape.simps [simp del]

text \<open>The result of parsing: a value and the rest, or 0 with the error pointer.\<close>

datatype 'a parsed =
    Parsed 'a string
  | ParseFail "string option"

definition parse_string :: "mem \<Rightarrow> string \<Rightarrow> (string parsed \<times> mem) cres" where
  "parse_string m str =
     (if peek str \<noteq> CHR 0x22 then Inr (ParseFail (Some str), m)
      else cbind (string_len (tl str)) (\<lambda>len.
        if int_max < len + 1 then Inl IntOverflow else
        alloc m (\<lambda>m'. Inr (ParseFail None, m')) (\<lambda>m'.
          cbind (unescape len (tl str) []) (\<lambda>(out, ptr).
            if len < length out then Inl BufOverflow
            else Inr (Parsed out (if peek ptr = CHR 0x22 then tl ptr else ptr), m')))))"

definition hex_digit :: "nat \<Rightarrow> char" where
  "hex_digit k = (if k < 10 then char_of (48 + k) else char_of (87 + k))"

text \<open>\<^verbatim>\<open>sprintf(ptr2, "u%04x", token)\<close> for a byte.\<close>

definition hex4_text :: "char \<Rightarrow> string" where
  "hex4_text c = (let k = (of_char c :: nat) in [CHR ''u'', CHR ''0'', CHR ''0'', hex_digit (k div 16), hex_digit (k mod 16)])"

definition escape_char :: "char \<Rightarrow> string" where
  "escape_char c =
     (if 31 < (of_char c :: nat) \<and> c \<noteq> CHR 0x22 \<and> c \<noteq> CHR 0x5C then [c]
      else CHR 0x5C #
        (if c = CHR 0x5C then [CHR 0x5C] else if c = CHR 0x22 then [CHR 0x22]
         else if c = CHR 0x08 then ''b'' else if c = CHR 0x0C then ''f'' else if c = CHR 0x0A then ''n''
         else if c = CHR 0x0D then ''r'' else if c = CHR 0x09 then ''t''
         else hex4_text c))"

definition escaped_len :: "char \<Rightarrow> nat" where
  "escaped_len c =
     (if c \<in> {CHR 0x22, CHR 0x5C, CHR 0x08, CHR 0x0C, CHR 0x0A, CHR 0x0D, CHR 0x09} then 2
      else if (of_char c :: nat) < 32 then 6 else 1)"

definition print_string_ptr :: "mem \<Rightarrow> string option \<Rightarrow> (string option \<times> mem) cres" where
  "print_string_ptr m str =
     (case str of
        None \<Rightarrow> Inr (cJSON_strdup m [])
      | Some s \<Rightarrow>
          let len = sum_list (map escaped_len s)
          in if int_max < len + 3 then Inl IntOverflow else
             alloc m (\<lambda>m'. Inr (None, m'))
               (fill (len + 3) ([CHR 0x22] @ concat (map escape_char s) @ [CHR 0x22])))"

definition print_string :: "mem \<Rightarrow> cjson \<Rightarrow> (string option \<times> mem) cres" where
  "print_string m item = print_string_ptr m (j_valuestring item)"

definition skip :: "string \<Rightarrow> string" where
  "skip s = dropWhile (\<lambda>c. (of_char c :: nat) \<le> 32) s"

lemma length_skip: "length (skip s) \<le> length s"
  by (simp add: skip_def length_dropWhile_le)

lemma length_skip_tl: "peek v = c \<Longrightarrow> c \<noteq> NUL \<Longrightarrow> length (skip (tl v)) < length v"
  using length_skip [of "tl v"] by (cases v) (auto simp: peek_def)

lemma length_skip_less: "length r < k \<Longrightarrow> length (skip r) < k"
  using length_skip [of r] by simp

lemma unescape_Nil [simp]: "unescape len [] out = Inr (out, [])"
  by (simp add: unescape.simps)

lemma unescape_quote [simp]: "unescape len (CHR 0x22 # s) out = Inr (out, CHR 0x22 # s)"
  by (simp add: unescape.simps)

lemma unescape_plain:
  "c \<noteq> CHR 0x22 \<Longrightarrow> c \<noteq> CHR 0x5C \<Longrightarrow>
   unescape len (c # s) out = cbind (emit len out [c]) (\<lambda>out'. unescape len s out')"
  by (subst unescape.simps) simp

lemma unescape_escape:
  "e \<noteq> CHR ''u'' \<Longrightarrow>
   unescape len (CHR 0x5C # e # s) out = cbind (emit len out [unescape_char e]) (\<lambda>out'. unescape len s out')"
  by (subst unescape.simps) simp

lemma unescape_unicode:
  "unescape len (CHR 0x5C # CHR ''u'' # s) out =
     cbind (if fst (unescape_u s) = [] then Inr out else emit len out (fst (unescape_u s))) (\<lambda>out'.
       if snd (unescape_u s) \<le> length s then unescape len (drop (snd (unescape_u s)) s) out' else Inl OutOfBounds)"
  by (subst unescape.simps) (simp add: split_beta)

lemma unescape_end: "unescape len [CHR 0x5C] out = cbind (emit len out [NUL]) (\<lambda>_. Inl OutOfBounds)"
  by (subst unescape.simps) simp

text \<open>The shapes of a pointer into a string literal.\<close>

lemma literal_cases:
  obtains "ptr = []" | s where "ptr = CHR 0x22 # s"
  | c s where "ptr = c # s" "c \<noteq> CHR 0x22" "c \<noteq> CHR 0x5C"
  | e s where "ptr = CHR 0x5C # e # s" "e \<noteq> CHR ''u''"
  | s where "ptr = CHR 0x5C # CHR ''u'' # s" | "ptr = [CHR 0x5C]"
  by (metis list.exhaust)

lemma unescape_shorter: "unescape len ptr out = Inr (r, rest) \<Longrightarrow> length rest \<le> length ptr"
proof (induction "length ptr" arbitrary: ptr out rule: less_induct)
  case less
  note prem = less.prems
  show ?case
  proof (cases rule: literal_cases [of ptr])
    case (3 c s)
    with prem obtain out' where "unescape len s out' = Inr (r, rest)"
      by (auto simp: unescape_plain cbind_Inr_iff)
    with less.hyps [of s] 3 show ?thesis by fastforce
  next
    case (4 e s)
    with prem obtain out' where "unescape len s out' = Inr (r, rest)"
      by (auto simp: unescape_escape cbind_Inr_iff)
    with less.hyps [of s] 4 show ?thesis by fastforce
  next
    case (5 s)
    with prem obtain out' where "unescape len (drop (snd (unescape_u s)) s) out' = Inr (r, rest)"
      by (auto simp: unescape_unicode cbind_Inr_iff split: if_splits)
    with less.hyps [of "drop (snd (unescape_u s)) s"] 5 show ?thesis by fastforce
  next
    case 6
    with prem show ?thesis by (simp add: unescape_end cbind_Inr_iff)
  qed (use prem in auto)
qed

lemma alloc_cases:
  obtains m' where "malloc m = (True, m')" "alloc m failed ok = ok m'"
  | m' where "malloc m = (False, m')" "alloc m failed ok = failed m'"
  by (cases "malloc m") (auto simp: alloc_def)

lemma parse_string_shorter:
  assumes "parse_string m s = Inr (Parsed v rest, m')"
  shows "length rest < length s"
proof -
  from assms have q: "peek s = CHR 0x22" by (auto simp: parse_string_def split: if_splits)
  then obtain t where s: "s = CHR 0x22 # t" by (cases s) (auto simp: peek_def NUL_def)
  from assms q obtain len where l: "string_len (tl s) = Inr len" by (auto simp: parse_string_def cbind_Inr_iff)
  from assms q l obtain out ptr where u: "unescape len t [] = Inr (out, ptr)"
    and r: "length rest \<le> length ptr"
    unfolding parse_string_def s
    by (cases rule: alloc_cases [of m]) (fastforce simp: alloc_def cbind_Inr_iff split: if_splits)+
  with unescape_shorter [OF u] s show ?thesis by simp
qed

subsection \<open>Parsing values\<close>

text \<open>
  \<open>parse_elems\<close> and \<open>parse_members\<close> are the loops of \<^verbatim>\<open>parse_array\<close> and
  \<^verbatim>\<open>parse_object\<close>, entered after the opening bracket and after each comma. The
  tests \<open>length rest < length value\<close> only serve termination: they always
  hold (lemma \<open>parse_shorter\<close>).
\<close>

lemma alloc_Parsed:
  "alloc m (\<lambda>m'. Inr (ParseFail ep, m')) ok = Inr (Parsed v r, m2)
    \<longleftrightarrow> (\<exists>m1. malloc m = (True, m1) \<and> ok m1 = Inr (Parsed v r, m2))"
  by (simp add: alloc_def split: prod.split)

definition parse_key :: "mem \<Rightarrow> string \<Rightarrow> (string parsed \<times> mem) cres" where
  "parse_key m value =
     alloc m (\<lambda>m'. Inr (ParseFail None, m')) (\<lambda>m'.
       cbind (parse_string m' (skip value)) (\<lambda>(p, m2). case p of
         ParseFail ep \<Rightarrow> Inr (ParseFail ep, m2)
       | Parsed name rest \<Rightarrow>
           let value' = skip rest
           in if peek value' \<noteq> CHR '':'' then Inr (ParseFail (Some value'), m2)
              else Inr (Parsed name (tl value'), m2)))"

lemma parse_key_shorter:
  assumes "parse_key m value = Inr (Parsed name rest, m')"
  shows "length rest < length value"
proof -
  from assms obtain m1 where m: "malloc m = (True, m1)" by (auto simp: parse_key_def alloc_Parsed)
  from assms obtain q where q: "parse_string m1 (skip value) = Inr q"
    by (auto simp: parse_key_def alloc_def m cbind_Inr_iff)
  from assms obtain out r m2 where p: "parse_string m1 (skip value) = Inr (Parsed out r, m2)" and r: "rest = tl (skip r)"
    by (cases q; cases "fst q") (auto simp: parse_key_def alloc_def m q Let_def split: if_splits)
  have "length rest \<le> length r" using length_skip [of r] by (simp add: r)
  with parse_string_shorter [OF p] length_skip [of "value"] show ?thesis by simp
qed

function parse_value :: "platform \<Rightarrow> mem \<Rightarrow> string \<Rightarrow> (cjson parsed \<times> mem) cres"
  and parse_array :: "platform \<Rightarrow> mem \<Rightarrow> string \<Rightarrow> (cjson parsed \<times> mem) cres"
  and parse_elems :: "platform \<Rightarrow> mem \<Rightarrow> string \<Rightarrow> (cjson list parsed \<times> mem) cres"
  and parse_object :: "platform \<Rightarrow> mem \<Rightarrow> string \<Rightarrow> (cjson parsed \<times> mem) cres"
  and parse_members :: "platform \<Rightarrow> mem \<Rightarrow> string \<Rightarrow> (cjson list parsed \<times> mem) cres" where
  "parse_value P m value =
     (if prefix_of ''null'' value then Inr (Parsed (CJSON [] cJSON_NULL None 0 (Fin 0) None) (drop 4 value), m)
      else if prefix_of ''false'' value then Inr (Parsed (CJSON [] cJSON_False None 0 (Fin 0) None) (drop 5 value), m)
      else if prefix_of ''true'' value then Inr (Parsed (CJSON [] cJSON_True None 1 (Fin 0) None) (drop 4 value), m)
      else if peek value = CHR 0x22 then
        cbind (parse_string m value) (\<lambda>(p, m'). Inr (case p of
            Parsed out rest \<Rightarrow> (Parsed (CJSON [] cJSON_String (Some out) 0 (Fin 0) None) rest, m')
          | ParseFail ep \<Rightarrow> (ParseFail ep, m')))
      else if peek value = CHR ''-'' \<or> isdigit (peek value) then
        cbind (parse_number P value) (\<lambda>(item, rest). Inr (Parsed item rest, m))
      else if peek value = CHR ''['' then parse_array P m value
      else if peek value = CHR ''{'' then parse_object P m value
      else Inr (ParseFail (Some value), m))"
| "parse_array P m value =
     (if peek value \<noteq> CHR ''['' then Inr (ParseFail (Some value), m)
      else let value' = skip (tl value)
           in if peek value' = CHR '']'' then Inr (Parsed (CJSON [] cJSON_Array None 0 (Fin 0) None) (tl value'), m)
              else cbind (parse_elems P m value') (\<lambda>(p, m'). Inr (case p of
                  Parsed items rest \<Rightarrow> (Parsed (CJSON items cJSON_Array None 0 (Fin 0) None) rest, m')
                | ParseFail ep \<Rightarrow> (ParseFail ep, m'))))"
| "parse_elems P m value =
     alloc m (\<lambda>m'. Inr (ParseFail None, m')) (\<lambda>m'.
       cbind (parse_value P m' (skip value)) (\<lambda>(p, m2). case p of
         ParseFail ep \<Rightarrow> Inr (ParseFail ep, m2)
       | Parsed item rest \<Rightarrow>
           let value' = skip rest
           in if peek value' = CHR '','' then
                if length rest < length value then
                  cbind (parse_elems P m2 (tl value')) (\<lambda>(q, m3). Inr (case q of
                      Parsed items rest' \<Rightarrow> (Parsed (item # items) rest', m3)
                    | ParseFail ep \<Rightarrow> (ParseFail ep, m3)))
                else Inl OutOfBounds
              else if peek value' = CHR '']'' then Inr (Parsed [item] (tl value'), m2)
              else Inr (ParseFail (Some value'), m2)))"
| "parse_object P m value =
     (if peek value \<noteq> CHR ''{'' then Inr (ParseFail (Some value), m)
      else let value' = skip (tl value)
           in if peek value' = CHR ''}'' then Inr (Parsed (CJSON [] cJSON_Object None 0 (Fin 0) None) (tl value'), m)
              else cbind (parse_members P m value') (\<lambda>(p, m'). Inr (case p of
                  Parsed items rest \<Rightarrow> (Parsed (CJSON items cJSON_Object None 0 (Fin 0) None) rest, m')
                | ParseFail ep \<Rightarrow> (ParseFail ep, m'))))"
| "parse_members P m value =
     cbind (parse_key m value) (\<lambda>(k, m1). case k of
       ParseFail ep \<Rightarrow> Inr (ParseFail ep, m1)
     | Parsed name rest0 \<Rightarrow>
           cbind (parse_value P m1 (skip rest0)) (\<lambda>(p, m2). case p of
             ParseFail ep \<Rightarrow> Inr (ParseFail ep, m2)
           | Parsed item rest \<Rightarrow>
               let value' = skip rest
               in if peek value' = CHR '','' then
                    if length rest < length value then
                      cbind (parse_members P m2 (tl value')) (\<lambda>(q, m3). Inr (case q of
                          Parsed items rest' \<Rightarrow> (Parsed (set_name (Some name) item # items) rest', m3)
                        | ParseFail ep \<Rightarrow> (ParseFail ep, m3)))
                    else Inl OutOfBounds
                  else if peek value' = CHR ''}'' then Inr (Parsed [set_name (Some name) item] (tl value'), m2)
                  else Inr (ParseFail (Some value'), m2)))"
  by pat_completeness auto
termination
proof (relation "measure (\<lambda>x. case x of Inl (Inl (P, m, v)) \<Rightarrow> 3 * length v + 1 | Inl (Inr (P, m, v)) \<Rightarrow> 3 * length v
     | Inr (Inl (P, m, v)) \<Rightarrow> 3 * length v + 2 | Inr (Inr (Inl (P, m, v))) \<Rightarrow> 3 * length v
     | Inr (Inr (Inr (P, m, v))) \<Rightarrow> 3 * length v + 2)", goal_cases)
  case (4 P m v)
  then show ?case using length_skip_tl [of v "CHR ''[''"] by (simp add: NUL_def)
next
  case (5 P m v)
  then show ?case using length_skip [of v] by simp
next
  case (6 P m v m1 x p m2 item rest)
  then show ?case using length_skip_less [of rest "length v"] by simp
next
  case (7 P m v)
  then show ?case using length_skip_tl [of v "CHR ''{''"] by (simp add: NUL_def)
next
  case (8 P m v x k m1 name rest0)
  then show ?case using parse_key_shorter [of m v name rest0 m1] length_skip [of rest0] by simp
next
  case (9 P m v x k m1 name rest0 xb p m2 item rest)
  then show ?case using length_skip_less [of rest "length v"] by simp
qed simp_all

declare parse_value.simps [simp del] parse_array.simps [simp del] parse_elems.simps [simp del]
  parse_object.simps [simp del] parse_members.simps [simp del]

text \<open>
  The item, the end of the parsed text and the error pointer \<^verbatim>\<open>ep\<close>. Deleting a
  partial tree after a failure has no effect on the modelled state.
\<close>

definition cJSON_ParseWithOpts ::
    "platform \<Rightarrow> mem \<Rightarrow> string option \<Rightarrow> bool \<Rightarrow> ((cjson option \<times> string option \<times> string option) \<times> mem) cres" where
  "cJSON_ParseWithOpts P m value require_null_terminated =
     alloc m (\<lambda>m'. Inr ((None, None, None), m')) (\<lambda>m'. case value of
       None \<Rightarrow> Inr ((None, None, None), m')
     | Some v \<Rightarrow> cbind (parse_value P m' (skip v)) (\<lambda>(p, m2). Inr (case p of
         ParseFail ep \<Rightarrow> ((None, None, ep), m2)
       | Parsed c rest \<Rightarrow>
           if require_null_terminated
           then let rest' = skip rest
                in if rest' \<noteq> [] then ((None, None, Some rest'), m2) else ((Some c, Some rest', None), m2)
           else ((Some c, Some rest, None), m2))))"

definition cJSON_Parse :: "platform \<Rightarrow> mem \<Rightarrow> string option \<Rightarrow> (cjson option \<times> mem) cres" where
  "cJSON_Parse P m value =
     cbind (cJSON_ParseWithOpts P m value False) (\<lambda>((c, _, _), m'). Inr (c, m'))"

subsection \<open>Printing\<close>

definition fmt_n :: "bool \<Rightarrow> nat \<Rightarrow> nat" where
  "fmt_n fmt k = (if fmt then k else 0)"

text \<open>The separator of array elements and the composed texts.\<close>

fun join_elems :: "bool \<Rightarrow> string list \<Rightarrow> string" where
  "join_elems fmt [] = []"
| "join_elems fmt [e] = e"
| "join_elems fmt (e # es) = e @ '','' @ (if fmt then '' '' else []) @ join_elems fmt es"

definition tabs :: "nat \<Rightarrow> string" where
  "tabs k = replicate k (CHR 0x09)"

fun join_members :: "bool \<Rightarrow> nat \<Rightarrow> (string \<times> string) list \<Rightarrow> string" where
  "join_members fmt depth [] = []"
| "join_members fmt depth ((n, e) # es) =
     (if fmt then tabs depth else []) @ n @ '':'' @ (if fmt then [CHR 0x09] else []) @ e
     @ (if es \<noteq> [] then '','' else []) @ (if fmt then [newline] else []) @ join_members fmt depth es"

text \<open>
  \<open>print_elems\<close> stops at the first element that fails, \<open>print_members\<close> goes
  on; both then give None.
\<close>

function (sequential) print_value :: "platform \<Rightarrow> mem \<Rightarrow> cjson \<Rightarrow> nat \<Rightarrow> bool \<Rightarrow> (string option \<times> mem) cres"
  and print_array :: "platform \<Rightarrow> mem \<Rightarrow> cjson list \<Rightarrow> nat \<Rightarrow> bool \<Rightarrow> (string option \<times> mem) cres"
  and print_elems :: "platform \<Rightarrow> mem \<Rightarrow> cjson list \<Rightarrow> nat \<Rightarrow> bool \<Rightarrow> (string list option \<times> mem) cres"
  and print_object :: "platform \<Rightarrow> mem \<Rightarrow> cjson list \<Rightarrow> nat \<Rightarrow> bool \<Rightarrow> (string option \<times> mem) cres"
  and print_members ::
    "platform \<Rightarrow> mem \<Rightarrow> cjson list \<Rightarrow> nat \<Rightarrow> bool \<Rightarrow> ((string \<times> string) list option \<times> mem) cres" where
  "print_value P m (CJSON child t vs vi vd nm) depth fmt =
     (case t of
        cJSON_NULL \<Rightarrow> Inr (cJSON_strdup m ''null'')
      | cJSON_False \<Rightarrow> Inr (cJSON_strdup m ''false'')
      | cJSON_True \<Rightarrow> Inr (cJSON_strdup m ''true'')
      | cJSON_Number \<Rightarrow> print_number P m (CJSON child t vs vi vd nm)
      | cJSON_String \<Rightarrow> print_string m (CJSON child t vs vi vd nm)
      | cJSON_Array \<Rightarrow> print_array P m child depth fmt
      | cJSON_Object \<Rightarrow> print_object P m child depth fmt)"
| "print_array P m child depth fmt =
     (if int_max < length child then Inl IntOverflow
      else if child = [] then alloc m (\<lambda>m'. Inr (None, m')) (fill 3 ''[]'')
      else alloc m (\<lambda>m'. Inr (None, m')) (\<lambda>m1.
        cbind (print_elems P m1 child (depth + 1) fmt) (\<lambda>(r, m2). case r of
          None \<Rightarrow> Inr (None, m2)
        | Some es \<Rightarrow>
            let len = 5 + sum_list (map (\<lambda>e. length e + 2 + fmt_n fmt 1) es)
            in if int_max < len then Inl IntOverflow else
               alloc m2 (\<lambda>m'. Inr (None, m')) (fill len (''['' @ join_elems fmt es @ '']'')))))"
| "print_elems P m [] depth fmt = Inr (Some [], m)"
| "print_elems P m (c # cs) depth fmt =
     cbind (print_value P m c depth fmt) (\<lambda>(r, m1). case r of
       None \<Rightarrow> Inr (None, m1)
     | Some e \<Rightarrow> cbind (print_elems P m1 cs depth fmt) (\<lambda>(rs, m2). Inr (map_option ((#) e) rs, m2)))"
| "print_object P m child depth fmt =
     (if int_max < length child then Inl IntOverflow
      else if child = [] then
        if fmt \<and> int_max < depth + 4 then Inl IntOverflow
        else alloc m (\<lambda>m'. Inr (None, m')) (fill (if fmt then depth + 4 else 3)
          (''{'' @ (if fmt then newline # tabs (depth - 1) else []) @ ''}''))
      else alloc m (\<lambda>m'. Inr (None, m')) (\<lambda>m0. alloc m0 (\<lambda>m'. Inr (None, m')) (\<lambda>m1.
        cbind (print_members P m1 child (depth + 1) fmt) (\<lambda>(r, m2). case r of
          None \<Rightarrow> Inr (None, m2)
        | Some es \<Rightarrow>
            let len = 7 + fmt_n fmt (depth + 1)
                  + sum_list (map (\<lambda>(n, e). length e + length n + 2 + fmt_n fmt (2 + (depth + 1))) es)
            in if int_max < len then Inl IntOverflow else
               alloc m2 (\<lambda>m'. Inr (None, m')) (fill len
                 (''{'' @ (if fmt then [newline] else []) @ join_members fmt (depth + 1) es
                  @ (if fmt then tabs depth else []) @ ''}''))))))"
| "print_members P m [] depth fmt = Inr (Some [], m)"
| "print_members P m (c # cs) depth fmt =
     cbind (print_string_ptr m (j_string c)) (\<lambda>(str, m1).
     cbind (print_value P m1 c depth fmt) (\<lambda>(ret, m2).
     cbind (print_members P m2 cs depth fmt) (\<lambda>(rs, m3).
       Inr (case (str, ret, rs) of (Some n, Some e, Some es) \<Rightarrow> Some ((n, e) # es) | _ \<Rightarrow> None, m3))))"
  by pat_completeness auto
termination
  by (relation "measure (\<lambda>x. case x of Inl (Inl (P, m, c, _)) \<Rightarrow> 2 * size c
     | Inl (Inr (P, m, cs, _)) \<Rightarrow> 2 * size_list size cs + 1 | Inr (Inl (P, m, cs, _)) \<Rightarrow> 2 * size_list size cs
     | Inr (Inr (Inl (P, m, cs, _))) \<Rightarrow> 2 * size_list size cs + 1 | Inr (Inr (Inr (P, m, cs, _))) \<Rightarrow> 2 * size_list size cs)")
    simp_all

definition print_item :: "platform \<Rightarrow> mem \<Rightarrow> cjson option \<Rightarrow> bool \<Rightarrow> (string option \<times> mem) cres" where
  "print_item P m item fmt = (case item of None \<Rightarrow> Inr (None, m) | Some c \<Rightarrow> print_value P m c 0 fmt)"

definition cJSON_Print :: "platform \<Rightarrow> mem \<Rightarrow> cjson option \<Rightarrow> (string option \<times> mem) cres" where
  "cJSON_Print P m item = print_item P m item True"

definition cJSON_PrintUnformatted :: "platform \<Rightarrow> mem \<Rightarrow> cjson option \<Rightarrow> (string option \<times> mem) cres" where
  "cJSON_PrintUnformatted P m item = print_item P m item False"

subsection \<open>Arrays and objects\<close>

text \<open>Items are pointers: None is NULL, and reading through it is a fault.\<close>

definition children :: "cjson option \<Rightarrow> cjson list cres" where
  "children p = (case p of None \<Rightarrow> Inl NullDeref | Some c \<Rightarrow> Inr (j_child c))"

definition cJSON_GetArraySize :: "cjson option \<Rightarrow> int cres" where
  "cJSON_GetArraySize arr = cbind (children arr) (\<lambda>cs. Inr (int (length cs)))"

fun nth_item :: "cjson list \<Rightarrow> int \<Rightarrow> cjson option" where
  "nth_item [] i = None"
| "nth_item (c # cs) i = (if 0 < i then nth_item cs (i - 1) else Some c)"

definition cJSON_GetArrayItem :: "cjson option \<Rightarrow> int \<Rightarrow> cjson option cres" where
  "cJSON_GetArrayItem arr item = cbind (children arr) (\<lambda>cs. Inr (nth_item cs item))"

fun find_name :: "cjson list \<Rightarrow> string option \<Rightarrow> nat" where
  "find_name [] str = 0"
| "find_name (c # cs) str = (if cJSON_strcasecmp (j_string c) str \<noteq> 0 then Suc (find_name cs str) else 0)"

definition cJSON_GetObjectItem :: "cjson option \<Rightarrow> string option \<Rightarrow> cjson option cres" where
  "cJSON_GetObjectItem obj str =
     cbind (children obj) (\<lambda>cs. let i = find_name cs str in Inr (if i < length cs then Some (cs ! i) else None))"

definition cJSON_AddItemToArray :: "cjson option \<Rightarrow> cjson option \<Rightarrow> cjson option cres" where
  "cJSON_AddItemToArray arr item =
     cbind (children arr) (\<lambda>cs. case item of
       None \<Rightarrow> Inr arr
     | Some i \<Rightarrow> Inr (map_option (set_child (cs @ [i])) arr))"

definition cJSON_AddItemToObject ::
    "mem \<Rightarrow> cjson option \<Rightarrow> string \<Rightarrow> cjson option \<Rightarrow> (cjson option \<times> mem) cres" where
  "cJSON_AddItemToObject m obj str item =
     (case item of None \<Rightarrow> Inr (obj, m)
      | Some i \<Rightarrow> let (s, m') = cJSON_strdup m str
                   in cbind (cJSON_AddItemToArray obj (Some (set_name s i))) (\<lambda>obj'. Inr (obj', m')))"

definition cJSON_DetachItemFromArray :: "cjson option \<Rightarrow> int \<Rightarrow> (cjson option \<times> cjson option) cres" where
  "cJSON_DetachItemFromArray arr which =
     cbind (children arr) (\<lambda>cs. case nth_item cs which of
       None \<Rightarrow> Inr (None, arr)
     | Some c \<Rightarrow> Inr (Some c, map_option (set_child (take (nat which) cs @ drop (Suc (nat which)) cs)) arr))"

definition cJSON_DeleteItemFromArray :: "cjson option \<Rightarrow> int \<Rightarrow> cjson option cres" where
  "cJSON_DeleteItemFromArray arr which = cbind (cJSON_DetachItemFromArray arr which) (\<lambda>(_, arr'). Inr arr')"

definition cJSON_DetachItemFromObject ::
    "cjson option \<Rightarrow> string option \<Rightarrow> (cjson option \<times> cjson option) cres" where
  "cJSON_DetachItemFromObject obj str =
     cbind (children obj) (\<lambda>cs. let i = find_name cs str
       in if i < length cs then cJSON_DetachItemFromArray obj (int i) else Inr (None, obj))"

definition cJSON_DeleteItemFromObject :: "cjson option \<Rightarrow> string option \<Rightarrow> cjson option cres" where
  "cJSON_DeleteItemFromObject obj str = cbind (cJSON_DetachItemFromObject obj str) (\<lambda>(_, obj'). Inr obj')"

definition cJSON_ReplaceItemInArray :: "cjson option \<Rightarrow> int \<Rightarrow> cjson option \<Rightarrow> cjson option cres" where
  "cJSON_ReplaceItemInArray arr which newitem =
     cbind (children arr) (\<lambda>cs. case nth_item cs which of
       None \<Rightarrow> Inr arr
     | Some c \<Rightarrow> (case newitem of None \<Rightarrow> Inl NullDeref
         | Some i \<Rightarrow> Inr (map_option (set_child (cs[nat which := i])) arr)))"

definition cJSON_ReplaceItemInObject ::
    "mem \<Rightarrow> cjson option \<Rightarrow> string \<Rightarrow> cjson option \<Rightarrow> (cjson option \<times> mem) cres" where
  "cJSON_ReplaceItemInObject m obj str newitem =
     cbind (children obj) (\<lambda>cs. let i = find_name cs (Some str)
       in if i < length cs then
            (case newitem of None \<Rightarrow> Inl NullDeref
             | Some n \<Rightarrow> let (s, m') = cJSON_strdup m str
                 in cbind (cJSON_ReplaceItemInArray obj (int i) (Some (set_name s n))) (\<lambda>obj'. Inr (obj', m')))
          else Inr (obj, m))"

subsection \<open>Creating and copying items\<close>

definition create :: "mem \<Rightarrow> cjson \<Rightarrow> cjson option \<times> mem" where
  "create m item = alloc m (\<lambda>m'. (None, m')) (\<lambda>m'. (Some item, m'))"

definition cJSON_CreateNull :: "mem \<Rightarrow> cjson option \<times> mem" where
  "cJSON_CreateNull m = create m (CJSON [] cJSON_NULL None 0 (Fin 0) None)"

definition cJSON_CreateTrue :: "mem \<Rightarrow> cjson option \<times> mem" where
  "cJSON_CreateTrue m = create m (CJSON [] cJSON_True None 0 (Fin 0) None)"

definition cJSON_CreateFalse :: "mem \<Rightarrow> cjson option \<times> mem" where
  "cJSON_CreateFalse m = create m (CJSON [] cJSON_False None 0 (Fin 0) None)"

definition cJSON_CreateBool :: "mem \<Rightarrow> bool \<Rightarrow> cjson option \<times> mem" where
  "cJSON_CreateBool m b = create m (CJSON [] (if b then cJSON_True else cJSON_False) None 0 (Fin 0) None)"

definition cJSON_CreateNumber :: "mem \<Rightarrow> double \<Rightarrow> cjson option \<times> mem" where
  "cJSON_CreateNumber m num = create m (CJSON [] cJSON_Number None (d_to_int num) num None)"

definition cJSON_CreateString :: "mem \<Rightarrow> string \<Rightarrow> cjson option \<times> mem" where
  "cJSON_CreateString m str =
     alloc m (\<lambda>m'. (None, m')) (\<lambda>m'.
       let (s, m2) = cJSON_strdup m' str in (Some (CJSON [] cJSON_String s 0 (Fin 0) None), m2))"

definition cJSON_CreateArray :: "mem \<Rightarrow> cjson option \<times> mem" where
  "cJSON_CreateArray m = create m (CJSON [] cJSON_Array None 0 (Fin 0) None)"

definition cJSON_CreateObject :: "mem \<Rightarrow> cjson option \<times> mem" where
  "cJSON_CreateObject m = create m (CJSON [] cJSON_Object None 0 (Fin 0) None)"

text \<open>
  The loop that fills a new array: a failed element is stored as the first one,
  dereferenced as a later one; after a failed first element its NULL is
  dereferenced as predecessor.
\<close>

fun create_elems :: "(mem \<Rightarrow> 'a \<Rightarrow> cjson option \<times> mem) \<Rightarrow> mem \<Rightarrow> cjson list \<Rightarrow> 'a list \<Rightarrow> (cjson list \<times> mem) cres" where
  "create_elems mk m done [] = Inr (done, m)"
| "create_elems mk m done (x # xs) =
     (case mk m x of
        (Some n, m') \<Rightarrow> create_elems mk m' (done @ [n]) xs
      | (None, m') \<Rightarrow> if done = [] \<and> xs = [] then Inr ([], m') else Inl NullDeref)"

definition create_array ::
    "(mem \<Rightarrow> 'a \<Rightarrow> cjson option \<times> mem) \<Rightarrow> mem \<Rightarrow> 'a list \<Rightarrow> (cjson option \<times> mem) cres" where
  "create_array mk m xs =
     (case cJSON_CreateArray m of
        (None, m') \<Rightarrow> Inr (None, m')
      | (Some a, m') \<Rightarrow> cbind (create_elems mk m' [] xs) (\<lambda>(cs, m2). Inr (Some (set_child cs a), m2)))"

definition cJSON_CreateIntArray :: "mem \<Rightarrow> int list \<Rightarrow> (cjson option \<times> mem) cres" where
  "cJSON_CreateIntArray m numbers = create_array (\<lambda>m i. cJSON_CreateNumber m (d_of_int i)) m numbers"

definition cJSON_CreateDoubleArray :: "mem \<Rightarrow> double list \<Rightarrow> (cjson option \<times> mem) cres" where
  "cJSON_CreateDoubleArray m numbers = create_array cJSON_CreateNumber m numbers"

definition cJSON_CreateStringArray :: "mem \<Rightarrow> string list \<Rightarrow> (cjson option \<times> mem) cres" where
  "cJSON_CreateStringArray m strings = create_array cJSON_CreateString m strings"

definition dup_string :: "mem \<Rightarrow> string option \<Rightarrow> (bool \<times> string option) \<times> mem" where
  "dup_string m s =
     (case s of None \<Rightarrow> ((True, None), m)
      | Some t \<Rightarrow> let (r, m') = cJSON_strdup m t in ((r \<noteq> None, r), m'))"

fun duplicate :: "mem \<Rightarrow> cjson \<Rightarrow> bool \<Rightarrow> cjson option \<times> mem"
  and duplicate_list :: "mem \<Rightarrow> cjson list \<Rightarrow> cjson list option \<times> mem" where
  "duplicate m (CJSON child t vs vi vd nm) recurse =
     alloc m (\<lambda>m'. (None, m')) (\<lambda>m0.
       let ((ok1, vs'), m1) = dup_string m0 vs in
       if \<not> ok1 then (None, m1) else
       let ((ok2, nm'), m2) = dup_string m1 nm in
       if \<not> ok2 then (None, m2) else
       if \<not> recurse then (Some (CJSON [] t vs' vi vd nm'), m2)
       else (case duplicate_list m2 child of
               (None, m3) \<Rightarrow> (None, m3)
             | (Some cs, m3) \<Rightarrow> (Some (CJSON cs t vs' vi vd nm'), m3)))"
| "duplicate_list m [] = (Some [], m)"
| "duplicate_list m (c # cs) =
     (case duplicate m c True of
        (None, m1) \<Rightarrow> (None, m1)
      | (Some c', m1) \<Rightarrow> (case duplicate_list m1 cs of (r, m2) \<Rightarrow> (map_option ((#) c') r, m2)))"

definition cJSON_Duplicate :: "mem \<Rightarrow> cjson option \<Rightarrow> bool \<Rightarrow> cjson option \<times> mem" where
  "cJSON_Duplicate m item recurse = (case item of None \<Rightarrow> (None, m) | Some c \<Rightarrow> duplicate m c recurse)"

subsection \<open>Minifying\<close>

text \<open>
  \<^verbatim>\<open>cJSON_Minify\<close> rewrites the text in place, never ahead of where it reads; the
  result is the text written. The pointer leaves the text when a comment or a
  string literal is not closed.
\<close>

fun skip_comment :: "string \<Rightarrow> string cres" where
  "skip_comment [] = Inl OutOfBounds"
| "skip_comment (c # s) = (if c = CHR ''*'' \<and> peek s = CHR ''/'' then Inr (tl s) else skip_comment s)"

fun copy_literal :: "string \<Rightarrow> (string \<times> string) cres" where
  "copy_literal [] = Inl OutOfBounds"
| "copy_literal (c # s) =
     (if c = CHR 0x22 then Inr ([c], s)
      else if c = CHR 0x5C then
        (case s of [] \<Rightarrow> Inl OutOfBounds
         | e # s' \<Rightarrow> cbind (copy_literal s') (\<lambda>(a, r). Inr (c # e # a, r)))
      else cbind (copy_literal s) (\<lambda>(a, r). Inr (c # a, r)))"

lemma skip_comment_shorter: "skip_comment s = Inr r \<Longrightarrow> length r < length s"
  by (induction s) (auto split: if_splits simp: less_Suc_eq)

lemma copy_literal_shorter: "copy_literal s = Inr (a, r) \<Longrightarrow> length r < length s"
  by (induction s arbitrary: a r rule: copy_literal.induct)
    (fastforce simp: cbind_Inr_iff split: if_splits list.splits)+

function cJSON_Minify :: "string \<Rightarrow> string cres" where
  "cJSON_Minify json =
     (case json of
        [] \<Rightarrow> Inr []
      | c # s \<Rightarrow>
          if c \<in> {CHR 0x20, CHR 0x09, CHR 0x0D, CHR 0x0A} then cJSON_Minify s
          else if c = CHR ''/'' \<and> peek s = CHR ''/'' then cJSON_Minify (dropWhile (\<lambda>d. d \<noteq> newline) s)
          else if c = CHR ''/'' \<and> peek s = CHR ''*'' then cbind (skip_comment s) cJSON_Minify
          else if c = CHR 0x22 then
            cbind (copy_literal s) (\<lambda>(a, r). cbind (cJSON_Minify r) (\<lambda>out. Inr (c # a @ out)))
          else cbind (cJSON_Minify s) (\<lambda>out. Inr (c # out)))"
  by pat_completeness auto
termination
  by (relation "measure length") (auto dest: skip_comment_shorter copy_literal_shorter
      simp: le_imp_less_Suc length_dropWhile_le)

declare cJSON_Minify.simps [simp del]

end
