(* ===== verification/CJsonRoundtrip.thy ===== *)
theory CJsonRoundtrip
  imports CJson
begin

text \<open>
  What the JSON library prints and that it reads it back. \<open>json_text\<close> is the
  text of an item as a function of the item alone; \<^const>\<open>print_value\<close> produces it
  within the buffers it allocates, and \<^const>\<open>parse_value\<close> returns the item
  from it, formatted or not.
\<close>

subsection \<open>String literals\<close>

definition escape_text :: "string \<Rightarrow> string" where
  "escape_text s = concat (map escape_char s)"

lemma hexval_hex_digit: "k < 16 \<Longrightarrow> hexval (hex_digit k) = Some k"
  by (auto simp: hexval_def hex_digit_def Let_def)

lemma hexval_zero: "hexval (CHR ''0'') = Some 0"
  by (simp add: hexval_def)

lemma hex_digit_plain: "k < 16 \<Longrightarrow> hex_digit k \<noteq> CHR 0x22 \<and> hex_digit k \<noteq> CHR 0x5C"
proof -
  assume "k < 16"
  then have "hexval (hex_digit k) \<noteq> None" by (simp add: hexval_hex_digit)
  then show ?thesis by (auto simp: hexval_def)
qed

lemma unescape_u_hex4:
  assumes "of_char c < (32 :: nat)" and "c \<noteq> NUL"
  shows "unescape_u (tl (hex4_text c) @ s) = ([c], 4)"
proof -
  let ?k = "of_char c :: nat"
  have "?k \<noteq> of_char NUL" using assms(2) by (simp add: of_char_eq_iff)
  then have "?k \<noteq> 0" by (simp add: NUL_def)
  moreover have "parse_hex4 (tl (hex4_text c) @ s) = ?k"
    using assms(1) hexval_hex_digit [of 0]
    by (simp add: hex4_text_def parse_hex4_def hexval_hex_digit Let_def hexval_zero)
  ultimately show ?thesis using assms(1) by (simp add: unescape_u_def Let_def utf8_def)
qed

text \<open>The three kinds of escapes that are printed.\<close>

lemma escape_char_cases:
  assumes "c \<noteq> NUL"
  obtains (plain) "escape_char c = [c]" "c \<noteq> CHR 0x22" "c \<noteq> CHR 0x5C"
  | (short) e where "escape_char c = [CHR 0x5C, e]" "e \<noteq> CHR ''u''" "unescape_char e = c"
  | (hex) "escape_char c = CHR 0x5C # hex4_text c" "of_char c < (32 :: nat)"
proof -
  consider "31 < (of_char c :: nat)" "c \<noteq> CHR 0x22" "c \<noteq> CHR 0x5C"
    | "c = CHR 0x5C" | "c = CHR 0x22" | "c = CHR 0x08" | "c = CHR 0x0C" | "c = CHR 0x0A" | "c = CHR 0x0D" | "c = CHR 0x09"
    | "of_char c < (32 :: nat)" "c \<noteq> CHR 0x5C" "c \<noteq> CHR 0x22" "c \<noteq> CHR 0x08" "c \<noteq> CHR 0x0C" "c \<noteq> CHR 0x0A" "c \<noteq> CHR 0x0D" "c \<noteq> CHR 0x09"
    by fastforce
  then show thesis
    by cases (use short plain hex in \<open>auto simp: escape_char_def unescape_char_def\<close>)
qed

lemma string_len_escape:
  "NUL \<notin> set s \<Longrightarrow> \<exists>k. string_len (escape_text s @ CHR 0x22 # rest) = Inr k \<and> length s \<le> k \<and> k \<le> length (escape_text s)"
proof (induction s)
  case (Cons c s)
  then obtain k where k: "string_len (escape_text s @ CHR 0x22 # rest) = Inr k" "length s \<le> k" "k \<le> length (escape_text s)" by auto
  have "c \<noteq> NUL" using Cons.prems by auto
  then show ?case
  proof (cases rule: escape_char_cases)
    case plain
    with k show ?thesis by (simp add: escape_text_def)
  next
    case (short e)
    with k show ?thesis by (simp add: escape_text_def)
  next
    case hex
    then have "of_char c div 16 < (16 :: nat)" "of_char c mod 16 < (16 :: nat)" by simp_all
    with hex k hex_digit_plain show ?thesis by (simp add: escape_text_def hex4_text_def Let_def)
  qed
qed (simp add: escape_text_def)

lemma unescape_escape_text:
  "NUL \<notin> set s \<Longrightarrow> length out + length s \<le> len \<Longrightarrow>
   unescape len (escape_text s @ CHR 0x22 # rest) out = Inr (out @ s, CHR 0x22 # rest)"
proof (induction s arbitrary: out)
  case (Cons c s)
  then have IH: "unescape len (escape_text s @ CHR 0x22 # rest) (out @ [c]) = Inr (out @ c # s, CHR 0x22 # rest)"
    by simp
  have e: "emit len out [c] = Inr (out @ [c])" using Cons.prems by (simp add: emit_def)
  have "c \<noteq> NUL" using Cons.prems by auto
  then show ?case
  proof (cases rule: escape_char_cases)
    case plain
    with IH e show ?thesis by (simp add: escape_text_def unescape_plain)
  next
    case (short x)
    with IH e show ?thesis by (simp add: escape_text_def unescape_escape)
  next
    case hex
    let ?t = "escape_text s @ CHR 0x22 # rest"
    have "escape_text (c # s) @ CHR 0x22 # rest = CHR 0x5C # CHR ''u'' # tl (hex4_text c) @ ?t"
      using hex by (simp add: escape_text_def hex4_text_def Let_def)
    moreover have "drop 4 (tl (hex4_text c) @ ?t) = ?t" "4 \<le> length (tl (hex4_text c) @ ?t)"
      by (simp_all add: hex4_text_def Let_def)
    ultimately show ?thesis
      using IH e unescape_u_hex4 [OF hex(2) \<open>c \<noteq> NUL\<close>, of ?t] by (simp add: unescape_unicode)
  qed
qed (simp add: escape_text_def)

definition str_text :: "string \<Rightarrow> string" where
  "str_text s = [CHR 0x22] @ escape_text s @ [CHR 0x22]"

lemma alloc_ok: "no_fail m \<Longrightarrow> alloc m f g = g (tl m)"
  by (auto simp: alloc_def malloc_def no_fail_def split: list.split)

lemma parse_string_text:
  assumes "NUL \<notin> set s" and "no_fail m" and "length (str_text s) \<le> int_max"
  shows "parse_string m (str_text s @ rest) = Inr (Parsed s rest, tl m)"
proof -
  obtain k where "string_len (escape_text s @ CHR 0x22 # rest) = Inr k" "length s \<le> k" "k \<le> length (escape_text s)"
    using string_len_escape [OF assms(1)] by blast
  moreover from this assms(3) have "\<not> int_max < k + 1" by (simp add: str_text_def)
  ultimately show ?thesis using unescape_escape_text [OF assms(1), of "[]" k rest] assms(2)
    by (simp add: parse_string_def str_text_def peek_def alloc_ok)
qed

lemma escaped_len: "c \<noteq> NUL \<Longrightarrow> length (escape_char c) = escaped_len c"
  by (auto simp: escape_char_def escaped_len_def hex4_text_def Let_def)

lemma print_string_text:
  assumes "NUL \<notin> set s"
  shows "print_string_ptr m (Some s) = (if int_max < length (str_text s) + 1 then Inl IntOverflow
     else alloc m (\<lambda>m'. Inr (None, m')) (\<lambda>m'. Inr (Some (str_text s), m')))"
proof -
  have "length (escape_text s) = sum_list (map escaped_len s)"
    using assms by (induction s) (auto simp: escape_text_def escaped_len)
  then show ?thesis
    by (simp add: print_string_ptr_def fill_def [abs_def] str_text_def escape_text_def Let_def)
qed

subsection \<open>Numbers\<close>

lemma read_digits_mono: "0 \<le> a \<Longrightarrow> \<forall>c\<in>set ds. isdigit c \<Longrightarrow> a \<le> read_digits 10 a ds"
proof (induction ds arbitrary: a)
  case (Cons c ds)
  then obtain k where k: "digit_val c = Some k" "k < 10"
    by (auto simp: digit_val_def isdigit_def Let_def)
  with Cons.IH [of "a * 10 + int k"] Cons.prems show ?case by simp
qed simp

lemma digit_val_dig: "isdigit c \<Longrightarrow> \<exists>k. digit_val c = Some k \<and> k < 10 \<and> dig c = int k"
  by (auto simp: digit_val_def isdigit_def dig_def Let_def of_nat_diff of_nat_of_char)

lemma num_digits_exact:
  assumes "\<forall>c\<in>set ds. isdigit c" and "\<not> isdigit (peek rest)" and "0 \<le> a" and "read_digits 10 a ds < 2 ^ 53"
  shows "num_digits (Fin (of_int a)) (ds @ rest) = (Fin (of_int (read_digits 10 a ds)), rest)"
  using assms
proof (induction ds arbitrary: a)
  case Nil
  then show ?case by (cases rest) (simp_all add: peek_def)
next
  case (Cons c ds)
  then obtain k where k: "digit_val c = Some k" "k < 10" "dig c = int k" using digit_val_dig [of c] by auto
  let ?b = "a * 10 + int k"
  have b: "?b \<le> read_digits 10 ?b ds" using Cons.prems by (intro read_digits_mono) auto
  then have lt: "?b < 2 ^ 53" using Cons.prems(4) k by simp
  have "d_mul (Fin (of_int a)) (Fin 10) = rnd (of_int (a * 10))" by simp
  also have "\<dots> = Fin (of_int (a * 10))" using lt Cons.prems(3) by (intro rnd_int) linarith
  finally have m: "d_mul (Fin (of_int a)) (Fin 10) = Fin (of_int (a * 10))" .
  have "d_of_int (int k) = Fin (of_int (int k))" using k by (intro d_of_int_exact) (simp add: is_int32_def)
  then have "d_add (Fin (of_int (a * 10))) (d_of_int (int k)) = rnd (of_int ?b)" by simp
  also have "\<dots> = Fin (of_int ?b)" using lt Cons.prems(3) by (intro rnd_int) linarith
  finally have "num_digits (Fin (of_int a)) ((c # ds) @ rest) = num_digits (Fin (of_int ?b)) (ds @ rest)"
    using Cons.prems(1) k(3) m by (simp del: d_add.simps d_mul.simps)
  with Cons.IH [of ?b] Cons.prems k show ?case by simp
qed

text \<open>What may follow a number without being read as a part of it.\<close>

definition ends_number :: "string \<Rightarrow> bool" where
  "ends_number rest \<longleftrightarrow> \<not> isdigit (peek rest) \<and> peek rest \<notin> set ''.eE''"

definition number_item :: "int \<Rightarrow> cjson" where
  "number_item i = CJSON [] cJSON_Number None i (Fin (of_int i)) None"

lemma num_int_text:
  assumes "ends_number rest" and "n < 2 ^ 53"
  shows "num_int (show_nat n @ rest) = (Fin (of_nat n), rest)"
proof (cases "n = 0")
  case True
  moreover have "show_nat 0 = ''0''" by code_simp
  ultimately have "show_nat n = ''0''" by simp
  with True assms(1) show ?thesis by (simp add: num_int_def peek_def ends_number_def)
next
  case False
  then obtain c ds where cs: "show_nat n = c # ds" "c \<noteq> CHR ''0''"
    using show_nat_hd [of n] by (cases "show_nat n") auto
  with show_nat_digits [of n] have "isdigit c" by simp
  moreover have "num_digits (Fin (of_int 0)) (show_nat n @ rest) = (Fin (of_int (read_digits 10 0 (show_nat n))), rest)"
    using assms show_nat_digits [of n] by (intro num_digits_exact) (auto simp: ends_number_def read_show_nat)
  then have "num_digits (Fin 0) (show_nat n @ rest) = (Fin (of_nat n), rest)" by (simp add: read_show_nat)
  moreover have "peek (show_nat n @ rest) = c" using cs by (simp add: peek_def)
  ultimately show ?thesis using cs(2) by (simp add: num_int_def)
qed

lemma num_sign_text:
  "num_sign (show_int i @ rest) = (Fin (if i < 0 then - 1 else 1), show_nat (nat \<bar>i\<bar>) @ rest)"
proof (cases "i < 0")
  case False
  obtain c ds where "show_nat (nat \<bar>i\<bar>) = c # ds" by (cases "show_nat (nat \<bar>i\<bar>)") auto
  moreover from this show_nat_digits [of "nat \<bar>i\<bar>"] have "c \<noteq> CHR ''-''" by (auto simp: isdigit_def)
  ultimately show ?thesis using False by (simp add: num_sign_def show_int_def peek_def)
qed (simp add: num_sign_def show_int_def peek_def)

lemma parse_number_text:
  assumes "is_int32 i" and "ends_number rest" and "pow10 P (Fin 0) = Fin 1"
  shows "parse_number P (show_int i @ rest) = Inr (number_item i, rest)"
proof -
  let ?n = "nat \<bar>i\<bar>"
  have n: "?n < 2 ^ 53" using assms(1) unfolding is_int32_def by (simp, linarith)
  have r: "peek rest \<noteq> CHR ''.''" "peek rest \<noteq> CHR ''e''" "peek rest \<noteq> CHR ''E''"
    using assms(2) by (simp_all add: ends_number_def)
  have ex: "rnd (of_int i) = Fin (of_int i)" using d_of_int_exact [OF assms(1)] by (simp add: d_of_int_def)
  have "(if i < 0 then - 1 else 1) * of_nat ?n = (of_int i :: rat)" by simp
  then have "d_mul (Fin (if i < 0 then - 1 else 1)) (Fin (of_nat ?n)) = Fin (of_int i)" using ex by simp
  moreover have "d_mul (Fin (of_int i)) (Fin 1) = Fin (of_int i)" "d_add (Fin 0) (d_of_int 0) = Fin 0"
    using ex by (simp_all add: d_of_int_def rnd_to_def)
  ultimately show ?thesis
    unfolding parse_number_def num_sign_text num_int_text [OF assms(2) n] Let_def prod.case
    using assms r by (simp add: number_item_def num_fraction_def num_exponent_def del: d_mul.simps d_add.simps)
qed

lemma print_number_text:
  assumes "is_int32 i" and "j_valueint c = i" and "j_valuedouble c = Fin (of_int i)"
  shows "print_number P m c = alloc m (\<lambda>m'. Inr (None, m')) (\<lambda>m'. Inr (Some (show_int i), m'))"
proof -
  have "d_le (d_abs (d_sub (Fin (of_int i)) (Fin (of_int i)))) DBL_EPSILON"
    by (simp add: d_sub_def rnd_to_def d_le_def DBL_EPSILON_def)
  moreover have "d_le (Fin (of_int i)) (d_of_int 2147483647)" "d_le (d_of_int int_min) (Fin (of_int i))"
    using assms(1) d_of_int_exact [of 2147483647] d_of_int_exact [of int_min]
    by (auto simp: is_int32_def int_min_def d_le_def)
  ultimately show ?thesis
    using assms show_int_length [OF assms(1)] by (simp add: print_number_def d_of_int_exact fill_def [abs_def])
qed

subsection \<open>Items and their texts\<close>

text \<open>
  Items whose text is JSON: strings and names are set, numbers are values of \<^verbatim>\<open>int\<close>.
\<close>

definition name_ok :: "cjson \<Rightarrow> bool" where
  "name_ok c = (case j_string c of None \<Rightarrow> False | Some s \<Rightarrow> NUL \<notin> set s)"

fun printable :: "cjson \<Rightarrow> bool" where
  "printable (CJSON ch t vs vi vd nm) =
     (case t of
        cJSON_Number \<Rightarrow> is_int32 vi \<and> vd = Fin (of_int vi)
      | cJSON_String \<Rightarrow> (case vs of None \<Rightarrow> False | Some s \<Rightarrow> NUL \<notin> set s)
      | cJSON_Array \<Rightarrow> (\<forall>c\<in>set ch. printable c)
      | cJSON_Object \<Rightarrow> (\<forall>c\<in>set ch. printable c \<and> name_ok c)
      | _ \<Rightarrow> True)"

text \<open>What parsing keeps of an item: only the fields that belong to its type.\<close>

fun norm_item :: "cjson \<Rightarrow> cjson" where
  "norm_item (CJSON ch t vs vi vd nm) =
     (case t of
        cJSON_NULL \<Rightarrow> CJSON [] t None 0 (Fin 0) None
      | cJSON_False \<Rightarrow> CJSON [] t None 0 (Fin 0) None
      | cJSON_True \<Rightarrow> CJSON [] t None 1 (Fin 0) None
      | cJSON_Number \<Rightarrow> number_item vi
      | cJSON_String \<Rightarrow> CJSON [] t vs 0 (Fin 0) None
      | cJSON_Array \<Rightarrow> CJSON (map norm_item ch) t None 0 (Fin 0) None
      | cJSON_Object \<Rightarrow> CJSON (map (\<lambda>c. set_name (j_string c) (norm_item c)) ch) t None 0 (Fin 0) None)"

definition name_text :: "cjson \<Rightarrow> string" where
  "name_text c = (case j_string c of None \<Rightarrow> [] | Some s \<Rightarrow> str_text s)"

definition object_text :: "bool \<Rightarrow> nat \<Rightarrow> (string \<times> string) list \<Rightarrow> string" where
  "object_text fmt depth es =
     (if es = [] then ''{'' @ (if fmt then newline # tabs (depth - 1) else []) @ ''}''
      else ''{'' @ (if fmt then [newline] else []) @ join_members fmt (depth + 1) es
           @ (if fmt then tabs depth else []) @ ''}'')"

fun json_text :: "cjson \<Rightarrow> nat \<Rightarrow> bool \<Rightarrow> string" where
  "json_text (CJSON ch t vs vi vd nm) depth fmt =
     (case t of
        cJSON_NULL \<Rightarrow> ''null''
      | cJSON_False \<Rightarrow> ''false''
      | cJSON_True \<Rightarrow> ''true''
      | cJSON_Number \<Rightarrow> show_int vi
      | cJSON_String \<Rightarrow> (case vs of None \<Rightarrow> [] | Some s \<Rightarrow> str_text s)
      | cJSON_Array \<Rightarrow> ''['' @ join_elems fmt (map (\<lambda>c. json_text c (depth + 1) fmt) ch) @ '']''
      | cJSON_Object \<Rightarrow>
          object_text fmt depth (map (\<lambda>c. (name_text c, json_text c (depth + 1) fmt)) ch))"

text \<open>
  The text of any item that the library can hold: a double that is not an \<^verbatim>\<open>int\<close> is printed with the
  formats of \<^const>\<open>float_text\<close>.
\<close>

definition number_text :: "platform \<Rightarrow> int \<Rightarrow> double \<Rightarrow> string" where
  "number_text P vi vd =
     (if d_le (d_abs (d_sub (d_of_int vi) vd)) DBL_EPSILON \<and> d_le vd (d_of_int 2147483647) \<and> d_le (d_of_int int_min) vd
      then show_int vi else float_text P vd)"

fun item_text :: "platform \<Rightarrow> cjson \<Rightarrow> nat \<Rightarrow> bool \<Rightarrow> string" where
  "item_text P (CJSON ch t vs vi vd nm) depth fmt =
     (case t of
        cJSON_NULL \<Rightarrow> ''null''
      | cJSON_False \<Rightarrow> ''false''
      | cJSON_True \<Rightarrow> ''true''
      | cJSON_Number \<Rightarrow> number_text P vi vd
      | cJSON_String \<Rightarrow> (case vs of None \<Rightarrow> [] | Some s \<Rightarrow> str_text s)
      | cJSON_Array \<Rightarrow> ''['' @ join_elems fmt (map (\<lambda>c. item_text P c (depth + 1) fmt) ch) @ '']''
      | cJSON_Object \<Rightarrow>
          object_text fmt depth (map (\<lambda>c. (name_text c, item_text P c (depth + 1) fmt)) ch))"

definition c_string :: "string option \<Rightarrow> bool" where
  "c_string s = (case s of None \<Rightarrow> True | Some t \<Rightarrow> NUL \<notin> set t)"

text \<open>Items as C holds them: strings have no NUL inside and the fields of a number are an \<^verbatim>\<open>int\<close> and a \<^verbatim>\<open>double\<close>.\<close>

fun c_item :: "platform \<Rightarrow> cjson \<Rightarrow> bool" where
  "c_item P (CJSON ch t vs vi vd nm) =
     (case t of
        cJSON_Number \<Rightarrow> is_int32 vi \<and> in_range vd \<and> (vd = NaN \<longrightarrow> length (nan_text P) < 64)
      | cJSON_String \<Rightarrow> c_string vs
      | cJSON_Array \<Rightarrow> (\<forall>c\<in>set ch. c_item P c)
      | cJSON_Object \<Rightarrow> (\<forall>c\<in>set ch. c_item P c \<and> c_string (j_string c))
      | _ \<Rightarrow> True)"

lemma number_text_int: "is_int32 i \<Longrightarrow> number_text P i (Fin (of_int i)) = show_int i"
proof -
  assume i: "is_int32 i"
  have "d_le (d_abs (d_sub (Fin (of_int i)) (Fin (of_int i)))) DBL_EPSILON"
    by (simp add: d_sub_def rnd_to_def d_le_def DBL_EPSILON_def)
  moreover have "d_le (Fin (of_int i)) (d_of_int 2147483647)" "d_le (d_of_int int_min) (Fin (of_int i))"
    using i d_of_int_exact [of 2147483647] d_of_int_exact [of int_min]
    by (auto simp: is_int32_def int_min_def d_le_def)
  ultimately show ?thesis using i by (simp add: number_text_def d_of_int_exact)
qed

lemma int_in_range: "is_int32 i \<Longrightarrow> in_range (Fin (of_int i))"
proof -
  assume i: "is_int32 i"
  have "\<bar>of_int i :: rat\<bar> < 2 ^ 1024"
  proof -
    have "\<bar>i\<bar> \<le> 2 ^ 31" using i by (auto simp: is_int32_def)
    then have "\<bar>of_int i :: rat\<bar> \<le> 2 ^ 31" by (metis of_int_abs of_int_le_iff of_int_numeral of_int_power)
    also have "(2 :: rat) ^ 31 < 2 ^ 1024" by (rule power_strict_increasing) simp_all
    finally show ?thesis .
  qed
  moreover have "1 / 2 ^ 1074 \<le> \<bar>of_int i :: rat\<bar>" if "i \<noteq> 0"
  proof -
    have "1 / 2 ^ 1074 \<le> (1 :: rat)" using one_le_power [of "2 :: rat" 1074] by (simp add: divide_le_eq_1 del: one_le_numeral)
    also have "1 \<le> \<bar>of_int i :: rat\<bar>" using that by (metis int_one_le_iff_zero_less of_int_1_le_iff of_int_abs zero_less_abs_iff)
    finally show ?thesis .
  qed
  ultimately show ?thesis unfolding in_range.simps by (metis of_int_0)
qed

lemma printable_writable:
  "printable c \<Longrightarrow> c_item P c \<and> item_text P c d fmt = json_text c d fmt"
proof (induction c arbitrary: d)
  case (CJSON ch t vs vi vd nm)
  have ot: "object_text fmt d (map (\<lambda>c. (name_text c, item_text P c (d + 1) fmt)) ch)
      = object_text fmt d (map (\<lambda>c. (name_text c, json_text c (d + 1) fmt)) ch)" if "t = cJSON_Object"
    using CJSON that by (auto intro!: arg_cong [of _ _ "object_text fmt d"])
  have at: "map (\<lambda>c. item_text P c (Suc d) fmt) ch = map (\<lambda>c. json_text c (Suc d) fmt) ch" if "t = cJSON_Array"
    using CJSON that by auto
  show ?case
  proof (cases t)
    case cJSON_Number
    with CJSON.prems show ?thesis by (simp add: number_text_int int_in_range del: in_range.simps)
  next
    case cJSON_Array
    with CJSON at show ?thesis by (simp del: map_eq_conv)
  next
    case cJSON_Object
    with CJSON ot show ?thesis by (auto simp: name_ok_def c_string_def split: option.splits)
  qed (use CJSON.prems in \<open>auto simp: c_string_def split: option.splits\<close>)
qed

lemma float_text_length:
  assumes "in_range d" and "d = NaN \<longrightarrow> length (nan_text P) < 64"
  shows "length (float_text P d) < 64"
proof (cases d)
  case (Fin x)
  have "\<bar>x\<bar> < 10 ^ 60" if "\<bar>x\<bar> < 999999999999999949387135297074018866963645011013410073083904" using that by simp
  with fmt_f0_length [of x] fmt_e6_length [of x] fmt_f6_length [of x] assms(1) show ?thesis
    unfolding Fin by (auto simp: float_text_def)
qed (use assms in \<open>simp_all add: float_text_def d_sub_def d_le_def\<close>)

text \<open>
  An outcome of printing: None only when an allocation failed, else the expected
  text; a signed overflow of a length only for texts of half a GiB or more.
\<close>

definition huge :: "string \<Rightarrow> bool" where
  "huge str \<longleftrightarrow> 2 ^ 29 \<le> length str"

definition prints :: "mem \<Rightarrow> (string option \<times> mem) cres \<Rightarrow> string \<Rightarrow> bool" where
  "prints m res str = (case res of Inl f \<Rightarrow> f = IntOverflow \<and> huge str
     | Inr (r, m') \<Rightarrow> (r = None \<or> r = Some str \<and> length str < int_max) \<and> (no_fail m \<longrightarrow> r \<noteq> None \<and> no_fail m'))"

lemma prints_alloc: "length str < int_max \<Longrightarrow> prints m (alloc m (\<lambda>m'. Inr (None, m')) (\<lambda>m'. Inr (Some str, m'))) str"
  by (auto simp: prints_def alloc_def malloc_def no_fail_def split: list.split)

lemma fill_ok: "length str < cap \<Longrightarrow> fill cap str = (\<lambda>m. Inr (Some str, m))"
  by (simp add: fill_def fun_eq_iff)

lemma prints_later: "prints m2 res str \<Longrightarrow> (no_fail m \<Longrightarrow> no_fail m2) \<Longrightarrow> prints m res str"
  by (auto simp: prints_def split: sum.splits)

lemma prints_sized:
  assumes "length str < cap" "cap \<le> 2 * length str + 12"
  shows "prints m (if int_max < cap then Inl IntOverflow else alloc m (\<lambda>m'. Inr (None, m')) (fill cap str)) str"
proof (cases "int_max < cap")
  case True
  with assms(2) show ?thesis by (simp add: prints_def huge_def int_max_def)
next
  case False
  with assms(1) prints_alloc [of str m] show ?thesis by (simp add: fill_ok)
qed

lemma prints_strdup: "length str < int_max \<Longrightarrow> prints m (Inr (cJSON_strdup m str)) str"
  using prints_alloc [of str m] by (cases "malloc m") (auto simp: cJSON_strdup_def alloc_def)

lemma prints_string: "c_string s \<Longrightarrow> prints m (print_string_ptr m s) (case s of None \<Rightarrow> [] | Some t \<Rightarrow> str_text t)"
proof (cases s)
  case (Some t)
  assume "c_string s"
  with Some prints_alloc [of "str_text t" m] show ?thesis
    by (auto simp: c_string_def print_string_text prints_def [of _ "Inl _"] huge_def int_max_def)
qed (simp add: print_string_ptr_def prints_strdup int_max_def)

lemma prints_number:
  assumes "is_int32 vi" "in_range vd" "vd = NaN \<longrightarrow> length (nan_text P) < 64"
  shows "prints m (print_number P m (CJSON ch t vs vi vd nm)) (number_text P vi vd)"
  using show_int_length [OF assms(1)] float_text_length [OF assms(2,3)] prints_alloc
  by (auto simp: print_number_def number_text_def Let_def fill_ok int_max_def)

lemma malloc_succeeds: "malloc m = (b, m') \<Longrightarrow> no_fail m \<Longrightarrow> b \<and> no_fail m'"
  by (auto simp: malloc_def no_fail_def split: list.splits)

lemma length_join_elems:
  "length (join_elems fmt es) \<le> sum_list (map (\<lambda>e. length e + 2 + fmt_n fmt 1) es)"
  "sum_list (map (\<lambda>e. length e + 2 + fmt_n fmt 1) es) \<le> 2 * length (join_elems fmt es) + 3"
  "length es \<le> length (join_elems fmt es) + 1"
  by (induction fmt es rule: join_elems.induct) (auto simp: fmt_n_def)

lemma length_join_members:
  "length (join_members fmt d es) \<le> sum_list (map (\<lambda>(n, e). length e + length n + 2 + fmt_n fmt (2 + d)) es)"
  "sum_list (map (\<lambda>(n, e). length e + length n + 2 + fmt_n fmt (2 + d)) es) \<le> length (join_members fmt d es) + 1"
  "length es \<le> length (join_members fmt d es)"
  by (induction fmt d es rule: join_members.induct) (auto simp: fmt_n_def tabs_def)

lemma elem_length: "e \<in> set es \<Longrightarrow> length e \<le> length (join_elems fmt es)"
  by (induction fmt es rule: join_elems.induct) auto

lemma member_length: "(n, e) \<in> set es \<Longrightarrow> length n \<le> length (join_members fmt d es) \<and> length e \<le> length (join_members fmt d es)"
  by (induction fmt d es rule: join_members.induct) auto

text \<open>Printing the children of an array and of an object; \<open>ov\<close> says whether a length may overflow.\<close>

definition prints_list :: "mem \<Rightarrow> bool \<Rightarrow> ('a list option \<times> mem) cres \<Rightarrow> 'a list \<Rightarrow> bool" where
  "prints_list m ov res xs = (case res of Inl f \<Rightarrow> f = IntOverflow \<and> ov
     | Inr (r, m') \<Rightarrow> (r = None \<or> r = Some xs) \<and> (no_fail m \<longrightarrow> r \<noteq> None \<and> no_fail m'))"

lemma print_elems_text:
  assumes "\<And>c m. c \<in> set cs \<Longrightarrow> prints m (print_value P m c d fmt) (T c)" and "\<And>c. c \<in> set cs \<Longrightarrow> huge (T c) \<Longrightarrow> ov"
  shows "prints_list m ov (print_elems P m cs d fmt) (map T cs)"
  using assms
proof (induction cs arbitrary: m)
  case (Cons c cs)
  have IH: "prints_list m1 ov (print_elems P m1 cs d fmt) (map T cs)" for m1
    by (rule Cons.IH) (use Cons.prems in auto)
  from Cons.prems(1) [of c m] Cons.prems(2) [of c] show ?case
  proof (cases "print_value P m c d fmt")
    case (Inr p)
    obtain r m1 where "p = (r, m1)" by (cases p)
    with Inr Cons.prems(1) [of c m] IH [of m1] show ?thesis
      by (cases "print_elems P m1 cs d fmt") (auto simp: prints_def prints_list_def)
  qed (auto simp: prints_def prints_list_def)
qed (simp add: prints_list_def)

lemma print_members_text:
  assumes "\<And>c m. c \<in> set cs \<Longrightarrow> prints m (print_value P m c d fmt) (T c)" and "\<forall>c\<in>set cs. c_string (j_string c)"
    and "\<And>c. c \<in> set cs \<Longrightarrow> huge (T c) \<or> huge (name_text c) \<Longrightarrow> ov"
  shows "prints_list m ov (print_members P m cs d fmt) (map (\<lambda>c. (name_text c, T c)) cs)"
  using assms
proof (induction cs arbitrary: m)
  case (Cons c cs)
  have IH: "prints_list m1 ov (print_members P m1 cs d fmt) (map (\<lambda>c. (name_text c, T c)) cs)" for m1
    by (rule Cons.IH) (use Cons.prems in auto)
  have nm: "prints m (print_string_ptr m (j_string c)) (name_text c)" using prints_string Cons.prems(2) by (simp add: name_text_def)
  show ?case
  proof (cases "print_string_ptr m (j_string c)")
    case (Inl f)
    with nm Cons.prems(3) [of c] show ?thesis by (auto simp: prints_def prints_list_def)
  next
    case (Inr q)
    obtain s m0 where s: "print_string_ptr m (j_string c) = Inr (s, m0)" using Inr by (cases q) auto
    show ?thesis
    proof (cases "print_value P m0 c d fmt")
      case (Inl f)
      with s Cons.prems(1) [of c m0] Cons.prems(3) [of c] show ?thesis by (auto simp: prints_def prints_list_def)
    next
      case (Inr p)
      then obtain r m1 where "print_value P m0 c d fmt = Inr (r, m1)" by (cases p) auto
      with s nm Cons.prems(1) [of c m0] IH [of m1] show ?thesis
        by (cases "print_members P m1 cs d fmt") (auto simp: prints_def prints_list_def)
    qed
  qed
qed (simp add: prints_list_def)

lemma print_array_text:
  assumes "\<And>m. prints_list m ov (print_elems P m ch (Suc d) fmt) es" and "length ch = length es"
    and "ov \<Longrightarrow> huge (CHR ''['' # join_elems fmt es @ '']'')"
  shows "prints m (print_array P m ch d fmt) (CHR ''['' # join_elems fmt es @ '']'')"
proof (cases "int_max < length ch \<or> ch = []")
  case True
  then show ?thesis using assms(2) length_join_elems(3) [of es fmt]
    by (auto simp: prints_def [of _ "Inl _"] huge_def int_max_def fill_ok prints_alloc)
next
  case False
  obtain b m1 where m1: "malloc m = (b, m1)" by fastforce
  let ?t = "CHR ''['' # join_elems fmt es @ '']''" and ?cap = "5 + (\<Sum>e\<leftarrow>es. length e + 2 + fmt_n fmt 1)"
  have out: "prints m2 (if int_max < ?cap then Inl IntOverflow else alloc m2 (\<lambda>m'. Inr (None, m')) (fill ?cap ?t)) ?t" for m2
    using length_join_elems(1,2) [of fmt es] by (intro prints_sized) simp_all
  show ?thesis
  proof (cases "b \<and> (\<exists>m2. print_elems P m1 ch (Suc d) fmt = Inr (Some es, m2))")
    case True
    then obtain m2 where r: "print_elems P m1 ch (Suc d) fmt = Inr (Some es, m2)" by blast
    have "print_array P m ch d fmt = (if int_max < ?cap then Inl IntOverflow else alloc m2 (\<lambda>m'. Inr (None, m')) (fill ?cap ?t))"
      using False True m1 r by (simp add: alloc_def [of m] Let_def)
    moreover have "no_fail m \<Longrightarrow> no_fail m2" using assms(1) [of m1] r malloc_succeeds [OF m1] by (simp add: prints_list_def)
    ultimately show ?thesis using prints_later [OF out] by simp
  next
    case no: False
    with False m1 assms(1) [of m1] assms(3) malloc_succeeds [OF m1] show ?thesis
      by (cases "print_elems P m1 ch (Suc d) fmt") (auto simp: alloc_def [of m] prints_def prints_list_def)
  qed
qed

lemma print_object_text:
  assumes "\<And>m. prints_list m ov (print_members P m ch (Suc d) fmt) es" and "length ch = length es"
    and "ov \<Longrightarrow> huge (object_text fmt d es)"
  shows "prints m (print_object P m ch d fmt) (object_text fmt d es)"
proof (cases "int_max < length ch \<or> ch = []")
  case True
  then show ?thesis using assms(2) length_join_members(3) [of es fmt "d + 1"]
    by (auto simp: prints_def [of _ "Inl _"] huge_def int_max_def fill_ok prints_alloc tabs_def object_text_def)
next
  case False
  obtain b m0 where m0: "malloc m = (b, m0)" by fastforce
  obtain b' m1 where m1: "malloc m0 = (b', m1)" by fastforce
  let ?cap = "7 + fmt_n fmt (d + 1) + (\<Sum>(n, e)\<leftarrow>es. length e + length n + 2 + fmt_n fmt (2 + (d + 1)))"
  define t where "t = ''{'' @ (if fmt then [newline] else []) @ join_members fmt (d + 1) es @ (if fmt then tabs d else []) @ ''}''"
  have t: "object_text fmt d es = t" using False assms(2) by (auto simp: object_text_def t_def)
  have out: "prints m2 (if int_max < ?cap then Inl IntOverflow else alloc m2 (\<lambda>m'. Inr (None, m')) (fill ?cap t)) t" for m2
    using length_join_members(1,2) [of fmt "d + 1" es] by (intro prints_sized) (auto simp: t_def tabs_def fmt_n_def)
  show ?thesis
  proof (cases "b \<and> b' \<and> (\<exists>m2. print_members P m1 ch (Suc d) fmt = Inr (Some es, m2))")
    case True
    then obtain m2 where r: "print_members P m1 ch (Suc d) fmt = Inr (Some es, m2)" by blast
    have "print_object P m ch d fmt = (if int_max < ?cap then Inl IntOverflow else alloc m2 (\<lambda>m'. Inr (None, m')) (fill ?cap t))"
      using False True m0 m1 r unfolding t_def by (cases fmt) (simp_all add: alloc_def [of m] alloc_def [of m0] Let_def)
    moreover have "no_fail m \<Longrightarrow> no_fail m2"
      using assms(1) [of m1] r malloc_succeeds [OF m0] malloc_succeeds [OF m1] by (simp add: prints_list_def)
    ultimately show ?thesis using prints_later [OF out] by (simp add: t)
  next
    case no: False
    with False m0 m1 assms(1) [of m1] assms(3) malloc_succeeds [OF m0] malloc_succeeds [OF m1] show ?thesis
      by (cases "print_members P m1 ch (Suc d) fmt") (auto simp: alloc_def [of m] alloc_def [of m0] prints_def prints_list_def)
  qed
qed

lemma object_text_length:
  assumes "(n, e) \<in> set es"
  shows "length n \<le> length (object_text fmt d es)" "length e \<le> length (object_text fmt d es)"
proof -
  have "es \<noteq> []" using assms by auto
  then have "length (join_members fmt (d + 1) es) \<le> length (object_text fmt d es)" by (simp add: object_text_def)
  with member_length [OF assms, of fmt "d + 1"] show "length n \<le> length (object_text fmt d es)" "length e \<le> length (object_text fmt d es)"
    by linarith+
qed

lemma print_value_item: "c_item P c \<Longrightarrow> prints m (print_value P m c d fmt) (item_text P c d fmt)"
proof (induction c arbitrary: m d)
  case (CJSON ch t vs vi vd nm)
  show ?case
  proof (cases t)
    case cJSON_Number
    with CJSON.prems prints_number [of vi vd P m ch t vs nm] show ?thesis by simp
  next
    case cJSON_String
    with CJSON.prems prints_string [of vs m] show ?thesis by (simp add: print_string_def)
  next
    case cJSON_Array
    let ?es = "map (\<lambda>c. item_text P c (Suc d) fmt) ch"
    have "prints_list m (huge (CHR ''['' # join_elems fmt ?es @ '']'')) (print_elems P m ch (Suc d) fmt) ?es" for m
      using CJSON cJSON_Array elem_length [of _ ?es fmt] by (intro print_elems_text) (force simp: huge_def)+
    from print_array_text [OF this] cJSON_Array show ?thesis by (simp del: print_array.simps)
  next
    case cJSON_Object
    let ?es = "map (\<lambda>c. (name_text c, item_text P c (Suc d) fmt)) ch"
    have big: "huge (object_text fmt d ?es)" if "c \<in> set ch" "huge (item_text P c (Suc d) fmt) \<or> huge (name_text c)" for c
    proof -
      have "(name_text c, item_text P c (Suc d) fmt) \<in> set ?es" using that(1) by auto
      from object_text_length [OF this, of fmt d] that(2) show ?thesis unfolding huge_def by linarith
    qed
    have "prints_list m (huge (object_text fmt d ?es)) (print_members P m ch (Suc d) fmt) ?es" for m
      using CJSON cJSON_Object big by (intro print_members_text) auto
    from print_object_text [OF this] cJSON_Object show ?thesis by (simp del: print_object.simps)
  qed (use CJSON.prems in \<open>simp_all add: prints_strdup int_max_def\<close>)
qed

lemma print_value_text: "printable c \<Longrightarrow> prints m (print_value P m c d fmt) (json_text c d fmt)"
  using print_value_item [of P c m d fmt] printable_writable [of c P d fmt] by simp

subsection \<open>Parsing the text of an item\<close>

definition blank :: "string \<Rightarrow> bool" where
  "blank ws \<longleftrightarrow> (\<forall>c\<in>set ws. (of_char c :: nat) \<le> 32)"

lemma blank_simps [simp]: "blank []" "blank (c # ws) \<longleftrightarrow> (of_char c :: nat) \<le> 32 \<and> blank ws"
  "blank (ws @ ws') \<longleftrightarrow> blank ws \<and> blank ws'" "blank (tabs k)"
  by (auto simp: blank_def tabs_def)

lemma skip_blank: "blank ws \<Longrightarrow> skip (ws @ s) = skip s"
  by (simp add: skip_def blank_def dropWhile_append2)

lemma skip_stop: "32 < (of_char c :: nat) \<Longrightarrow> skip (c # s) = c # s"
  by (simp add: skip_def)

text \<open>The first character of a value.\<close>

definition value_start :: "char \<Rightarrow> bool" where
  "value_start c \<longleftrightarrow> 32 < (of_char c :: nat) \<and> c \<noteq> CHR '']'' \<and> c \<noteq> CHR ''}''"

lemma show_int_head: "\<exists>c t. show_int i = c # t \<and> (c = CHR ''-'' \<or> isdigit c)"
  using show_int_chars [of "hd (show_int i)" i] show_int_nonempty [of i] by (cases "show_int i") auto

lemma json_text_start: "printable c \<Longrightarrow> \<exists>x t. json_text c d fmt = x # t \<and> value_start x"
proof (cases c)
  case (CJSON ch t vs vi vd nm)
  assume "printable c"
  with CJSON show ?thesis
    using show_int_head [of vi]
    by (cases t; cases vs)
      (auto simp: value_start_def str_text_def object_text_def isdigit_def)
qed

lemma skip_text:
  assumes "printable c" and "blank ws"
  shows "skip (ws @ json_text c d fmt @ s) = json_text c d fmt @ s"
  using json_text_start [OF assms(1), of d fmt] assms(2) by (auto simp: skip_blank skip_stop value_start_def)

lemma ends_numberI: "c \<notin> set ''.eE'' \<Longrightarrow> \<not> isdigit c \<Longrightarrow> ends_number (c # s)"
  by (simp add: ends_number_def peek_def)

lemma blank_ends: "blank ws \<Longrightarrow> ends_number (ws @ CHR ''}'' # rest)"
  by (cases ws) (auto simp: ends_number_def peek_def isdigit_def)

text \<open>Reading back one value, with any allocations succeeding.\<close>

definition reads :: "platform \<Rightarrow> cjson \<Rightarrow> bool \<Rightarrow> bool" where
  "reads P c fmt \<longleftrightarrow> (\<forall>m d rest. no_fail m \<longrightarrow> ends_number rest \<longrightarrow> length (json_text c d fmt) \<le> int_max \<longrightarrow>
     (\<exists>m'. parse_value P m (json_text c d fmt @ rest) = Inr (Parsed (norm_item c) rest, m') \<and> no_fail m'))"

text \<open>One round of the element loop.\<close>

lemma parse_elems_round:
  assumes "no_fail m" and "parse_value P (tl m) (skip v) = Inr (Parsed item (c # rest), m2)"
    and "32 < (of_char c :: nat)" and "length rest + 1 < length v"
  shows "parse_elems P m v =
    (if c = CHR '','' then cbind (parse_elems P m2 rest) (\<lambda>(q, m3). Inr (case q of
         Parsed items rest' \<Rightarrow> (Parsed (item # items) rest', m3)
       | ParseFail ep \<Rightarrow> (ParseFail ep, m3)))
     else if c = CHR '']'' then Inr (Parsed [item] rest, m2) else Inr (ParseFail (Some (c # rest)), m2))"
  using assms by (subst parse_elems.simps) (simp add: alloc_ok skip_stop peek_def)

lemma json_text_length: "printable c \<Longrightarrow> 0 < length (json_text c d fmt)"
  using json_text_start [of c d fmt] by auto

lemma parse_elems_text:
  assumes "cs \<noteq> []" and "\<forall>c\<in>set cs. printable c \<and> reads P c fmt \<and> length (json_text c d fmt) \<le> int_max" and "blank ws" and "no_fail m"
  shows "\<exists>m'. parse_elems P m (ws @ join_elems fmt (map (\<lambda>c. json_text c d fmt) cs) @ CHR '']'' # rest)
    = Inr (Parsed (map norm_item cs) rest, m') \<and> no_fail m'"
  using assms
proof (induction cs arbitrary: ws m)
  case (Cons c cs)
  note m = no_fail_tl [OF Cons.prems(4)]
  from Cons.prems have c: "printable c" "reads P c fmt" "length (json_text c d fmt) \<le> int_max" by simp_all
  define sp where "sp = (if fmt then '' '' else [])"
  have sp: "blank sp" by (simp add: sp_def)
  define r where "r = (if cs = [] then rest else sp @ join_elems fmt (map (\<lambda>c. json_text c d fmt) cs) @ CHR '']'' # rest)"
  define x where "x = (if cs = [] then CHR '']'' else CHR '','')"
  let ?v = "ws @ json_text c d fmt @ x # r"
  have join: "ws @ join_elems fmt (map (\<lambda>c. json_text c d fmt) (c # cs)) @ CHR '']'' # rest = ?v"
    by (cases cs) (simp_all add: r_def x_def sp_def)
  have "ends_number (x # r)" by (rule ends_numberI) (simp_all add: x_def isdigit_def)
  with c(2,3) m obtain m' where p: "parse_value P (tl m) (json_text c d fmt @ x # r)
      = Inr (Parsed (norm_item c) (x # r), m')" "no_fail m'" unfolding reads_def by blast
  then have "parse_value P (tl m) (skip ?v) = Inr (Parsed (norm_item c) (x # r), m')"
    using skip_text [OF c(1) Cons.prems(3)] by simp
  note step = parse_elems_round [OF Cons.prems(4) this]
  show ?case
  proof (cases "cs = []")
    case True
    with step p(2) json_text_length [OF c(1)] show ?thesis unfolding join by (simp add: x_def r_def)
  next
    case False
    with Cons.IH [OF False _ sp p(2)] Cons.prems(2) obtain m2 where
      "parse_elems P m' r = Inr (Parsed (map norm_item cs) rest, m2)" "no_fail m2" by (auto simp: r_def)
    with False step json_text_length [OF c(1)] show ?thesis unfolding join by (simp add: x_def)
  qed
qed simp

text \<open>The same for the members of an object.\<close>

lemma skip_name:
  assumes "name_ok c" and "blank ws"
  shows "skip (ws @ name_text c @ s) = name_text c @ s"
  using assms by (auto simp: name_ok_def name_text_def skip_blank str_text_def skip_stop split: option.splits)

lemma parse_key_text:
  assumes "name_ok c" and "no_fail m" and "blank ws" and "length (name_text c) \<le> int_max"
  shows "\<exists>m'. parse_key m (ws @ name_text c @ CHR '':'' # rest) = Inr (Parsed (the (j_string c)) rest, m') \<and> no_fail m'"
proof -
  from assms(1) obtain s where s: "j_string c = Some s" "NUL \<notin> set s" by (auto simp: name_ok_def split: option.splits)
  have "skip (ws @ str_text s @ CHR '':'' # rest) = str_text s @ CHR '':'' # rest"
    using assms(3) by (simp add: skip_blank str_text_def skip_stop)
  with parse_string_text [OF s(2), of "tl m" "CHR '':'' # rest"] assms(2,4) s show ?thesis
    by (simp add: parse_key_def alloc_ok name_text_def mem_simps skip_stop peek_def)
qed

lemma skip_idem: "skip (skip s) = skip s"
  by (simp add: skip_def)

lemma parse_key_skip: "skip v = skip v' \<Longrightarrow> parse_key m v = parse_key m v'"
  by (simp add: parse_key_def)

lemma parse_members_round:
  assumes "parse_key m v = Inr (Parsed name rest0, m1)" and "parse_value P m1 (skip rest0) = Inr (Parsed item rest, m2)"
    and "skip rest = x # r" and "length rest < length v"
  shows "parse_members P m v =
    (if x = CHR '','' then cbind (parse_members P m2 r) (\<lambda>(q, m3). Inr (case q of
         Parsed items rest' \<Rightarrow> (Parsed (set_name (Some name) item # items) rest', m3)
       | ParseFail ep \<Rightarrow> (ParseFail ep, m3)))
     else if x = CHR ''}'' then Inr (Parsed [set_name (Some name) item] r, m2) else Inr (ParseFail (Some (x # r)), m2))"
  using assms by (subst parse_members.simps) (simp add: skip_stop peek_def)

lemma parse_members_text:
  assumes "cs \<noteq> []" and "\<forall>c\<in>set cs. printable c \<and> name_ok c \<and> reads P c fmt
      \<and> length (name_text c) \<le> int_max \<and> length (json_text c d fmt) \<le> int_max" and "blank ws" and "no_fail m"
    and "blank we"
  shows "\<exists>m'. (\<forall>v. skip v = skip (ws @ join_members fmt k (map (\<lambda>c. (name_text c, json_text c d fmt)) cs) @ we @ CHR ''}'' # rest)
      \<longrightarrow> parse_members P m v = Inr (Parsed (map (\<lambda>c. set_name (j_string c) (norm_item c)) cs) rest, m')) \<and> no_fail m'"
  using assms
proof (induction cs arbitrary: ws m)
  case (Cons c cs)
  from Cons.prems have c: "printable c" "name_ok c" "reads P c fmt" "length (name_text c) \<le> int_max" "length (json_text c d fmt) \<le> int_max" by simp_all
  define tb where "tb = (if fmt then tabs k else [])"
  define sp where "sp = (if fmt then [CHR 0x09] else [])"
  define nl where "nl = (if fmt then [newline] else [])"
  have bl: "blank (ws @ tb)" "blank sp" "blank nl" using Cons.prems(3) by (simp_all add: tb_def sp_def nl_def newline_def)
  define r where "r = join_members fmt k (map (\<lambda>c. (name_text c, json_text c d fmt)) cs) @ we @ CHR ''}'' # rest"
  define e where "e = (if cs = [] then [] else '','') @ nl @ r"
  let ?v = "(ws @ tb) @ name_text c @ CHR '':'' # sp @ json_text c d fmt @ e"
  have join: "ws @ join_members fmt k (map (\<lambda>c. (name_text c, json_text c d fmt)) (c # cs)) @ we @ CHR ''}'' # rest = ?v"
    by (simp add: r_def e_def tb_def sp_def nl_def)
  obtain m1 where key: "parse_key m ?v = Inr (Parsed (the (j_string c)) (sp @ json_text c d fmt @ e), m1)" "no_fail m1"
    using parse_key_text [OF c(2) Cons.prems(4) bl(1) c(4)] by blast
  have e: "ends_number e"
    using blank_ends [of "nl @ we" rest] bl(3) Cons.prems(5)
    by (cases "cs = []") (simp_all add: e_def r_def ends_numberI isdigit_def)
  obtain m2 where val: "parse_value P m1 (json_text c d fmt @ e) = Inr (Parsed (norm_item c) e, m2)" "no_fail m2"
    using c(3,5) key(2) e unfolding reads_def by blast
  then have val': "parse_value P m1 (skip (sp @ json_text c d fmt @ e)) = Inr (Parsed (norm_item c) e, m2)"
    using skip_text [OF c(1) bl(2)] by simp
  have sv: "skip ?v = name_text c @ CHR '':'' # sp @ json_text c d fmt @ e"
    using skip_name [OF c(2) bl(1)] by simp
  have len: "length e < length v" if "skip v = skip ?v" for v
    using length_skip [of v] that unfolding sv by simp
  have key': "parse_key m v = Inr (Parsed (the (j_string c)) (sp @ json_text c d fmt @ e), m1)" if "skip v = skip ?v" for v
    using parse_key_skip [OF that] key(1) by simp
  have nm: "Some (the (j_string c)) = j_string c" using c(2) by (auto simp: name_ok_def split: option.splits)
  note step = parse_members_round [OF key' val' _ len, unfolded nm]
  show ?case
  proof (cases "cs = []")
    case True
    then have "skip e = CHR ''}'' # rest" using bl Cons.prems(5) by (simp add: e_def r_def skip_blank skip_stop)
    with step [OF _ this] True val(2) show ?thesis unfolding join by auto
  next
    case False
    then have sk: "skip e = CHR '','' # nl @ r" by (simp add: e_def skip_stop)
    from Cons.IH [OF False _ bl(3) val(2) Cons.prems(5)] Cons.prems(2) obtain m3 where
      "parse_members P m2 (nl @ r) = Inr (Parsed (map (\<lambda>c. set_name (j_string c) (norm_item c)) cs) rest, m3)" "no_fail m3"
      by (auto simp: r_def)
    with step [OF _ sk] show ?thesis unfolding join by auto
  qed
qed simp

lemma parse_array_text:
  assumes "\<forall>c\<in>set cs. printable c \<and> reads P c fmt \<and> length (json_text c d fmt) \<le> int_max" and "no_fail m"
  shows "\<exists>m'. parse_value P m (CHR ''['' # join_elems fmt (map (\<lambda>c. json_text c d fmt) cs) @ CHR '']'' # rest)
    = Inr (Parsed (CJSON (map norm_item cs) cJSON_Array None 0 (Fin 0) None) rest, m') \<and> no_fail m'"
proof (cases cs)
  case Nil
  with assms(2) show ?thesis
    by (subst parse_value.simps) (simp add: peek_def isdigit_def parse_array.simps skip_stop)
next
  case (Cons c cs')
  let ?t = "join_elems fmt (map (\<lambda>c. json_text c d fmt) cs) @ CHR '']'' # rest"
  obtain z where z: "?t = json_text c d fmt @ z" using Cons by (cases cs') auto
  from assms(1) Cons have c: "printable c" by simp
  then obtain x y where "json_text c d fmt = x # y" "value_start x" using json_text_start by blast
  with z skip_text [OF c, of "[]" d fmt z] have sk: "skip ?t = ?t" "peek ?t \<noteq> CHR '']''"
    by (auto simp: peek_def value_start_def)
  obtain m' where "parse_elems P m ?t = Inr (Parsed (map norm_item cs) rest, m')" "no_fail m'"
    using parse_elems_text [of cs P fmt d "[]" m rest] assms Cons by auto
  with sk show ?thesis
    by (subst parse_value.simps) (simp add: peek_def isdigit_def parse_array.simps)
qed

lemma parse_object_text:
  assumes "\<forall>c\<in>set cs. printable c \<and> name_ok c \<and> reads P c fmt
      \<and> length (name_text c) \<le> int_max \<and> length (json_text c (d + 1) fmt) \<le> int_max" and "no_fail m"
  shows "\<exists>m'. parse_value P m (object_text fmt d (map (\<lambda>c. (name_text c, json_text c (d + 1) fmt)) cs) @ rest)
    = Inr (Parsed (CJSON (map (\<lambda>c. set_name (j_string c) (norm_item c)) cs) cJSON_Object None 0 (Fin 0) None) rest, m')
    \<and> no_fail m'"
proof (cases cs)
  case Nil
  with assms(2) show ?thesis
    by (subst parse_value.simps)
      (simp add: peek_def isdigit_def parse_object.simps object_text_def skip_stop skip_blank
        skip_blank [of "newline # _", simplified] newline_def)
next
  case (Cons c cs')
  define nl where "nl = (if fmt then [newline] else [])"
  define we where "we = (if fmt then tabs d else [])"
  have bl: "blank nl" "blank we" by (simp_all add: nl_def we_def newline_def)
  let ?j = "join_members fmt (d + 1) (map (\<lambda>c. (name_text c, json_text c (d + 1) fmt)) cs)"
  let ?t = "nl @ ?j @ we @ CHR ''}'' # rest"
  have ot: "object_text fmt d (map (\<lambda>c. (name_text c, json_text c (d + 1) fmt)) cs) @ rest = CHR ''{'' # ?t"
    using Cons by (simp add: object_text_def nl_def we_def)
  have c: "name_ok c" using assms(1) Cons by simp
  have "\<exists>tb z. blank tb \<and> ?t = tb @ name_text c @ z"
    by (rule exI [of _ "nl @ (if fmt then tabs (d + 1) else [])"]) (use Cons bl in simp)
  then obtain tb z where "blank tb" "?t = tb @ name_text c @ z" by blast
  with skip_name [OF c, of tb z] c have "peek (skip ?t) \<noteq> CHR ''}''"
    by (auto simp: name_ok_def name_text_def str_text_def peek_def split: option.splits)
  moreover obtain m' where "parse_members P m (skip ?t)
      = Inr (Parsed (map (\<lambda>c. set_name (j_string c) (norm_item c)) cs) rest, m')" "no_fail m'"
    using parse_members_text [of cs P fmt "d + 1" nl m we "d + 1" rest] assms Cons bl by (auto simp: skip_idem)
  ultimately show ?thesis
    unfolding ot by (subst parse_value.simps) (simp add: peek_def [of "_ # _"] isdigit_def parse_object.simps)
qed

lemma reads_printable:
  assumes "pow10 P (Fin 0) = Fin 1"
  shows "printable c \<Longrightarrow> reads P c fmt"
proof (induction c)
  case (CJSON ch t vs vi vd nm)
  show ?case
    unfolding reads_def
  proof (intro allI impI)
    fix m d and rest :: string
    assume m: "no_fail m" and r: "ends_number rest" and l: "length (json_text (CJSON ch t vs vi vd nm) d fmt) \<le> int_max"
    show "\<exists>m'. parse_value P m (json_text (CJSON ch t vs vi vd nm) d fmt @ rest)
        = Inr (Parsed (norm_item (CJSON ch t vs vi vd nm)) rest, m') \<and> no_fail m'"
    proof (cases t)
      case cJSON_Number
      obtain x s where x: "show_int vi = x # s" "x = CHR ''-'' \<or> isdigit x" using show_int_head by blast
      then have "x \<noteq> CHR ''n''" "x \<noteq> CHR ''f''" "x \<noteq> CHR ''t''" "x \<noteq> CHR 0x22" by (auto simp: isdigit_def)
      with x cJSON_Number CJSON.prems parse_number_text [OF _ r assms, of vi] m show ?thesis
        by (subst parse_value.simps) (simp add: peek_def)
    next
      case cJSON_String
      with CJSON.prems obtain s where s: "vs = Some s" "NUL \<notin> set s" by (cases vs) auto
      have "peek (str_text s @ rest) = CHR 0x22" "\<not> prefix_of ''null'' (str_text s @ rest)"
        "\<not> prefix_of ''false'' (str_text s @ rest)" "\<not> prefix_of ''true'' (str_text s @ rest)"
        by (simp_all add: str_text_def peek_def)
      with s cJSON_String parse_string_text [OF s(2) m, of rest] m l show ?thesis
        by (subst parse_value.simps) (simp add: mem_simps)
    next
      case cJSON_Array
      have "length (json_text c (d + 1) fmt) \<le> int_max" if "c \<in> set ch" for c
        using l cJSON_Array that elem_length [of "json_text c (Suc d) fmt" "map (\<lambda>c. json_text c (Suc d) fmt) ch" fmt] by simp
      with cJSON_Array CJSON parse_array_text [of ch P fmt "d + 1" m rest] m show ?thesis by simp
    next
      case cJSON_Object
      let ?es = "map (\<lambda>c. (name_text c, json_text c (d + 1) fmt)) ch"
      have "length (name_text c) \<le> int_max \<and> length (json_text c (d + 1) fmt) \<le> int_max" if "c \<in> set ch" for c
      proof -
        have "(name_text c, json_text c (d + 1) fmt) \<in> set ?es" using that by auto
        from object_text_length [OF this, of fmt d] l cJSON_Object show ?thesis by simp
      qed
      with cJSON_Object CJSON parse_object_text [of ch P fmt d m rest] m show ?thesis by simp
    qed (use m in \<open>simp_all add: parse_value.simps\<close>)
  qed
qed

lemma reparse:
  assumes "printable c" and "no_fail m" and "pow10 P (Fin 0) = Fin 1" and "length (json_text c 0 fmt) \<le> int_max"
  shows "\<exists>m'. cJSON_Parse P m (Some (json_text c 0 fmt)) = Inr (Some (norm_item c), m') \<and> no_fail m'"
proof -
  have "ends_number []" by (simp add: ends_number_def peek_def NUL_def isdigit_def)
  with reads_printable [OF assms(3,1), of fmt] no_fail_tl [OF assms(2)] assms(4) obtain m2 where
    "parse_value P (tl m) (json_text c 0 fmt @ []) = Inr (Parsed (norm_item c) [], m2)" "no_fail m2"
    unfolding reads_def by blast
  with skip_text [OF assms(1), of "[]" 0 fmt "[]"] assms(2) show ?thesis
    by (simp add: cJSON_Parse_def cJSON_ParseWithOpts_def alloc_ok)
qed

lemma print_item_text:
  assumes "printable c" and "no_fail m"
  obtains m1 where "print_item P m (Some c) fmt = Inr (Some (json_text c 0 fmt), m1)" "no_fail m1" "length (json_text c 0 fmt) < int_max"
  | "print_item P m (Some c) fmt = Inl IntOverflow" "huge (json_text c 0 fmt)"
  using print_value_text [OF assms(1), of m P 0 fmt] assms(2)
  by (cases "print_value P m c 0 fmt") (auto simp: prints_def print_item_def)

subsection \<open>Properties\<close>

text \<open>
  C1. Printing an item whose numbers are values of \<^verbatim>\<open>int\<close> and whose strings have no NUL inside, formatted or not,
  and parsing the text returns the item, up to the fields that its type does not use, for every nesting of arrays and
  objects. The alternative is the overflow of a length, and then the text has at least half a GiB. The one assumption on the
  platform is that \<^verbatim>\<open>pow(10.0, 0.0)\<close> is 1.
\<close>

theorem cjson_print_parse:
  assumes "printable c" and "no_fail m" and "pow10 P (Fin 0) = Fin 1"
  shows "(\<exists>str m1 m2. print_item P m (Some c) fmt = Inr (Some str, m1)
      \<and> cJSON_Parse P m1 (Some str) = Inr (Some (norm_item c), m2))
    \<or> print_item P m (Some c) fmt = Inl IntOverflow \<and> huge (json_text c 0 fmt)"
proof (cases rule: print_item_text [OF assms(1,2), of P fmt])
  case (1 m1)
  with reparse [OF assms(1) 1(2) assms(3), of fmt] show ?thesis by auto
qed blast

definition ex_platform :: platform where
  "ex_platform = \<lparr>pow10 = (\<lambda>x. if x = Fin 0 then Fin 1 else NaN), nan_text = ''-nan''\<rparr>"

definition ex_object :: cjson where
  "ex_object = CJSON
     [CJSON [] cJSON_Number None (- 7) (Fin (- 7)) (Some ''port''),
      CJSON [] cJSON_String (Some [CHR 0x22, CHR 0x0A, CHR 0x01]) 0 (Fin 0) (Some ''name''),
      CJSON [CJSON [] cJSON_True None 0 (Fin 0) None, CJSON [] cJSON_NULL None 0 (Fin 0) None] cJSON_Array None 0 (Fin 0) (Some ''list'')]
     cJSON_Object None 0 (Fin 0) None"

lemma ex_object_printable: "printable ex_object"
  by (simp add: ex_object_def name_ok_def is_int32_def NUL_def)

lemma ex_object_small: "\<not> huge (json_text ex_object 0 fmt)"
proof -
  have "length (json_text ex_object 0 True) < 100" "length (json_text ex_object 0 False) < 100" by code_simp+
  then show ?thesis by (cases fmt) (simp_all add: huge_def)
qed

theorem cjson_print_parse_witness:
  "\<exists>str m1 m2. print_item ex_platform [] (Some ex_object) True = Inr (Some str, m1)
    \<and> cJSON_Parse ex_platform m1 (Some str) = Inr (Some (norm_item ex_object), m2)"
  using cjson_print_parse [OF ex_object_printable, of "[]" ex_platform True] ex_object_small
  by (simp add: ex_platform_def)

text \<open>
  C21. Printing any item, with any doubles and any strings without NUL inside, never writes outside the buffers it allocates, whatever
  the allocator does: the result is NULL or the text of the item, and NULL only when an allocation failed. The alternative
  is the overflow of a length of type \<^verbatim>\<open>int\<close>, which needs a text of at least half a GiB.
\<close>

theorem cjson_print_safe:
  assumes "c_item P c"
  shows "(\<exists>r m'. print_item P m (Some c) fmt = Inr (r, m') \<and> (r = None \<or> r = Some (item_text P c 0 fmt))
      \<and> (no_fail m \<longrightarrow> r \<noteq> None))
    \<or> print_item P m (Some c) fmt = Inl IntOverflow \<and> huge (item_text P c 0 fmt)"
  using print_value_item [OF assms, of m 0 fmt]
  by (cases "print_value P m c 0 fmt") (auto simp: print_item_def prints_def)

definition ex_doubles :: cjson where
  "ex_doubles = CJSON [CJSON [] cJSON_Number None int_min (Fin 1099511627776) None, CJSON [] cJSON_Number None int_min (Inf True) None,
     CJSON [] cJSON_Number None int_min NaN None] cJSON_Array None 0 (Fin 0) None"

lemma ex_doubles_text: "item_text ex_platform ex_doubles 0 False = ''[1099511627776,-inf,-nan]''"
proof -
  have i: "d_of_int int_min = Fin (- 2147483648)" using d_of_int_exact [of int_min] by (simp add: is_int32_def int_min_def)
  have "rnd (- 1101659111424) = Fin (- 1101659111424)" using rnd_int [of "- 1101659111424"] by simp
  then have "\<not> d_le (d_abs (d_sub (d_of_int int_min) (Fin 1099511627776))) DBL_EPSILON"
    by (simp add: i d_sub_def d_le_def DBL_EPSILON_def)
  moreover have "d_le (d_abs (d_sub (d_floor (Fin 1099511627776)) (Fin 1099511627776))) DBL_EPSILON"
    by (simp add: d_sub_def d_le_def DBL_EPSILON_def rnd_to_def)
  moreover have "round_even 1099511627776 = 1099511627776" using round_even_int [of 1099511627776] by simp
  then have "fmt_f0 1099511627776 = show_nat 1099511627776" by (simp add: fmt_f0_def sign_text_def)
  then have "fmt_f0 1099511627776 = ''1099511627776''" by (simp add: show_nat.simps digit_char_def char_of_def bit_0)
  ultimately have "number_text ex_platform int_min (Fin 1099511627776) = ''1099511627776''"
    by (simp add: number_text_def float_text_def)
  moreover have "number_text ex_platform int_min (Inf True) = ''-inf''" "number_text ex_platform int_min NaN = ''-nan''"
    by (simp_all add: number_text_def float_text_def d_sub_def d_le_def ex_platform_def i DBL_EPSILON_def)
  ultimately show ?thesis by (simp add: ex_doubles_def)
qed

theorem cjson_print_safe_witness:
  "\<exists>m'. print_item ex_platform [True, True, True] (Some ex_doubles) False = Inr (Some ''[1099511627776,-inf,-nan]'', m')"
proof -
  have "c_item ex_platform ex_doubles" by (simp add: ex_doubles_def is_int32_def int_min_def ex_platform_def)
  from cjson_print_safe [OF this, of "[True, True, True]" False] show ?thesis
    by (auto simp: ex_doubles_text huge_def no_fail_def)
qed

end
