(* ===== verification/CJsonSafety.thy ===== *)
theory CJsonSafety
  imports CJsonRoundtrip "HOL-Library.Sublist"
begin

text \<open>
  Where the JSON parser reads. The rest after a parsed value is always a proper
  suffix of the text, so that parsing ends; and when every escape in the text is
  complete, parsing stays within the text and within the buffers it
  allocates. Both conditions on escapes are needed: the last theorems
  show what happens without them.
\<close>

subsection \<open>The rest of the text\<close>

lemma suffix_skip: "suffix (skip s) s"
  by (simp add: skip_def suffix_dropWhile)

lemma suffix_tl_skip: "suffix (tl (skip s)) s"
  using suffix_skip [of s] by (meson suffix_order.trans suffix_tl)

lemma strict_suffix_tl: "s \<noteq> [] \<Longrightarrow> strict_suffix (tl s) s"
  by (cases s) (auto simp: strict_suffix_def suffix_ConsI)

lemma strict_suffix_length: "strict_suffix r s \<Longrightarrow> length r < length s"
  by (auto simp: strict_suffix_def suffix_def)

lemma peek_nonempty: "peek s = c \<Longrightarrow> c \<noteq> NUL \<Longrightarrow> s \<noteq> []"
  by (auto simp: peek_def)

lemma unescape_suffix: "unescape len ptr out = Inr (r, rest) \<Longrightarrow> suffix rest ptr"
proof (induction "length ptr" arbitrary: ptr out rule: less_induct)
  case less
  note prem = less.prems
  show ?case
  proof (cases rule: literal_cases [of ptr])
    case (3 c s)
    with prem obtain out' where "unescape len s out' = Inr (r, rest)"
      by (auto simp: unescape_plain cbind_Inr_iff)
    with less.hyps [of s] 3 show ?thesis by (simp add: suffix_ConsI)
  next
    case (4 e s)
    with prem obtain out' where "unescape len s out' = Inr (r, rest)"
      by (auto simp: unescape_escape cbind_Inr_iff)
    with less.hyps [of s] 4 show ?thesis by (simp add: suffix_ConsI)
  next
    case (5 s)
    with prem obtain out' where "unescape len (drop (snd (unescape_u s)) s) out' = Inr (r, rest)"
      by (auto simp: unescape_unicode cbind_Inr_iff split: if_splits)
    with less.hyps [of "drop (snd (unescape_u s)) s"] 5 have "suffix rest (drop (snd (unescape_u s)) s)" by simp
    then have "suffix rest s" using suffix_drop suffix_order.trans by blast
    then show ?thesis by (simp add: 5 suffix_ConsI)
  next
    case 6
    with prem show ?thesis by (simp add: unescape_end cbind_Inr_iff)
  qed (use prem in auto)
qed

lemma parse_string_suffix:
  assumes "parse_string m s = Inr (Parsed v rest, m')"
  shows "strict_suffix rest s"
proof -
  from assms have q: "peek s = CHR 0x22" by (auto simp: parse_string_def split: if_splits)
  then obtain t where s: "s = CHR 0x22 # t" by (cases s) (auto simp: peek_def NUL_def)
  from assms q obtain len where l: "string_len (tl s) = Inr len" by (auto simp: parse_string_def cbind_Inr_iff)
  from assms q l obtain out ptr where u: "unescape len t [] = Inr (out, ptr)" and r: "suffix rest ptr"
    unfolding parse_string_def s
    by (cases rule: alloc_cases [of m]) (fastforce simp: alloc_def cbind_Inr_iff split: if_splits)+
  from r unescape_suffix [OF u] have "suffix rest t" by (rule suffix_order.trans)
  then show ?thesis unfolding s by (auto simp: strict_suffix_def suffix_def)
qed

lemma num_digits_suffix: "num_digits n s = (n', r) \<Longrightarrow> suffix r s"
  by (induction n s rule: num_digits.induct) (auto split: if_splits intro: suffix_ConsI)

lemma num_frac_suffix: "num_frac n sc s = (n', sc', r) \<Longrightarrow> suffix r s"
  by (induction n sc s rule: num_frac.induct) (auto split: if_splits intro: suffix_ConsI)

lemma num_exp_suffix: "num_exp k s = Inr (k', r) \<Longrightarrow> suffix r s"
  by (induction k s rule: num_exp.induct) (auto simp: Let_def split: if_splits intro: suffix_ConsI)

lemma num_exp_fault: "num_exp k s = Inl f \<Longrightarrow> f = IntOverflow"
  by (induction k s rule: num_exp.induct) (auto simp: Let_def split: if_splits)

lemma num_int_suffix:
  assumes "num_int s = (n, r)"
  shows "suffix r s" and "isdigit (peek s) \<Longrightarrow> strict_suffix r s"
proof -
  let ?t = "if peek s = CHR ''0'' then tl s else s"
  from assms have r: "suffix r ?t" unfolding num_int_def Let_def
    by (metis num_digits_suffix prod.inject suffix_order.refl)
  then show "suffix r s" using suffix_order.trans [OF _ suffix_tl] by (metis (full_types))
  assume d: "isdigit (peek s)"
  then have ne: "s \<noteq> []" by (auto simp: peek_def isdigit_def NUL_def)
  show "strict_suffix r s"
  proof (cases "peek s = CHR ''0''")
    case True
    with r strict_suffix_tl [OF ne] show ?thesis by (simp add: suffix_order.le_less_trans)
  next
    case False
    with assms d have "num_digits (Fin 0) s = (n, r)" by (simp add: num_int_def)
    moreover obtain c t where ct: "s = c # t" using ne by (cases s) auto
    ultimately have "suffix r t" using d num_digits_suffix by (auto simp: peek_def)
    with ct show ?thesis by (auto simp: strict_suffix_def suffix_def)
  qed
qed

lemma num_fraction_suffix: "num_fraction n s = (n', sc, r) \<Longrightarrow> suffix r s"
  unfolding num_fraction_def
  by (metis num_frac_suffix prod.inject suffix_order.refl suffix_order.trans suffix_tl)

lemma num_exponent_suffix:
  assumes "num_exponent s = Inr (e, r)"
  shows "suffix r s"
proof (cases "peek s = CHR ''e'' \<or> peek s = CHR ''E''")
  case True
  then obtain k where k: "\<exists>t k'. suffix t (tl s) \<and> num_exp 0 t = Inr (k', r)"
    using assms by (auto simp: num_exponent_def Let_def cbind_Inr_iff intro: suffix_tl split: if_splits)
  then have "suffix r (tl s)" using num_exp_suffix suffix_order.trans by blast
  then show ?thesis using suffix_order.trans suffix_tl by blast
qed (use assms in \<open>simp add: num_exponent_def\<close>)

lemma num_exponent_fault: "num_exponent s = Inl f \<Longrightarrow> f = IntOverflow"
  by (auto simp: num_exponent_def Let_def cbind_def split: if_splits sum.splits dest: num_exp_fault)

lemma parse_number_suffix:
  assumes "parse_number P s = Inr (item, r)" and "peek s = CHR ''-'' \<or> isdigit (peek s)"
  shows "strict_suffix r s"
proof -
  obtain sg s1 where s1: "num_sign s = (sg, s1)" by fastforce
  obtain n1 s2 where s2: "num_int s1 = (n1, s2)" by fastforce
  obtain n2 sc s3 where s3: "num_fraction n1 s2 = (n2, sc, s3)" by (cases "num_fraction n1 s2") auto
  obtain e where "num_exponent s3 = Inr (e, r)"
    using assms(1) s1 s2 s3 by (auto simp: parse_number_def cbind_Inr_iff Let_def)
  then have r: "suffix r s2" using num_exponent_suffix num_fraction_suffix [OF s3] suffix_order.trans by blast
  have ne: "s \<noteq> []" using assms(2) by (auto simp: peek_def isdigit_def NUL_def)
  show ?thesis
  proof (cases "peek s = CHR ''-''")
    case True
    with s1 have "s1 = tl s" by (simp add: num_sign_def)
    with r num_int_suffix(1) [OF s2] strict_suffix_tl [OF ne] show ?thesis
      by (metis suffix_order.le_less_trans)
  next
    case False
    with s1 have "s1 = s" by (simp add: num_sign_def)
    with r num_int_suffix(2) [OF s2] assms(2) False show ?thesis by (metis suffix_order.le_less_trans)
  qed
qed

lemma parse_number_fault: "parse_number P s = Inl f \<Longrightarrow> f = IntOverflow"
  by (auto simp: parse_number_def Let_def cbind_def split: prod.splits sum.splits dest: num_exponent_fault)

text \<open>A round of the loops after its value was parsed, and its inversion.\<close>

lemma parse_elems_eq:
  assumes "malloc m = (True, m1)" and "parse_value P m1 (skip v) = Inr (Parsed item rest, m2)"
  shows "parse_elems P m v = (if peek (skip rest) = CHR '','' then
         if length rest < length v then
           cbind (parse_elems P m2 (tl (skip rest))) (\<lambda>(q, m3). Inr (case q of
               Parsed items rest' \<Rightarrow> (Parsed (item # items) rest', m3)
             | ParseFail ep \<Rightarrow> (ParseFail ep, m3)))
         else Inl OutOfBounds
       else if peek (skip rest) = CHR '']'' then Inr (Parsed [item] (tl (skip rest)), m2)
       else Inr (ParseFail (Some (skip rest)), m2))"
  using assms by (subst parse_elems.simps) (simp add: alloc_def)

lemma parse_members_eq:
  assumes "parse_key m v = Inr (Parsed name rest0, m1)" and "parse_value P m1 (skip rest0) = Inr (Parsed item rest, m2)"
  shows "parse_members P m v = (if peek (skip rest) = CHR '','' then
         if length rest < length v then
           cbind (parse_members P m2 (tl (skip rest))) (\<lambda>(q, m3). Inr (case q of
               Parsed items rest' \<Rightarrow> (Parsed (set_name (Some name) item # items) rest', m3)
             | ParseFail ep \<Rightarrow> (ParseFail ep, m3)))
         else Inl OutOfBounds
       else if peek (skip rest) = CHR ''}'' then Inr (Parsed [set_name (Some name) item] (tl (skip rest)), m2)
       else Inr (ParseFail (Some (skip rest)), m2))"
  using assms by (subst parse_members.simps) simp

lemma parse_elems_Parsed:
  assumes "parse_elems P m v = Inr (Parsed items r, m')"
  obtains m1 item rest m2 where "malloc m = (True, m1)" "parse_value P m1 (skip v) = Inr (Parsed item rest, m2)"
    "peek (skip rest) = CHR '']''" "r = tl (skip rest)"
  | m1 item rest m2 items' where "malloc m = (True, m1)" "parse_value P m1 (skip v) = Inr (Parsed item rest, m2)"
    "peek (skip rest) = CHR '',''" "length rest < length v" "parse_elems P m2 (tl (skip rest)) = Inr (Parsed items' r, m')"
proof -
  from assms obtain m1 where m: "malloc m = (True, m1)"
    by (subst (asm) parse_elems.simps) (auto simp: alloc_Parsed)
  from assms m obtain p m2 where p: "parse_value P m1 (skip v) = Inr (p, m2)"
    by (subst (asm) parse_elems.simps) (auto simp: alloc_def cbind_Inr_iff)
  with assms m obtain item rest where pp: "p = Parsed item rest"
    by (subst (asm) parse_elems.simps) (cases p, auto simp: alloc_def)
  note eq = parse_elems_eq [OF m p [unfolded pp]]
  show thesis
  proof (cases "peek (skip rest) = CHR '',''")
    case True
    with assms eq obtain q m3 where "length rest < length v" "parse_elems P m2 (tl (skip rest)) = Inr (q, m3)"
      "(case q of Parsed items rest' \<Rightarrow> (Parsed (item # items) rest', m3) | ParseFail ep \<Rightarrow> (ParseFail ep, m3)) = (Parsed items r, m')"
      by (auto simp: cbind_Inr_iff split: if_splits)
    with that(2) [OF m p [unfolded pp] True] show thesis by (cases q) auto
  next
    case False
    with assms eq that(1) [OF m p [unfolded pp]] show thesis by (simp split: if_splits)
  qed
qed

lemma parse_members_Parsed:
  assumes "parse_members P m v = Inr (Parsed items r, m')"
  obtains m1 name rest0 item rest m2 where "parse_key m v = Inr (Parsed name rest0, m1)"
    "parse_value P m1 (skip rest0) = Inr (Parsed item rest, m2)" "peek (skip rest) = CHR ''}''" "r = tl (skip rest)"
  | m1 name rest0 item rest m2 items' where "parse_key m v = Inr (Parsed name rest0, m1)"
    "parse_value P m1 (skip rest0) = Inr (Parsed item rest, m2)" "peek (skip rest) = CHR '',''"
    "length rest < length v" "parse_members P m2 (tl (skip rest)) = Inr (Parsed items' r, m')"
proof -
  from assms obtain k m1 where k: "parse_key m v = Inr (k, m1)"
    by (subst (asm) parse_members.simps) (auto simp: cbind_Inr_iff)
  with assms obtain name rest0 where kk: "k = Parsed name rest0"
    by (subst (asm) parse_members.simps) (cases k, auto)
  from assms obtain p m2 where p: "parse_value P m1 (skip rest0) = Inr (p, m2)"
    by (subst (asm) parse_members.simps) (auto simp: k kk cbind_Inr_iff)
  with assms obtain item rest where pp: "p = Parsed item rest"
    by (subst (asm) parse_members.simps) (cases p, auto simp: k kk)
  note eq = parse_members_eq [OF k [unfolded kk] p [unfolded pp]]
  show thesis
  proof (cases "peek (skip rest) = CHR '',''")
    case True
    with assms eq obtain q m3 where "length rest < length v" "parse_members P m2 (tl (skip rest)) = Inr (q, m3)"
      "(case q of Parsed items rest' \<Rightarrow> (Parsed (set_name (Some name) item # items) rest', m3)
        | ParseFail ep \<Rightarrow> (ParseFail ep, m3)) = (Parsed items r, m')"
      by (auto simp: cbind_Inr_iff split: if_splits)
    with that(2) [OF k [unfolded kk] p [unfolded pp] True] show thesis by (cases q) auto
  next
    case False
    with assms eq that(1) [OF k [unfolded kk] p [unfolded pp]] show thesis by (simp split: if_splits)
  qed
qed

lemma parse_key_suffix:
  assumes "parse_key m v = Inr (Parsed name r, m')"
  shows "strict_suffix r v"
proof -
  from assms obtain m1 where m: "malloc m = (True, m1)" by (auto simp: parse_key_def alloc_Parsed)
  from assms obtain q where q: "parse_string m1 (skip v) = Inr q"
    by (auto simp: parse_key_def alloc_def m cbind_Inr_iff)
  from assms obtain out r0 m2 where p: "parse_string m1 (skip v) = Inr (Parsed out r0, m2)" and r: "r = tl (skip r0)"
    by (cases q; cases "fst q") (auto simp: parse_key_def alloc_def m q Let_def split: if_splits)
  have "suffix r r0" unfolding r by (rule suffix_tl_skip)
  with parse_string_suffix [OF p] suffix_skip [of v] show ?thesis
    by (meson suffix_order.le_less_trans suffix_order.less_le_trans)
qed

lemma parse_array_suffix:
  assumes "\<And>t m items r m'. length t < length s \<Longrightarrow> parse_elems P m t = Inr (Parsed items r, m') \<Longrightarrow> strict_suffix r t"
    and "parse_array P m s = Inr (Parsed v r, m')"
  shows "strict_suffix r s"
proof -
  have p: "peek s = CHR ''[''" using assms(2) by (auto simp: parse_array.simps split: if_splits)
  then have ne: "s \<noteq> []" by (rule peek_nonempty) (simp add: NUL_def)
  have sk: "suffix (skip (tl s)) (tl s)" "strict_suffix (tl s) s" by (rule suffix_skip) (rule strict_suffix_tl [OF ne])
  show ?thesis
  proof (cases "peek (skip (tl s)) = CHR '']''")
    case True
    with assms(2) p have "r = tl (skip (tl s))" by (simp add: parse_array.simps)
    with sk show ?thesis by (metis suffix_order.le_less_trans suffix_tl)
  next
    case False
    with assms(2) p obtain q m2 where q: "parse_elems P m (skip (tl s)) = Inr (q, m2)"
      by (auto simp: parse_array.simps cbind_Inr_iff)
    with assms(2) p False obtain items where "q = Parsed items r" by (cases q) (auto simp: parse_array.simps)
    with assms(1) [OF _ q [unfolded this]] sk strict_suffix_length [OF sk(2)] length_skip [of "tl s"] show ?thesis
      by (metis le_less_trans suffix_order.less_le_trans suffix_order.less_trans)
  qed
qed

lemma parse_object_suffix:
  assumes "\<And>t m items r m'. length t < length s \<Longrightarrow> parse_members P m t = Inr (Parsed items r, m') \<Longrightarrow> strict_suffix r t"
    and "parse_object P m s = Inr (Parsed v r, m')"
  shows "strict_suffix r s"
proof -
  have p: "peek s = CHR ''{''" using assms(2) by (auto simp: parse_object.simps split: if_splits)
  then have ne: "s \<noteq> []" by (rule peek_nonempty) (simp add: NUL_def)
  have sk: "suffix (skip (tl s)) (tl s)" "strict_suffix (tl s) s" by (rule suffix_skip) (rule strict_suffix_tl [OF ne])
  show ?thesis
  proof (cases "peek (skip (tl s)) = CHR ''}''")
    case True
    with assms(2) p have "r = tl (skip (tl s))" by (simp add: parse_object.simps)
    with sk show ?thesis by (metis suffix_order.le_less_trans suffix_tl)
  next
    case False
    with assms(2) p obtain q m2 where q: "parse_members P m (skip (tl s)) = Inr (q, m2)"
      by (auto simp: parse_object.simps cbind_Inr_iff)
    with assms(2) p False obtain items where "q = Parsed items r" by (cases q) (auto simp: parse_object.simps)
    with assms(1) [OF _ q [unfolded this]] sk strict_suffix_length [OF sk(2)] length_skip [of "tl s"] show ?thesis
      by (metis le_less_trans suffix_order.less_le_trans suffix_order.less_trans)
  qed
qed

lemma drop_strict_suffix: "prefix_of w s \<Longrightarrow> w \<noteq> [] \<Longrightarrow> strict_suffix (drop (length w) s) s"
  by (auto simp: prefix_of_iff strict_suffix_def suffix_def)

lemma parse_value_suffix_step:
  assumes "\<And>m v r m'. parse_array P m s = Inr (Parsed v r, m') \<Longrightarrow> strict_suffix r s"
    and "\<And>m v r m'. parse_object P m s = Inr (Parsed v r, m') \<Longrightarrow> strict_suffix r s"
    and "parse_value P m s = Inr (Parsed v r, m')"
  shows "strict_suffix r s"
proof -
  note e = assms(3) [unfolded parse_value.simps [of P m s]]
  consider "prefix_of ''null'' s" | "prefix_of ''false'' s" | "prefix_of ''true'' s"
    | "\<not> prefix_of ''null'' s" "\<not> prefix_of ''false'' s" "\<not> prefix_of ''true'' s" by blast
  then show ?thesis
  proof cases
    case 4
    show ?thesis
    proof (cases "peek s = CHR 0x22")
      case True
      with e 4 obtain q m2 where q: "parse_string m s = Inr (q, m2)" by (auto simp: cbind_Inr_iff)
      with e 4 True obtain out where "q = Parsed out r" by (cases q) auto
      with q parse_string_suffix show ?thesis by blast
    next
      case False
      with e 4 assms(1,2) parse_number_suffix show ?thesis
        by (auto simp: cbind_Inr_iff split: if_splits)
    qed
  qed (use e drop_strict_suffix [of "''null''" s] drop_strict_suffix [of "''false''" s]
        drop_strict_suffix [of "''true''" s] in \<open>auto split: if_splits simp: prefix_of_iff\<close>)
qed

lemma parse_loops_suffix:
  "(parse_elems P m s = Inr (Parsed items r, m') \<longrightarrow> strict_suffix r s)
   \<and> (parse_members P m s = Inr (Parsed items r, m') \<longrightarrow> strict_suffix r s)"
proof (induction "length s" arbitrary: s m items r m' rule: less_induct)
  case less
  have val: "strict_suffix r t" if "length t \<le> length s" "parse_value P m t = Inr (Parsed v r, m')" for t m v r m'
  proof (rule parse_value_suffix_step [OF _ _ that(2)])
    fix m v r m'
    show "parse_array P m t = Inr (Parsed v r, m') \<Longrightarrow> strict_suffix r t"
      by (rule parse_array_suffix) (use less.hyps that(1) in \<open>auto intro: less_le_trans\<close>)
    show "parse_object P m t = Inr (Parsed v r, m') \<Longrightarrow> strict_suffix r t"
      by (rule parse_object_suffix) (use less.hyps that(1) in \<open>auto intro: less_le_trans\<close>)
  qed
  have chain: "strict_suffix r s" if "strict_suffix rest t" "suffix t s" "suffix r rest" for r rest t
    using that by (meson suffix_order.le_less_trans suffix_order.less_le_trans)
  have elems: "strict_suffix r s" if a: "parse_elems P m s = Inr (Parsed items r, m')" for m items r m'
    using a
  proof (cases rule: parse_elems_Parsed)
    case (1 m1 item rest m2)
    with val [OF length_skip] suffix_skip suffix_tl_skip show ?thesis by (metis chain)
  next
    case (2 m1 item rest m2 items')
    then have st: "strict_suffix rest (skip s)" using val [OF length_skip] by blast
    have "length (tl (skip rest)) < length s" using 2(4) length_skip [of rest] by simp
    with less.hyps 2(5) have "strict_suffix r (tl (skip rest))" by blast
    then have "suffix r rest" using suffix_tl_skip by (meson suffix_order.less_imp_le suffix_order.trans)
    with st suffix_skip show ?thesis by (metis chain)
  qed
  have members: "strict_suffix r s" if a: "parse_members P m s = Inr (Parsed items r, m')" for m items r m'
    using a
  proof (cases rule: parse_members_Parsed)
    case (1 m1 name rest0 item rest m2)
    then have k: "strict_suffix rest0 s" using parse_key_suffix by blast
    then have "length (skip rest0) \<le> length s" using length_skip [of rest0] strict_suffix_length by fastforce
    with val 1 have "strict_suffix rest (skip rest0)" by blast
    moreover have "suffix (skip rest0) s" using k suffix_skip by (meson suffix_order.less_imp_le suffix_order.trans)
    ultimately show ?thesis using suffix_tl_skip 1(4) by (metis chain)
  next
    case (2 m1 name rest0 item rest m2 items')
    then have k: "strict_suffix rest0 s" using parse_key_suffix by blast
    then have "length (skip rest0) \<le> length s" using length_skip [of rest0] strict_suffix_length by fastforce
    with val 2 have st: "strict_suffix rest (skip rest0)" by blast
    have s0: "suffix (skip rest0) s" using k suffix_skip by (meson suffix_order.less_imp_le suffix_order.trans)
    have "length (tl (skip rest)) < length s" using 2(4) length_skip [of rest] by simp
    with less.hyps 2(5) have "strict_suffix r (tl (skip rest))" by blast
    then have "suffix r rest" using suffix_tl_skip by (meson suffix_order.less_imp_le suffix_order.trans)
    with st s0 show ?thesis by (metis chain)
  qed
  from elems members show ?case by blast
qed

lemma parse_elems_suffix: "parse_elems P m s = Inr (Parsed items r, m') \<Longrightarrow> strict_suffix r s"
  and parse_members_suffix: "parse_members P m s = Inr (Parsed items r, m') \<Longrightarrow> strict_suffix r s"
  using parse_loops_suffix by blast+

lemma parse_value_suffix:
  assumes "parse_value P m s = Inr (Parsed v r, m')"
  shows "strict_suffix r s"
  using parse_array_suffix [OF parse_elems_suffix] parse_object_suffix [OF parse_members_suffix]
  by (rule parse_value_suffix_step [OF _ _ assms])

lemma parse_shorter: "parse_value P m (skip v) = Inr (Parsed item rest, m') \<Longrightarrow> length rest < length v"
  using strict_suffix_length [OF parse_value_suffix] length_skip [of v] by (metis less_le_trans)

subsection \<open>Complete escapes\<close>

definition hex4 :: "string \<Rightarrow> bool" where
  "hex4 s \<longleftrightarrow> (\<exists>a b c d t. s = a # b # c # d # t \<and> hexval a \<noteq> None \<and> hexval b \<noteq> None \<and> hexval c \<noteq> None \<and> hexval d \<noteq> None)"

text \<open>Every \<^verbatim>\<open>\u\<close> is followed by four hexadecimal digits, and the text does not end with a backslash.\<close>

fun esc_ok :: "string \<Rightarrow> bool" where
  "esc_ok [] = True"
| "esc_ok (c # s) = ((c = CHR 0x5C \<longrightarrow> s \<noteq> [] \<and> (peek s = CHR ''u'' \<longrightarrow> hex4 (tl s))) \<and> esc_ok s)"

text \<open>After every \<open>e\<close> and its sign there are at most nine digits, so that an exponent fits into \<^verbatim>\<open>int\<close>.\<close>

fun short_exps :: "string \<Rightarrow> bool" where
  "short_exps [] = True"
| "short_exps (c # s) = ((c = CHR ''e'' \<or> c = CHR ''E'' \<longrightarrow>
     length (takeWhile isdigit (if peek s = CHR ''+'' \<or> peek s = CHR ''-'' then tl s else s)) < 10) \<and> short_exps s)"

lemma esc_ok_append: "esc_ok (a @ s) \<Longrightarrow> esc_ok s"
  by (induction a) auto

lemma short_exps_append: "short_exps (a @ s) \<Longrightarrow> short_exps s"
  by (induction a) auto

lemma esc_ok_suffix: "esc_ok s \<Longrightarrow> suffix t s \<Longrightarrow> esc_ok t"
  by (auto simp: suffix_def dest: esc_ok_append)

lemma esc_ok_Cons: "esc_ok (c # s) \<Longrightarrow> esc_ok s"
  by simp

text \<open>A text on which parsing stays within its buffers and, when \<open>b\<close> holds, has no overflow either.\<close>

definition tame :: "bool \<Rightarrow> string \<Rightarrow> bool" where
  "tame b s \<longleftrightarrow> esc_ok s \<and> (b \<longrightarrow> short_exps s \<and> length s \<le> int_max)"

lemma tame_suffix: "tame b s \<Longrightarrow> suffix t s \<Longrightarrow> tame b t"
  by (auto simp: tame_def suffix_def dest: esc_ok_append short_exps_append)

lemma string_len_ok: "esc_ok s \<Longrightarrow> \<exists>n. string_len s = Inr n"
proof (induction s rule: string_len.induct)
  case (2 c s)
  show ?case
  proof (cases "c = CHR 0x5C")
    case True
    with 2(3) have "s \<noteq> []" by simp
    then obtain e s' where s: "s = e # s'" by (cases s) auto
    with 2(3) have "esc_ok s'" using esc_ok_Cons by blast
    with 2(1) True s show ?thesis by auto
  next
    case False
    with 2 esc_ok_Cons show ?thesis by fastforce
  qed
qed simp

lemma hex_plain: "hexval c \<noteq> None \<Longrightarrow> c \<noteq> CHR 0x22 \<and> c \<noteq> CHR 0x5C"
  by (auto simp: hexval_def)

lemma hex4_split:
  assumes "hex4 s"
  shows "4 \<le> length s" and "string_len s = cbind (string_len (drop 4 s)) (\<lambda>k. Inr (k + 4))"
proof -
  from assms obtain a b c d t where s: "s = a # b # c # d # t"
    and h: "hexval a \<noteq> None" "hexval b \<noteq> None" "hexval c \<noteq> None" "hexval d \<noteq> None"
    unfolding hex4_def by blast
  show "4 \<le> length s" using s by simp
  show "string_len s = cbind (string_len (drop 4 s)) (\<lambda>k. Inr (k + 4))"
    using h [THEN hex_plain] by (cases "string_len t") (simp_all add: s)
qed

lemma hexval_less: "hexval c = Some k \<Longrightarrow> k < 16"
  by (auto simp: hexval_def Let_def split: if_splits)

lemma parse_hex4_less: "parse_hex4 s < 0x10000"
  by (auto simp: parse_hex4_def split: list.split option.split dest!: hexval_less)

lemma utf8_length: "length (utf8 uc) \<le> 4" "uc < 0x10000 \<Longrightarrow> length (utf8 uc) \<le> 3"
  by (simp_all add: utf8_def Let_def)

text \<open>
  What the escape \<^verbatim>\<open>\u\<close> writes and how far it moves: at most four bytes over one escape, or
  over two for a surrogate pair.
\<close>

lemma unescape_u_cases:
  obtains bs where "unescape_u s = (bs, 4)" "length bs \<le> 3"
  | bs t where "unescape_u s = (bs, 10)" "length bs \<le> 4" "drop 4 s = CHR 0x5C # CHR ''u'' # t"
proof -
  let ?uc = "parse_hex4 s" and ?t = "drop 4 s"
  show thesis
  proof (cases "0xD800 \<le> ?uc \<and> ?uc \<le> 0xDBFF \<and> peek ?t = CHR 0x5C \<and> peek (tl ?t) = CHR ''u''")
    case True
    then obtain t where t: "?t = CHR 0x5C # CHR ''u'' # t"
      by (cases ?t; cases "tl ?t") (auto simp: peek_def NUL_def)
    with True have "\<exists>bs. unescape_u s = (bs, 10) \<and> length bs \<le> 4"
      using utf8_length(1) by (simp add: unescape_u_def Let_def)
    with that(2) t show thesis by blast
  next
    case False
    then have "\<exists>bs. unescape_u s = (bs, 4) \<and> length bs \<le> 3"
      using utf8_length(2) [OF parse_hex4_less] by (auto simp: unescape_u_def Let_def)
    with that(1) show thesis by blast
  qed
qed

lemma unescape_ok:
  "esc_ok ptr \<Longrightarrow> string_len ptr = Inr n \<Longrightarrow> length out + n \<le> len \<Longrightarrow>
   \<exists>r rest. unescape len ptr out = Inr (r, rest) \<and> length r \<le> length out + n"
proof (induction "length ptr" arbitrary: ptr out n rule: less_induct)
  case less
  have step: "\<exists>r rest. unescape len t (out @ bs) = Inr (r, rest) \<and> length r \<le> length out + n"
    if "suffix t ptr" "length t < length ptr" "string_len t = Inr k" "k + length bs \<le> n" for t bs k
  proof -
    from less.hyps [OF that(2) esc_ok_suffix [OF less.prems(1) that(1)] that(3), of "out @ bs"] that(4) less.prems(3)
    obtain r rest where "unescape len t (out @ bs) = Inr (r, rest)" "length r \<le> length (out @ bs) + k" by auto
    then show ?thesis using that(4) by auto
  qed
  show ?case
  proof (cases rule: literal_cases [of ptr])
    case (3 c s)
    with less.prems(2) obtain k where k: "string_len s = Inr k" "n = Suc k" by (auto simp: cbind_Inr_iff)
    have "emit len out [c] = Inr (out @ [c])" using k less.prems(3) by (simp add: emit_def)
    with 3 step [of s k "[c]"] k show ?thesis by (simp add: unescape_plain suffix_ConsI)
  next
    case (4 e s)
    with less.prems(2) obtain k where k: "string_len s = Inr k" "n = Suc k" by (auto simp: cbind_Inr_iff)
    have "emit len out [unescape_char e] = Inr (out @ [unescape_char e])" using k less.prems(3) by (simp add: emit_def)
    with 4 step [of s k "[unescape_char e]"] k show ?thesis by (simp add: unescape_escape suffix_ConsI)
  next
    case (5 s)
    have "hex4 s" using less.prems(1) 5 by (simp add: peek_def)
    note h = hex4_split [OF this]
    from less.prems(2) 5 h obtain k where k: "string_len (drop 4 s) = Inr k" "n = k + 5" by (auto simp: cbind_Inr_iff)
    have sub: "suffix (drop j s) ptr" "length (drop j s) < length ptr" for j
      using 5 suffix_drop [of j s] by (auto intro: suffix_ConsI)
    have em: "(if bs = [] then Inr out else emit len out bs) = Inr (out @ bs)" if "length bs \<le> 4" for bs
      using that k less.prems(3) by (simp add: emit_def)
    show ?thesis
    proof (cases rule: unescape_u_cases [of s])
      case (1 bs)
      then have "unescape len ptr out = unescape len (drop 4 s) (out @ bs)"
        by (simp only: 5 unescape_unicode fst_conv snd_conv em cbind_simps h(1) if_True)
      with step [OF sub k(1), of bs] k(2) 1 show ?thesis by simp
    next
      case (2 bs t)
      have "esc_ok (drop 4 s)" using esc_ok_suffix [OF less.prems(1) sub(1)] .
      then have "hex4 t" using 2(3) by (simp add: peek_def)
      note ht = hex4_split [OF this]
      have t: "drop 10 s = drop 4 t" "10 \<le> length s"
        using arg_cong [OF 2(3), of "drop 6"] arg_cong [OF 2(3), of length] ht(1) h(1) by auto
      from k(1) 2(3) ht(2) obtain k' where k': "string_len (drop 4 t) = Inr k'" "k = k' + 5" by (auto simp: cbind_Inr_iff)
      have "unescape len ptr out = unescape len (drop 10 s) (out @ bs)"
        by (simp only: 5 2 unescape_unicode fst_conv snd_conv em cbind_simps t(2) if_True)
      with step [OF sub, of 10 k' bs] k(2) k' t 2(2) show ?thesis by simp
    qed
  next
    case 6
    with less.prems(1) show ?thesis by simp
  qed (use less.prems in auto)
qed

lemma string_len_le: "string_len s = Inr n \<Longrightarrow> n \<le> length s"
  by (induction s arbitrary: n rule: string_len.induct) (fastforce simp: cbind_Inr_iff split: if_splits list.splits)+

text \<open>No fault but a signed overflow, and not even that when \<open>b\<close> holds.\<close>

definition no_bad :: "bool \<Rightarrow> 'a cres \<Rightarrow> bool" where
  "no_bad b r = (case r of Inl f \<Rightarrow> f = IntOverflow \<and> \<not> b | Inr _ \<Rightarrow> True)"

lemma no_bad_simps [simp]: "no_bad b (Inr x)" "no_bad b (Inl f) \<longleftrightarrow> f = IntOverflow \<and> \<not> b"
  by (simp_all add: no_bad_def)

lemma no_bad_cbind: "no_bad b r \<Longrightarrow> (\<And>x. r = Inr x \<Longrightarrow> no_bad b (f x)) \<Longrightarrow> no_bad b (cbind r f)"
  by (cases r) simp_all

lemma parse_string_ok:
  assumes "tame b s"
  shows "no_bad b (parse_string m s)"
proof (cases "peek s = CHR 0x22")
  case True
  then obtain t where s: "s = CHR 0x22 # t" by (cases s) (auto simp: peek_def NUL_def)
  then have t: "esc_ok t" using assms by (simp add: tame_def)
  then obtain n where n: "string_len t = Inr n" using string_len_ok by blast
  have "b \<Longrightarrow> n + 1 \<le> int_max" using string_len_le [OF n] assms by (simp add: tame_def s)
  moreover from unescape_ok [OF t n, of "[]" n] obtain r rest where "unescape n t [] = Inr (r, rest)" "length r \<le> n" by auto
  ultimately show ?thesis using n s by (auto simp: parse_string_def peek_def alloc_def split: prod.split)
qed (simp add: parse_string_def)

lemma parse_key_ok:
  assumes "tame b s"
  shows "no_bad b (parse_key m s)"
proof -
  obtain c m1 where m1: "malloc m = (c, m1)" by fastforce
  have "no_bad b (parse_string m1 (skip s))" using parse_string_ok tame_suffix [OF assms suffix_skip] by blast
  with m1 show ?thesis
    by (auto simp: parse_key_def alloc_def Let_def intro!: no_bad_cbind split: parsed.split)
qed

lemma dig_range: "isdigit c \<Longrightarrow> 0 \<le> dig c \<and> dig c \<le> 9"
  using digit_val_dig [of c] by auto

lemma num_exp_short:
  "0 \<le> v \<Longrightarrow> v < 10 ^ k \<Longrightarrow> length (takeWhile isdigit s) + k \<le> 9 \<Longrightarrow> \<exists>r. num_exp v s = Inr r"
proof (induction v s arbitrary: k rule: num_exp.induct)
  case (2 v c s)
  show ?case
  proof (cases "isdigit c")
    case True
    let ?v = "v * 10 + dig c"
    have d: "0 \<le> dig c" "dig c \<le> 9" using dig_range [OF True] by auto
    have v: "0 \<le> ?v" "?v < 10 ^ Suc k" using 2(2,3) d by auto
    have "(10 :: int) ^ Suc k \<le> 10 ^ 9" using 2(4) True by (intro power_increasing) simp_all
    then have "\<not> int int_max < ?v" using v(2) by (simp add: int_max_def)
    with 2(1) [OF True refl _ v(1,2)] 2(4) True show ?thesis by simp
  qed simp
qed simp

lemma num_exponent_short: "short_exps s \<Longrightarrow> \<exists>r. num_exponent s = Inr r"
proof (cases "peek s = CHR ''e'' \<or> peek s = CHR ''E''")
  case True
  assume sh: "short_exps s"
  obtain c t where s: "s = c # t" using True by (cases s) (auto simp: peek_def NUL_def)
  define u where "u = (if peek t = CHR ''+'' \<or> peek t = CHR ''-'' then tl t else t)"
  have "c = CHR ''e'' \<or> c = CHR ''E''" using True by (simp add: s peek_def)
  then have "length (takeWhile isdigit u) < 10" using sh unfolding s u_def short_exps.simps by blast
  then obtain r where "num_exp 0 u = Inr r" using num_exp_short [of 0 0 u] by auto
  then show ?thesis using True by (cases r) (auto simp: num_exponent_def s u_def Let_def)
qed (simp add: num_exponent_def)

lemma parse_number_ok:
  assumes "tame b s"
  shows "no_bad b (parse_number P s)"
proof -
  obtain sg s1 where s1: "num_sign s = (sg, s1)" by fastforce
  obtain n1 s2 where s2: "num_int s1 = (n1, s2)" by fastforce
  obtain n2 sc s3 where s3: "num_fraction n1 s2 = (n2, sc, s3)" by (cases "num_fraction n1 s2") auto
  have "suffix s1 s" using s1 by (auto simp: num_sign_def suffix_tl split: if_splits)
  then have "suffix s3 s" using num_int_suffix(1) [OF s2] num_fraction_suffix [OF s3] suffix_order.trans by blast
  from tame_suffix [OF assms this] have "b \<Longrightarrow> \<exists>r. num_exponent s3 = Inr r" using num_exponent_short by (simp add: tame_def)
  then have "no_bad b (num_exponent s3)" using num_exponent_fault by (cases "num_exponent s3") auto
  then show ?thesis using s1 s2 s3 by (auto simp: parse_number_def Let_def intro!: no_bad_cbind)
qed

lemma parse_array_ok:
  assumes "\<And>t m. length t < length s \<Longrightarrow> tame b t \<Longrightarrow> no_bad b (parse_elems P m t)" and "tame b s"
  shows "no_bad b (parse_array P m s)"
proof (cases "peek s = CHR ''['' \<and> peek (skip (tl s)) \<noteq> CHR '']''")
  case True
  then have "s \<noteq> []" using peek_nonempty [of s] by (auto simp: NUL_def)
  then have "length (skip (tl s)) < length s" using length_skip [of "tl s"] by (cases s) auto
  moreover have "tame b (skip (tl s))"
    using tame_suffix [OF assms(2)] suffix_skip [of "tl s"] suffix_tl [of s] suffix_order.trans by blast
  ultimately have "no_bad b (parse_elems P m (skip (tl s)))" using assms(1) by blast
  then show ?thesis using True by (subst parse_array.simps) (simp add: no_bad_cbind split_beta)
qed (auto simp: parse_array.simps)

lemma parse_object_ok:
  assumes "\<And>t m. length t < length s \<Longrightarrow> tame b t \<Longrightarrow> no_bad b (parse_members P m t)" and "tame b s"
  shows "no_bad b (parse_object P m s)"
proof (cases "peek s = CHR ''{'' \<and> peek (skip (tl s)) \<noteq> CHR ''}''")
  case True
  then have "s \<noteq> []" using peek_nonempty [of s] by (auto simp: NUL_def)
  then have "length (skip (tl s)) < length s" using length_skip [of "tl s"] by (cases s) auto
  moreover have "tame b (skip (tl s))"
    using tame_suffix [OF assms(2)] suffix_skip [of "tl s"] suffix_tl [of s] suffix_order.trans by blast
  ultimately have "no_bad b (parse_members P m (skip (tl s)))" using assms(1) by blast
  then show ?thesis using True by (subst parse_object.simps) (simp add: no_bad_cbind split_beta)
qed (auto simp: parse_object.simps)

lemma parse_value_ok_step:
  assumes "\<And>m. no_bad b (parse_array P m s)" and "\<And>m. no_bad b (parse_object P m s)" and "tame b s"
  shows "no_bad b (parse_value P m s)"
proof -
  show ?thesis
    using assms(1,2) parse_string_ok [OF assms(3), of m] parse_number_ok [OF assms(3), of P] by (subst parse_value.simps) (auto intro!: no_bad_cbind)
qed

lemma parse_loops_ok: "tame b s \<Longrightarrow> no_bad b (parse_elems P m s) \<and> no_bad b (parse_members P m s)"
proof (induction "length s" arbitrary: s m rule: less_induct)
  case less
  have val: "no_bad b (parse_value P m t)" if "length t \<le> length s" "tame b t" for t m
    by (rule parse_value_ok_step)
      (use less.hyps that in \<open>auto intro!: parse_array_ok parse_object_ok intro: less_le_trans\<close>)
  have rest: "tame b (tl (skip r)) \<and> length (tl (skip r)) < length s" if "strict_suffix r s" for r
    using that tame_suffix [OF less.prems] suffix_tl_skip [of r] strict_suffix_length [OF that]
      length_skip [of r] suffix_order.less_imp_le suffix_order.trans
    by (metis diff_le_self le_less_trans length_tl)
  have sk: "tame b (skip t)" "length (skip t) \<le> length s" if "suffix t s" for t
    using that tame_suffix [OF less.prems] suffix_skip [of t] suffix_order.trans length_skip [of t]
      suffix_length_le [OF that] by (blast, simp)
  have elems: "no_bad b (parse_elems P m s)"
  proof -
    obtain ok m1 where m1: "malloc m = (ok, m1)" by fastforce
    note v = val [OF sk(2,1) [OF suffix_order.refl], of m1]
    show ?thesis
    proof (cases "ok \<and> (\<exists>item r m2. parse_value P m1 (skip s) = Inr (Parsed item r, m2))")
      case True
      then obtain item r m2 where p: "parse_value P m1 (skip s) = Inr (Parsed item r, m2)" by blast
      then have "strict_suffix r s" using parse_value_suffix suffix_skip suffix_order.less_le_trans by blast
      with rest less.hyps have "no_bad b (parse_elems P m2 (tl (skip r)))" by blast
      with parse_elems_eq [of m m1 P s item r m2] True m1 p parse_shorter [OF p] show ?thesis
        by (auto intro!: no_bad_cbind)
    next
      case False
      with v m1 show ?thesis
        by (cases "parse_value P m1 (skip s)"; subst parse_elems.simps)
          (auto simp: alloc_def split: parsed.split)
    qed
  qed
  have members: "no_bad b (parse_members P m s)"
  proof -
    show ?thesis
    proof (cases "parse_key m s")
      case (Inl f)
      with parse_key_ok [OF less.prems, of m] show ?thesis by (subst parse_members.simps) simp
    next
    case (Inr km)
    then obtain k m1 where k: "parse_key m s = Inr (k, m1)" by (cases km) auto
    show ?thesis
    proof (cases k)
      case (ParseFail ep)
      with k show ?thesis by (subst parse_members.simps) simp
    next
      case (Parsed name r0)
      have st: "strict_suffix r0 s" using k Parsed parse_key_suffix by blast
      then have su: "suffix r0 s" by (simp add: suffix_order.less_imp_le)
      note v = val [OF sk(2,1) [OF su], of m1]
      show ?thesis
      proof (cases "\<exists>item r m2. parse_value P m1 (skip r0) = Inr (Parsed item r, m2)")
        case True
        then obtain item r m2 where p: "parse_value P m1 (skip r0) = Inr (Parsed item r, m2)" by blast
        then have sr: "strict_suffix r s"
          using parse_value_suffix suffix_skip st by (meson suffix_order.less_le_trans suffix_order.less_trans)
        with rest less.hyps have "no_bad b (parse_members P m2 (tl (skip r)))" by blast
        with parse_members_eq [of m s name r0 m1 P item r m2] k Parsed p strict_suffix_length [OF sr] show ?thesis
          by (auto intro!: no_bad_cbind)
      next
        case False
        with v k Parsed show ?thesis
          by (cases "parse_value P m1 (skip r0)"; subst parse_members.simps) (auto split: parsed.split)
      qed
    qed
    qed
  qed
  from elems members show ?case by blast
qed

lemma parse_value_ok: "tame b s \<Longrightarrow> no_bad b (parse_value P m s)"
  by (rule parse_value_ok_step) (auto intro!: parse_array_ok parse_object_ok simp: parse_loops_ok)

subsection \<open>Incomplete escapes\<close>

definition plain_chars :: "string \<Rightarrow> bool" where
  "plain_chars s \<longleftrightarrow> CHR 0x22 \<notin> set s \<and> CHR 0x5C \<notin> set s"

lemma unescape_plain_chars:
  "plain_chars xs \<Longrightarrow> length out \<le> len + 1 \<Longrightarrow> unescape len (xs @ CHR 0x22 # r) out =
     (if length out + length xs \<le> len + 1 then Inr (out @ xs, CHR 0x22 # r) else Inl BufOverflow)"
  by (induction xs arbitrary: out) (auto simp: plain_chars_def unescape_plain emit_def)

lemma string_len_plain_chars:
  "plain_chars xs \<Longrightarrow> string_len (xs @ s) = cbind (string_len s) (\<lambda>k. Inr (length xs + k))"
  by (induction xs; cases "string_len s") (auto simp: plain_chars_def)

lemma parse_value_string: "parse_value P m (CHR 0x22 # s) = cbind (parse_string m (CHR 0x22 # s)) (\<lambda>(p, m'). Inr (case p of
      Parsed out rest \<Rightarrow> (Parsed (CJSON [] cJSON_String (Some out) 0 (Fin 0) None) rest, m')
    | ParseFail ep \<Rightarrow> (ParseFail ep, m')))"
  by (subst parse_value.simps) (simp add: peek_def)

lemma cJSON_Parse_string_fault:
  "no_fail m \<Longrightarrow> parse_string (tl m) (CHR 0x22 # s) = Inl f \<Longrightarrow> cJSON_Parse P m (Some (CHR 0x22 # s)) = Inl f"
  by (simp add: cJSON_Parse_def cJSON_ParseWithOpts_def alloc_ok skip_stop parse_value_string)

subsection \<open>Minifying printed text\<close>

definition minify_to :: "string \<Rightarrow> string \<Rightarrow> bool" where
  "minify_to s t \<longleftrightarrow> (\<forall>rest. cJSON_Minify (s @ rest) = cbind (cJSON_Minify rest) (\<lambda>out. Inr (t @ out)))"

lemma minify_to_append: "minify_to s t \<Longrightarrow> minify_to s' t' \<Longrightarrow> minify_to (s @ s') (t @ t')"
  by (simp add: minify_to_def cbind_assoc)

lemma minify_to_Nil [simp]: "minify_to [] []"
  by (auto simp: minify_to_def cbind_def split: sum.split)

definition json_char :: "char \<Rightarrow> bool" where
  "json_char c \<longleftrightarrow> c \<notin> {CHR 0x20, CHR 0x09, CHR 0x0D, CHR 0x0A, CHR ''/'', CHR 0x22}"

lemma minify_to_chars: "list_all json_char s \<Longrightarrow> minify_to s s"
proof (induction s)
  case (Cons c s)
  have "minify_to [c] [c]"
    unfolding minify_to_def using Cons.prems by (subst cJSON_Minify.simps) (simp add: json_char_def)
  with Cons minify_to_append [of "[c]" "[c]" s s] show ?case by simp
qed simp

lemma minify_to_blank: "\<forall>c\<in>set s. c = CHR 0x20 \<or> c = CHR 0x09 \<or> c = CHR 0x0A \<Longrightarrow> minify_to s []"
proof (induction s)
  case (Cons c s)
  have "minify_to [c] []" unfolding minify_to_def
    using Cons.prems by (subst cJSON_Minify.simps) (auto simp: cbind_def split: sum.split)
  with Cons minify_to_append [of "[c]" "[]" s "[]"] show ?case by simp
qed simp

lemma copy_literal_escape:
  "NUL \<notin> set s \<Longrightarrow> copy_literal (escape_text s @ CHR 0x22 # rest) = Inr (escape_text s @ [CHR 0x22], rest)"
proof (induction s)
  case (Cons c s)
  then have IH: "copy_literal (escape_text s @ CHR 0x22 # rest) = Inr (escape_text s @ [CHR 0x22], rest)" by simp
  have "c \<noteq> NUL" using Cons.prems by auto
  then show ?case
  proof (cases rule: escape_char_cases)
    case hex
    then have "of_char c div 16 < (16 :: nat)" "of_char c mod 16 < (16 :: nat)" by simp_all
    with hex IH hex_digit_plain show ?thesis by (simp add: escape_text_def hex4_text_def Let_def)
  qed (use IH in \<open>auto simp: escape_text_def\<close>)
qed (simp add: escape_text_def)

lemma minify_to_string: "NUL \<notin> set s \<Longrightarrow> minify_to (str_text s) (str_text s)"
  unfolding minify_to_def
  by (subst cJSON_Minify.simps) (simp add: str_text_def copy_literal_escape)

lemma minify_to_name: "name_ok c \<Longrightarrow> minify_to (name_text c) (name_text c)"
  by (auto simp: name_ok_def name_text_def minify_to_string split: option.splits)

lemma json_text_depth: "json_text c d False = json_text c d' False"
proof (induction c arbitrary: d d')
  case (CJSON ch t vs vi vd nm)
  then have a: "map (\<lambda>c. json_text c (Suc d) False) ch = map (\<lambda>c. json_text c (Suc d') False) ch"
    and b: "map (\<lambda>c. (name_text c, json_text c (Suc d) False)) ch = map (\<lambda>c. (name_text c, json_text c (Suc d') False)) ch"
    by auto
  have "join_members False (Suc d) es = join_members False (Suc d') es" for es
    by (induction es) auto
  then have "object_text False d (map (\<lambda>c. (name_text c, json_text c (Suc d) False)) ch)
      = object_text False d' (map (\<lambda>c. (name_text c, json_text c (Suc d') False)) ch)"
    unfolding b object_text_def by simp
  with arg_cong [OF a, of "join_elems False"] show ?case by (cases t) simp_all
qed

lemma minify_to_elems:
  "\<forall>c\<in>set cs. minify_to (json_text c d fmt) (json_text c d False) \<Longrightarrow>
   minify_to (join_elems fmt (map (\<lambda>c. json_text c d fmt) cs)) (join_elems False (map (\<lambda>c. json_text c d False) cs))"
proof (induction cs)
  case (Cons c cs)
  show ?case
  proof (cases cs)
    case (Cons c2 cs2)
    have "minify_to ('','' @ (if fmt then '' '' else [])) '',''"
      using minify_to_append [OF minify_to_chars [of "'',''"] minify_to_blank [of "if fmt then '' '' else []"]]
      by (simp add: json_char_def)
    note sep = this
    have "minify_to (json_text c d fmt) (json_text c d False)"
      "minify_to (join_elems fmt (map (\<lambda>c. json_text c d fmt) cs)) (join_elems False (map (\<lambda>c. json_text c d False) cs))"
      using Cons.IH Cons.prems by simp_all
    from minify_to_append [OF this(1) minify_to_append [OF sep this(2)]] Cons show ?thesis by simp
  qed (use Cons.prems in simp)
qed simp

lemma minify_to_members:
  "\<forall>c\<in>set cs. name_ok c \<and> minify_to (json_text c d fmt) (json_text c d False) \<Longrightarrow>
   minify_to (join_members fmt k (map (\<lambda>c. (name_text c, json_text c d fmt)) cs))
     (join_members False k (map (\<lambda>c. (name_text c, json_text c d False)) cs))"
proof (induction cs)
  case (Cons c cs)
  let ?m = "\<lambda>fmt. join_members fmt k (map (\<lambda>c. (name_text c, json_text c d fmt)) cs)"
  let ?tb = "if fmt then tabs k else []" and ?sp = "if fmt then [CHR 0x09] else []"
    and ?nl = "if fmt then [newline] else []" and ?cm = "if cs = [] then [] else '',''"
  have bl: "minify_to ?tb []" "minify_to ?sp []" "minify_to ?nl []"
    by (rule minify_to_blank, simp add: tabs_def newline_def)+
  have ch: "minify_to '':'' '':''" "minify_to ?cm ?cm" by (rule minify_to_chars, simp add: json_char_def)+
  have c: "minify_to (name_text c) (name_text c)" "minify_to (json_text c d fmt) (json_text c d False)"
    using Cons.prems minify_to_name by simp_all
  have m: "minify_to (?m fmt) (?m False)" using Cons by simp
  from minify_to_append [OF bl(1) minify_to_append [OF c(1) minify_to_append [OF ch(1) minify_to_append [OF bl(2)
    minify_to_append [OF c(2) minify_to_append [OF ch(2) minify_to_append [OF bl(3) m]]]]]]]
  show ?case by (cases fmt; cases "cs = []") simp_all
qed simp

lemma show_int_json: "list_all json_char (show_int i)"
proof -
  have "isdigit c \<or> c = CHR ''-'' \<Longrightarrow> json_char c" for c
    by (auto simp: json_char_def isdigit_def)
  then show ?thesis using show_int_chars [of _ i] by (auto simp: list_all_iff)
qed

lemma minify_to_item: "printable c \<Longrightarrow> minify_to (json_text c d fmt) (json_text c d False)"
proof (induction c arbitrary: d)
  case (CJSON ch t vs vi vd nm)
  show ?case
  proof (cases t)
    case cJSON_Number
    then show ?thesis using minify_to_chars [OF show_int_json [of vi]] by simp
  next
    case cJSON_String
    with CJSON.prems minify_to_string show ?thesis by (cases vs) auto
  next
    case cJSON_Array
    have "minify_to (join_elems fmt (map (\<lambda>c. json_text c (Suc d) fmt) ch)) (join_elems False (map (\<lambda>c. json_text c (Suc d) False) ch))"
      using CJSON cJSON_Array by (intro minify_to_elems) auto
    from minify_to_append [OF minify_to_chars [of "''[''"] minify_to_append [OF this minify_to_chars [of "'']''"]]]
    show ?thesis using cJSON_Array by (simp add: json_char_def)
  next
    case cJSON_Object
    let ?nl = "if fmt then newline # (if ch = [] then tabs (d - 1) else []) else []" and ?tb = "if fmt \<and> ch \<noteq> [] then tabs d else []"
    have bl: "minify_to ?nl []" "minify_to ?tb []" by (rule minify_to_blank, auto simp: tabs_def newline_def)+
    have "minify_to (join_members fmt (Suc d) (map (\<lambda>c. (name_text c, json_text c (Suc d) fmt)) ch))
       (join_members False (Suc d) (map (\<lambda>c. (name_text c, json_text c (Suc d) False)) ch))"
      using CJSON cJSON_Object by (intro minify_to_members) auto
    from minify_to_append [OF minify_to_chars [of "''{''"] minify_to_append [OF bl(1) minify_to_append [OF this
      minify_to_append [OF bl(2) minify_to_chars [of "''}''"]]]]]
    show ?thesis using cJSON_Object by (cases fmt; cases "ch = []") (simp_all add: json_char_def object_text_def)
  qed (use minify_to_chars in \<open>auto simp: json_char_def\<close>)
qed

subsection \<open>Properties\<close>

text \<open>
  C20. Parsing a text in which every escape is complete never reads outside the text and never
  writes outside a buffer, whatever the allocator does. The only fault left is the overflow of an \<^verbatim>\<open>int\<close>, and it needs
  a text longer than \<^verbatim>\<open>INT_MAX\<close>, for the length of a string, or an exponent of ten digits.
\<close>

theorem cjson_parse_safe:
  assumes "esc_ok s"
  shows "case cJSON_Parse P m (Some s) of Inl f \<Rightarrow> f = IntOverflow \<and> (int_max < length s \<or> \<not> short_exps s) | Inr _ \<Rightarrow> True"
proof -
  obtain c m1 where m1: "malloc m = (c, m1)" by fastforce
  let ?b = "short_exps s \<and> length s \<le> int_max"
  have "tame ?b s" using assms by (simp add: tame_def)
  from parse_value_ok [OF tame_suffix [OF this suffix_skip], of P m1] m1 show ?thesis
    by (cases "parse_value P m1 (skip s)")
      (auto simp: cJSON_Parse_def cJSON_ParseWithOpts_def alloc_def no_bad_def split: parsed.split)
qed

definition ex_escapes :: string where
  "ex_escapes = ''{'' @ [CHR 0x22, CHR 0x5C] @ ''u00e4'' @ [CHR 0x5C, CHR 0x22, CHR 0x22] @ '':[1e5,'' @ [CHR 0x22, CHR 0x5C] @ ''n'' @ [CHR 0x22] @ '']}''"

theorem cjson_parse_safe_witness:
  "(\<exists>r. cJSON_Parse ex_platform [] (Some ex_escapes) = Inr r) \<and> (\<exists>r. cJSON_Parse ex_platform [True, True, False] (Some ex_escapes) = Inr r)"
proof -
  have "esc_ok ex_escapes"
    by (simp add: ex_escapes_def peek_def hex4_def hexval_def)
  moreover have "short_exps ex_escapes" "length ex_escapes \<le> int_max"
    by (simp_all add: ex_escapes_def int_max_def peek_def isdigit_def)
  ultimately show ?thesis
    using cjson_parse_safe [of ex_escapes ex_platform "[]"] cjson_parse_safe [of ex_escapes ex_platform "[True, True, False]"]
    by (simp split: sum.splits)
qed

text \<open>
  An incomplete unicode escape makes the two passes of \<^verbatim>\<open>parse_string\<close> disagree: for a string
  literal \<^verbatim>\<open>"\u12"\<close> the second pass moves over the closing quote and copies what follows into a
  buffer of four bytes.
\<close>

theorem cjson_parse_overflow:
  assumes "plain_chars xs" and "5 \<le> length xs" and "no_fail m"
  shows "cJSON_Parse P m (Some (CHR 0x22 # CHR 0x5C # ''u12'' @ CHR 0x22 # xs @ [CHR 0x22])) = Inl BufOverflow"
proof -
  let ?s = "''12'' @ CHR 0x22 # xs @ [CHR 0x22]"
  obtain x ys where xs: "xs = x # ys" using assms(2) by (cases xs) auto
  have ys: "plain_chars ys" "4 \<le> length ys" using assms(1,2) by (simp_all add: xs plain_chars_def)
  have "parse_hex4 ?s = 0" by (simp add: parse_hex4_def xs hexval_def Let_def)
  then have u: "unescape_u ?s = ([], 4)" by (simp add: unescape_u_def Let_def)
  have "unescape 3 (CHR 0x5C # CHR ''u'' # ?s) [] = unescape 3 (ys @ [CHR 0x22]) []"
    by (simp add: unescape_unicode u [simplified] xs [symmetric]) (simp add: xs)
  moreover have "string_len (CHR 0x5C # CHR ''u'' # ?s) = Inr 3" by simp
  ultimately have "parse_string (tl m) (CHR 0x22 # CHR 0x5C # CHR ''u'' # ?s) = Inl BufOverflow"
    using unescape_plain_chars [OF ys(1), of "[]" 3 "[]"] ys(2) no_fail_tl [OF assms(3)]
    by (cases "length ys \<le> 4") (simp_all add: parse_string_def peek_def alloc_ok int_max_def del: string_len.simps)
  from cJSON_Parse_string_fault [OF assms(3) this] show ?thesis by simp
qed

theorem cjson_parse_overflow_witness:
  "cJSON_Parse ex_platform [] (Some (CHR 0x22 # CHR 0x5C # ''u12'' @ CHR 0x22 # ''AAAAAAAA'' @ [CHR 0x22])) = Inl BufOverflow"
  by (rule cjson_parse_overflow) (simp_all add: plain_chars_def)

text \<open>
  A text that ends within a string literal in a backslash is read beyond its terminating NUL.
\<close>

theorem cjson_parse_overread:
  assumes "plain_chars xs" and "no_fail m"
  shows "cJSON_Parse P m (Some (CHR 0x22 # xs @ [CHR 0x5C])) = Inl OutOfBounds"
  by (rule cJSON_Parse_string_fault [OF assms(2)])
    (simp add: parse_string_def peek_def string_len_plain_chars [OF assms(1)])

theorem cjson_parse_overread_witness:
  "cJSON_Parse ex_platform [] (Some (CHR 0x22 # ''abc'' @ [CHR 0x5C])) = Inl OutOfBounds"
  by (rule cjson_parse_overread) (simp_all add: plain_chars_def)

text \<open>
  C39. Minifying what is printed with formatting gives what is printed without, for items whose numbers are values of \<^verbatim>\<open>int\<close>,
  whose strings have no NUL inside and whose text is shorter than half a GiB.
\<close>

theorem cjson_minify_print:
  assumes "printable c" and "no_fail m" and "\<not> huge (json_text c 0 True)" and "\<not> huge (json_text c 0 False)"
  shows "\<exists>formatted plain m1 m2. cJSON_Print P m (Some c) = Inr (Some formatted, m1)
    \<and> cJSON_PrintUnformatted P m (Some c) = Inr (Some plain, m2) \<and> cJSON_Minify formatted = Inr plain"
proof -
  have "cJSON_Minify [] = Inr []" by (subst cJSON_Minify.simps) simp
  with minify_to_item [OF assms(1), of 0 True, unfolded minify_to_def, THEN spec, of "[]"]
  have "cJSON_Minify (json_text c 0 True) = Inr (json_text c 0 False)" by simp
  moreover obtain m1 where "cJSON_Print P m (Some c) = Inr (Some (json_text c 0 True), m1)"
    using assms(3) by (cases rule: print_item_text [OF assms(1,2), of P True]) (auto simp: cJSON_Print_def)
  moreover obtain m2 where "cJSON_PrintUnformatted P m (Some c) = Inr (Some (json_text c 0 False), m2)"
    using assms(4) by (cases rule: print_item_text [OF assms(1,2), of P False]) (auto simp: cJSON_PrintUnformatted_def)
  ultimately show ?thesis by blast
qed

theorem cjson_minify_print_witness:
  "\<exists>formatted plain m1 m2. cJSON_Print ex_platform [] (Some ex_object) = Inr (Some formatted, m1)
    \<and> cJSON_PrintUnformatted ex_platform [] (Some ex_object) = Inr (Some plain, m2) \<and> cJSON_Minify formatted = Inr plain"
  by (rule cjson_minify_print [OF ex_object_printable]) (simp_all add: ex_object_small)

end
