(* ===== verification/RjUtils.thy ===== *)
theory RjUtils
  imports CStdio
begin

text \<open>
  \<^verbatim>\<open>utils/rj_utils.cpp\<close> and \<^verbatim>\<open>utils/rj_error.cpp\<close>: running shell commands and reading
  what they print, copying a line, checking an address.

  The commands are other programs. They are the parameter \<open>shell\<close>: for a
  command line, its standard input and the files of the machine, what the
  command prints, the status \<^verbatim>\<open>pclose\<close> reports and the files after it, or None when
  \<^verbatim>\<open>popen\<close> fails. A command is taken to run to its end when it is started.
  The state of the machine that the library reads and changes is the record
  \<open>machine\<close>: the files, the commands run so far, the outcomes of coming
  allocations, the files that can be opened for writing, and the flag of
  \<^verbatim>\<open>Init\<close>. The components extend it with their static variables.
\<close>

subsection \<open>The machine\<close>

type_synonym files = "string \<Rightarrow> string option"
type_synonym shell = "string \<Rightarrow> string \<Rightarrow> files \<Rightarrow> (string \<times> int \<times> files) option"

record machine =
  files :: files
  runs :: "string list"
  heap :: mem
  writable :: "string \<Rightarrow> bool"
  g_isinit :: bool

text \<open>\<^verbatim>\<open>access(path, F_OK) == 0\<close>\<close>

definition file_exists :: "string \<Rightarrow> 'a machine_scheme \<Rightarrow> bool" where
  "file_exists path m = (files m path \<noteq> None)"

definition popen ::
  "shell \<Rightarrow> string \<Rightarrow> string \<Rightarrow> 'a machine_scheme \<Rightarrow> (string \<times> int) option \<times> 'a machine_scheme" where
  "popen sh command input m =
     (case sh command input (files m) of
        None \<Rightarrow> (None, m)
      | Some (out, status, fs) \<Rightarrow>
          (Some (out, status), m\<lparr>files := fs, runs := runs m @ [command]\<rparr>))"

subsection \<open>Buffers\<close>

text \<open>
  An array of \<^verbatim>\<open>char\<close> that a caller passes together with its size is the list of
  its bytes. \<open>put_at\<close> writes bytes from a position on; \<open>sprintf_c\<close> and
  \<open>snprintf_c\<close> format into a local array of \<open>n\<close> bytes, read back as a C string.
\<close>

definition put_at :: "nat \<Rightarrow> string \<Rightarrow> string \<Rightarrow> string cres" where
  "put_at pos w buf =
     (if pos + length w \<le> length buf
      then Inr (take pos buf @ w @ drop (pos + length w) buf) else Inl BufOverflow)"

definition sprintf_c :: "nat \<Rightarrow> string \<Rightarrow> string cres" where
  "sprintf_c n s = (if length s < n then Inr s else Inl BufOverflow)"

definition snprintf_c :: "nat \<Rightarrow> string \<Rightarrow> string" where
  "snprintf_c n s = take (n - 1) s"

text \<open>\<^verbatim>\<open>snprintf(buf, size, "%s", s)\<close> and \<^verbatim>\<open>strncpy(buf, s, n)\<close> into the buffer of a caller.\<close>

definition snprintf_to :: "string \<Rightarrow> string \<Rightarrow> string" where
  "snprintf_to buf s =
     (if buf = [] then [] else let w = take (length buf - 1) s @ [NUL] in w @ drop (length w) buf)"

definition strncpy_to :: "string \<Rightarrow> string \<Rightarrow> nat \<Rightarrow> string cres" where
  "strncpy_to buf s n = put_at 0 (take n s @ replicate (n - length s) NUL) buf"

lemma put_at_length: "put_at pos w buf = Inr buf' \<Longrightarrow> length buf' = length buf"
  by (auto simp: put_at_def split: if_splits)

lemma length_snprintf_to [simp]: "length (snprintf_to buf s) = length buf"
  by (cases buf) (auto simp: snprintf_to_def Let_def)

lemma c_str_snprintf_to:
  "NUL \<notin> set s \<Longrightarrow> buf \<noteq> [] \<Longrightarrow> c_str (snprintf_to buf s) = take (length buf - 1) s"
  by (auto simp: snprintf_to_def Let_def c_str_append_NUL intro!: c_str_id dest: in_set_takeD)

subsection \<open>Running commands\<close>

definition rj_popen ::
  "shell \<Rightarrow> string option \<Rightarrow> string option \<Rightarrow> string \<Rightarrow> 'a machine_scheme
     \<Rightarrow> (string \<times> int) option \<times> 'a machine_scheme" where
  "rj_popen sh command mode input m =
     (case command of None \<Rightarrow> (None, m)
      | Some c \<Rightarrow> (case mode of None \<Rightarrow> (None, m)
          | Some md \<Rightarrow> if md = ''r'' \<or> md = ''w'' then popen sh c input m else (None, m)))"

text \<open>The status macros of \<^verbatim>\<open>sys/wait.h\<close>.\<close>

definition WTERMSIG :: "int \<Rightarrow> int" where
  "WTERMSIG st = st mod 128"

definition WIFSIGNALED :: "int \<Rightarrow> bool" where
  "WIFSIGNALED st \<longleftrightarrow> 0 < WTERMSIG st \<and> WTERMSIG st < 127"

definition WIFSTOPPED :: "int \<Rightarrow> bool" where
  "WIFSTOPPED st \<longleftrightarrow> st mod 256 = 127"

definition WIFEXITED :: "int \<Rightarrow> bool" where
  "WIFEXITED st \<longleftrightarrow> WTERMSIG st = 0"

definition WEXITSTATUS :: "int \<Rightarrow> int" where
  "WEXITSTATUS st = st div 256 mod 256"

definition rj_pclose :: "int option \<Rightarrow> int" where
  "rj_pclose fp =
     (case fp of None \<Rightarrow> - 1
      | Some st \<Rightarrow>
          if st < 0 then st
          else if WIFSIGNALED st then - 1
          else if WIFSTOPPED st then - 1
          else if WIFEXITED st then WEXITSTATUS st
          else st)"

text \<open>
  The buffer \<open>data\<close> with its size, or None when one of the two pointers is NULL.
  The result is the return value, \<^verbatim>\<open>*size\<close> and the buffer. A pipe is read until the
  buffer is full or the command ends, and takes all that is written to it.
\<close>

definition rj_system_rw ::
  "shell \<Rightarrow> string option \<Rightarrow> string option \<Rightarrow> string \<Rightarrow> 'a machine_scheme
     \<Rightarrow> (int \<times> nat \<times> string option) \<times> 'a machine_scheme" where
  "rj_system_rw sh command data mode m =
     (let bytes = (case data of None \<Rightarrow> [] | Some d \<Rightarrow> d);
          (fd, m') = rj_popen sh command (Some mode) (if mode = ''r'' then [] else bytes) m
      in case fd of
           None \<Rightarrow> ((- 1, 0, data), m')
         | Some (out, st) \<Rightarrow>
             if mode = ''r''
             then let got = take (length bytes) out
                  in ((rj_pclose (Some st), length got,
                       map_option (\<lambda>d. got @ drop (length got) d) data), m')
             else ((rj_pclose (Some st), length bytes, data), m'))"

definition rj_system :: "shell \<Rightarrow> string \<Rightarrow> 'a machine_scheme \<Rightarrow> int \<times> 'a machine_scheme" where
  "rj_system sh command m =
     (case rj_popen sh (Some command) (Some ''w'') [] m of
        (Some (out, st), m') \<Rightarrow> (rj_pclose (Some st), m')
      | (None, m') \<Rightarrow> (- 1, m'))"

definition SYSTEM_CMDLINE_LENGTH :: nat where
  "SYSTEM_CMDLINE_LENGTH = 1024"

text \<open>The formatted command line is the argument \<open>cmd\<close>; \<open>rbuf\<close> is None for NULL.\<close>

definition rj_system_r_args ::
  "shell \<Rightarrow> string option \<Rightarrow> string \<Rightarrow> 'a machine_scheme
     \<Rightarrow> (int \<times> string option) \<times> 'a machine_scheme" where
  "rj_system_r_args sh rbuf cmd m =
     (let rdsize = (case rbuf of None \<Rightarrow> 0 | Some b \<Rightarrow> length b);
          rbuf0 = map_option (\<lambda>b. b[0 := NUL]) rbuf
      in if SYSTEM_CMDLINE_LENGTH \<le> length cmd then ((- 1, rbuf0), m)
         else if 0 < length cmd then
           if rdsize \<noteq> 0
           then let ((ret, got, rbuf1), m') = rj_system_rw sh (Some cmd) rbuf0 ''r'' m;
                    e = (if rdsize \<le> got then rdsize - 1 else got)
                in ((ret, map_option (\<lambda>b. b[e := NUL]) rbuf1), m')
           else let (ret, m') = rj_system sh cmd m in ((ret, rbuf0), m')
         else ((- 1, rbuf0), m))"

definition rj_system_args :: "shell \<Rightarrow> string \<Rightarrow> 'a machine_scheme \<Rightarrow> int \<times> 'a machine_scheme" where
  "rj_system_args sh cmd m =
     (if SYSTEM_CMDLINE_LENGTH \<le> length cmd then (- 1, m)
      else if 0 < length cmd then rj_system sh cmd m
      else (- 1, m))"

text \<open>\<^verbatim>\<open>char\<close> is signed: the bytes from 0x80 on are negative and end the copy too.\<close>

definition schar :: "char \<Rightarrow> int" where
  "schar c = (let k = of_char c in if k < 128 then k else k - 256)"

fun strncp_line_chars :: "nat \<Rightarrow> string \<Rightarrow> string" where
  "strncp_line_chars 0 src = []"
| "strncp_line_chars (Suc sz) [] = []"
| "strncp_line_chars (Suc sz) (c # src) =
     (if schar c < 0x20 \<or> c = CHR 0x0A \<or> c = CHR 0x0D then [] else c # strncp_line_chars sz src)"

definition rj_strncp_line :: "string \<Rightarrow> string \<Rightarrow> nat \<Rightarrow> (nat \<times> string) cres" where
  "rj_strncp_line dst src sz =
     (let cs = strncp_line_chars sz src
      in cbind (put_at 0 cs dst) (\<lambda>dst'. Inr (length cs, dst')))"

text \<open>
  The loop of \<^verbatim>\<open>rj_exec_result\<close>: \<^verbatim>\<open>pBuf\<close> is position \<open>pos\<close>, \<^verbatim>\<open>size\<close> is what is left of the
  buffer from there. With one byte left \<^verbatim>\<open>fgets\<close> stores the empty string.
\<close>

function exec_result_loop :: "nat \<Rightarrow> string \<Rightarrow> string \<Rightarrow> string cres" where
  "exec_result_loop pos buf out =
     (let sz = length buf - pos
      in if out = [] \<or> sz = 0 then Inr buf
         else if sz = 1 then put_at pos [NUL] buf
         else let (l, rest) = fgets_take (sz - 1) out
              in cbind (put_at pos (l @ [NUL]) buf) (\<lambda>buf'.
                 if c_str l = [] then Inr buf'
                 else exec_result_loop (pos + length (c_str l)) buf' rest))"
  by pat_completeness auto
termination
proof (relation "measure (\<lambda>(pos, buf, out). length out)", simp)
  fix pos buf out sz x l rest buf'
  assume sz: "sz = length buf - pos" "\<not> (out = [] \<or> sz = 0)" "sz \<noteq> 1"
    and x: "x = fgets_take (sz - 1) out" "(l, rest) = x" and l: "c_str l \<noteq> []"
  from fgets_take_append [of "sz - 1" out l rest] x have "out = l @ rest" by simp
  moreover from l have "l \<noteq> []" by (auto simp: c_str_def)
  ultimately show "((pos + length (c_str l), buf', rest), pos, buf, out)
      \<in> measure (\<lambda>(pos, buf, out). length out)" by simp
qed

declare exec_result_loop.simps [simp del]

definition rj_exec_result ::
  "shell \<Rightarrow> string \<Rightarrow> string \<Rightarrow> 'a machine_scheme \<Rightarrow> ((int \<times> string) \<times> 'a machine_scheme) cres" where
  "rj_exec_result sh cmd result m =
     (if cmd = [] then Inr ((- 1, result), m)
      else case rj_popen sh (Some cmd) (Some ''r'') [] m of
             (Some (out, st), m') \<Rightarrow>
               cbind (exec_result_loop 0 result out) (\<lambda>result'. Inr ((rj_pclose (Some st), result'), m'))
           | (None, m') \<Rightarrow> Inr ((- 1, result), m'))"

definition rj_exec :: "shell \<Rightarrow> string \<Rightarrow> 'a machine_scheme \<Rightarrow> int \<times> 'a machine_scheme" where
  "rj_exec sh cmd m =
     (case popen sh cmd [] m of (None, m') \<Rightarrow> (- 1, m') | (Some _, m') \<Rightarrow> (0, m'))"

text \<open>The lines of the output, without their newline; an empty string has no last character.\<close>

function dev_exec_lines :: "string \<Rightarrow> string list cres" where
  "dev_exec_lines out =
     (case fgets 1024 out of
        None \<Rightarrow> Inr []
      | Some (l, rest) \<Rightarrow>
          let tmp = c_str l
          in if tmp = [] then Inl OutOfBounds
             else cbind (dev_exec_lines rest) (\<lambda>ls.
                  Inr ((if last tmp = newline then butlast tmp else tmp) # ls)))"
  by pat_completeness auto
termination by (relation "measure length") (auto dest: fgets_shorter)

declare dev_exec_lines.simps [simp del]

definition dev_exec ::
  "shell \<Rightarrow> string \<Rightarrow> string list \<Rightarrow> 'a machine_scheme \<Rightarrow> ((int \<times> string list) \<times> 'a machine_scheme) cres" where
  "dev_exec sh cmd resvec m =
     (case popen sh cmd [] m of
        (None, m') \<Rightarrow> Inr ((- 1, resvec), m')
      | (Some (out, st), m') \<Rightarrow>
          cbind (dev_exec_lines out) (\<lambda>ls. Inr ((int (length ls), ls), m')))"

definition rj_get_file_size :: "string \<Rightarrow> 'a machine_scheme \<Rightarrow> nat" where
  "rj_get_file_size path m = (case files m path of None \<Rightarrow> 0 | Some s \<Rightarrow> length s)"

definition atoi :: "string \<Rightarrow> int" where
  "atoi s = to_int32 (strtol 10 s)"

subsection \<open>Addresses\<close>

text \<open>
  \<^verbatim>\<open>inet_pton\<close> accepts a text or not; the bytes it stores are not used. For
  \<^verbatim>\<open>AF_INET\<close> the state is the value of the current number, whether a digit of
  it was seen, and how many numbers were begun.
\<close>

fun pton4 :: "nat \<Rightarrow> bool \<Rightarrow> nat \<Rightarrow> string \<Rightarrow> bool" where
  "pton4 v saw octets [] = (4 \<le> octets)"
| "pton4 v saw octets (c # s) =
     (if isdigit c
      then let v' = v * 10 + (of_char c - 48)
           in if saw \<and> v = 0 then False
              else if 255 < v' then False
              else if saw then pton4 v' True octets s
              else if 4 < octets + 1 then False
              else pton4 v' True (octets + 1) s
      else if c = CHR ''.'' \<and> saw
      then (if octets = 4 then False else pton4 0 False octets s)
      else False)"

definition isxdigit :: "char \<Rightarrow> bool" where
  "isxdigit c \<longleftrightarrow> isdigit c \<or> (65 \<le> (of_char c :: nat) \<and> (of_char c :: nat) \<le> 70)
     \<or> (97 \<le> (of_char c :: nat) \<and> (of_char c :: nat) \<le> 102)"

text \<open>The end of \<^verbatim>\<open>AF_INET6\<close>: \<open>tp\<close> bytes are stored, \<open>xd\<close> digits of a group are open.\<close>

definition pton6_end :: "nat \<Rightarrow> bool \<Rightarrow> nat \<Rightarrow> bool" where
  "pton6_end tp colon xd =
     (if 0 < xd \<and> 16 < tp + 2 then False
      else let tp' = (if 0 < xd then tp + 2 else tp)
           in if colon then tp' \<noteq> 16 else tp' = 16)"

fun pton6 :: "nat \<Rightarrow> bool \<Rightarrow> nat \<Rightarrow> string \<Rightarrow> string \<Rightarrow> bool" where
  "pton6 tp colon xd curtok [] = pton6_end tp colon xd"
| "pton6 tp colon xd curtok (c # s) =
     (if isxdigit c then (if xd = 4 then False else pton6 tp colon (xd + 1) curtok s)
      else if c = CHR '':''
      then (if xd = 0 then (if colon then False else pton6 tp True 0 s s)
            else if s = [] then False
            else if 16 < tp + 2 then False
            else pton6 (tp + 2) colon 0 s s)
      else if c = CHR ''.'' \<and> tp + 4 \<le> 16 \<and> pton4 0 False 0 curtok
      then pton6_end (tp + 4) colon 0
      else False)"

definition inet_pton_INET :: "string \<Rightarrow> bool" where
  "inet_pton_INET s = pton4 0 False 0 s"

definition inet_pton_INET6 :: "string \<Rightarrow> bool" where
  "inet_pton_INET6 s =
     (case s of [] \<Rightarrow> False
      | c # t \<Rightarrow> if c = CHR '':''
                 then (case t of [] \<Rightarrow> False | d # _ \<Rightarrow> d = CHR '':'' \<and> pton6 0 False 0 t t)
                 else pton6 0 False 0 s s)"

definition check_ipaddr :: "string option \<Rightarrow> int" where
  "check_ipaddr str =
     (case str of None \<Rightarrow> 1
      | Some s \<Rightarrow> if s = [] then 1
                  else if inet_pton_INET s then 0
                  else if inet_pton_INET6 s then 0
                  else 1)"

subsection \<open>Error codes\<close>

definition SUCCESS_0 :: int where "SUCCESS_0 = 0"
definition ERROR_10000 :: int where "ERROR_10000 = - 10000"
definition ERROR_10001 :: int where "ERROR_10001 = - 10001"
definition ERROR_11000 :: int where "ERROR_11000 = - 11000"
definition ERROR_11001 :: int where "ERROR_11001 = - 11001"
definition ERROR_11002 :: int where "ERROR_11002 = - 11002"
definition ERROR_11003 :: int where "ERROR_11003 = - 11003"

lemmas error_defs = SUCCESS_0_def ERROR_10000_def ERROR_10001_def ERROR_11000_def
  ERROR_11001_def ERROR_11002_def ERROR_11003_def

definition rj_strerror :: "int \<Rightarrow> string" where
  "rj_strerror error = snprintf_c 64 (''RJFAIL'' @ show_int error)"

subsection \<open>What the commands print\<close>

lemma put_at_Inr: "pos + length w \<le> length buf \<Longrightarrow>
    put_at pos w buf = Inr (take pos buf @ w @ drop (pos + length w) buf)"
  by (simp add: put_at_def)

lemma fgets_take_prefix:
  assumes "fgets_take k s = (l, rest)" and "k \<noteq> 0" and "s \<noteq> []"
  shows "s = l @ rest" and "length l \<le> k" and "l \<noteq> []"
  using fgets_take_append [OF assms(1)] fgets_take_length [OF assms(1)] assms
  by (auto dest: fgets_take_nonempty [of "k - 1" s l rest, rotated] simp: gr0_conv_Suc)
     (metis fgets_take_nonempty not0_implies_Suc)

lemma drop_take_agree:
  assumes "take (pos + length l) b2 = take (pos + length l) b1" and "drop pos b1 = l @ u"
  shows "drop pos b2 = l @ drop (pos + length l) b2"
proof -
  have "take (length l) (drop pos b2) = take (length l) (drop pos b1)"
    using arg_cong [OF assms(1), of "drop pos"] by (simp add: drop_take)
  also have "\<dots> = l" using assms(2) by simp
  finally show ?thesis by (metis append_take_drop_id drop_drop add.commute)
qed

text \<open>The loop stays within the buffer and, unless a NUL is printed, stores what fits.\<close>

lemma exec_result_loop_ok:
  "pos < length buf \<Longrightarrow> \<exists>buf'. exec_result_loop pos buf out = Inr buf' \<and> length buf' = length buf
     \<and> take pos buf' = take pos buf
     \<and> (NUL \<notin> set out \<and> out \<noteq> [] \<longrightarrow>
          (\<exists>t. drop pos buf' = take (length buf - pos - 1) out @ NUL # t))"
proof (induction pos buf out rule: exec_result_loop.induct)
  case (1 pos buf out)
  let ?sz = "length buf - pos"
  consider "out = []" | "out \<noteq> []" "?sz = 1" | "out \<noteq> []" "2 \<le> ?sz" using "1.prems" by linarith
  then show ?case
  proof cases
    case 1
    then show ?thesis by (simp add: exec_result_loop.simps)
  next
    case 2
    then show ?thesis using "1.prems" by (auto simp: exec_result_loop.simps put_at_Inr)
  next
    case 3
    obtain l rest where lr: "fgets_take (?sz - 1) out = (l, rest)" by fastforce
    have l: "out = l @ rest" "length l \<le> ?sz - 1" "l \<noteq> []"
      using fgets_take_prefix [OF lr] 3 by auto
    define b1 where "b1 = take pos buf @ (l @ [NUL]) @ drop (pos + Suc (length l)) buf"
    have put: "put_at pos (l @ [NUL]) buf = Inr b1"
      using l(2) 3(2) "1.prems" by (simp add: b1_def put_at_def)
    have b1: "length b1 = length buf" "take pos b1 = take pos buf"
      using l(2) 3(2) "1.prems" by (auto simp: b1_def)
    have eq: "exec_result_loop pos buf out =
        (if c_str l = [] then Inr b1 else exec_result_loop (pos + length (c_str l)) b1 rest)"
      using 3 put lr "1.prems" by (subst exec_result_loop.simps) (simp add: Let_def)
    show ?thesis
    proof (cases "c_str l = []")
      case True
      then have "NUL \<in> set out" using l by (cases l) (auto simp: c_str_def)
      with True eq b1 show ?thesis by auto
    next
      case False
      have len: "length (c_str l) \<le> length l" by (simp add: c_str_def length_takeWhile_le)
      then have small: "pos + length (c_str l) < length b1" using l(2) 3(2) b1(1) by linarith
      from "1.IH" [OF refl _ _ refl lr [symmetric] put False small] 3 "1.prems" obtain b2 where
        b2: "exec_result_loop (pos + length (c_str l)) b1 rest = Inr b2" "length b2 = length b1"
            "take (pos + length (c_str l)) b2 = take (pos + length (c_str l)) b1"
            "NUL \<notin> set rest \<and> rest \<noteq> [] \<longrightarrow>
              (\<exists>t. drop (pos + length (c_str l)) b2 = take (length b1 - (pos + length (c_str l)) - 1) rest @ NUL # t)"
        by (metis One_nat_def less_numeral_extra(3) not_numeral_le_zero zero_less_diff numeral_2_eq_2 not_less_eq_eq order_refl)
      have pre: "take pos b2 = take pos buf"
        using arg_cong [OF b2(3), of "take pos"] b1(2) by (simp add: min_def)
      have "\<exists>t. drop pos b2 = take (length buf - pos - 1) out @ NUL # t" if n: "NUL \<notin> set out"
      proof -
        have c: "c_str l = l" using n l(1) by (auto intro: c_str_id)
        have dl: "drop pos b2 = l @ drop (pos + length l) b2"
          by (rule drop_take_agree [OF b2(3) [unfolded c]]) (use "1.prems" in \<open>simp add: b1_def\<close>)
        show ?thesis
        proof (cases "rest = []")
          case True
          then have "b2 = b1" using b2(1) by (simp add: exec_result_loop.simps)
          then show ?thesis using dl l(1,2) True "1.prems" by (auto simp: b1_def)
        next
          case False
          with b2(4) n l(1) c obtain t where
            t: "drop (pos + length l) b2 = take (length b1 - (pos + length l) - 1) rest @ NUL # t" by auto
          have "take (length buf - pos - 1) out = l @ take (length b1 - (pos + length l) - 1) rest"
            using l(1,2) b1(1) by (simp add: diff_diff_add add.commute)
          with dl t show ?thesis by simp
        qed
      qed
      with eq False b2(1,2) b1(1) pre show ?thesis by auto
    qed
  qed
qed

lemma exec_result_fresh:
  assumes "NUL \<notin> set out" and "0 < n"
  obtains buf where "exec_result_loop 0 (replicate n NUL) out = Inr buf" and "length buf = n"
    and "c_str buf = take (n - 1) out"
proof -
  from exec_result_loop_ok [of 0 "replicate n NUL" out] assms obtain buf where
    b: "exec_result_loop 0 (replicate n NUL) out = Inr buf" "length buf = n"
       "out \<noteq> [] \<longrightarrow> (\<exists>t. buf = take (n - 1) out @ NUL # t)" by auto
  have "c_str buf = take (n - 1) out"
  proof (cases "out = []")
    case True
    with b(1) have "buf = replicate n NUL" by (simp add: exec_result_loop.simps)
    with True assms(2) show ?thesis by (cases n) (simp_all add: c_str_def)
  next
    case False
    with b(3) assms(1) show ?thesis by (auto simp: c_str_append_NUL intro!: c_str_id dest: in_set_takeD)
  qed
  with b(1,2) that show thesis by blast
qed

text \<open>A command that prints lines shorter than the buffer of \<^verbatim>\<open>dev_exec\<close>.\<close>

definition dev_line :: "string \<Rightarrow> bool" where
  "dev_line l \<longleftrightarrow> newline \<notin> set l \<and> NUL \<notin> set l \<and> length l < 1023"

lemma dev_exec_lines_unlines:
  "list_all dev_line ls \<Longrightarrow> dev_exec_lines (concat (map (\<lambda>l. l @ [newline]) ls)) = Inr ls"
proof (induction ls)
  case Nil
  show ?case by (subst dev_exec_lines.simps) (simp add: fgets_def)
next
  case (Cons l ls)
  have "NUL \<noteq> newline" by (simp add: NUL_def newline_def)
  then have "c_str (l @ [newline]) = l @ [newline]" using Cons.prems by (auto simp: dev_line_def intro!: c_str_id)
  moreover have "fgets 1024 (l @ newline # concat (map (\<lambda>l. l @ [newline]) ls)) =
      Some (l @ [newline], concat (map (\<lambda>l. l @ [newline]) ls))"
    using Cons.prems by (intro fgets_line) (auto simp: dev_line_def)
  ultimately show ?case using Cons by (subst dev_exec_lines.simps) simp
qed

subsection \<open>Accepted addresses\<close>

lemma pton4_chars: "pton4 v saw n s \<Longrightarrow> c \<in> set s \<Longrightarrow> isdigit c \<or> c = CHR ''.''"
  by (induction v saw n s rule: pton4.induct) (auto simp: Let_def split: if_splits)

lemma pton4_length:
  "pton4 v saw n s \<Longrightarrow> n \<le> 4 \<Longrightarrow> length s \<le>
     (if saw then (if v = 0 then 0 else if v < 10 then 2 else if v < 100 then 1 else 0) + (4 - n) * 4
      else (4 - n) * 4 - 1)"
proof (induction v saw n s rule: pton4.induct)
  case (2 v saw n c s)
  show ?case
  proof (cases "isdigit c")
    case True
    then show ?thesis using 2 by (auto simp: Let_def split: if_splits)
  next
    case False
    then show ?thesis using 2 by (auto simp: Let_def split: if_splits)
  qed
qed auto

lemma pton6_chars:
  "pton6 tp colon xd cur s \<Longrightarrow> set s \<subseteq> set cur \<Longrightarrow> c \<in> set s \<Longrightarrow> isxdigit c \<or> c = CHR '':'' \<or> c = CHR ''.''"
proof (induction tp colon xd cur s rule: pton6.induct)
  case (2 tp colon xd cur d s)
  then show ?case
    by (auto simp: isxdigit_def split: if_splits dest: pton4_chars)
qed simp

lemma pton6_length:
  "pton6 tp colon xd cur s \<Longrightarrow> xd \<le> 4 \<Longrightarrow> tp \<le> 16 \<Longrightarrow> length cur = xd + length s \<Longrightarrow>
   length s + xd \<le> 5 * ((16 - tp) div 2) + 5 + (if colon then 0 else 1)"
proof (induction tp colon xd cur s rule: pton6.induct)
  case (2 tp colon xd cur c s)
  consider "isxdigit c" | "\<not> isxdigit c" "c = CHR '':''" "xd = 0" | "\<not> isxdigit c" "c = CHR '':''" "xd \<noteq> 0"
    | "\<not> isxdigit c" "c \<noteq> CHR '':''" by blast
  then show ?case
  proof cases
    case 1
    then show ?thesis using 2 by (auto split: if_splits)
  next
    case 2
    then show ?thesis using "2.IH"(2) "2.prems" by (auto split: if_splits)
  next
    case 3
    have "(16 - tp) div 2 = Suc ((14 - tp) div 2)" if "\<not> 14 < tp" using that by presburger
    then show ?thesis using 3 "2.IH"(3) "2.prems" by (auto split: if_splits)
  next
    case 4
    with "2.prems" have "tp + 4 \<le> 16" "pton4 0 False 0 cur" by (auto split: if_splits)
    then have "length cur \<le> 15" using pton4_length [of 0 False 0 cur] by simp
    moreover have "2 \<le> (16 - tp) div 2" using \<open>tp + 4 \<le> 16\<close> by linarith
    ultimately show ?thesis using "2.prems" by simp
  qed
qed simp

lemma check_ipaddr_text:
  assumes "check_ipaddr (Some s) = 0"
  shows "\<forall>c\<in>set s. isxdigit c \<or> c = CHR '':'' \<or> c = CHR ''.''" and "length s \<le> 47"
proof -
  have "pton4 0 False 0 s \<or> pton6 0 False 0 s s \<or> (\<exists>t. s = CHR '':'' # t \<and> pton6 0 False 0 t t)"
    using assms by (auto simp: check_ipaddr_def inet_pton_INET_def inet_pton_INET6_def
        split: if_splits list.splits)
  then consider "pton4 0 False 0 s" | "pton6 0 False 0 s s" | t where "s = CHR '':'' # t" "pton6 0 False 0 t t"
    by blast
  note cs = this
  from cs show "\<forall>c\<in>set s. isxdigit c \<or> c = CHR '':'' \<or> c = CHR ''.''"
    by cases (auto dest: pton4_chars pton6_chars [OF _ order_refl] simp: isxdigit_def)
  from cs show "length s \<le> 47"
    by cases (auto dest!: pton4_length pton6_length)
qed

text \<open>A machine without files, for the examples.\<close>

definition ex_machine :: machine where
  "ex_machine = \<lparr>files = Map.empty, runs = [], heap = [], writable = (\<lambda>_. True), g_isinit = True\<rparr>"

text \<open>
  \<^verbatim>\<open>rj_exec_result\<close> stays within the buffer of its caller whatever the command
  prints, and keeps its length. When the command prints a text without NUL
  bytes, the buffer holds the first \<^verbatim>\<open>size - 1\<close> characters of it as a C string
  and the value returned is the exit status.
\<close>

theorem rj_exec_result_text:
  assumes "cmd \<noteq> []" and "buf \<noteq> []" and "sh cmd [] (files m) = Some (out, st, fs)"
  shows "\<exists>buf'. rj_exec_result sh cmd buf m =
            Inr ((rj_pclose (Some st), buf'), m\<lparr>files := fs, runs := runs m @ [cmd]\<rparr>)
          \<and> length buf' = length buf
          \<and> (NUL \<notin> set out \<and> out \<noteq> [] \<longrightarrow> c_str buf' = take (length buf - 1) out)"
proof -
  from exec_result_loop_ok [of 0 buf out] assms(2) obtain b where
    b: "exec_result_loop 0 buf out = Inr b" "length b = length buf"
       "NUL \<notin> set out \<and> out \<noteq> [] \<longrightarrow> (\<exists>t. b = take (length buf - 1) out @ NUL # t)" by auto
  have "c_str b = take (length buf - 1) out" if "NUL \<notin> set out" "out \<noteq> []"
    using b(3) that by (auto simp: c_str_append_NUL intro!: c_str_id dest: in_set_takeD)
  with b(1,2) assms(1,3) show ?thesis by (simp add: rj_exec_result_def rj_popen_def popen_def)
qed

theorem rj_exec_result_text_witness:
  "\<exists>buf'. rj_exec_result (\<lambda>c i fs. Some (''br0: up'', 256, fs)) ''ip link'' (replicate 4 NUL)
        ex_machine = Inr ((1, buf'), ex_machine\<lparr>runs := [''ip link'']\<rparr>)
    \<and> c_str buf' = ''br0''"
  using rj_exec_result_text [of "''ip link''" "replicate 4 NUL" "\<lambda>c i fs. Some (''br0: up'', 256, fs)"
      ex_machine "''br0: up''" 256 Map.empty]
  by (auto simp: ex_machine_def NUL_def rj_pclose_def WIFSIGNALED_def WTERMSIG_def WIFSTOPPED_def WIFEXITED_def WEXITSTATUS_def)

end
