(* ===== verification/RjIpc.thy ===== *)
theory RjIpc
  imports RjUtils
begin

text \<open>
  \<^verbatim>\<open>network/rj_ipc.cpp\<close>: messages over local sockets. A service keeps a list of connected
  clients and a list of attached ones, to which it broadcasts; a client
  connects, attaches and hands what it receives to a callback.

  The kernel's answers to \<^verbatim>\<open>select\<close>, \<^verbatim>\<open>send\<close> and \<^verbatim>\<open>recv\<close> are data: a list per descriptor,
  consumed by the calls. A call that needs an answer when none is left does not
  return (\<open>Blocked\<close>). The locks are recursive mutexes; the operations are modelled as
  they run one after the other under them.
\<close>

subsection \<open>Calls that fault, wait or return\<close>

datatype 'a ipc = Fault c_fault | Blocked | Ret 'a

fun ibind :: "'a ipc \<Rightarrow> ('a \<Rightarrow> 'b ipc) \<Rightarrow> 'b ipc" where
  "ibind (Fault e) f = Fault e"
| "ibind Blocked f = Blocked"
| "ibind (Ret x) f = f x"

lemma ibind_Ret: "ibind r f = Ret y \<longleftrightarrow> (\<exists>x. r = Ret x \<and> f x = Ret y)"
  by (cases r) auto

lemma ibind_cong [fundef_cong]:
  "r = r' \<Longrightarrow> (\<And>x. r' = Ret x \<Longrightarrow> f x = f' x) \<Longrightarrow> ibind r f = ibind r' f'"
  by (cases r') auto

definition lift_c :: "'a cres \<Rightarrow> 'a ipc" where
  "lift_c r = (case r of Inl e \<Rightarrow> Fault e | Inr x \<Rightarrow> Ret x)"

lemma lift_c_simps [simp]: "lift_c (Inl e) = Fault e" "lift_c (Inr x) = Ret x"
  by (simp_all add: lift_c_def)

datatype errno = EPIPE | EINTR | EAGAIN | EBADF | ECONNRESET

datatype send_ans = NotWritable | Sent nat | SendErr errno

datatype recv_ans = Received string | Closed | RecvErr errno

definition FD_SETSIZE :: int where
  "FD_SETSIZE = 1024"

definition SUN_PATH_LEN :: nat where
  "SUN_PATH_LEN = 108"

definition RECV_BUF_SIZE :: nat where
  "RECV_BUF_SIZE = 1024"

subsection \<open>Writing and reading\<close>

text \<open>
  The loop of \<^verbatim>\<open>handleWrite\<close>: the return value, the bytes that were sent and the answers
  that are left.
\<close>

fun write_loop :: "send_ans list \<Rightarrow> string \<Rightarrow> nat \<Rightarrow> int \<Rightarrow> (int \<times> string \<times> send_ans list) ipc" where
  "write_loop ans buf pos total_length =
     (if \<not> int pos < total_length then Ret (0, [], ans)
      else case ans of
        [] \<Rightarrow> Blocked
      | NotWritable # as \<Rightarrow> Ret (- 1, [], as)
      | SendErr e # as \<Rightarrow>
          if e = EINTR \<or> e = EAGAIN then write_loop as buf pos total_length else Ret (- 1, [], as)
      | Sent n # as \<Rightarrow>
          ibind (write_loop as buf (pos + n) total_length) (\<lambda>(r, d, rest). Ret (r, take n (drop pos buf) @ d, rest)))"

declare write_loop.simps [simp del]

text \<open>The loop around \<^verbatim>\<open>recv\<close>: the answer that ended it and the bytes read before.\<close>

fun recv_loop :: "recv_ans list \<Rightarrow> string \<Rightarrow> (recv_ans \<times> string) ipc" where
  "recv_loop [] event = Blocked"
| "recv_loop (Received s # as) event =
     (if s = [] then Ret (Closed, event) else recv_loop as (event @ s))"
| "recv_loop (Closed # as) event = Ret (Closed, event)"
| "recv_loop (RecvErr e # as) event = Ret (RecvErr e, event)"

subsection \<open>The service\<close>

record service =
  mSockFd :: int
  mClientFd :: "int list"
  mAttachFd :: "int list"
  epoll_fds :: "int list"
  open_fds :: "int list"
  answers :: "int \<Rightarrow> send_ans list"
  sent :: "(int \<times> string) list"

text \<open>Creating and listening on the socket may fail; the path has 108 bytes.\<close>

definition svc_createSocket :: "string \<Rightarrow> int option \<Rightarrow> bool \<Rightarrow> bool \<Rightarrow> int cres" where
  "svc_createSocket name sock bind_ok listen_ok =
     cbind (sprintf_c SUN_PATH_LEN (''/tmp/'' @ name)) (\<lambda>_.
       Inr (case sock of None \<Rightarrow> - 1 | Some fd \<Rightarrow> if \<not> bind_ok then - 1 else if \<not> listen_ok then - 1 else fd))"

definition RjService_new :: "string \<Rightarrow> int option \<Rightarrow> bool \<Rightarrow> bool \<Rightarrow> int \<Rightarrow> (int \<Rightarrow> send_ans list) \<Rightarrow> service cres" where
  "RjService_new name sock bind_ok listen_ok ep ans =
     cbind (svc_createSocket name sock bind_ok listen_ok) (\<lambda>fd.
       Inr \<lparr>mSockFd = fd, mClientFd = [], mAttachFd = [], epoll_fds = [fd], open_fds = [fd, ep],
            answers = ans, sent = []\<rparr>)"

definition attachFd :: "int \<Rightarrow> service \<Rightarrow> service" where
  "attachFd fd s = s\<lparr>mAttachFd := mAttachFd s @ [fd]\<rparr>"

definition detachFd :: "int \<Rightarrow> service \<Rightarrow> int \<times> service" where
  "detachFd fd s =
     (if fd \<in> set (mAttachFd s) then (0, s\<lparr>mAttachFd := remove1 fd (mAttachFd s)\<rparr>) else (- 1, s))"

text \<open>\<open>add_ok\<close>: whether \<^verbatim>\<open>epoll_ctl\<close> accepts the descriptor.\<close>

definition addClientFd :: "bool \<Rightarrow> int \<Rightarrow> service \<Rightarrow> int \<times> service" where
  "addClientFd add_ok fd s =
     (if \<not> add_ok then (- 1, s)
      else (0, s\<lparr>epoll_fds := epoll_fds s @ [fd], mClientFd := mClientFd s @ [fd]\<rparr>))"

definition removeClientFd :: "int \<Rightarrow> service \<Rightarrow> service" where
  "removeClientFd fd s =
     s\<lparr>epoll_fds := removeAll fd (epoll_fds s), mClientFd := removeAll fd (mClientFd s),
       open_fds := removeAll fd (open_fds s)\<rparr>"

definition handleAccept :: "int option \<Rightarrow> bool \<Rightarrow> service \<Rightarrow> int \<times> service" where
  "handleAccept acc add_ok s =
     (case acc of None \<Rightarrow> (- 1, s)
      | Some fd \<Rightarrow> (0, snd (addClientFd add_ok fd (s\<lparr>open_fds := open_fds s @ [fd]\<rparr>))))"

text \<open>
  \<^verbatim>\<open>FD_SET\<close> on a descriptor from 1024 on writes outside its bit field. \<^verbatim>\<open>select\<close> fails on a
  descriptor that is not open.
\<close>

definition handleWrite :: "int \<Rightarrow> string \<Rightarrow> service \<Rightarrow> (int \<times> service) ipc" where
  "handleWrite fd buf s =
     (let total_length = to_int32 (int (length buf))
      in if 0 < total_length \<and> (fd < 0 \<or> FD_SETSIZE \<le> fd) then Fault BufOverflow
         else ibind (write_loop (if fd \<in> set (open_fds s) then answers s fd else [NotWritable]) buf 0 total_length) (\<lambda>(r, d, rest).
                Ret (r, s\<lparr>answers := (answers s)(fd := rest), sent := sent s @ [(fd, d)]\<rparr>)))"

text \<open>
  The loop over the attached descriptors, with the iterator at position \<open>i\<close>. On a
  failed write \<^verbatim>\<open>detachFd\<close> erases the first entry with this descriptor; when that
  is the entry of the iterator, advancing it uses a released entry.
\<close>

lemma handleWrite_attach: "handleWrite fd buf s = Ret (r, s') \<Longrightarrow> mAttachFd s' = mAttachFd s"
  by (auto simp: handleWrite_def ibind_Ret Let_def split: if_splits prod.splits)

function broadcast_loop :: "string \<Rightarrow> nat \<Rightarrow> service \<Rightarrow> service ipc" where
  "broadcast_loop msg i s =
     (if \<not> i < length (mAttachFd s) then Ret s
      else let fd = mAttachFd s ! i
           in ibind (handleWrite fd msg s) (\<lambda>(r, s1).
                if r < 0
                then if fd \<notin> set (take i (mAttachFd s)) then Fault UseAfterFree
                     else broadcast_loop msg i (removeClientFd fd (snd (detachFd fd s1)))
                else broadcast_loop msg (Suc i) s1))"
  by pat_completeness auto
termination
  by (relation "measure (\<lambda>(msg, i, s). length (mAttachFd s) - i)")
     (auto dest!: handleWrite_attach simp: removeClientFd_def detachFd_def length_remove1)

declare broadcast_loop.simps [simp del]

definition svc_sendMessage :: "string \<Rightarrow> int \<Rightarrow> service \<Rightarrow> (int \<times> service) ipc" where
  "svc_sendMessage message fd s =
     (if 0 \<le> fd
      then ibind (handleWrite fd message s) (\<lambda>(r, s1).
             Ret (if r < 0 then (- 1, removeClientFd fd s1) else (0, s1)))
      else if mAttachFd s = [] then Ret (0, s)
      else ibind (broadcast_loop message 0 s) (\<lambda>s1. Ret (0, s1)))"

text \<open>The overload for a block of bytes.\<close>

definition svc_sendMessage_data :: "string \<Rightarrow> nat \<Rightarrow> int \<Rightarrow> service \<Rightarrow> (int \<times> service) ipc" where
  "svc_sendMessage_data data len fd s =
     (if length data < len then Fault OutOfBounds else svc_sendMessage (take len data) fd s)"

definition NORMAL :: int where "NORMAL = 0"
definition ATTACH :: int where "ATTACH = 1"
definition DETACH :: int where "DETACH = 2"

definition svc_onEvent :: "int \<Rightarrow> string \<Rightarrow> service \<Rightarrow> (int \<times> service) ipc" where
  "svc_onEvent fd buf s =
     (if contains_sub ''ATTACH'' (c_str buf) then Ret (ATTACH, attachFd fd s)
      else if contains_sub ''DETACH'' (c_str buf)
      then ibind (svc_sendMessage ''EXIT'' fd s) (\<lambda>(_, s1). Ret (DETACH, snd (detachFd fd s1)))
      else if contains_sub ''PING'' (c_str buf)
      then ibind (svc_sendMessage ''PONG'' fd s) (\<lambda>(_, s1). Ret (0, s1))
      else Ret (0, s))"

definition svc_handleRead :: "int \<Rightarrow> recv_ans list \<Rightarrow> service \<Rightarrow> (int \<times> service) ipc" where
  "svc_handleRead fd ans s =
     ibind (recv_loop ans []) (\<lambda>(stop, event).
       if stop = RecvErr EAGAIN \<or> stop = RecvErr EINTR
       then if event = [] then Ret (0, s) else svc_onEvent fd event s
       else Ret (- 1, s))"

text \<open>One event of \<^verbatim>\<open>epoll_wait\<close>, with the answers to \<^verbatim>\<open>accept\<close>, \<^verbatim>\<open>epoll_ctl\<close> and \<^verbatim>\<open>recv\<close>.\<close>

record epoll_event =
  ep_fd :: int
  ep_err :: bool
  ep_hup :: bool
  ep_in :: bool
  ep_accept :: "int option"
  ep_add :: bool
  ep_recv :: "recv_ans list"

definition drop_client :: "int \<Rightarrow> service \<Rightarrow> service" where
  "drop_client fd s = snd (detachFd fd (removeClientFd fd s))"

definition svc_event :: "epoll_event \<Rightarrow> service \<Rightarrow> service ipc" where
  "svc_event e s =
     (if ep_fd e = mSockFd s then Ret (snd (handleAccept (ep_accept e) (ep_add e) s))
      else if ep_err e \<or> ep_hup e \<or> \<not> ep_in e then Ret (drop_client (ep_fd e) s)
      else ibind (svc_handleRead (ep_fd e) (ep_recv e) s) (\<lambda>(r, s1).
             Ret (if r < 0 then drop_client (ep_fd e) s1 else s1)))"

fun svc_events :: "epoll_event list \<Rightarrow> service \<Rightarrow> service ipc" where
  "svc_events [] s = Ret s"
| "svc_events (e # es) s = ibind (svc_event e s) (svc_events es)"

text \<open>The thread handles one batch of events after the other while it runs.\<close>

fun svc_threadLoop :: "epoll_event list list \<Rightarrow> service \<Rightarrow> service ipc" where
  "svc_threadLoop [] s = Ret s"
| "svc_threadLoop (b # bs) s = ibind (svc_events b s) (svc_threadLoop bs)"

function remove_clients :: "service \<Rightarrow> service" where
  "remove_clients s =
     (case mClientFd s of [] \<Rightarrow> s | fd # _ \<Rightarrow> remove_clients (removeClientFd fd s))"
  by pat_completeness auto
termination
  by (relation "measure (\<lambda>s. length (mClientFd s))")
     (auto simp: removeClientFd_def less_Suc_eq_le intro: length_removeAll_less_eq)

declare remove_clients.simps [simp del]

definition RjService_delete :: "int \<Rightarrow> service \<Rightarrow> service" where
  "RjService_delete ep s =
     (let s1 = (remove_clients s)\<lparr>mAttachFd := []\<rparr>;
          s2 = (if 0 \<le> ep then s1\<lparr>open_fds := removeAll ep (open_fds s1)\<rparr> else s1)
      in if 0 \<le> mSockFd s2
         then s2\<lparr>open_fds := removeAll (mSockFd s2) (open_fds s2), mSockFd := - 1\<rparr> else s2)"

subsection \<open>The client\<close>

record client =
  mAttach :: bool
  mConnected :: bool
  mThread :: bool
  mRunning :: bool
  mCb :: bool
  cSockFd :: int
  socket_path :: string
  c_open :: "int list"
  c_answers :: "int \<Rightarrow> send_ans list"
  c_sent :: "(int \<times> string) list"
  closes :: "int list"
  calls :: "string list"

definition close_fd :: "int \<Rightarrow> client \<Rightarrow> client" where
  "close_fd fd c = c\<lparr>c_open := removeAll fd (c_open c), closes := closes c @ [fd]\<rparr>"

definition pad5 :: "int \<Rightarrow> string" where
  "pad5 i = (let d = show_int i in replicate (5 - length d) (CHR ''0'') @ d)"

text \<open>\<open>sock\<close> and \<open>bind_ok\<close> are the answers of the kernel; \<open>counter\<close> is the static counter.\<close>

definition c_createSocket :: "int option \<Rightarrow> bool \<Rightarrow> int \<Rightarrow> int \<Rightarrow> client \<Rightarrow> int \<times> client" where
  "c_createSocket sock bind_ok pid counter c =
     (case sock of None \<Rightarrow> (- 1, c)
      | Some fd \<Rightarrow>
          (if bind_ok then fd else - 1,
           c\<lparr>c_open := c_open c @ [fd],
             socket_path := ''/tmp/socket_client_'' @ pad5 pid @ ''_'' @ show_int counter\<rparr>))"

definition c_handleWrite :: "int \<Rightarrow> string \<Rightarrow> client \<Rightarrow> (int \<times> client) ipc" where
  "c_handleWrite fd buf c =
     (let total_length = to_int32 (int (length buf))
      in if 0 < total_length \<and> (fd < 0 \<or> FD_SETSIZE \<le> fd) then Fault BufOverflow
         else ibind (write_loop (if fd \<in> set (c_open c) then c_answers c fd else [NotWritable]) buf 0 total_length)
                (\<lambda>(r, d, rest). Ret (r, c\<lparr>c_answers := (c_answers c)(fd := rest), c_sent := c_sent c @ [(fd, d)]\<rparr>)))"

definition c_handleRead :: "recv_ans list \<Rightarrow> string \<Rightarrow> (int \<times> string) ipc" where
  "c_handleRead ans data =
     ibind (recv_loop ans data) (\<lambda>(stop, data').
       Ret (if stop = RecvErr EAGAIN \<or> stop = RecvErr EINTR then 0 else - 1, data'))"

definition sendMessage_l :: "string \<Rightarrow> client \<Rightarrow> (int \<times> client) ipc" where
  "sendMessage_l message c =
     ibind (c_handleWrite (cSockFd c) message c) (\<lambda>(r, c1). Ret (if r < 0 then - 1 else 0, c1))"

definition c_sendMessage :: "string \<Rightarrow> client \<Rightarrow> (int \<times> client) ipc" where
  "c_sendMessage message c = sendMessage_l message c"

definition c_sendMessage_data :: "string \<Rightarrow> nat \<Rightarrow> client \<Rightarrow> (int \<times> client) ipc" where
  "c_sendMessage_data data len c =
     (if length data < len then Fault OutOfBounds
      else ibind (c_handleWrite (cSockFd c) (take len data) c) (\<lambda>(r, c1). Ret (if r < 0 then - 1 else 0, c1)))"

text \<open>\<open>ready\<close> is None when \<^verbatim>\<open>select\<close> fails or its time is over.\<close>

definition recvMessage_l :: "recv_ans list option \<Rightarrow> string \<Rightarrow> client \<Rightarrow> (int \<times> string) ipc" where
  "recvMessage_l ready message c =
     (if cSockFd c < 0 \<or> FD_SETSIZE \<le> cSockFd c then Fault BufOverflow
      else case ready of None \<Rightarrow> Ret (- 1, message)
           | Some ans \<Rightarrow> ibind (c_handleRead ans message) (\<lambda>(r, m). Ret (if r < 0 then - 1 else 0, m)))"

definition recvMessage :: "recv_ans list option \<Rightarrow> string \<Rightarrow> client \<Rightarrow> (int \<times> string) ipc" where
  "recvMessage ready message c = recvMessage_l ready message c"

text \<open>The answers to an attempt to connect: refused, or accepted with the reply to PING.\<close>

datatype conn_ans = Refused | Accepted "recv_ans list option"

fun connect_loop :: "conn_ans list \<Rightarrow> int \<Rightarrow> int \<Rightarrow> string \<Rightarrow> client \<Rightarrow> (bool \<times> client) ipc" where
  "connect_loop [] timeout try_time str c = Blocked"
| "connect_loop (Refused # as) timeout try_time str c =
     (if 0 < timeout
      then if try_time - 1 \<le> 0 then Ret (False, c) else connect_loop as timeout (try_time - 1) str c
      else connect_loop as timeout try_time str c)"
| "connect_loop (Accepted ready # as) timeout try_time str c =
     ibind (sendMessage_l ''PING'' c) (\<lambda>(_, c1).
     ibind (recvMessage_l ready str c1) (\<lambda>(_, str').
       if contains_sub ''PONG'' str' then Ret (True, c1) else connect_loop as timeout try_time str' c1))"

definition connectService :: "string \<Rightarrow> int \<Rightarrow> conn_ans list \<Rightarrow> client \<Rightarrow> (bool \<times> client) ipc" where
  "connectService name timeout ans c =
     ibind (lift_c (sprintf_c SUN_PATH_LEN (''/tmp/'' @ name))) (\<lambda>_. connect_loop ans timeout timeout [] c)"

definition TRY_CONNECT_TIME :: int where
  "TRY_CONNECT_TIME = 5"

definition RjClient_new ::
  "string \<Rightarrow> int option \<Rightarrow> bool \<Rightarrow> int \<Rightarrow> int \<Rightarrow> conn_ans list \<Rightarrow> (int \<Rightarrow> send_ans list) \<Rightarrow> client ipc" where
  "RjClient_new name sock bind_ok pid counter ans sends =
     (let c0 = \<lparr>mAttach = False, mConnected = False, mThread = False, mRunning = False, mCb = False, cSockFd = - 1,
                socket_path = [], c_open = [], c_answers = sends, c_sent = [], closes = [], calls = []\<rparr>;
          (fd, c1) = c_createSocket sock bind_ok pid counter c0
      in ibind (connectService name TRY_CONNECT_TIME ans (c1\<lparr>cSockFd := fd\<rparr>)) (\<lambda>(ok, c2).
           Ret (c2\<lparr>mConnected := ok\<rparr>)))"

definition attach :: "bool \<Rightarrow> client \<Rightarrow> (int \<times> client) ipc" where
  "attach cb c =
     (if \<not> mConnected c then Ret (- 1, c\<lparr>mCb := cb\<rparr>)
      else ibind (c_sendMessage ''ATTACH'' (c\<lparr>mCb := cb\<rparr>)) (\<lambda>(_, c1).
             let c2 = (if mThread c1 then c1 else c1\<lparr>mThread := True, mRunning := True\<rparr>)
             in Ret (0, c2\<lparr>mAttach := True\<rparr>)))"

definition detach :: "client \<Rightarrow> (int \<times> client) ipc" where
  "detach c =
     (let c1 = (if mThread c then c\<lparr>mRunning := False, mThread := False\<rparr> else c);
          c2 = (if 0 \<le> cSockFd c1 then close_fd (cSockFd c1) c1 else c1);
          c3 = c2\<lparr>mAttach := False\<rparr>
      in if mConnected c3 then ibind (c_sendMessage ''DETACH'' c3) (\<lambda>(_, c4). Ret (0, c4)) else Ret (0, c3))"

definition RjClient_delete :: "client \<Rightarrow> client ipc" where
  "RjClient_delete c =
     ibind (if mAttach c then detach c else Ret (0, c)) (\<lambda>(_, c1).
       Ret (if 0 < cSockFd c1 then (close_fd (cSockFd c1) c1)\<lparr>cSockFd := - 1\<rparr> else c1))"

definition c_reconnect :: "string \<Rightarrow> int \<Rightarrow> int option \<Rightarrow> bool \<Rightarrow> int \<Rightarrow> int \<Rightarrow> conn_ans list \<Rightarrow> client \<Rightarrow> (bool \<times> client) ipc" where
  "c_reconnect name time sock bind_ok pid counter ans c =
     (let c0 = c\<lparr>mConnected := False\<rparr>;
          c1 = (if 0 < cSockFd c0 then (close_fd (cSockFd c0) c0)\<lparr>cSockFd := - 1\<rparr> else c0);
          (fd, c2) = c_createSocket sock bind_ok pid counter c1
      in ibind (connectService name time ans (c2\<lparr>cSockFd := fd\<rparr>)) (\<lambda>(ok, c3).
           Ret (ok, if ok then c3\<lparr>mConnected := True\<rparr> else c3)))"

text \<open>The thread of the client: what \<^verbatim>\<open>select\<close> and \<^verbatim>\<open>recv\<close> answer in each round.\<close>

datatype wait_ans = SelectErr | NotSet | Readable "recv_ans list"

definition callback :: "string \<Rightarrow> client \<Rightarrow> client" where
  "callback d c = (if mAttach c \<and> mCb c then c\<lparr>calls := calls c @ [d]\<rparr> else c)"

fun client_loop :: "wait_ans list \<Rightarrow> client \<Rightarrow> client ipc" where
  "client_loop ws c =
     (if \<not> mRunning c then Ret c
      else case ws of
        [] \<Rightarrow> Blocked
      | SelectErr # _ \<Rightarrow> Ret (callback ''TERMINATING'' c)
      | NotSet # ws' \<Rightarrow> client_loop ws' c
      | Readable ans # ws' \<Rightarrow>
          ibind (c_handleRead ans []) (\<lambda>(r, recv_data).
            if r < 0 then Ret (callback ''TERMINATING'' c)
            else if contains_sub ''EXIT'' recv_data then Ret c
            else client_loop ws' (callback recv_data c)))"

declare client_loop.simps [simp del]

definition c_ThreadLoop :: "wait_ans list \<Rightarrow> client \<Rightarrow> client ipc" where
  "c_ThreadLoop ws c = (if cSockFd c < 0 \<or> FD_SETSIZE \<le> cSockFd c then Fault BufOverflow else client_loop ws c)"

subsection \<open>Writing delivers\<close>

text \<open>A list of answers in which the kernel takes n bytes in the end.\<close>

fun accepts :: "send_ans list \<Rightarrow> nat \<Rightarrow> bool" where
  "accepts ans 0 = True"
| "accepts [] (Suc n) = False"
| "accepts (NotWritable # as) (Suc n) = False"
| "accepts (SendErr e # as) (Suc n) = ((e = EINTR \<or> e = EAGAIN) \<and> accepts as (Suc n))"
| "accepts (Sent k # as) (Suc n) = accepts as (Suc n - k)"

lemma write_loop_accepts:
  "accepts ans (length buf - pos) \<Longrightarrow> \<exists>rest. write_loop ans buf pos (int (length buf)) = Ret (0, drop pos buf, rest)"
proof (induction ans arbitrary: pos)
  case Nil
  then have "length buf \<le> pos" by (cases "length buf - pos") auto
  then show ?case by (simp add: write_loop.simps)
next
  case (Cons a as)
  show ?case
  proof (cases "length buf - pos")
    case 0
    then show ?thesis by (simp add: write_loop.simps)
  next
    case (Suc n)
    then have lt: "pos < length buf" by simp
    show ?thesis
    proof (cases a)
      case (Sent k)
      moreover have "length buf - (pos + k) = Suc n - k" using Suc by linarith
      ultimately have "accepts as (length buf - (pos + k))" using Cons.prems Suc by simp
      from Cons.IH [OF this] Sent lt show ?thesis
        by (auto simp: write_loop.simps [of "Sent k # as"]) (metis append_take_drop_id drop_drop add.commute)
    qed (use Cons Suc lt in \<open>auto simp: write_loop.simps [of "_ # _"]\<close>)
  qed
qed

lemma write_loop_prefix:
  "write_loop ans buf pos (int (length buf)) = Ret (r, d, rest) \<Longrightarrow>
     r = 0 \<and> d = drop pos buf \<or> r = - 1 \<and> (\<exists>t. t \<noteq> [] \<and> drop pos buf = d @ t)"
proof (induction ans arbitrary: pos d)
  case Nil
  then show ?case by (auto simp: write_loop.simps split: if_splits)
next
  case (Cons a as)
  show ?case
  proof (cases "pos < length buf \<and> (\<exists>k. a = Sent k)")
    case True
    then obtain k where k: "a = Sent k" "pos < length buf" by blast
    with Cons.prems obtain d' where d': "write_loop as buf (pos + k) (int (length buf)) = Ret (r, d', rest)"
      "d = take k (drop pos buf) @ d'"
      by (auto simp: write_loop.simps [of "_ # _"] ibind_Ret split: if_splits)
    have sp: "drop pos buf = take k (drop pos buf) @ drop (pos + k) buf"
      by (metis append_take_drop_id drop_drop add.commute)
    from Cons.IH [OF d'(1)] show ?thesis
    proof (elim disjE conjE exE)
      fix t assume "r = - 1" "t \<noteq> []" "drop (pos + k) buf = d' @ t"
      with sp d'(2) show ?thesis by (metis append.assoc)
    qed (use sp d'(2) in simp)
  next
    case False
    then show ?thesis using Cons
      by (cases a) (auto simp: write_loop.simps [of "_ # _"] split: if_splits)
  qed
qed

definition fits_int :: "string \<Rightarrow> bool" where
  "fits_int buf \<longleftrightarrow> length buf < 2 ^ 31"

lemma fits_int_total: "fits_int buf \<Longrightarrow> to_int32 (int (length buf)) = int (length buf)"
  by (rule to_int32_id) (simp add: fits_int_def is_int32_def)

definition fd_ok :: "int \<Rightarrow> bool" where
  "fd_ok fd \<longleftrightarrow> 0 \<le> fd \<and> fd < FD_SETSIZE"

definition sent_to :: "int \<Rightarrow> service \<Rightarrow> string" where
  "sent_to fd s = concat (map snd (filter (\<lambda>(f, d). f = fd) (sent s)))"

text \<open>
  C13. Sending to a client that is connected returns 0 exactly when the kernel has
  taken the whole message, and -1 with a proper prefix sent; whenever the
  kernel keeps accepting bytes, however few at a time and with however many
  interruptions, the call returns and the whole message is sent.
\<close>

theorem write_all_or_prefix:
  assumes "fits_int buf" "fd_ok fd" "fd \<in> set (open_fds s)"
  shows "(handleWrite fd buf s = Ret (r, s') \<longrightarrow>
        (r = 0 \<and> sent_to fd s' = sent_to fd s @ buf
         \<or> r = - 1 \<and> (\<exists>d t. t \<noteq> [] \<and> buf = d @ t \<and> sent_to fd s' = sent_to fd s @ d)))
    \<and> (accepts (answers s fd) (length buf) \<longrightarrow> (\<exists>s1. handleWrite fd buf s = Ret (0, s1)))"
proof -
  have eq: "handleWrite fd buf s = ibind (write_loop (answers s fd) buf 0 (int (length buf))) (\<lambda>(r, d, rest).
      Ret (r, s\<lparr>answers := (answers s)(fd := rest), sent := sent s @ [(fd, d)]\<rparr>))"
    using assms by (simp add: handleWrite_def Let_def fits_int_total fd_ok_def)
  have "r = 0 \<and> sent_to fd s' = sent_to fd s @ buf
      \<or> r = - 1 \<and> (\<exists>d t. t \<noteq> [] \<and> buf = d @ t \<and> sent_to fd s' = sent_to fd s @ d)"
    if "handleWrite fd buf s = Ret (r, s')"
  proof -
    from that obtain d rest where w: "write_loop (answers s fd) buf 0 (int (length buf)) = Ret (r, d, rest)"
      and "s' = s\<lparr>answers := (answers s)(fd := rest), sent := sent s @ [(fd, d)]\<rparr>"
      unfolding eq ibind_Ret by auto
    then have "sent_to fd s' = sent_to fd s @ d" by (simp add: sent_to_def)
    with write_loop_prefix [OF w] show ?thesis by auto
  qed
  moreover have "\<exists>s1. handleWrite fd buf s = Ret (0, s1)" if "accepts (answers s fd) (length buf)"
    using write_loop_accepts [of "answers s fd" buf 0] that by (auto simp: eq)
  ultimately show ?thesis by blast
qed

definition ex_service :: service where
  "ex_service = \<lparr>mSockFd = 3, mClientFd = [5, 6], mAttachFd = [5, 6], epoll_fds = [3, 5, 6], open_fds = [3, 4, 5, 6],
     answers = (\<lambda>fd. [Sent 2, SendErr EAGAIN, Sent 1, Sent 9]), sent = []\<rparr>"

theorem write_all_or_prefix_witness:
  "\<exists>s'. handleWrite 5 ''PONG'' ex_service = Ret (0, s') \<and> sent_to 5 s' = ''PONG''"
proof -
  have "accepts (answers ex_service 5) (length ''PONG'')" by code_simp
  moreover have a: "fits_int ''PONG''" "fd_ok 5" "5 \<in> set (open_fds ex_service)"
    by (simp_all add: fits_int_def fd_ok_def FD_SETSIZE_def ex_service_def)
  ultimately obtain s' where s': "handleWrite 5 ''PONG'' ex_service = Ret (0, s')"
    using write_all_or_prefix [OF a] by blast
  with write_all_or_prefix [OF a, of 0 s'] show ?thesis by (simp add: sent_to_def ex_service_def)
qed

subsection \<open>Broadcasting\<close>

definition ready_fd :: "string \<Rightarrow> service \<Rightarrow> int \<Rightarrow> bool" where
  "ready_fd msg s fd \<longleftrightarrow> fd_ok fd \<and> fd \<in> set (open_fds s) \<and> accepts (answers s fd) (length msg)"

lemma handleWrite_ready:
  assumes "fits_int msg" "ready_fd msg s fd"
  obtains rest where "handleWrite fd msg s = Ret (0, s\<lparr>answers := (answers s)(fd := rest), sent := sent s @ [(fd, msg)]\<rparr>)"
proof -
  from assms obtain rest where "write_loop (answers s fd) msg 0 (int (length msg)) = Ret (0, msg, rest)"
    using write_loop_accepts [of "answers s fd" msg 0] by (auto simp: ready_fd_def)
  with assms show thesis
    by (intro that [of rest]) (simp add: handleWrite_def Let_def fits_int_total ready_fd_def fd_ok_def)
qed

lemma broadcast_ready:
  assumes "fits_int msg" "distinct (mAttachFd s)" "j \<le> length (mAttachFd s)" "i \<le> j"
    and "\<forall>fd \<in> set (drop i (take j (mAttachFd s))). ready_fd msg s fd"
  shows "\<exists>s'. broadcast_loop msg i s = broadcast_loop msg j s' \<and> mAttachFd s' = mAttachFd s
    \<and> mClientFd s' = mClientFd s \<and> open_fds s' = open_fds s
    \<and> sent s' = sent s @ map (\<lambda>fd. (fd, msg)) (drop i (take j (mAttachFd s)))
    \<and> (\<forall>fd. fd \<notin> set (drop i (take j (mAttachFd s))) \<longrightarrow> answers s' fd = answers s fd)"
  using assms
proof (induction "j - i" arbitrary: i s)
  case 0
  then show ?case by (intro exI [of _ s]) simp
next
  case (Suc n)
  then have i: "i < j" "i < length (mAttachFd s)" by auto
  let ?fd = "mAttachFd s ! i"
  have d: "drop i (take j (mAttachFd s)) = ?fd # drop (Suc i) (take j (mAttachFd s))"
    using i by (metis Cons_nth_drop_Suc length_take min_less_iff_conj nth_take)
  have nin: "?fd \<notin> set (drop (Suc i) (take j (mAttachFd s)))"
    using Suc.prems(2) d by (metis distinct.simps(2) distinct_drop distinct_take)
  obtain rest where w: "handleWrite ?fd msg s = Ret (0, s\<lparr>answers := (answers s)(?fd := rest), sent := sent s @ [(?fd, msg)]\<rparr>)"
    using handleWrite_ready [OF Suc.prems(1)] Suc.prems(5) d by (metis list.set_intros(1))
  let ?s = "s\<lparr>answers := (answers s)(?fd := rest), sent := sent s @ [(?fd, msg)]\<rparr>"
  have st: "broadcast_loop msg i s = broadcast_loop msg (Suc i) ?s"
    by (subst broadcast_loop.simps) (simp add: i w Let_def)
  have "\<forall>fd \<in> set (drop (Suc i) (take j (mAttachFd ?s))). ready_fd msg ?s fd"
    using Suc.prems(5) d nin by (auto simp: ready_fd_def)
  moreover have "n = j - Suc i" using Suc.hyps(2) by simp
  ultimately obtain s' where
    s': "broadcast_loop msg (Suc i) ?s = broadcast_loop msg j s'" "mAttachFd s' = mAttachFd s"
     "mClientFd s' = mClientFd s" "open_fds s' = open_fds s"
     "sent s' = sent ?s @ map (\<lambda>fd. (fd, msg)) (drop (Suc i) (take j (mAttachFd s)))"
     "\<forall>fd. fd \<notin> set (drop (Suc i) (take j (mAttachFd s))) \<longrightarrow> answers s' fd = answers ?s fd"
    using Suc.hyps(1) [of "Suc i" ?s] Suc.prems i by auto
  then show ?case by (intro exI [of _ s']) (auto simp: st d)
qed

lemma broadcast_end: "broadcast_loop msg (length (mAttachFd s)) s = Ret s"
  by (simp add: broadcast_loop.simps)

lemma recv_loop_chunks:
  "[] \<notin> set chunks \<Longrightarrow> recv_loop (map Received chunks @ RecvErr e # as) data = Ret (RecvErr e, data @ concat chunks)"
  by (induction chunks arbitrary: data) auto

lemma client_loop_message:
  assumes "mRunning c" "mAttach c" "mCb c" "[] \<notin> set chunks" "\<not> contains_sub ''EXIT'' (concat chunks)"
  shows "client_loop (Readable (map Received chunks @ [RecvErr EAGAIN]) # ws) c
    = client_loop ws (c\<lparr>calls := calls c @ [concat chunks]\<rparr>)"
  using assms
  by (subst client_loop.simps) (simp add: c_handleRead_def recv_loop_chunks callback_def)

lemma sent_to_map:
  "distinct fds \<Longrightarrow> concat (map snd (filter (\<lambda>(f, d). f = fd) (map (\<lambda>fd. (fd, msg)) fds))) = (if fd \<in> set fds then msg else [])"
  by (induction fds) auto

lemma broadcast_all:
  assumes "fits_int msg" "distinct (mAttachFd s)" "\<forall>fd \<in> set (mAttachFd s). ready_fd msg s fd"
  shows "\<exists>s'. svc_sendMessage msg (- 1) s = Ret (0, s') \<and> mAttachFd s' = mAttachFd s
    \<and> (\<forall>fd. sent_to fd s' = sent_to fd s @ (if fd \<in> set (mAttachFd s) then msg else []))"
proof (cases "mAttachFd s = []")
  case True
  then show ?thesis by (simp add: svc_sendMessage_def)
next
  case False
  from broadcast_ready [OF assms(1,2) order_refl le0] assms(3) obtain s' where
    s': "broadcast_loop msg 0 s = broadcast_loop msg (length (mAttachFd s)) s'" "mAttachFd s' = mAttachFd s"
        "sent s' = sent s @ map (\<lambda>fd. (fd, msg)) (mAttachFd s)" by auto
  then have "broadcast_loop msg 0 s = Ret s'" using broadcast_end [of msg s'] by simp
  then show ?thesis using False s'(2,3) assms(2)
    by (auto simp: svc_sendMessage_def sent_to_def sent_to_map)
qed

text \<open>
  A message broadcast to attached clients that all accept it reaches each of
  them exactly once and in full, and nobody else; an attached client that reads
  the bytes in any pieces hands exactly this message to its callback and
  goes on, unless the message contains EXIT.
\<close>

theorem broadcast_delivers:
  assumes "fits_int msg" "distinct (mAttachFd s)" "\<forall>fd \<in> set (mAttachFd s). ready_fd msg s fd"
    and "mRunning c" "mAttach c" "mCb c" "fd_ok (cSockFd c)"
    and "concat chunks = msg" "[] \<notin> set chunks" "\<not> contains_sub ''EXIT'' msg"
  shows "\<exists>s'. svc_sendMessage msg (- 1) s = Ret (0, s') \<and> mAttachFd s' = mAttachFd s
    \<and> (\<forall>fd. sent_to fd s' = sent_to fd s @ (if fd \<in> set (mAttachFd s) then msg else []))
    \<and> c_ThreadLoop (Readable (map Received chunks @ [RecvErr EAGAIN]) # ws) c
      = c_ThreadLoop ws (c\<lparr>calls := calls c @ [msg]\<rparr>)"
  using broadcast_all [OF assms(1-3)] client_loop_message [OF assms(4-6,9)] assms(7,8,10)
  by (auto simp: c_ThreadLoop_def fd_ok_def)

definition ex_client :: client where
  "ex_client = \<lparr>mAttach = True, mConnected = True, mThread = True, mRunning = True, mCb = True, cSockFd = 7,
     socket_path = ''/tmp/socket_client_00099_0'', c_open = [7], c_answers = (\<lambda>_. []), c_sent = [],
     closes = [], calls = []\<rparr>"

theorem broadcast_delivers_witness:
  "\<exists>s'. svc_sendMessage ''NETWORK-UP'' (- 1) ex_service = Ret (0, s') \<and> sent_to 6 s' = ''NETWORK-UP''
     \<and> c_ThreadLoop [Readable [Received ''NETWORK'', Received ''-UP'', RecvErr EAGAIN], Readable [Received ''EXIT'', RecvErr EAGAIN]] ex_client
       = Ret (ex_client\<lparr>calls := [''NETWORK-UP'']\<rparr>)"
proof -
  have r: "\<forall>fd \<in> set (mAttachFd ex_service). ready_fd ''NETWORK-UP'' ex_service fd"
    by (simp add: ex_service_def ready_fd_def fd_ok_def FD_SETSIZE_def eval_nat_numeral)
  have e: "\<not> contains_sub ''EXIT'' ''NETWORK-UP''" by code_simp
  have a: "fits_int ''NETWORK-UP''" "distinct (mAttachFd ex_service)" "fd_ok (cSockFd ex_client)"
    by (simp_all add: fits_int_def ex_service_def ex_client_def fd_ok_def FD_SETSIZE_def)
  have c: "mRunning ex_client" "mAttach ex_client" "mCb ex_client" by (simp_all add: ex_client_def)
  have "c_ThreadLoop [Readable [Received ''EXIT'', RecvErr EAGAIN]] (ex_client\<lparr>calls := [''NETWORK-UP'']\<rparr>)
      = Ret (ex_client\<lparr>calls := [''NETWORK-UP'']\<rparr>)"
    by (simp add: c_ThreadLoop_def ex_client_def FD_SETSIZE_def client_loop.simps c_handleRead_def contains_sub_def)
  with broadcast_delivers [OF a(1,2) r c a(3), of "[''NETWORK'', ''-UP'']"
      "[Readable [Received ''EXIT'', RecvErr EAGAIN]]"] e
  show ?thesis by (auto simp: ex_client_def ex_service_def sent_to_def)
qed

subsection \<open>The tables of the service\<close>

definition svc_inv :: "service \<Rightarrow> bool" where
  "svc_inv s \<longleftrightarrow> distinct (mClientFd s) \<and> set (epoll_fds s) = insert (mSockFd s) (set (mClientFd s))
     \<and> insert (mSockFd s) (set (mClientFd s)) \<subseteq> set (open_fds s)
     \<and> mSockFd s \<notin> set (mClientFd s) \<and> mSockFd s \<notin> set (mAttachFd s)"

text \<open>
  The histories of a service: its thread handles events, other threads send, and
  the kernel's answers change. \<^verbatim>\<open>accept\<close> returns a descriptor that is not in use, and
  callers name a client by its own descriptor.
\<close>

inductive svc_reach :: "service \<Rightarrow> bool" where
  start: "RjService_new name (Some fd) True True ep ans = Inr s \<Longrightarrow> svc_reach s"
| event: "svc_reach s \<Longrightarrow> (\<And>fd. ep_accept e = Some fd \<Longrightarrow> fd \<notin> set (open_fds s)) \<Longrightarrow> svc_event e s = Ret s' \<Longrightarrow> svc_reach s'"
| send: "svc_reach s \<Longrightarrow> fd \<noteq> mSockFd s \<Longrightarrow> svc_sendMessage msg fd s = Ret (r, s') \<Longrightarrow> svc_reach s'"
| kernel: "svc_reach s \<Longrightarrow> svc_reach (s\<lparr>answers := ans\<rparr>)"

lemma handleWrite_fields:
  assumes "handleWrite fd buf s = Ret (r, s')"
  shows "mSockFd s' = mSockFd s" "mClientFd s' = mClientFd s" "mAttachFd s' = mAttachFd s"
    "epoll_fds s' = epoll_fds s" "open_fds s' = open_fds s"
  using assms by (auto simp: handleWrite_def ibind_Ret Let_def split: if_splits prod.splits)

lemma handleWrite_inv: "handleWrite fd buf s = Ret (r, s') \<Longrightarrow> svc_inv s \<Longrightarrow> svc_inv s'"
  by (simp add: svc_inv_def handleWrite_fields)

lemma removeClientFd_inv: "svc_inv s \<Longrightarrow> fd \<noteq> mSockFd s \<Longrightarrow> svc_inv (removeClientFd fd s)"
  by (auto simp: svc_inv_def removeClientFd_def distinct_removeAll)

lemma detachFd_inv: "svc_inv s \<Longrightarrow> svc_inv (snd (detachFd fd s))"
  by (auto simp: svc_inv_def detachFd_def dest: notin_set_remove1)

lemma broadcast_inv:
  "broadcast_loop msg i s = Ret s' \<Longrightarrow> svc_inv s \<Longrightarrow> svc_inv s' \<and> mSockFd s' = mSockFd s"
proof (induction msg i s rule: broadcast_loop.induct)
  case (1 msg i s)
  show ?case
  proof (cases "i < length (mAttachFd s)")
    case False
    with "1.prems" show ?thesis by (simp add: broadcast_loop.simps)
  next
    case True
    let ?fd = "mAttachFd s ! i"
    have b: "ibind (handleWrite ?fd msg s) (\<lambda>(r, s1).
        if r < 0 then if ?fd \<notin> set (take i (mAttachFd s)) then Fault UseAfterFree
          else broadcast_loop msg i (removeClientFd ?fd (snd (detachFd ?fd s1)))
        else broadcast_loop msg (Suc i) s1) = Ret s'"
      using "1.prems"(1) True by (subst (asm) broadcast_loop.simps) (simp add: Let_def)
    then obtain r s1 where w: "handleWrite ?fd msg s = Ret (r, s1)"
      by (cases "handleWrite ?fd msg s") auto
    note inv1 = handleWrite_inv [OF w "1.prems"(2)] and f = handleWrite_fields [OF w]
    have ns: "?fd \<noteq> mSockFd s" using "1.prems"(2) nth_mem [OF True] unfolding svc_inv_def by metis
    show ?thesis
    proof (cases "r < 0")
      case False
      with b w have "broadcast_loop msg (Suc i) s1 = Ret s'" by simp
      from "1.IH"(2) [OF _ refl w refl False this inv1] True f show ?thesis by simp
    next
      case lt: True
      have sk: "mSockFd (snd (detachFd ?fd s1)) = mSockFd s" using f by (simp add: detachFd_def)
      with lt b w have d: "?fd \<in> set (take i (mAttachFd s))"
        "broadcast_loop msg i (removeClientFd ?fd (snd (detachFd ?fd s1))) = Ret s'" by (auto split: if_splits)
      have "svc_inv (removeClientFd ?fd (snd (detachFd ?fd s1)))"
        using ns sk by (intro removeClientFd_inv detachFd_inv inv1) simp
      from "1.IH"(1) [OF _ refl w refl lt _ d(2) this] True d(1) sk show ?thesis by (simp add: removeClientFd_def)
    qed
  qed
qed

lemma sendMessage_inv:
  assumes "svc_sendMessage msg fd s = Ret (r, s')" "svc_inv s" "fd \<noteq> mSockFd s"
  shows "svc_inv s' \<and> mSockFd s' = mSockFd s"
proof (cases "0 \<le> fd")
  case True
  with assms(1) obtain q s1 where w: "handleWrite fd msg s = Ret (q, s1)"
    "s' = (if q < 0 then removeClientFd fd s1 else s1)"
    by (auto simp: svc_sendMessage_def ibind_Ret split: if_splits)
  have "svc_inv s1" "mSockFd s1 = mSockFd s" using handleWrite_inv [OF w(1) assms(2)] handleWrite_fields [OF w(1)] by auto
  then show ?thesis using w(2) assms(3) by (simp add: removeClientFd_inv) (simp add: removeClientFd_def)
next
  case False
  then show ?thesis using assms(1,2) broadcast_inv [of msg 0 s s']
    by (auto simp: svc_sendMessage_def ibind_Ret split: if_splits)
qed

lemma onEvent_inv:
  "svc_onEvent fd buf s = Ret (r, s') \<Longrightarrow> svc_inv s \<Longrightarrow> fd \<noteq> mSockFd s \<Longrightarrow> svc_inv s' \<and> mSockFd s' = mSockFd s"
  by (auto simp: svc_onEvent_def ibind_Ret detachFd_def attachFd_def dest!: sendMessage_inv split: if_splits)
     (auto simp: svc_inv_def dest: notin_set_remove1)

lemma drop_client_inv: "svc_inv s \<Longrightarrow> fd \<noteq> mSockFd s \<Longrightarrow> svc_inv (drop_client fd s)"
  by (simp add: drop_client_def detachFd_inv removeClientFd_inv)

lemma svc_event_inv:
  assumes "svc_event e s = Ret s'" "svc_inv s" "\<And>fd. ep_accept e = Some fd \<Longrightarrow> fd \<notin> set (open_fds s)"
  shows "svc_inv s'"
proof (cases "ep_fd e = mSockFd s")
  case True
  with assms show ?thesis
    by (auto simp: svc_event_def handleAccept_def addClientFd_def svc_inv_def split: option.splits if_splits)
next
  case False
  have rd: "svc_inv s1 \<and> mSockFd s1 = mSockFd s" if "svc_handleRead (ep_fd e) ans s = Ret (r, s1)" for ans r s1
    using that assms(2) False by (auto simp: svc_handleRead_def ibind_Ret dest: onEvent_inv split: if_splits)
  show ?thesis using assms(1,2) False
    by (auto simp: svc_event_def ibind_Ret dest: rd intro!: drop_client_inv split: if_splits)
qed

lemma svc_reach_inv: "svc_reach s \<Longrightarrow> svc_inv s"
proof (induction rule: svc_reach.induct)
  case (event s e s')
  then show ?case by (blast intro: svc_event_inv)
next
  case (send s fd msg r s')
  then show ?case by (blast dest: sendMessage_inv)
qed (auto simp: RjService_new_def svc_createSocket_def cbind_def svc_inv_def split: sum.splits)

text \<open>
  C12. In every history of a service its client table lists each client once, with
  an open descriptor that is registered with epoll; nothing else but the
  listening socket is registered, and that is never taken for a client.
\<close>

theorem service_invariant:
  assumes "svc_reach s"
  shows "distinct (mClientFd s) \<and> set (epoll_fds s) = insert (mSockFd s) (set (mClientFd s))
    \<and> set (mClientFd s) \<subseteq> set (open_fds s) \<and> mSockFd s \<in> set (open_fds s)
    \<and> mSockFd s \<notin> set (mClientFd s) \<and> mSockFd s \<notin> set (mAttachFd s)"
  using svc_reach_inv [OF assms] by (simp add: svc_inv_def)

definition ex_start :: service where
  "ex_start = \<lparr>mSockFd = 3, mClientFd = [], mAttachFd = [], epoll_fds = [3], open_fds = [3, 4],
     answers = (\<lambda>_. []), sent = []\<rparr>"

definition accept_event :: "int \<Rightarrow> int \<Rightarrow> epoll_event" where
  "accept_event sock fd = \<lparr>ep_fd = sock, ep_err = False, ep_hup = False, ep_in = True, ep_accept = Some fd,
     ep_add = True, ep_recv = []\<rparr>"

definition message_event :: "int \<Rightarrow> string \<Rightarrow> epoll_event" where
  "message_event fd msg = \<lparr>ep_fd = fd, ep_err = False, ep_hup = False, ep_in = True, ep_accept = None,
     ep_add = True, ep_recv = [Received msg, RecvErr EAGAIN]\<rparr>"

definition hangup_event :: "int \<Rightarrow> epoll_event" where
  "hangup_event fd = \<lparr>ep_fd = fd, ep_err = False, ep_hup = True, ep_in = True, ep_accept = None,
     ep_add = True, ep_recv = []\<rparr>"

lemma ex_start_reach: "svc_reach ex_start"
  by (rule svc_reach.start [of "''net''" 3 4 "\<lambda>_. []"])
     (simp add: RjService_new_def svc_createSocket_def sprintf_c_def SUN_PATH_LEN_def ex_start_def)

theorem service_invariant_witness:
  "\<exists>s. svc_events [accept_event 3 5, accept_event 3 6, message_event 5 ''ATTACH'', hangup_event 6] ex_start = Ret s
     \<and> mClientFd s = [5] \<and> mAttachFd s = [5] \<and> set (mClientFd s) \<subseteq> set (open_fds s)"
proof -
  have m: "contains_sub ''ATTACH'' (c_str ''ATTACH'')" by code_simp
  let ?s1 = "ex_start\<lparr>open_fds := [3, 4, 5], epoll_fds := [3, 5], mClientFd := [5]\<rparr>"
  let ?s2 = "ex_start\<lparr>open_fds := [3, 4, 5, 6], epoll_fds := [3, 5, 6], mClientFd := [5, 6]\<rparr>"
  let ?s3 = "?s2\<lparr>mAttachFd := [5]\<rparr>"
  let ?s4 = "?s1\<lparr>mAttachFd := [5]\<rparr>"
  have e: "svc_event (accept_event 3 5) ex_start = Ret ?s1" "svc_event (accept_event 3 6) ?s1 = Ret ?s2"
    "svc_event (message_event 5 ''ATTACH'') ?s2 = Ret ?s3" "svc_event (hangup_event 6) ?s3 = Ret ?s4"
    using m by (simp_all add: svc_event_def accept_event_def message_event_def hangup_event_def handleAccept_def
      addClientFd_def ex_start_def svc_handleRead_def svc_onEvent_def ATTACH_def attachFd_def drop_client_def detachFd_def
      removeClientFd_def)
  have r1: "svc_reach ?s1" by (rule svc_reach.event [OF ex_start_reach _ e(1)]) (simp add: accept_event_def ex_start_def)
  have r2: "svc_reach ?s2" by (rule svc_reach.event [OF r1 _ e(2)]) (simp add: accept_event_def ex_start_def)
  have r3: "svc_reach ?s3" by (rule svc_reach.event [OF r2 _ e(3)]) (simp add: message_event_def)
  have r4: "svc_reach ?s4" by (rule svc_reach.event [OF r3 _ e(4)]) (simp add: hangup_event_def)
  have "svc_events [accept_event 3 5, accept_event 3 6, message_event 5 ''ATTACH'', hangup_event 6] ex_start = Ret ?s4"
    by (simp add: e)
  then show ?thesis using service_invariant [OF r4] by (intro exI [of _ ?s4]) (simp add: ex_start_def)
qed

text \<open>
  A client that attaches twice and hangs up stays in the list of attached
  clients with a closed descriptor, and the next broadcast uses a list entry
  after it was released.
\<close>

theorem double_attach_crash:
  assumes "fd \<in> set (mClientFd s)" "fd \<noteq> mSockFd s" "fd_ok fd" "fd \<notin> set (mAttachFd s)"
    and "fits_int msg" "msg \<noteq> []" "distinct (mAttachFd s)" "\<forall>fd \<in> set (mAttachFd s). ready_fd msg s fd"
  shows "\<exists>s'. svc_events [message_event fd ''ATTACH'', message_event fd ''ATTACH'', hangup_event fd] s = Ret s'
    \<and> fd \<in> set (mAttachFd s') \<and> fd \<notin> set (open_fds s') \<and> svc_sendMessage msg (- 1) s' = Fault UseAfterFree"
proof -
  let ?xs = "mAttachFd s"
  let ?s = "(removeClientFd fd s)\<lparr>mAttachFd := ?xs @ [fd]\<rparr>"
  have "contains_sub ''ATTACH'' (c_str ''ATTACH'')" by code_simp
  then have ev: "svc_events [message_event fd ''ATTACH'', message_event fd ''ATTACH'', hangup_event fd] s = Ret ?s"
    using assms(2,4) by (simp add: svc_event_def message_event_def hangup_event_def svc_handleRead_def svc_onEvent_def
      ATTACH_def attachFd_def drop_client_def detachFd_def removeClientFd_def remove1_append)
  have "\<forall>f \<in> set ?xs. ready_fd msg ?s f"
    using assms(4,8) by (auto simp: ready_fd_def removeClientFd_def)
  moreover have "distinct (mAttachFd ?s)" using assms(4,7) by simp
  ultimately obtain s2 where s2: "broadcast_loop msg 0 ?s = broadcast_loop msg (length ?xs) s2"
    "mAttachFd s2 = ?xs @ [fd]" "open_fds s2 = open_fds ?s"
    using broadcast_ready [OF assms(5), of ?s "length ?xs" 0] by auto
  have "handleWrite fd msg s2 = Ret (- 1, s2\<lparr>answers := (answers s2)(fd := []), sent := sent s2 @ [(fd, [])]\<rparr>)"
    using assms(3,5,6) s2(3)
    by (simp add: handleWrite_def Let_def fits_int_total fd_ok_def write_loop.simps removeClientFd_def)
  then have "broadcast_loop msg (length ?xs) s2 = Fault UseAfterFree"
    by (subst broadcast_loop.simps) (simp add: s2(2) Let_def assms(4) nth_append)
  then show ?thesis using ev s2(1) by (auto simp: svc_sendMessage_def removeClientFd_def)
qed

theorem double_attach_crash_witness:
  "\<exists>s'. svc_events [message_event 5 ''ATTACH'', message_event 5 ''ATTACH'', hangup_event 5]
        (ex_service\<lparr>mAttachFd := [6]\<rparr>) = Ret s'
     \<and> svc_sendMessage ''NETWORK-UP'' (- 1) s' = Fault UseAfterFree"
proof -
  have "accepts [Sent 2, SendErr EAGAIN, Sent 1, Sent 9] (length ''NETWORK-UP'')" by code_simp
  then have "\<forall>fd \<in> set (mAttachFd (ex_service\<lparr>mAttachFd := [6]\<rparr>)). ready_fd ''NETWORK-UP'' (ex_service\<lparr>mAttachFd := [6]\<rparr>) fd"
    by (simp add: ex_service_def ready_fd_def fd_ok_def FD_SETSIZE_def del: list.size)
  moreover have "fits_int ''NETWORK-UP''" "fd_ok 5" by (simp_all add: fits_int_def fd_ok_def FD_SETSIZE_def)
  ultimately show ?thesis
    using double_attach_crash [of 5 "ex_service\<lparr>mAttachFd := [6]\<rparr>" "''NETWORK-UP''"] by (simp add: ex_service_def) blast
qed

subsection \<open>Connecting\<close>

text \<open>
  What the service says in one attempt, and what was heard in all of them: \<^verbatim>\<open>recvMessage_l\<close> appends to the
  text of the earlier attempts.
\<close>

fun reply :: "conn_ans \<Rightarrow> string" where
  "reply (Accepted (Some as)) = (case recv_loop as [] of Ret (_, d) \<Rightarrow> d | _ \<Rightarrow> [])"
| "reply _ = []"

definition heard :: "conn_ans list \<Rightarrow> string" where
  "heard ans = concat (map reply ans)"

definition refusals :: "conn_ans list \<Rightarrow> nat" where
  "refusals ans = length (filter (\<lambda>a. a = Refused) ans)"

lemma heard_refusals_simps [simp]:
  "heard [] = []" "heard (a # as) = reply a @ heard as"
  "refusals [] = 0" "refusals (Refused # as) = Suc (refusals as)" "refusals (Accepted r # as) = refusals as"
  by (simp_all add: heard_def refusals_def)

text \<open>Reading a reply ends, and so does sending PING in every accepted attempt, with success or not.\<close>

fun reply_ends :: "conn_ans \<Rightarrow> bool" where
  "reply_ends (Accepted (Some as)) \<longleftrightarrow> recv_loop as [] \<noteq> Blocked"
| "reply_ends _ \<longleftrightarrow> True"

fun pings_end :: "conn_ans list \<Rightarrow> send_ans list \<Rightarrow> bool" where
  "pings_end [] as \<longleftrightarrow> True"
| "pings_end (Refused # ans) as \<longleftrightarrow> pings_end ans as"
| "pings_end (Accepted r # ans) as \<longleftrightarrow>
     (case write_loop as ''PING'' 0 4 of Ret (_, _, rest) \<Rightarrow> pings_end ans rest | _ \<Rightarrow> False)"

text \<open>PONG is heard in time: in an attempt before which fewer than \<open>n\<close> were refused.\<close>

definition pong_before :: "nat \<Rightarrow> string \<Rightarrow> conn_ans list \<Rightarrow> bool" where
  "pong_before n str ans \<longleftrightarrow>
     (\<exists>i < length ans. contains_sub ''PONG'' (str @ heard (take (Suc i) ans)) \<and> refusals (take i ans) < n)"

lemma pong_before_Nil [simp]: "\<not> pong_before n str []"
  by (simp add: pong_before_def)

lemma pong_before_Cons:
  "pong_before n str (a # as) \<longleftrightarrow> contains_sub ''PONG'' (str @ reply a) \<and> 0 < n
     \<or> pong_before (if a = Refused then n - 1 else n) (str @ reply a) as"
  by (cases a) (auto simp: pong_before_def Ex_less_Suc2 less_diff_conv)

lemma recv_loop_append: "recv_loop as acc = ibind (recv_loop as []) (\<lambda>(stop, d). Ret (stop, acc @ d))"
proof (induction as arbitrary: acc)
  case (Cons a as)
  show ?case
  proof (cases a)
    case (Received s)
    then show ?thesis using Cons.IH [of "acc @ s"] Cons.IH [of s] by (cases "recv_loop as []") auto
  qed simp_all
qed simp

lemma recv_loop_no_fault: "recv_loop as acc \<noteq> Fault e"
  by (induction as acc rule: recv_loop.induct) auto

lemma recv_reply:
  assumes "fd_ok (cSockFd c)" "reply_ends (Accepted r)"
  shows "\<exists>x. recvMessage_l r str c = Ret (x, str @ reply (Accepted r))"
proof (cases r)
  case (Some as)
  then obtain y where "recv_loop as [] = Ret y" using assms(2) recv_loop_no_fault by (cases "recv_loop as []") auto
  then show ?thesis using assms(1) Some recv_loop_append [of as str]
    by (cases y) (simp add: recvMessage_l_def fd_ok_def c_handleRead_def)
qed (use assms(1) in \<open>simp add: recvMessage_l_def fd_ok_def\<close>)

lemma send_ping:
  assumes "fd_ok (cSockFd c)" "cSockFd c \<in> set (c_open c)" "pings_end (Accepted r # ans) (c_answers c (cSockFd c))"
  shows "\<exists>x c'. sendMessage_l ''PING'' c = Ret (x, c') \<and> cSockFd c' = cSockFd c \<and> c_open c' = c_open c
    \<and> pings_end ans (c_answers c' (cSockFd c))"
proof -
  from assms(3) obtain x d rest where "write_loop (c_answers c (cSockFd c)) ''PING'' 0 4 = Ret (x, d, rest)" "pings_end ans rest"
    by (auto split: ipc.splits)
  then show ?thesis using assms(1,2)
    by (simp add: sendMessage_l_def c_handleWrite_def Let_def fd_ok_def to_int32_def)
qed

lemma connect_loop_outcome:
  assumes "0 < timeout" "0 < n" "\<not> contains_sub ''PONG'' str" "fd_ok (cSockFd c)" "cSockFd c \<in> set (c_open c)"
    and "list_all reply_ends ans" "pings_end ans (c_answers c (cSockFd c))"
  shows "\<exists>c'. connect_loop ans timeout (int n) str c =
    (if pong_before n str ans then Ret (True, c') else if n \<le> refusals ans then Ret (False, c') else Blocked)"
  using assms(2-7)
proof (induction ans arbitrary: n str c)
  case (Cons a ans)
  show ?case
  proof (cases a)
    case Refused
    show ?thesis
    proof (cases "n = 1")
      case True
      then show ?thesis using Cons.prems assms(1) by (simp add: Refused pong_before_Cons) (simp add: pong_before_def)
    next
      case False
      with Cons.prems(1) have n: "0 < n - 1" "int n - 1 = int (n - 1)" by simp_all
      have "connect_loop (a # ans) timeout (int n) str c = connect_loop ans timeout (int (n - 1)) str c"
        using n assms(1) by (simp only: Refused connect_loop.simps) simp
      moreover have "pong_before n str (a # ans) \<longleftrightarrow> pong_before (n - 1) str ans"
        using Cons.prems(2) by (simp add: Refused pong_before_Cons)
      moreover have "n \<le> refusals (a # ans) \<longleftrightarrow> n - 1 \<le> refusals ans" by (simp add: Refused) arith
      moreover have "list_all reply_ends ans" "pings_end ans (c_answers c (cSockFd c))"
        using Cons.prems(5,6) by (simp_all add: Refused)
      ultimately show ?thesis using Cons.IH [OF n(1) Cons.prems(2-4)] by presburger
    qed
  next
    case (Accepted r)
    from send_ping [OF Cons.prems(3,4)] Cons.prems(6) obtain x c' where c': "sendMessage_l ''PING'' c = Ret (x, c')"
      "cSockFd c' = cSockFd c" "c_open c' = c_open c" "pings_end ans (c_answers c' (cSockFd c))" unfolding Accepted by blast
    from recv_reply [of c' r str] obtain y where y: "recvMessage_l r str c' = Ret (y, str @ reply (Accepted r))"
      using Cons.prems(3,5) c'(2) by (auto simp: Accepted)
    show ?thesis
    proof (cases "contains_sub ''PONG'' (str @ reply (Accepted r))")
      case True
      then show ?thesis using Cons.prems(1) c' y by (auto simp: Accepted pong_before_Cons)
    next
      case False
      with Cons.IH [OF Cons.prems(1) False, of c'] Cons.prems(3-5) c' y show ?thesis
        by (auto simp: Accepted pong_before_Cons)
    qed
  qed
qed simp



text \<open>Detaching closes the socket first: DETACH is never sent, and deleting the client closes the descriptor again.\<close>

lemma detach_closes_first:
  assumes "mConnected c" "fd_ok (cSockFd c)" "0 < cSockFd c" "mAttach c"
  shows "\<exists>c'. RjClient_delete c = Ret c' \<and> closes c' = closes c @ [cSockFd c, cSockFd c]
    \<and> c_sent c' = c_sent c @ [(cSockFd c, [])]"
  using assms
  by (simp add: RjClient_delete_def detach_def Let_def close_fd_def c_sendMessage_def sendMessage_l_def
        c_handleWrite_def fd_ok_def to_int32_def write_loop.simps)

end
