(* ===== verification/RcJson.thy ===== *)
theory RcJson
  imports CJsonRoundtrip
begin

text \<open>
  The string interface to JSON objects of \<^verbatim>\<open>common/rc_json.cpp\<close>: every call parses the
  text, reads or appends one field and prints the object again. Seen from
  outside, a text built by these calls is an association list of fields in the order
  they were added; a field is found by the first name that agrees up to case.
  Log messages are not modelled.
\<close>

subsection \<open>Operations\<close>

definition ERROR_INT :: int where
  "ERROR_INT = int_min"

definition init_key_node :: "platform \<Rightarrow> mem \<Rightarrow> string \<Rightarrow> string \<Rightarrow> (cjson option \<times> mem) cres" where
  "init_key_node P m input key =
     cbind (cJSON_Parse P m (Some (c_str input))) (\<lambda>(json, m').
     cbind (cJSON_GetObjectItem json (Some (c_str key))) (\<lambda>pMsg. Inr (pMsg, m')))"

definition rc_json_get_string :: "platform \<Rightarrow> mem \<Rightarrow> string \<Rightarrow> string \<Rightarrow> string cres" where
  "rc_json_get_string P m input key =
     cbind (init_key_node P m input key) (\<lambda>(pMsg, _). Inr (case pMsg of
       None \<Rightarrow> []
     | Some c \<Rightarrow> (case j_valuestring c of None \<Rightarrow> [] | Some s \<Rightarrow> s)))"

definition rc_json_get_int :: "platform \<Rightarrow> mem \<Rightarrow> string \<Rightarrow> string \<Rightarrow> int cres" where
  "rc_json_get_int P m input key =
     cbind (init_key_node P m input key) (\<lambda>(pMsg, _). Inr (case pMsg of
       None \<Rightarrow> ERROR_INT
     | Some c \<Rightarrow> j_valueint c))"

definition rc_json_get_child :: "platform \<Rightarrow> mem \<Rightarrow> string \<Rightarrow> string \<Rightarrow> string cres" where
  "rc_json_get_child P m input key =
     cbind (init_key_node P m input key) (\<lambda>(pMsg, m'). case pMsg of
       None \<Rightarrow> Inr []
     | Some c \<Rightarrow> cbind (cJSON_PrintUnformatted P m' (Some c)) (\<lambda>(print_ret, _).
         Inr (case print_ret of None \<Rightarrow> [] | Some s \<Rightarrow> s)))"

definition init_cjson :: "platform \<Rightarrow> mem \<Rightarrow> string \<Rightarrow> (cjson option \<times> mem) cres" where
  "init_cjson P m input =
     (if input = [] then Inr (cJSON_CreateObject m) else cJSON_Parse P m (Some (c_str input)))"

definition destroy_cjson :: "platform \<Rightarrow> mem \<Rightarrow> string \<Rightarrow> cjson option \<Rightarrow> (string \<times> mem) cres" where
  "destroy_cjson P m input json =
     cbind (cJSON_PrintUnformatted P m json) (\<lambda>(print_ret, m').
       Inr (case print_ret of None \<Rightarrow> input | Some s \<Rightarrow> s, m'))"

text \<open>Parse, add the item that \<open>mk\<close> creates, print.\<close>

definition add_item ::
    "platform \<Rightarrow> mem \<Rightarrow> string \<Rightarrow> string \<Rightarrow> (mem \<Rightarrow> cjson option \<times> mem) \<Rightarrow> (string \<times> mem) cres" where
  "add_item P m input key mk =
     cbind (init_cjson P m input) (\<lambda>(json, m1).
       let (item, m2) = mk m1
       in cbind (cJSON_AddItemToObject m2 json (c_str key) item) (\<lambda>(json', m3). destroy_cjson P m3 input json'))"

definition rc_json_add_string :: "platform \<Rightarrow> mem \<Rightarrow> string \<Rightarrow> string \<Rightarrow> string \<Rightarrow> (string \<times> mem) cres" where
  "rc_json_add_string P m input key val = add_item P m input key (\<lambda>m'. cJSON_CreateString m' (c_str val))"

definition rc_json_add_int :: "platform \<Rightarrow> mem \<Rightarrow> string \<Rightarrow> string \<Rightarrow> int \<Rightarrow> (string \<times> mem) cres" where
  "rc_json_add_int P m input key val = add_item P m input key (\<lambda>m'. cJSON_CreateNumber m' (d_of_int val))"

definition rc_json_add_bool :: "platform \<Rightarrow> mem \<Rightarrow> string \<Rightarrow> string \<Rightarrow> bool \<Rightarrow> (string \<times> mem) cres" where
  "rc_json_add_bool P m input key val = add_item P m input key (\<lambda>m'. cJSON_CreateBool m' val)"

definition rc_json_add_child :: "platform \<Rightarrow> mem \<Rightarrow> string \<Rightarrow> string \<Rightarrow> string \<Rightarrow> (string \<times> mem) cres" where
  "rc_json_add_child P m input key val = add_item P m input key (\<lambda>m'. cJSON_CreateString m' (c_str val))"

subsection \<open>The association list a text stands for\<close>

datatype field = FString string | FInt int | FBool bool

fun field_ok :: "field \<Rightarrow> bool" where
  "field_ok (FString s) = (NUL \<notin> set s)"
| "field_ok (FInt i) = is_int32 i"
| "field_ok (FBool b) = True"

definition fields_ok :: "(string \<times> field) list \<Rightarrow> bool" where
  "fields_ok fs \<longleftrightarrow> (\<forall>(k, v)\<in>set fs. NUL \<notin> set k \<and> field_ok v)"

fun field_item :: "string \<times> field \<Rightarrow> cjson" where
  "field_item (k, FString s) = CJSON [] cJSON_String (Some s) 0 (Fin 0) (Some k)"
| "field_item (k, FInt i) = CJSON [] cJSON_Number None i (Fin (of_int i)) (Some k)"
| "field_item (k, FBool b) = CJSON [] (if b then cJSON_True else cJSON_False) None (if b then 1 else 0) (Fin 0) (Some k)"

definition obj_of :: "(string \<times> field) list \<Rightarrow> cjson" where
  "obj_of fs = CJSON (map field_item fs) cJSON_Object None 0 (Fin 0) None"

text \<open>The empty list is the empty text.\<close>

definition text_of :: "(string \<times> field) list \<Rightarrow> string" where
  "text_of fs = (if fs = [] then [] else json_text (obj_of fs) 0 False)"

fun field_lookup :: "(string \<times> field) list \<Rightarrow> string \<Rightarrow> field option" where
  "field_lookup [] k = None"
| "field_lookup ((k', v) # fs) k = (if map tolower k' = map tolower k then Some v else field_lookup fs k)"

fun field_int :: "field option \<Rightarrow> int" where
  "field_int None = ERROR_INT"
| "field_int (Some (FInt i)) = i"
| "field_int (Some (FBool b)) = (if b then 1 else 0)"
| "field_int (Some (FString s)) = 0"

fun field_string :: "field option \<Rightarrow> string" where
  "field_string (Some (FString s)) = s"
| "field_string _ = []"

fun add_field :: "platform \<Rightarrow> mem \<Rightarrow> string \<Rightarrow> string \<times> field \<Rightarrow> (string \<times> mem) cres" where
  "add_field P m input (k, FString s) = rc_json_add_string P m input k s"
| "add_field P m input (k, FInt i) = rc_json_add_int P m input k i"
| "add_field P m input (k, FBool b) = rc_json_add_bool P m input k b"

fun add_fields :: "platform \<Rightarrow> mem \<Rightarrow> string \<Rightarrow> (string \<times> field) list \<Rightarrow> (string \<times> mem) cres" where
  "add_fields P m input [] = Inr (input, m)"
| "add_fields P m input (f # fs) = cbind (add_field P m input f) (\<lambda>(input', m'). add_fields P m' input' fs)"

lemma norm_field: "set_name (j_string (field_item f)) (norm_item (field_item f)) = field_item f"
  by (cases f rule: field_item.cases) (simp_all add: number_item_def)

lemma norm_obj_of [simp]: "norm_item (obj_of fs) = obj_of fs"
  by (simp add: obj_of_def norm_field)

lemma printable_field: "NUL \<notin> set k \<Longrightarrow> field_ok v \<Longrightarrow> printable (field_item (k, v)) \<and> name_ok (field_item (k, v))"
  by (cases v) (simp_all add: name_ok_def)

lemma printable_obj_of: "fields_ok fs \<Longrightarrow> printable (obj_of fs)"
  using printable_field by (fastforce simp: obj_of_def fields_ok_def)

text \<open>Printed texts contain no NUL.\<close>

lemma no_NUL_escape_char:
  assumes "c \<noteq> NUL"
  shows "NUL \<notin> set (escape_char c)"
  using assms
proof (cases rule: escape_char_cases)
  case plain
  with assms show ?thesis by simp
next
  case (short e)
  with assms show ?thesis by (auto simp: NUL_def unescape_char_def)
next
  case hex
  then have "of_char c div 16 < (16 :: nat)" "of_char c mod 16 < (16 :: nat)" by simp_all
  moreover have "hex_digit k \<noteq> NUL" if "k < 16" for k
    using hexval_hex_digit [OF that] by (auto simp: hexval_def NUL_def)
  ultimately have "hex_digit (of_char c div 16) \<noteq> NUL" "hex_digit (of_char c mod 16) \<noteq> NUL" by blast+
  with hex show ?thesis by (auto simp: hex4_text_def Let_def NUL_def)
qed

lemma no_NUL_str_text:
  assumes "NUL \<notin> set s"
  shows "NUL \<notin> set (str_text s)"
proof -
  have "NUL \<notin> set (escape_text s)"
    using assms no_NUL_escape_char by (induction s) (auto simp: escape_text_def)
  then show ?thesis by (simp add: str_text_def NUL_def)
qed

lemma set_join_elems: "set (join_elems fmt es) \<subseteq> set '', '' \<union> (\<Union>e\<in>set es. set e)"
  by (induction fmt es rule: join_elems.induct) auto

lemma set_join_members:
  "set (join_members fmt k es) \<subseteq> set '',:'' \<union> {CHR 0x09, newline} \<union> (\<Union>(n, e)\<in>set es. set n \<union> set e)"
  by (induction fmt k es rule: join_members.induct) (auto simp: tabs_def)

lemma no_NUL_text: "printable c \<Longrightarrow> NUL \<notin> set (json_text c d fmt)"
proof (induction c arbitrary: d)
  case (CJSON ch t vs vi vd nm)
  show ?case
  proof (cases t)
    case cJSON_Number
    have "\<not> (isdigit NUL \<or> NUL = CHR ''-'')" by (simp add: NUL_def isdigit_def)
    then have "NUL \<notin> set (show_int vi)" using show_int_chars by blast
    with cJSON_Number show ?thesis by simp
  next
    case cJSON_String
    with CJSON.prems no_NUL_str_text show ?thesis by (cases vs) auto
  next
    case cJSON_Array
    with CJSON set_join_elems [of fmt "map (\<lambda>c. json_text c (Suc d) fmt) ch"] show ?thesis
      by (fastforce simp: NUL_def)
  next
    case cJSON_Object
    have n: "NUL \<notin> set (name_text c)" if "name_ok c" for c
      using that no_NUL_str_text by (auto simp: name_ok_def name_text_def split: option.splits)
    have "NUL \<notin> set (join_members fmt (Suc d) (map (\<lambda>c. (name_text c, json_text c (Suc d) fmt)) ch))"
      using set_join_members [of fmt "Suc d" "map (\<lambda>c. (name_text c, json_text c (Suc d) fmt)) ch"] CJSON cJSON_Object n
      by (fastforce simp: NUL_def newline_def)
    with cJSON_Object show ?thesis by (auto simp: object_text_def NUL_def newline_def tabs_def)
  qed (auto simp: NUL_def)
qed

subsection \<open>Adding and reading fields\<close>

text \<open>What the creating functions make of a field, before printing.\<close>

fun new_item :: "field \<Rightarrow> cjson" where
  "new_item (FString s) = CJSON [] cJSON_String (Some s) 0 (Fin 0) None"
| "new_item (FInt i) = CJSON [] cJSON_Number None i (Fin (of_int i)) None"
| "new_item (FBool b) = CJSON [] (if b then cJSON_True else cJSON_False) None 0 (Fin 0) None"

lemma new_item_text: "json_text (set_name (Some k) (new_item v)) d fmt = json_text (field_item (k, v)) d fmt"
  "name_text (set_name (Some k) (new_item v)) = name_text (field_item (k, v))"
  by (cases v; simp add: name_text_def)+

lemma new_item_printable:
  "field_ok v \<Longrightarrow> printable (set_name (Some k) (new_item v))"
  "NUL \<notin> set k \<Longrightarrow> name_ok (set_name (Some k) (new_item v))"
  by (cases v; simp add: name_ok_def)+

lemma init_cjson_text:
  assumes "fields_ok fs" and "no_fail m" and "pow10 P (Fin 0) = Fin 1" and "length (text_of fs) \<le> int_max"
  shows "\<exists>m'. init_cjson P m (text_of fs) = Inr (Some (obj_of fs), m') \<and> no_fail m'"
proof (cases "fs = []")
  case True
  with assms(2) show ?thesis
    by (simp add: init_cjson_def text_of_def cJSON_CreateObject_def create_def alloc_ok obj_of_def mem_simps)
next
  case False
  note p = printable_obj_of [OF assms(1)]
  from json_text_length [OF p, of 0 False] have "json_text (obj_of fs) 0 False \<noteq> []" by auto
  with False reparse [OF p assms(2,3), of False] assms(4) show ?thesis
    by (simp add: init_cjson_def text_of_def c_str_id no_NUL_text [OF p])
qed

lemma length_join_members_append: "length (join_members fmt d es) \<le> length (join_members fmt d (es @ es'))"
  by (induction fmt d es rule: join_members.induct) auto

lemma text_of_append: "length (text_of fs) \<le> length (text_of (fs @ gs))"
  using length_join_members_append [of False 1 "map (\<lambda>f. (name_text (field_item f), json_text (field_item f) 1 False)) fs"
      "map (\<lambda>f. (name_text (field_item f), json_text (field_item f) 1 False)) gs"]
  by (auto simp: text_of_def obj_of_def object_text_def comp_def)

text \<open>The outcome of adding fields: the text of the list, or the overflow of a length.\<close>

definition adds_to :: "(string \<times> mem) cres \<Rightarrow> (string \<times> field) list \<Rightarrow> bool" where
  "adds_to r fs = (case r of Inl f \<Rightarrow> f = IntOverflow \<and> huge (text_of fs)
     | Inr (str, m') \<Rightarrow> str = text_of fs \<and> no_fail m' \<and> length (text_of fs) \<le> int_max)"

lemma add_item_text:
  assumes "fields_ok fs" and "NUL \<notin> set k" and "field_ok v" and "no_fail m" and "pow10 P (Fin 0) = Fin 1" and "length (text_of fs) \<le> int_max"
    and "\<And>m'. no_fail m' \<Longrightarrow> \<exists>m2. mk m' = (Some (new_item v), m2) \<and> no_fail m2"
  shows "adds_to (add_item P m (text_of fs) k mk) (fs @ [(k, v)])"
proof -
  obtain m1 where m1: "init_cjson P m (text_of fs) = Inr (Some (obj_of fs), m1)" "no_fail m1"
    using init_cjson_text [OF assms(1,4-6)] by blast
  obtain m2 where m2: "mk m1 = (Some (new_item v), m2)" "no_fail m2" using assms(7) [OF m1(2)] by blast
  let ?n = "set_name (Some k) (new_item v)"
  let ?o = "CJSON (map field_item fs @ [?n]) cJSON_Object None 0 (Fin 0) None"
  have add: "cJSON_AddItemToObject m2 (Some (obj_of fs)) k (Some (new_item v)) = Inr (Some ?o, tl m2)"
    using m2(2) by (simp add: cJSON_AddItemToObject_def cJSON_AddItemToArray_def cJSON_strdup_def alloc_ok children_def obj_of_def)
  have o: "printable ?o"
    using printable_obj_of [OF assms(1)] new_item_printable assms(2,3) by (simp add: obj_of_def)
  have ot: "json_text ?o 0 False = text_of (fs @ [(k, v)])"
    by (simp add: obj_of_def new_item_text text_of_def)
  have e: "add_item P m (text_of fs) k mk = destroy_cjson P (tl m2) (text_of fs) (Some ?o)"
    using m1 m2 add assms(2) by (simp add: add_item_def c_str_id)
  show ?thesis unfolding e destroy_cjson_def cJSON_PrintUnformatted_def
    by (cases rule: print_item_text [OF o no_fail_tl [OF m2(2)], of P False])
      (simp_all add: adds_to_def ot del: json_text.simps)
qed

lemma create_field:
  assumes "no_fail m" and "field_ok v"
  shows "\<exists>m2. (case v of FString s \<Rightarrow> cJSON_CreateString m (c_str s) | FInt i \<Rightarrow> cJSON_CreateNumber m (d_of_int i)
      | FBool b \<Rightarrow> cJSON_CreateBool m b) = (Some (new_item v), m2) \<and> no_fail m2"
  using assms
  by (cases v) (simp_all add: cJSON_CreateString_def cJSON_CreateNumber_def cJSON_CreateBool_def create_def
      cJSON_strdup_def alloc_ok c_str_id d_of_int_exact mem_simps)

lemma add_field_text:
  assumes "fields_ok fs" and "NUL \<notin> set k" and "field_ok v" and "no_fail m" and "pow10 P (Fin 0) = Fin 1" and "length (text_of fs) \<le> int_max"
  shows "adds_to (add_field P m (text_of fs) (k, v)) (fs @ [(k, v)])"
  using add_item_text [OF assms] create_field [OF _ assms(3)]
  by (cases v) (simp_all add: rc_json_add_string_def rc_json_add_int_def rc_json_add_bool_def)

lemma add_fields_text:
  assumes "fields_ok (fs @ gs)" and "no_fail m" and "pow10 P (Fin 0) = Fin 1" and "length (text_of fs) \<le> int_max"
  shows "adds_to (add_fields P m (text_of fs) gs) (fs @ gs)"
  using assms
proof (induction gs arbitrary: fs m)
  case (Cons g gs)
  obtain k v where g: "g = (k, v)" by (cases g)
  with Cons.prems have ok: "fields_ok fs" "NUL \<notin> set k" "field_ok v" "fields_ok ((fs @ [g]) @ gs)"
    by (auto simp: fields_ok_def)
  have a: "adds_to (add_field P m (text_of fs) g) (fs @ [g])"
    using add_field_text [OF ok(1-3) Cons.prems(2-4)] g by blast
  show ?case
  proof (cases "add_field P m (text_of fs) g")
    case (Inl f)
    with a text_of_append [of "fs @ [g]" gs] show ?thesis by (simp add: adds_to_def huge_def)
  next
    case (Inr r)
    obtain str m1 where "r = (str, m1)" by (cases r)
    with Inr a Cons.IH [OF ok(4) _ Cons.prems(3), of m1] show ?thesis by (simp add: adds_to_def)
  qed
qed (simp add: adds_to_def)

lemma add_fields_cases:
  assumes "fields_ok fs" and "no_fail m" and "pow10 P (Fin 0) = Fin 1"
  obtains m' where "add_fields P m [] fs = Inr (text_of fs, m')" "no_fail m'" "length (text_of fs) \<le> int_max"
  | "add_fields P m [] fs = Inl IntOverflow" "huge (text_of fs)"
  using add_fields_text [of "[]" fs m P] assms
  by (cases "add_fields P m [] fs") (auto simp: text_of_def [of "[]"] adds_to_def)

text \<open>Names agree up to case exactly when \<^const>\<open>cJSON_strcasecmp\<close> says so.\<close>

lemma tolower_NUL: "c \<noteq> NUL \<Longrightarrow> (of_char (tolower c) :: int) > 0"
proof -
  assume "c \<noteq> NUL"
  then have "(of_char c :: nat) \<noteq> of_char NUL" by (simp add: of_char_eq_iff)
  then have "0 < (of_char c :: nat)" by (simp add: NUL_def)
  then have "0 < (of_char (tolower c) :: nat)" by (auto simp: tolower_def Let_def)
  then show ?thesis by (metis of_nat_0_less_iff of_nat_of_char)
qed

lemma strcasecmp_iff:
  "NUL \<notin> set s \<Longrightarrow> NUL \<notin> set t \<Longrightarrow> strcasecmp_loop s t = 0 \<longleftrightarrow> map tolower s = map tolower t"
proof (induction s t rule: strcasecmp_loop.induct)
  case (2 d t)
  then show ?case using tolower_NUL [of d] by auto
next
  case (3 c s)
  then show ?case using tolower_NUL [of c] by auto
next
  case (4 c s d t)
  then show ?case by (auto simp: of_char_eq_iff)
qed simp

lemma find_name_fields:
  assumes "fields_ok fs" and "NUL \<notin> set k"
  shows "case field_lookup fs k of
      None \<Rightarrow> find_name (map field_item fs) (Some k) = length fs
    | Some v \<Rightarrow> \<exists>i<length fs. find_name (map field_item fs) (Some k) = i \<and> (\<exists>k'. fs ! i = (k', v))"
  using assms(1)
proof (induction fs)
  case (Cons f fs)
  obtain k' v where f: "f = (k', v)" by (cases f)
  have nm: "j_string (field_item (k', v)) = Some k'" by (cases v) simp_all
  have "strcasecmp_loop k' k = 0 \<longleftrightarrow> map tolower k' = map tolower k"
    using Cons.prems f assms(2) by (intro strcasecmp_iff) (auto simp: fields_ok_def)
  with Cons f nm show ?case
    by (cases "field_lookup fs k") (auto simp: cJSON_strcasecmp_def fields_ok_def)
qed simp

lemma get_object_item:
  assumes "fields_ok fs" and "fs \<noteq> []" and "NUL \<notin> set k" and "no_fail m" and "pow10 P (Fin 0) = Fin 1" and "length (text_of fs) \<le> int_max"
  shows "\<exists>c m'. init_key_node P m (text_of fs) k = Inr (c, m') \<and> no_fail m' \<and>
    (case field_lookup fs k of None \<Rightarrow> c = None | Some v \<Rightarrow> \<exists>k'. c = Some (field_item (k', v)))"
proof -
  note p = printable_obj_of [OF assms(1)]
  from reparse [OF p assms(4,5), of False] assms(2,6) obtain m' where
    "cJSON_Parse P m (Some (json_text (obj_of fs) 0 False)) = Inr (Some (obj_of fs), m')" "no_fail m'" by (auto simp: text_of_def)
  moreover have "c_str (json_text (obj_of fs) 0 False) = json_text (obj_of fs) 0 False"
    by (rule c_str_id [OF no_NUL_text [OF p]])
  ultimately have "init_key_node P m (text_of fs) k =
      Inr (let i = find_name (map field_item fs) (Some k) in if i < length fs then Some (map field_item fs ! i) else None, m')"
    "no_fail m'"
    using assms(2,3)
    by (simp_all add: init_key_node_def text_of_def c_str_id cJSON_GetObjectItem_def children_def Let_def obj_of_def [of fs]
        del: json_text.simps)
  with find_name_fields [OF assms(1,3)] show ?thesis
    by (cases "field_lookup fs k") (auto simp: Let_def)
qed

lemma rc_json_get_text:
  assumes "fields_ok fs" and "fs \<noteq> []" and "no_fail m" and "pow10 P (Fin 0) = Fin 1" and "length (text_of fs) \<le> int_max" and "NUL \<notin> set k"
  shows "rc_json_get_int P m (text_of fs) k = Inr (field_int (field_lookup fs k))"
    and "rc_json_get_string P m (text_of fs) k = Inr (field_string (field_lookup fs k))"
proof -
  from get_object_item [OF assms(1,2,6,3-5)] obtain c m2 where
    c: "init_key_node P m (text_of fs) k = Inr (c, m2)"
      "case field_lookup fs k of None \<Rightarrow> c = None | Some v \<Rightarrow> \<exists>k'. c = Some (field_item (k', v))" by blast
  have "rc_json_get_int P m (text_of fs) k = Inr (field_int (field_lookup fs k))
      \<and> rc_json_get_string P m (text_of fs) k = Inr (field_string (field_lookup fs k))"
  proof (cases "field_lookup fs k")
    case (Some v)
    with c(2) obtain k' where "c = Some (field_item (k', v))" by auto
    with c(1) Some show ?thesis by (cases v) (simp_all add: rc_json_get_int_def rc_json_get_string_def)
  qed (use c in \<open>simp add: rc_json_get_int_def rc_json_get_string_def\<close>)
  then show "rc_json_get_int P m (text_of fs) k = Inr (field_int (field_lookup fs k))"
    "rc_json_get_string P m (text_of fs) k = Inr (field_string (field_lookup fs k))" by auto
qed

subsection \<open>Properties\<close>

text \<open>
  C2. Texts implement association lists: adding fields one after the other to the empty text
  gives the text of the list of these fields, and reading a field from it returns the value
  of the first field whose name agrees up to case (0 for the integer value of a string, the
  empty string for the string value of anything else, \<^verbatim>\<open>INT_MIN\<close> or the empty
  string when there is no such field). The alternative is the overflow of a length of type \<^verbatim>\<open>int\<close>,
  and then the text has at least half a GiB.
\<close>

theorem rc_json_fields:
  assumes "fields_ok fs" and "fs \<noteq> []" and "no_fail m" and "pow10 P (Fin 0) = Fin 1" and "NUL \<notin> set k"
  shows "(\<exists>str m'. add_fields P m [] fs = Inr (str, m')
      \<and> rc_json_get_int P m' str k = Inr (field_int (field_lookup fs k))
      \<and> rc_json_get_string P m' str k = Inr (field_string (field_lookup fs k)))
    \<or> add_fields P m [] fs = Inl IntOverflow \<and> huge (text_of fs)"
proof (cases rule: add_fields_cases [OF assms(1,3,4)])
  case (1 m')
  with rc_json_get_text [OF assms(1,2) 1(2) assms(4) 1(3) assms(5)] show ?thesis by blast
qed blast

definition ex_fields :: "(string \<times> field) list" where
  "ex_fields = [(''Port'', FInt 21), (''user'', FString ''anonymous''), (''port'', FInt 22)]"

theorem rc_json_fields_witness:
  "\<exists>str m'. add_fields ex_platform [] [] ex_fields = Inr (str, m')
    \<and> rc_json_get_int ex_platform m' str ''port'' = Inr 21
    \<and> rc_json_get_string ex_platform m' str ''port'' = Inr []"
proof -
  have "fields_ok ex_fields" by code_simp
  moreover have "field_lookup ex_fields ''port'' = Some (FInt 21)" by code_simp
  moreover have "ex_fields \<noteq> []" "NUL \<notin> set ''port''" by (simp_all add: ex_fields_def NUL_def)
  moreover have "pow10 ex_platform (Fin 0) = Fin 1" by (simp add: ex_platform_def)
  moreover have "length (text_of ex_fields) < 100" by code_simp
  then have "\<not> huge (text_of ex_fields)" by (simp add: huge_def)
  ultimately show ?thesis using rc_json_fields [of ex_fields "[]" ex_platform "''port''"] by simp
qed

text \<open>
  The functions do not check that the text parses: reading a field from a text that is not
  JSON, and adding one to a non-empty such text, dereference a NULL pointer.
\<close>

theorem rc_json_invalid:
  assumes "cJSON_Parse P m (Some (c_str input)) = Inr (None, m')" and "input \<noteq> []" and "no_fail m'"
  shows "rc_json_get_int P m input k = Inl NullDeref \<and> rc_json_get_string P m input k = Inl NullDeref
    \<and> rc_json_add_int P m input k i = Inl NullDeref"
  using assms
  by (simp add: rc_json_get_int_def rc_json_get_string_def init_key_node_def cJSON_GetObjectItem_def children_def
      rc_json_add_int_def add_item_def init_cjson_def cJSON_CreateNumber_def create_def alloc_ok
      cJSON_AddItemToObject_def cJSON_strdup_def cJSON_AddItemToArray_def mem_simps)

theorem rc_json_invalid_witness:
  "rc_json_get_int ex_platform [] ''x'' ''k'' = Inl NullDeref \<and> rc_json_get_string ex_platform [] ''x'' ''k'' = Inl NullDeref
    \<and> rc_json_add_int ex_platform [] ''x'' ''k'' 0 = Inl NullDeref"
proof (rule rc_json_invalid)
  show "cJSON_Parse ex_platform [] (Some (c_str ''x'')) = Inr (None, [])"
    by (simp add: c_str_def NUL_def cJSON_Parse_def cJSON_ParseWithOpts_def alloc_def malloc_def skip_def
        parse_value.simps peek_def isdigit_def)
qed simp_all

text \<open>
  \<^verbatim>\<open>rc_json_add_child\<close> stores a JSON text as a string, not as a child object:
  \<^verbatim>\<open>rc_json_get_child\<close> returns it quoted and escaped, \<^verbatim>\<open>rc_json_get_string\<close> returns it unchanged.
\<close>

theorem rc_json_child:
  assumes "fields_ok fs" and "NUL \<notin> set k" and "NUL \<notin> set child" and "field_lookup fs k = None"
    and "no_fail m" and "pow10 P (Fin 0) = Fin 1" and "\<not> huge (text_of (fs @ [(k, FString child)]))"
  shows "\<exists>str m'. rc_json_add_child P m (text_of fs) k child = Inr (str, m')
    \<and> rc_json_get_child P m' str k = Inr (str_text child) \<and> rc_json_get_string P m' str k = Inr child"
proof -
  let ?fs = "fs @ [(k, FString child)]"
  have ok: "fields_ok ?fs" using assms(1-3) by (auto simp: fields_ok_def)
  have l: "length (text_of fs) \<le> int_max" "length (text_of ?fs) \<le> int_max"
    using assms(7) text_of_append [of fs "[(k, FString child)]"] by (simp_all add: huge_def int_max_def)
  have "adds_to (rc_json_add_child P m (text_of fs) k child) ?fs"
    using add_field_text [OF assms(1,2) _ assms(5,6) l(1), of "FString child"] assms(3)
    by (auto simp: rc_json_add_string_def rc_json_add_child_def)
  then obtain m' where m': "rc_json_add_child P m (text_of fs) k child = Inr (text_of ?fs, m')" "no_fail m'"
    using assms(7) by (cases "rc_json_add_child P m (text_of fs) k child") (auto simp: adds_to_def)
  have lk: "field_lookup ?fs k = Some (FString child)"
    using assms(4) by (induction fs) (auto split: if_splits)
  from get_object_item [OF ok _ assms(2) m'(2) assms(6) l(2)] lk obtain k' m2 where
    c: "init_key_node P m' (text_of ?fs) k = Inr (Some (field_item (k', FString child)), m2)" "no_fail m2" by auto
  have "length (str_text child) + 1 \<le> int_max"
  proof -
    have "(name_text (field_item (k, FString child)), json_text (field_item (k, FString child)) 1 False)
        \<in> set (map (\<lambda>f. (name_text (field_item f), json_text (field_item f) 1 False)) ?fs)" by auto
    from object_text_length(2) [OF this, of False 0] assms(7) show ?thesis
      by (simp add: text_of_def obj_of_def huge_def int_max_def comp_def)
  qed
  then have "rc_json_get_child P m' (text_of ?fs) k = Inr (str_text child)"
    using c by (simp add: rc_json_get_child_def cJSON_PrintUnformatted_def print_item_def print_string_def
        print_string_text [OF assms(3)] alloc_ok)
  moreover have "rc_json_get_string P m' (text_of ?fs) k = Inr child" using c by (simp add: rc_json_get_string_def)
  ultimately show ?thesis using m'(1) by blast
qed

theorem rc_json_child_witness:
  "\<exists>str m'. rc_json_add_child ex_platform [] (text_of ex_fields) ''sub'' ''{}'' = Inr (str, m')
    \<and> rc_json_get_child ex_platform m' str ''sub'' = Inr (str_text ''{}'') \<and> rc_json_get_string ex_platform m' str ''sub'' = Inr ''{}''"
proof (rule rc_json_child)
  show "fields_ok ex_fields" by code_simp
  show "field_lookup ex_fields ''sub'' = None" by code_simp
  have "length (text_of (ex_fields @ [(''sub'', FString ''{}'')])) < 100" by code_simp
  then show "\<not> huge (text_of (ex_fields @ [(''sub'', FString ''{}'')]))" by (simp add: huge_def)
qed (simp_all add: NUL_def ex_platform_def)

end
