(* ===== verification/ApiChecks.thy ===== *)
theory ApiChecks
  imports RjUtils
begin

text \<open>
  The checks that the interface functions share (macros of \<^verbatim>\<open>include/rj_commom.h\<close>) and the
  ways they return a text. A buffer of the caller is None for NULL, and \<^verbatim>\<open>size\<close> is its length.
\<close>

type_synonym 'a int_res = "(int \<times> 'a machine_scheme) cres"
type_synonym 'a text_res = "((int \<times> string option) \<times> 'a machine_scheme) cres"

text \<open>\<^verbatim>\<open>snprintf(buf, size, "%s", s)\<close>\<close>

definition put_text :: "string option \<Rightarrow> string \<Rightarrow> string option cres" where
  "put_text buf s = (case buf of None \<Rightarrow> Inl NullDeref | Some b \<Rightarrow> Inr (Some (snprintf_to b s)))"

definition quote :: string where
  "quote = [CHR 0x27]"

text \<open>\<^verbatim>\<open>CHECK_INIT_STR\<close>, \<^verbatim>\<open>CHECK_INIT_INT\<close>, \<^verbatim>\<open>CHECK_STR_PARA\<close> and \<^verbatim>\<open>CHECK_STR_PARA_STR\<close>\<close>

definition init_text :: "string option \<Rightarrow> string option" where
  "init_text buf = map_option (\<lambda>b. snprintf_to b (rj_strerror ERROR_10001)) buf"

definition no_para :: "string option \<Rightarrow> bool" where
  "no_para para \<longleftrightarrow> para = None \<or> para = Some []"

definition init_str :: "'a machine_scheme \<Rightarrow> string option \<Rightarrow> 'a text_res \<Rightarrow> 'a text_res" where
  "init_str m buf r = (if \<not> g_isinit m then Inr ((ERROR_10001, init_text buf), m) else r)"

definition init_int :: "'a machine_scheme \<Rightarrow> 'a int_res \<Rightarrow> 'a int_res" where
  "init_int m r = (if \<not> g_isinit m then Inr (ERROR_10001, m) else r)"

definition para_str :: "'a machine_scheme \<Rightarrow> string option \<Rightarrow> string option \<Rightarrow> (string \<Rightarrow> 'a text_res) \<Rightarrow> 'a text_res" where
  "para_str m para buf r = (if no_para para then Inr ((ERROR_11003, buf), m) else r (the para))"

definition para_int :: "'a machine_scheme \<Rightarrow> string option \<Rightarrow> (string \<Rightarrow> 'a int_res) \<Rightarrow> 'a int_res" where
  "para_int m para r = (if no_para para then Inr (ERROR_11003, m) else r (the para))"

definition para_text :: "'a machine_scheme \<Rightarrow> string option \<Rightarrow> string option \<Rightarrow> (string \<Rightarrow> 'a text_res) \<Rightarrow> 'a text_res" where
  "para_text m para buf r =
     (if no_para para then cbind (put_text buf (rj_strerror ERROR_11003)) (\<lambda>b. Inr ((ERROR_11003, b), m)) else r (the para))"

text \<open>The text in an array that a command filled, without its last newline.\<close>

definition chomp :: "string \<Rightarrow> string" where
  "chomp s = (if s \<noteq> [] \<and> last s = newline then butlast s else s)"

lemma put_text_Some [simp]: "put_text (Some b) s = Inr (Some (snprintf_to b s))"
  by (simp add: put_text_def)

lemma init_str_True [simp]: "g_isinit m \<Longrightarrow> init_str m buf r = r"
  by (simp add: init_str_def)

lemma init_int_True [simp]: "g_isinit m \<Longrightarrow> init_int m r = r"
  by (simp add: init_int_def)

lemma para_simps [simp]:
  "s \<noteq> [] \<Longrightarrow> para_str m (Some s) buf r = r s" "s \<noteq> [] \<Longrightarrow> para_int m (Some s) q = q s"
  "s \<noteq> [] \<Longrightarrow> para_text m (Some s) buf r = r s"
  by (simp_all add: para_str_def para_int_def para_text_def no_para_def)

text \<open>A command whose output fits the array of the caller.\<close>

lemma rj_exec_result_ok:
  assumes "sh cmd [] (files m) = Some (out, st, fs)" "cmd \<noteq> []" "NUL \<notin> set out" "0 < n"
  obtains buf where "rj_exec_result sh cmd (replicate n NUL) m
      = Inr ((rj_pclose (Some st), buf), m\<lparr>files := fs, runs := runs m @ [cmd]\<rparr>)"
    and "c_str buf = take (n - 1) out"
proof -
  from exec_result_fresh [OF assms(3,4)] obtain buf where
    "exec_result_loop 0 (replicate n NUL) out = Inr buf" "c_str buf = take (n - 1) out" by blast
  then show thesis using assms(1,2) by (intro that [of buf]) (simp_all add: rj_exec_result_def rj_popen_def popen_def)
qed

text \<open>Running a command changes the files and the list of runs only.\<close>

lemma rj_exec_result_total:
  assumes "0 < n"
  shows "\<exists>r buf fs rs. rj_exec_result sh cmd (replicate n NUL) m = Inr ((r, buf), m\<lparr>files := fs, runs := rs\<rparr>)"
proof -
  have "\<exists>b. exec_result_loop 0 (replicate n NUL) out = Inr b" for out
    using exec_result_loop_ok [of 0 "replicate n NUL" out] assms by auto
  then obtain f where f: "\<And>out. exec_result_loop 0 (replicate n NUL) out = Inr (f out)" by metis
  have m: "\<exists>fs rs. m = m\<lparr>files := fs, runs := rs\<rparr>" by (intro exI [of _ "files m"] exI [of _ "runs m"]) simp
  show ?thesis
  proof (cases "cmd = []")
    case False
    show ?thesis
    proof (cases "sh cmd [] (files m)")
      case (Some x)
      obtain out st fs where "x = (out, st, fs)" by (metis surj_pair)
      with Some False f show ?thesis
        by (auto simp: rj_exec_result_def rj_popen_def popen_def intro!: exI)
    qed (use False m in \<open>simp add: rj_exec_result_def rj_popen_def popen_def\<close>)
  qed (use m in \<open>simp add: rj_exec_result_def\<close>)
qed

lemma rj_system_state: "\<exists>r fs rs. rj_system sh cmd m = (r, m\<lparr>files := fs, runs := rs\<rparr>)"
proof (cases "sh cmd [] (files m)")
  case None
  then have "rj_system sh cmd m = (- 1, m\<lparr>files := files m, runs := runs m\<rparr>)"
    by (simp add: rj_system_def rj_popen_def popen_def)
  then show ?thesis by blast
next
  case (Some x)
  obtain out st fs where "x = (out, st, fs)" by (metis surj_pair)
  with Some have "rj_system sh cmd m = (rj_pclose (Some st), m\<lparr>files := fs, runs := runs m @ [cmd]\<rparr>)"
    by (simp add: rj_system_def rj_popen_def popen_def)
  then show ?thesis by blast
qed

lemma rj_system_run:
  "sh cmd [] (files m) = Some (out, st, fs) \<Longrightarrow>
     rj_system sh cmd m = (rj_pclose (Some st), m\<lparr>files := fs, runs := runs m @ [cmd]\<rparr>)"
  by (simp add: rj_system_def rj_popen_def popen_def)

lemma rj_pclose_0 [simp]: "rj_pclose (Some 0) = 0"
  by (simp add: rj_pclose_def WIFSIGNALED_def WTERMSIG_def WIFSTOPPED_def WIFEXITED_def WEXITSTATUS_def)

end
