(* ===== verification/NetworkExtra.thy ===== *)
theory NetworkExtra
  imports RjIpc RcJson ApiChecks
begin

text \<open>
  \<^verbatim>\<open>network/network_extra.cpp\<close>: the connection to the network daemon, the events it
  sends, and the helpers of the network interface.
\<close>

subsection \<open>Event names\<close>

definition Network_Event :: "string list" where
  "Network_Event =
     [''ETH_UP'', ''ETH_DOWN'', ''WLAN_UP'', ''WLAN_DOWN'', ''NET_UNAVAILABLE'', ''IP_UNAVAILABLE_br0'',
      ''IP_UNAVAILABLE_eth0'', ''IP_UNAVAILABLE_wlan0'', ''IP_CONFLICT'', ''TERMINATING'']"

definition Wifi_Event :: "string list" where
  "Wifi_Event =
     [''CONNECT_SUCCESS'', ''DISCONNECTED'', ''SCAN_RESULTS'', ''CONNECT_START'', ''CONNECT_FAILED'', ''TIMEOUT'']"

datatype NetStatus =
  NET_UNAVAILABLE | ETH_DOWN | ETH_UP | WLAN_DOWN | WLAN_UP | WLAN_NO_IP | ETH_NO_IP | IP_CONFLICT | TERMINATING

fun NetStatus_code :: "NetStatus \<Rightarrow> int" where
  "NetStatus_code NET_UNAVAILABLE = 0"
| "NetStatus_code ETH_DOWN = 1"
| "NetStatus_code ETH_UP = 2"
| "NetStatus_code WLAN_DOWN = 4"
| "NetStatus_code WLAN_UP = 8"
| "NetStatus_code WLAN_NO_IP = 16"
| "NetStatus_code ETH_NO_IP = 32"
| "NetStatus_code IP_CONFLICT = 64"
| "NetStatus_code TERMINATING = 255"

text \<open>The index of the first name that occurs in the data.\<close>

fun judge_loop :: "string list \<Rightarrow> int \<Rightarrow> string \<Rightarrow> int" where
  "judge_loop [] i data = - 1"
| "judge_loop (e # es) i data = (if contains_sub e data then i else judge_loop es (i + 1) data)"

definition networkEventJudge :: "string \<Rightarrow> int" where
  "networkEventJudge data = (if data = [] then - 1 else judge_loop Network_Event 0 data)"

definition wifiEventJudge :: "string \<Rightarrow> int" where
  "wifiEventJudge data = (if data = [] then - 1 else judge_loop Wifi_Event 0 data)"

subsection \<open>Handling events\<close>

definition simple_events :: "(string \<times> NetStatus) list" where
  "simple_events =
     [(''ETH_DOWN'', ETH_DOWN), (''ETH_UP'', ETH_UP), (''WLAN_DOWN'', WLAN_DOWN), (''WLAN_UP'', WLAN_UP),
      (''NET_UNAVAILABLE'', NET_UNAVAILABLE), (''IP_UNAVAILABLE_wlan0'', WLAN_NO_IP),
      (''IP_UNAVAILABLE_br0'', ETH_NO_IP), (''IP_UNAVAILABLE_eth0'', ETH_NO_IP)]"

definition tab :: char where
  "tab = CHR 0x09"

text \<open>
  The content of an address conflict and the position behind it. The content is
  taken one character too long and the position lies one too far when two tabs
  are found.
\<close>

definition conflict_event :: "string \<Rightarrow> string \<Rightarrow> string \<times> nat" where
  "conflict_event event eventContent =
     (let pos = length ''IP_CONFLICT''
      in case find_sub [tab] event of
           None \<Rightarrow> (eventContent, pos)
         | Some p1 \<Rightarrow>
             if p1 = 0 then (eventContent, pos)
             else (case find_sub [tab] (drop (p1 + 1) event) of
                     None \<Rightarrow> (eventContent, pos + 1)
                   | Some d \<Rightarrow>
                       let conflict_size = p1 + 1 + d - p1
                       in (take conflict_size (drop (p1 + 1) event), pos + 1 + conflict_size + 1)))"

text \<open>
  The event at the start of the text: its type, the content, the position behind
  it and whether the client reconnects. For TERMINATING the position is that of the
  failed search for IP_CONFLICT, which may be \<^verbatim>\<open>npos\<close>, plus 11.
\<close>

definition event_head :: "string \<Rightarrow> string \<Rightarrow> (NetStatus \<times> string \<times> nat \<times> bool) option" where
  "event_head event eventContent =
     (case find (\<lambda>(name, t). find_sub name event = Some 0) simple_events of
        Some (name, t) \<Rightarrow> Some (t, eventContent, length name, False)
      | None \<Rightarrow>
          if find_sub ''IP_CONFLICT'' event = Some 0
          then let (content, pos) = conflict_event event eventContent in Some (IP_CONFLICT, content, pos, False)
          else if find_sub ''TERMINATING'' event = Some 0
          then Some (TERMINATING, eventContent,
                 (case find_sub ''IP_CONFLICT'' event of
                    None \<Rightarrow> 10 | Some p \<Rightarrow> p + length ''TERMINATING''), True)
          else None)"

subsection \<open>The connection to the daemon\<close>

definition NET_EVENT_NAME :: string where
  "NET_EVENT_NAME = ''NetEvent''"

text \<open>The answers of the kernel to a new client.\<close>

record client_kernel =
  k_sock :: "int option"
  k_bind :: bool
  k_pid :: int
  k_counter :: int
  k_conn :: "conn_ans list"
  k_sends :: "int \<Rightarrow> send_ans list"

definition new_client :: "client_kernel \<Rightarrow> client ipc" where
  "new_client k = RjClient_new NET_EVENT_NAME (k_sock k) (k_bind k) (k_pid k) (k_counter k) (k_conn k) (k_sends k)"

definition network_init :: "client_kernel \<Rightarrow> client ipc" where
  "network_init k = ibind (new_client k) (\<lambda>c. ibind (attach True c) (\<lambda>(_, c'). Ret c'))"

definition network_del :: "client option \<Rightarrow> client option ipc" where
  "network_del mMonitor =
     (case mMonitor of None \<Rightarrow> Ret None | Some c \<Rightarrow> ibind (RjClient_delete c) (\<lambda>c'. Ret (Some c')))"

definition restartNetworkDaemon :: "shell \<Rightarrow> 'a machine_scheme \<Rightarrow> 'a machine_scheme" where
  "restartNetworkDaemon sh m =
     (let (_, m1) = rj_exec sh ''pkill network_daemon'' m;
          (_, m2) = rj_exec sh ''systemctl start network-daemon.service'' m1
      in m2)"

text \<open>
  Called for an event, it runs on the thread of the client that it deletes; that thread cannot wait
  for its own end, so \<^verbatim>\<open>pthread_join\<close> fails at once and the deletion goes on.
\<close>

definition reconnect ::
  "shell \<Rightarrow> client_kernel \<Rightarrow> client_kernel \<Rightarrow> bool \<Rightarrow> client \<Rightarrow> 'a machine_scheme \<Rightarrow> (bool \<times> client \<times> 'a machine_scheme) ipc" where
  "reconnect sh k1 k2 att cl m =
     (let finish = (\<lambda>c m. if att then ibind (attach True c) (\<lambda>(_, c'). Ret (True, c', m)) else Ret (True, c, m))
      in ibind (RjClient_delete cl) (\<lambda>_.
         ibind (new_client k1) (\<lambda>c.
           if mConnected c then finish c m
           else ibind (RjClient_delete c) (\<lambda>_.
                let m1 = restartNetworkDaemon sh m
                in ibind (new_client k2) (\<lambda>c2. finish c2 m1)))))"

subsection \<open>The loop over the events\<close>

text \<open>
  The loop: the calls of the callback, the number of reconnections so far, the client behind
  \<^verbatim>\<open>mMonitor\<close> and the machine. \<open>ks n\<close> are the answers of the kernel to the two clients that the \<open>n\<close>th
  reconnection may make. A reconnection that blocks or faults ends the handling there. For a wifi
  event the body of the loop does nothing.
\<close>

type_synonym 'a event_result = "((NetStatus \<times> string) list \<times> nat \<times> client \<times> 'a machine_scheme) ipc"

partial_function (option) event_loop ::
  "shell \<Rightarrow> (nat \<Rightarrow> client_kernel \<times> client_kernel) \<Rightarrow> bool \<Rightarrow> bool \<Rightarrow> nat \<Rightarrow> client \<Rightarrow> 'a machine_scheme
     \<Rightarrow> string \<Rightarrow> string \<Rightarrow> 'a event_result option" where
  [code]: "event_loop sh ks cb isNetwork n mon m event eventContent =
     (if \<not> isNetwork then event_loop sh ks cb isNetwork n mon m event eventContent
      else case event_head event eventContent of
        None \<Rightarrow> Some (Ret ([], n, mon, m))
      | Some (t, content, pos, recon) \<Rightarrow>
          (case if recon
                then ibind (reconnect sh (fst (ks n)) (snd (ks n)) True mon m) (\<lambda>(_, mon', m'). Ret (Suc n, mon', m'))
                else Ret (n, mon, m) of
             Fault e \<Rightarrow> Some (Fault e)
           | Blocked \<Rightarrow> Some Blocked
           | Ret (n', mon', m') \<Rightarrow>
               let call = (if cb then [(t, content)] else [])
               in if length event \<le> pos then Some (Ret (call, n', mon', m'))
                  else Option.bind (event_loop sh ks cb isNetwork n' mon' m' (drop pos event) content) (\<lambda>r.
                         Some (ibind r (\<lambda>(calls, rest). Ret (call @ calls, rest))))))"

text \<open>The return value and what the loop did; None when the loop goes on for ever.\<close>

definition onEvent ::
  "shell \<Rightarrow> (nat \<Rightarrow> client_kernel \<times> client_kernel) \<Rightarrow> bool \<Rightarrow> client \<Rightarrow> 'a machine_scheme \<Rightarrow> string \<Rightarrow> nat
     \<Rightarrow> (int \<times> (NetStatus \<times> string) list \<times> nat \<times> client \<times> 'a machine_scheme) ipc option" where
  "onEvent sh ks cb mon m data len =
     (let event = take len data
      in if networkEventJudge event < 0 \<and> wifiEventJudge event < 0 then Some (Ret (- 1, [], 0, mon, m))
         else Option.bind (event_loop sh ks cb (0 \<le> networkEventJudge event) 0 mon m event []) (\<lambda>r.
                Some (ibind r (\<lambda>res. Ret (0, res)))))"

subsection \<open>Running commands\<close>

definition command_size :: nat where
  "command_size = 512"

datatype error_code = RIGHT_RESULT | NOT_CARE | INPUT_ERROR | COMMAND_FAIL | JSON_FAIL | ACQUIRE_FAIL

text \<open>The values of the enumeration, which counts upwards from -14000.\<close>

fun code :: "error_code \<Rightarrow> int" where
  "code RIGHT_RESULT = 0"
| "code NOT_CARE = - 14000"
| "code INPUT_ERROR = - 13999"
| "code COMMAND_FAIL = - 13998"
| "code JSON_FAIL = - 13997"
| "code ACQUIRE_FAIL = - 13996"

definition ERROR_CODE :: "string list" where
  "ERROR_CODE = [''RJSUCCESS-0'', ''RJFAIL-14000'', ''RJFAIL-14001'', ''RJFAIL-14002'', ''RJFAIL-14003'']"

text \<open>The lines of the output, read in pieces of at most 1023 bytes: their number and the text.\<close>

function exec_chunks :: "string \<Rightarrow> nat \<times> string" where
  "exec_chunks out =
     (case fgets 1024 out of
        None \<Rightarrow> (0, [])
      | Some (tmp, rest) \<Rightarrow> let (num, s) = exec_chunks rest in (Suc num, c_str tmp @ s))"
  by pat_completeness auto
termination by (relation "measure length") (auto dest: fgets_shorter)

declare exec_chunks.simps [simp del]

definition rj_execstring :: "shell \<Rightarrow> string \<Rightarrow> 'a machine_scheme \<Rightarrow> (int \<times> string) \<times> 'a machine_scheme" where
  "rj_execstring sh cmd m =
     (if cmd = [] then ((- 1, []), m)
      else case popen sh cmd [] m of
             (None, m') \<Rightarrow> ((- 1, []), m')
           | (Some (out, st), m') \<Rightarrow> (let (num, s) = exec_chunks out in ((int num, s), m')))"

text \<open>
  The last step of the functions that return a text: the size becomes the length
  of the text when that is smaller, so \<^verbatim>\<open>strncpy\<close> never stores a final NUL.
\<close>

definition copy_out :: "string option \<Rightarrow> string \<Rightarrow> string option cres" where
  "copy_out buf s =
     (case buf of None \<Rightarrow> Inl NullDeref
      | Some b \<Rightarrow> cbind (strncpy_to b s (min (length b) (length s))) (\<lambda>b'. Inr (Some b')))"

definition acquireIPOnly ::
  "shell \<Rightarrow> string \<Rightarrow> string option \<Rightarrow> 'a machine_scheme \<Rightarrow> ((int \<times> string option) \<times> 'a machine_scheme) cres" where
  "acquireIPOnly sh interface buf m =
     cbind (sprintf_c command_size (''ifconfig '' @ interface @ '' | grep 'inet addr' | awk '{print $2}' | awk -F: '{print $2}'' @ quote)) (\<lambda>cmd.
       let ((num, buf_str), m1) = rj_execstring sh cmd m
       in if 0 < num then cbind (copy_out buf buf_str) (\<lambda>b. Inr ((code RIGHT_RESULT, b), m1))
          else cbind (sprintf_c command_size (''ifconfig '' @ interface @ '':avahi | grep 'inet addr:169' | grep -v '127.0.0.1' ''
                   @ ''              | cut -d: -f2 | awk '{print $1}'' @ quote)) (\<lambda>cmd2.
               let ((num2, buf_str2), m2) = rj_execstring sh cmd2 m1
               in if 0 < num2 then cbind (copy_out buf buf_str2) (\<lambda>b. Inr ((code RIGHT_RESULT, b), m2))
                  else cbind (put_text buf ''0.0.0.0'') (\<lambda>b. Inr ((code NOT_CARE, b), m2))))"

subsection \<open>Descriptions of transfers\<close>

record ftpInfo =
  serverIp :: string
  port :: int
  username :: string
  password :: string
  localFileName :: string
  remoteFileName :: string
  ftp_timeout :: int

definition parseFtpInfo :: "platform \<Rightarrow> mem \<Rightarrow> string \<Rightarrow> ftpInfo option cres" where
  "parseFtpInfo P mem cmd =
     (if cmd = [] then Inr None
      else cbind (rc_json_get_string P mem cmd ''serverIp'') (\<lambda>ip.
           cbind (rc_json_get_string P mem cmd ''username'') (\<lambda>user.
           cbind (rc_json_get_string P mem cmd ''password'') (\<lambda>pass.
           cbind (rc_json_get_string P mem cmd ''localFileName'') (\<lambda>loc.
           cbind (rc_json_get_string P mem cmd ''remoteFileName'') (\<lambda>remote.
           cbind (rc_json_get_int P mem cmd ''port'') (\<lambda>prt.
           cbind (rc_json_get_int P mem cmd ''timeout'') (\<lambda>tmo.
             Inr (Some \<lparr>serverIp = ip, port = prt, username = user, password = pass, localFileName = loc,
                        remoteFileName = remote, ftp_timeout = tmo\<rparr>)))))))))"

lemma ibind_assoc: "ibind (ibind r f) g = ibind r (\<lambda>x. ibind (f x) g)"
  by (cases r) simp_all

lemma find_sub_prefix: "find_sub p s = Some 0 \<longleftrightarrow> prefix_of p s"
  by (cases s; cases p) auto

subsection \<open>Events in a row\<close>

lemma event_loop_network:
  assumes "event_loop sh ks cb b n mon m event content = Some y"
  shows b
  by (rule event_loop.raw_induct [OF _ assms, where P = "\<lambda>_ _ _ b _ _ _ _ _ _. b"]) (simp split: if_splits)

lemma event_head_pos:
  assumes "event_head event content = Some (t, content', pos, recon)"
  shows "0 < pos"
proof (cases "find (\<lambda>(name, t). find_sub name event = Some 0) simple_events")
  case (Some x)
  then have "x \<in> set simple_events" by (metis (no_types, lifting) find_Some_iff nth_mem)
  with Some assms show ?thesis by (auto simp: event_head_def simple_events_def)
next
  case None
  with assms show ?thesis
    by (auto simp: event_head_def conflict_event_def Let_def split: if_splits option.splits prod.splits)
qed

text \<open>The events of a message, without their effects: the types with the content at that point.\<close>

function event_seq :: "string \<Rightarrow> string \<Rightarrow> (NetStatus \<times> string) list" where
  "event_seq event content =
     (case event_head event content of
        None \<Rightarrow> []
      | Some (t, c, pos, recon) \<Rightarrow> (t, c) # (if length event \<le> pos then [] else event_seq (drop pos event) c))"
  by pat_completeness auto
termination
proof (relation "measure (\<lambda>(event, _). length event)")
  fix event content x t y c z pos recon
  assume "event_head event content = Some x" "(t, y) = x" "(c, z) = y" "(pos, recon) = z" "\<not> length event \<le> pos"
  with event_head_pos [of event content t c pos recon]
  show "((drop pos event, c), event, content) \<in> measure (\<lambda>(event, _). length event)" by auto
qed simp

declare event_seq.simps [simp del]

text \<open>Reconnecting \<open>k\<close> times.\<close>

fun reconnects ::
  "shell \<Rightarrow> (nat \<Rightarrow> client_kernel \<times> client_kernel) \<Rightarrow> nat \<Rightarrow> nat \<Rightarrow> client \<Rightarrow> 'a machine_scheme \<Rightarrow> (client \<times> 'a machine_scheme) ipc" where
  "reconnects sh ks n 0 mon m = Ret (mon, m)"
| "reconnects sh ks n (Suc k) mon m =
     ibind (reconnect sh (fst (ks n)) (snd (ks n)) True mon m) (\<lambda>(_, mon', m'). reconnects sh ks (Suc n) k mon' m')"

definition terminations :: "(NetStatus \<times> string) list \<Rightarrow> nat" where
  "terminations es = length (filter (\<lambda>(t, _). t = TERMINATING) es)"

lemma terminations_simps [simp]:
  "terminations [] = 0"
  "terminations ((t, c) # es) = (if t = TERMINATING then Suc (terminations es) else terminations es)"
  by (simp_all add: terminations_def)

lemma event_head_recon:
  assumes "event_head event content = Some (t, c, pos, recon)"
  shows "recon \<longleftrightarrow> t = TERMINATING"
proof (cases "find (\<lambda>(name, t). find_sub name event = Some 0) simple_events")
  case (Some x)
  then have "x \<in> set simple_events" by (metis (no_types, lifting) find_Some_iff nth_mem)
  with Some assms show ?thesis by (auto simp: event_head_def simple_events_def)
next
  case None
  with assms show ?thesis by (auto simp: event_head_def Let_def split: if_splits option.splits prod.splits)
qed

lemma event_loop_seq:
  "event_loop sh ks cb True n mon m event content =
     Some (ibind (reconnects sh ks n (terminations (event_seq event content)) mon m) (\<lambda>s.
       Ret (if cb then event_seq event content else [], n + terminations (event_seq event content), s)))"
proof (induction event content arbitrary: n mon m rule: event_seq.induct)
  case (1 event content)
  show ?case
  proof (cases "event_head event content")
    case None
    then show ?thesis by (simp add: event_loop.simps event_seq.simps)
  next
    case (Some x)
    obtain t c pos recon where x: "x = (t, c, pos, recon)" by (metis surj_pair)
    note h = Some [unfolded x] event_head_recon [OF Some [unfolded x]]
    note IH = 1 [OF h(1) refl refl refl]
    have es: "event_seq event content = (t, c) # (if length event \<le> pos then [] else event_seq (drop pos event) c)"
      by (subst event_seq.simps) (simp add: h(1))
    show ?thesis
    proof (cases "t = TERMINATING")
      case True
      then show ?thesis using h IH
        by (subst event_loop.simps)
           (cases "reconnect sh (fst (ks n)) (snd (ks n)) True mon m"; auto simp: es ibind_assoc Let_def split_beta)
    next
      case False
      then show ?thesis using h IH by (subst event_loop.simps) (auto simp: es ibind_assoc Let_def split_beta)
    qed
  qed
qed

lemma event_head_simple:
  assumes "(name, t) \<in> set simple_events"
  shows "event_head (name @ rest) content = Some (t, content, length name, False)"
proof -
  have "find (\<lambda>(n, t). find_sub n (name @ rest) = Some 0) simple_events = Some (name, t)"
    using assms unfolding simple_events_def set_simps insert_iff empty_iff prod.inject
    by (elim disjE conjE) (simp_all add: find_sub_prefix)
  then show ?thesis by (simp add: event_head_def)
qed

lemma event_seq_row:
  assumes "set evs \<subseteq> set simple_events"
  shows "event_seq (concat (map fst evs)) content = map (\<lambda>(n, t). (t, content)) evs"
  using assms
proof (induction evs)
  case Nil
  have "event_head [] content = None"
    by (simp add: event_head_def simple_events_def)
  then show ?case by (simp add: event_seq.simps)
next
  case (Cons e evs)
  obtain n t where e: "e = (n, t)" by (cases e)
  have h: "event_head (n @ concat (map fst evs)) content = Some (t, content, length n, False)"
    using Cons.prems e by (intro event_head_simple) auto
  have "concat (map fst evs) = [] \<Longrightarrow> evs = []"
    using Cons.prems by (cases evs) (auto simp: simple_events_def)
  with h Cons show ?case by (subst event_seq.simps) (auto simp: e)
qed

lemma row_terminations: "set evs \<subseteq> set simple_events \<Longrightarrow> terminations (map (\<lambda>(n, t). (t, content)) evs) = 0"
  by (induction evs) (auto simp: simple_events_def)

lemma judge_loop_hit: "0 \<le> i \<Longrightarrow> list_ex (\<lambda>e. contains_sub e data) es \<Longrightarrow> 0 \<le> judge_loop es i data"
proof (induction es arbitrary: i)
  case (Cons e es)
  then show ?case using Cons.IH [of "i + 1"] by (cases "contains_sub e data") simp_all
qed simp

lemma simple_judge:
  assumes "(name, t) \<in> set simple_events"
  shows "0 \<le> networkEventJudge (name @ rest)"
proof -
  have "name \<in> set Network_Event" "name \<noteq> []" using assms by (auto simp: simple_events_def Network_Event_def)
  moreover have "contains_sub name (name @ rest)"
    using find_sub_prefix [of name "name @ rest"] by (auto simp: contains_sub_def prefix_of_iff)
  ultimately show ?thesis
    by (auto simp: networkEventJudge_def list_ex_iff intro!: judge_loop_hit)
qed

text \<open>
  C35. Handling a message of the network daemon, for every message. A message that names no known
  event returns -1 at once. A message that names a wifi event and no network event never
  ends: the loop consumes nothing. Any other message is read to its end: the callback is called
  with the events of the message in their order, up to the first text that is no event, and the client
  reconnects once for every TERMINATING among them; the function returns 0 exactly when all these
  reconnections return, and blocks or faults with the first that does not.
\<close>

theorem onEvent_returns:
  "onEvent sh ks cb mon m data len =
     (let event = take len data; es = event_seq event []
      in if 0 \<le> networkEventJudge event
         then Some (ibind (reconnects sh ks 0 (terminations es) mon m) (\<lambda>s.
                Ret (0, if cb then es else [], terminations es, s)))
         else if wifiEventJudge event < 0 then Some (Ret (- 1, [], 0, mon, m))
         else None)"
proof (cases "0 \<le> networkEventJudge (take len data)")
  case True
  then show ?thesis
    by (cases "reconnects sh ks 0 (terminations (event_seq (take len data) [])) mon m")
       (auto simp: onEvent_def Let_def event_loop_seq split: prod.splits)
next
  case False
  then have "event_loop sh ks cb False 0 mon m (take len data) [] = None"
    using event_loop_network [of sh ks cb False] by (cases "event_loop sh ks cb False 0 mon m (take len data) []") auto
  with False show ?thesis by (auto simp: onEvent_def Let_def)
qed

lemma onEvent_row:
  assumes "evs \<noteq> []" "set evs \<subseteq> set simple_events"
  shows "onEvent sh ks True mon m (concat (map fst evs)) (length (concat (map fst evs)))
    = Some (Ret (0, map (\<lambda>(n, t). (t, [])) evs, 0, mon, m))"
proof -
  from assms obtain n t es where "evs = (n, t) # es" "(n, t) \<in> set simple_events" by (cases evs) auto
  with simple_judge [of n t "concat (map fst es)"] have "0 \<le> networkEventJudge (concat (map fst evs))" by simp
  with event_loop_seq [of sh ks True 0 mon m "concat (map fst evs)" "[]"] event_seq_row [OF assms(2), of "[]"]
    row_terminations [OF assms(2), of "[]"] show ?thesis by (simp add: onEvent_def)
qed

end
