(* ===== verification/Network.thy ===== *)
theory Network
  imports NetworkExtra
begin

text \<open>
  \<^verbatim>\<open>network/network.cpp\<close>: the network interface. Each function builds a command line for
  \<^verbatim>\<open>network_cli\<close> in an array of 512 bytes, runs it and returns its output or a code.
  A buffer of the caller is None for NULL; \<^verbatim>\<open>size\<close> is its length.
\<close>

subsection \<open>Shared steps\<close>

definition cli :: "string \<Rightarrow> string" where
  "cli args = ''/usr/local/bin/netmanager/network_cli '' @ args"

definition quoted :: "string \<Rightarrow> string" where
  "quoted s = quote @ s @ quote"

text \<open>Run a command and return its output; \<open>err\<close> is the text stored when it printed nothing.\<close>

definition cli_text :: "shell \<Rightarrow> string \<Rightarrow> string option \<Rightarrow> string option \<Rightarrow> 'a machine_scheme \<Rightarrow> 'a text_res" where
  "cli_text sh args err buf m =
     cbind (sprintf_c command_size (cli args)) (\<lambda>cmd.
       let ((num, buf_str), m') = rj_execstring sh cmd m
       in if num \<le> 0
          then cbind (case err of None \<Rightarrow> Inr buf | Some e \<Rightarrow> put_text buf e) (\<lambda>b. Inr ((code COMMAND_FAIL, b), m'))
          else cbind (copy_out buf buf_str) (\<lambda>b. Inr ((code RIGHT_RESULT, b), m')))"

definition cli_int :: "shell \<Rightarrow> string \<Rightarrow> 'a machine_scheme \<Rightarrow> 'a int_res" where
  "cli_int sh args m =
     cbind (sprintf_c command_size (cli args)) (\<lambda>cmd.
       let ((num, buf_str), m') = rj_execstring sh cmd m
       in Inr (if num \<le> 0 then code COMMAND_FAIL else atoi buf_str, m'))"

definition cli_do :: "shell \<Rightarrow> string \<Rightarrow> 'a machine_scheme \<Rightarrow> 'a int_res" where
  "cli_do sh args m =
     cbind (sprintf_c command_size (cli args)) (\<lambda>cmd.
       let ((num, _), m') = rj_execstring sh cmd m
       in Inr (if num \<le> 0 then code COMMAND_FAIL else code RIGHT_RESULT, m'))"

subsection \<open>Wired network\<close>

definition DHCP :: int where "DHCP = 0"
definition STATIC :: int where "STATIC = 1"

text \<open>\<open>lstat\<close>: None when the file is missing, else whether it is a symbolic link.\<close>

definition getDnsMode :: "(string \<Rightarrow> bool option) \<Rightarrow> int" where
  "getDnsMode lstat =
     (case lstat ''/etc/resolv.conf'' of
        None \<Rightarrow> code ACQUIRE_FAIL | Some islnk \<Rightarrow> if islnk then DHCP else STATIC)"

definition getWiredMac :: "shell \<Rightarrow> string option \<Rightarrow> 'a machine_scheme \<Rightarrow> 'a text_res" where
  "getWiredMac sh buf m = init_str m buf (cli_text sh ''-g wiredmac'' None buf m)"

definition getNetStatus_block :: "shell \<Rightarrow> 'a machine_scheme \<Rightarrow> 'a int_res" where
  "getNetStatus_block sh m = init_int m (cli_int sh ''-g netstatus'' m)"

definition getIPInfo_block :: "shell \<Rightarrow> string option \<Rightarrow> 'a machine_scheme \<Rightarrow> 'a text_res" where
  "getIPInfo_block sh buf m = init_str m buf (cli_text sh ''-g ipinfo'' None buf m)"

definition getIPOnly :: "shell \<Rightarrow> int \<Rightarrow> string option \<Rightarrow> 'a machine_scheme \<Rightarrow> 'a text_res" where
  "getIPOnly sh type buf m =
     init_str m buf
       (if type = 0
        then let ((num, _), m1) = rj_execstring sh ''ifconfig -a | grep br0'' m
             in if num \<le> 0 then acquireIPOnly sh ''eth0'' buf m1 else acquireIPOnly sh ''br0'' buf m1
        else if type = 1 then acquireIPOnly sh ''wlan0'' buf m
        else Inr ((code NOT_CARE, buf), m))"

definition checkPingIp_block :: "shell \<Rightarrow> string option \<Rightarrow> string option \<Rightarrow> 'a machine_scheme \<Rightarrow> 'a text_res" where
  "checkPingIp_block sh ip buf m =
     init_str m buf (para_str m ip buf (\<lambda>tmp_ip. cli_text sh (''-c ping -d '' @ quoted tmp_ip) None buf m))"

definition getCurCardSpeed :: "shell \<Rightarrow> string option \<Rightarrow> 'a machine_scheme \<Rightarrow> 'a text_res" where
  "getCurCardSpeed sh buf m = init_str m buf (cli_text sh ''-g curspeed'' None buf m)"

definition getMaxCardSpeed :: "shell \<Rightarrow> 'a machine_scheme \<Rightarrow> 'a int_res" where
  "getMaxCardSpeed sh m = init_int m (cli_int sh ''-g speedmaxwired'' m)"

definition getOptionServerIp :: "shell \<Rightarrow> int \<Rightarrow> string option \<Rightarrow> 'a machine_scheme \<Rightarrow> 'a text_res" where
  "getOptionServerIp sh type buf m = init_str m buf (cli_text sh (''-g option43 -d '' @ show_int type) None buf m)"

definition checkIpConflict_block :: "shell \<Rightarrow> string option \<Rightarrow> string option \<Rightarrow> 'a machine_scheme \<Rightarrow> 'a text_res" where
  "checkIpConflict_block sh ip_addr buf m =
     init_str m buf (para_str m ip_addr buf (\<lambda>tmp_str. cli_text sh (''-c ipconflict -d '' @ tmp_str) None buf m))"

definition setDns_block :: "shell \<Rightarrow> string option \<Rightarrow> string option \<Rightarrow> 'a machine_scheme \<Rightarrow> 'a text_res" where
  "setDns_block sh info buf m =
     init_str m buf (para_str m info buf (\<lambda>tmp_str. cli_text sh (''-s dns -d '' @ quoted tmp_str) None buf m))"

definition setIP_block :: "shell \<Rightarrow> string option \<Rightarrow> string option \<Rightarrow> 'a machine_scheme \<Rightarrow> 'a text_res" where
  "setIP_block sh info buf m =
     init_str m buf (para_str m info buf (\<lambda>tmp_str. cli_text sh (''-s ip -d '' @ quoted tmp_str) None buf m))"

subsection \<open>Transfers\<close>

definition ftp_url :: "ftpInfo \<Rightarrow> string" where
  "ftp_url info =
     ''ftp://'' @ (if username info = [] \<and> password info = [] then [] else username info @ '':'' @ password info @ ''@'')
     @ serverIp info @ '':'' @ show_int (port info) @ ''/'' @ remoteFileName info @ '' >/dev/null 2>&1''"

definition curl_cmd :: "string \<Rightarrow> ftpInfo \<Rightarrow> string" where
  "curl_cmd opt info =
     ''curl -m '' @ show_int (ftp_timeout info) @ '' '' @ opt @ '' '' @ localFileName info @ '' '' @ ftp_url info"

text \<open>After a timeout of \<^verbatim>\<open>curl\<close>, whether the server answers a ping.\<close>

definition ping_ok :: "shell \<Rightarrow> ftpInfo \<Rightarrow> 'a machine_scheme \<Rightarrow> (bool \<times> 'a machine_scheme) cres" where
  "ping_ok sh info m =
     cbind (sprintf_c command_size (''ping -c 1 -W 1 -w 1 '' @ serverIp info @ '' | grep '0 received'' @ quote)) (\<lambda>cmd.
       let ((num, _), m') = rj_execstring sh cmd m in Inr (num \<le> 0, m'))"

definition startFtpUpload_block :: "platform \<Rightarrow> shell \<Rightarrow> string option \<Rightarrow> 'a machine_scheme \<Rightarrow> 'a int_res" where
  "startFtpUpload_block P sh uploadInfo m =
     init_int m (para_int m uploadInfo (\<lambda>data.
       cbind (parseFtpInfo P (heap m) data) (\<lambda>r. case r of
         None \<Rightarrow> Inr (code JSON_FAIL, m)
       | Some info \<Rightarrow>
           cbind (sprintf_c command_size (curl_cmd ''-T'' info)) (\<lambda>cmd.
             let (ret, m1) = rj_system sh cmd m
             in if ret = 0 then Inr (code RIGHT_RESULT, m1)
                else if ret = 28
                then cbind (ping_ok sh info m1) (\<lambda>(ok, m2).
                       Inr (if ok then code RIGHT_RESULT else code COMMAND_FAIL, m2))
                else Inr (code COMMAND_FAIL, m1)))))"

definition startFtpDownload_block ::
  "platform \<Rightarrow> shell \<Rightarrow> string option \<Rightarrow> string option \<Rightarrow> 'a machine_scheme \<Rightarrow> 'a text_res" where
  "startFtpDownload_block P sh downloadInfo buf m =
     init_str m buf (para_str m downloadInfo buf (\<lambda>data.
       cbind (parseFtpInfo P (heap m) data) (\<lambda>r. case r of
         None \<Rightarrow> cbind (put_text buf (ERROR_CODE ! 4)) (\<lambda>b. Inr ((code JSON_FAIL, b), m))
       | Some info \<Rightarrow>
           cbind (sprintf_c command_size (curl_cmd ''-o'' info)) (\<lambda>cmd.
             let (ret, m1) = rj_system sh cmd m;
                 failed = (\<lambda>m. cbind (put_text buf (ERROR_CODE ! 2)) (\<lambda>b. Inr ((code COMMAND_FAIL, b), m)))
             in if ret = 28
                then cbind (ping_ok sh info m1) (\<lambda>(ok, m2).
                       if ok then Inr ((code RIGHT_RESULT, buf), m2) else failed m2)
                else if ret \<noteq> 0 then failed m1
                else if file_exists (localFileName info) m1
                then cbind (sprintf_c command_size (''du -h '' @ localFileName info @ '' | awk '{print $1}'' @ quote)) (\<lambda>cmd2.
                       let ((num, s), m2) = rj_execstring sh cmd2 m1
                       in if num < 0 then failed m2
                          else cbind (copy_out buf s) (\<lambda>b. Inr ((code RIGHT_RESULT, b), m2)))
                else Inr ((code RIGHT_RESULT, buf), m1)))))"

subsection \<open>Wireless network\<close>

text \<open>For another type of card the command line is never written.\<close>

definition getNetCardStatus :: "shell \<Rightarrow> int \<Rightarrow> 'a machine_scheme \<Rightarrow> 'a int_res" where
  "getNetCardStatus sh card_type m =
     init_int m (if card_type = 0 then cli_int sh ''-g wiredcard'' m
                 else if card_type = 1 then cli_int sh ''-g wirelesscard'' m
                 else Inl Uninitialised)"

definition getWifiStatus_block :: "shell \<Rightarrow> 'a machine_scheme \<Rightarrow> 'a int_res" where
  "getWifiStatus_block sh m = init_int m (cli_int sh ''-a wifimanager -g wifistatus'' m)"

definition getWifiSavedList_block :: "shell \<Rightarrow> string option \<Rightarrow> 'a machine_scheme \<Rightarrow> 'a text_res" where
  "getWifiSavedList_block sh buf m =
     init_str m buf (cli_text sh ''-a wifimanager -a wifisavelist'' (Some (ERROR_CODE ! 2)) buf m)"

definition getScanResult_block :: "shell \<Rightarrow> string option \<Rightarrow> 'a machine_scheme \<Rightarrow> 'a text_res" where
  "getScanResult_block sh buf m =
     init_str m buf (cli_text sh ''-a wifimanager -g scanresults'' (Some (ERROR_CODE ! 2)) buf m)"

definition getWifiInfo_block :: "shell \<Rightarrow> string option \<Rightarrow> 'a machine_scheme \<Rightarrow> 'a text_res" where
  "getWifiInfo_block sh buf m =
     init_str m buf (cli_text sh ''-a wifimanager -g wifiinfo'' (Some (ERROR_CODE ! 2)) buf m)"

definition getWhiteList_block :: "shell \<Rightarrow> string option \<Rightarrow> 'a machine_scheme \<Rightarrow> 'a text_res" where
  "getWhiteList_block sh buf m =
     init_str m buf (cli_text sh ''-a wifimanager -g whitelist'' (Some (ERROR_CODE ! 2)) buf m)"

definition show_bool :: "bool \<Rightarrow> string" where
  "show_bool b = (if b then ''1'' else ''0'')"

definition setNetCard :: "shell \<Rightarrow> int \<Rightarrow> bool \<Rightarrow> 'a machine_scheme \<Rightarrow> 'a int_res" where
  "setNetCard sh card_type disable m =
     init_int m (if card_type = 0 then cli_do sh (''-s wiredcardstatus -d '' @ show_bool disable) m
                 else if card_type = 1 then cli_do sh (''-a wifimanager -s wirelesscardstatus -d '' @ show_bool disable) m
                 else Inl Uninitialised)"

definition setForceScan_block :: "shell \<Rightarrow> string option \<Rightarrow> 'a machine_scheme \<Rightarrow> 'a text_res" where
  "setForceScan_block sh buf m =
     init_str m buf (cli_text sh ''-a wifimanager -s scan'' (Some (ERROR_CODE ! 2)) buf m)"

definition setConnectInfo_block :: "shell \<Rightarrow> string option \<Rightarrow> 'a machine_scheme \<Rightarrow> 'a int_res" where
  "setConnectInfo_block sh info m =
     init_int m (para_int m info (\<lambda>tmp_str. cli_do sh (''-a wifimanager -s connectinfo -d '' @ quoted tmp_str) m))"

definition setConnectId_block :: "shell \<Rightarrow> int \<Rightarrow> 'a machine_scheme \<Rightarrow> 'a int_res" where
  "setConnectId_block sh net_id m = init_int m (cli_do sh (''-a wifimanager -s connectid -d '' @ show_int net_id) m)"

definition setForgetId_block :: "shell \<Rightarrow> int \<Rightarrow> 'a machine_scheme \<Rightarrow> 'a int_res" where
  "setForgetId_block sh net_id m = init_int m (cli_do sh (''-a wifimanager -s forget -d '' @ show_int net_id) m)"

definition setDisconnect_block :: "shell \<Rightarrow> 'a machine_scheme \<Rightarrow> 'a int_res" where
  "setDisconnect_block sh m = init_int m (cli_do sh ''-a wifimanager -s disconnect'' m)"

definition setWhiteList_block :: "shell \<Rightarrow> string option \<Rightarrow> 'a machine_scheme \<Rightarrow> 'a int_res" where
  "setWhiteList_block sh info m =
     init_int m (para_int m info (\<lambda>tmp_str. cli_do sh (''-a wifimanager -s whitelist -d '' @ quoted tmp_str) m))"

definition checkWifiTerminal_block :: "shell \<Rightarrow> 'a machine_scheme \<Rightarrow> 'a int_res" where
  "checkWifiTerminal_block sh m = init_int m (cli_int sh ''-c wifiterminal'' m)"

definition checkWifiSaved_block :: "shell \<Rightarrow> string option \<Rightarrow> 'a machine_scheme \<Rightarrow> 'a int_res" where
  "checkWifiSaved_block sh info m =
     init_int m (para_int m info (\<lambda>i. cli_int sh (''-a wifimanager -c wifisaved -d '' @ quoted i) m))"

subsection \<open>What a caller gets\<close>

lemma exec_chunks_text:
  "NUL \<notin> set out \<Longrightarrow> snd (exec_chunks out) = out \<and> (fst (exec_chunks out) = 0 \<longleftrightarrow> out = [])"
proof (induction out rule: exec_chunks.induct)
  case (1 out)
  show ?case
  proof (cases "fgets 1024 out")
    case None
    then have "out = []" by (auto simp: fgets_def split: if_splits prod.splits)
    then show ?thesis by (simp add: exec_chunks.simps fgets_def)
  next
    case (Some x)
    obtain l rest where x: "x = (l, rest)" by (cases x)
    have sp: "out = l @ rest" "out \<noteq> []"
      using Some x fgets_take_append [of 1023 out l rest] by (auto simp: fgets_def split: if_splits prod.splits)
    with 1 Some x have "snd (exec_chunks rest) = rest" by auto
    moreover have "c_str l = l" using sp(1) "1.prems" by (intro c_str_id) auto
    ultimately show ?thesis using sp by (simp add: exec_chunks.simps [of "l @ rest"] Some [unfolded sp(1)] x split_beta)
  qed
qed

lemma rj_execstring_text:
  assumes "sh cmd [] (files m) = Some (out, st, fs)" "NUL \<notin> set out" "cmd \<noteq> []"
  shows "\<exists>n. rj_execstring sh cmd m = ((n, out), m\<lparr>files := fs, runs := runs m @ [cmd]\<rparr>) \<and> (n \<le> 0 \<longleftrightarrow> out = [])"
  using assms exec_chunks_text [OF assms(2)]
  by (cases "exec_chunks out") (auto simp: rj_execstring_def popen_def)

lemma copy_out_Some:
  "copy_out (Some b) s = Inr (Some (take (length b) s @ drop (length s) b))"
proof -
  have "take (min (length b) (length s)) s = take (length b) s" "drop (min (length s) (length b)) b = drop (length s) b"
    by (auto simp: min_def)
  then show ?thesis by (simp add: copy_out_def strncpy_to_def put_at_def)
qed

text \<open>
  The text functions do not terminate what they return: after a success the buffer
  reads as the output followed by whatever the buffer held behind it, and when the
  output fills the buffer there is no final NUL in it at all.
\<close>

theorem ip_info_unterminated:
  assumes "g_isinit m" "sh (cli ''-g ipinfo'') [] (files m) = Some (out, st, fs)" "out \<noteq> []" "NUL \<notin> set out"
  shows "\<exists>b'. getIPInfo_block sh (Some b) m = Inr ((0, Some b'), m\<lparr>files := fs, runs := runs m @ [cli ''-g ipinfo'']\<rparr>)
    \<and> length b' = length b
    \<and> (length out < length b \<longrightarrow> c_str b' = out @ c_str (drop (length out) b))
    \<and> (length b \<le> length out \<longrightarrow> NUL \<notin> set b')"
proof -
  let ?cmd = "cli ''-g ipinfo''" and ?b = "take (length b) out @ drop (length out) b"
  have c: "sprintf_c command_size ?cmd = Inr ?cmd" by code_simp
  from rj_execstring_text [of sh ?cmd m out st fs] assms(2-4) obtain n where
    "rj_execstring sh ?cmd m = ((n, out), m\<lparr>files := fs, runs := runs m @ [?cmd]\<rparr>)" "0 < n"
    by (auto simp: cli_def not_le)
  then have eq: "getIPInfo_block sh (Some b) m = Inr ((0, Some ?b), m\<lparr>files := fs, runs := runs m @ [?cmd]\<rparr>)"
    using assms(1) by (simp add: getIPInfo_block_def cli_text_def c copy_out_Some)
  moreover have "c_str ?b = out @ c_str (drop (length out) b)" if "length out < length b"
    using that assms(4) by (simp add: c_str_def) (subst takeWhile_append2, auto)
  ultimately show ?thesis using assms(4) by (intro exI [of _ ?b]) (auto dest: in_set_takeD)
qed

theorem ip_info_unterminated_witness:
  "\<exists>b'. getIPInfo_block (\<lambda>_ _ fs. Some (''10.0.0.7'', 0, fs)) (Some (replicate 15 (CHR ''z'') @ [NUL])) ex_machine
      = Inr ((0, Some b'), ex_machine\<lparr>runs := [cli ''-g ipinfo'']\<rparr>) \<and> c_str b' = ''10.0.0.7zzzzzzz''"
  using ip_info_unterminated [of ex_machine "\<lambda>_ _ fs. Some (''10.0.0.7'', 0, fs)" "''10.0.0.7''" 0
      "files ex_machine" "replicate 15 (CHR ''z'') @ [NUL]"]
  by (auto simp: ex_machine_def NUL_def c_str_def eval_nat_numeral)

subsection \<open>Transfers described in JSON\<close>

definition ftp_fields :: "ftpInfo \<Rightarrow> (string \<times> field) list" where
  "ftp_fields r =
     [(''serverIp'', FString (serverIp r)), (''port'', FInt (port r)), (''username'', FString (username r)),
      (''password'', FString (password r)), (''localFileName'', FString (localFileName r)),
      (''remoteFileName'', FString (remoteFileName r)), (''timeout'', FInt (ftp_timeout r))]"

lemma parseFtpInfo_text:
  assumes "fields_ok (ftp_fields r)" "no_fail mem" "pow10 P (Fin 0) = Fin 1" "length (text_of (ftp_fields r)) \<le> int_max"
  shows "parseFtpInfo P mem (text_of (ftp_fields r)) = Inr (Some r)"
proof -
  have ne: "ftp_fields r \<noteq> []" by (simp add: ftp_fields_def)
  have keys: "list_all (\<lambda>k. NUL \<notin> set k)
      [''serverIp'', ''username'', ''password'', ''localFileName'', ''remoteFileName'', ''port'', ''timeout'']"
    by code_simp
  note g = rc_json_get_text [OF assms(1) ne assms(2-4)]
  have look: "field_lookup (ftp_fields r) ''serverIp'' = Some (FString (serverIp r))"
    "field_lookup (ftp_fields r) ''username'' = Some (FString (username r))"
    "field_lookup (ftp_fields r) ''password'' = Some (FString (password r))"
    "field_lookup (ftp_fields r) ''localFileName'' = Some (FString (localFileName r))"
    "field_lookup (ftp_fields r) ''remoteFileName'' = Some (FString (remoteFileName r))"
    "field_lookup (ftp_fields r) ''port'' = Some (FInt (port r))"
    "field_lookup (ftp_fields r) ''timeout'' = Some (FInt (ftp_timeout r))"
    by (simp_all add: ftp_fields_def tolower_def)
  have "text_of (ftp_fields r) \<noteq> []"
    using json_text_length [OF printable_obj_of [OF assms(1)], of 0 False] ne by (auto simp: text_of_def)
  with keys g look show ?thesis by (simp add: parseFtpInfo_def)
qed

text \<open>
  An upload described by a JSON text that \<^verbatim>\<open>rc_json_add_string\<close> and \<^verbatim>\<open>rc_json_add_int\<close>
  built runs \<^verbatim>\<open>curl\<close> once, with exactly these file names, server, port, account and time
  limit, when the command fits the array of 512 bytes; a longer one overflows it.
\<close>

theorem ftp_upload_command:
  assumes "fields_ok (ftp_fields r)" "no_fail mem" "no_fail (heap m)" "pow10 P (Fin 0) = Fin 1" "g_isinit m"
    and "\<not> huge (text_of (ftp_fields r))" and "sh (curl_cmd ''-T'' r) [] (files m) = Some (out, 0, fs)"
  shows "\<exists>json mem'. add_fields P mem [] (ftp_fields r) = Inr (json, mem')
    \<and> startFtpUpload_block P sh (Some json) m =
       (if length (curl_cmd ''-T'' r) < 512
        then Inr (0, m\<lparr>files := fs, runs := runs m @ [curl_cmd ''-T'' r]\<rparr>) else Inl BufOverflow)"
proof (cases rule: add_fields_cases [OF assms(1,2,4)])
  case (1 mem')
  have "text_of (ftp_fields r) \<noteq> []"
    using json_text_length [OF printable_obj_of [OF assms(1)], of 0 False] by (auto simp: text_of_def ftp_fields_def)
  then have "startFtpUpload_block P sh (Some (text_of (ftp_fields r))) m =
      (if length (curl_cmd ''-T'' r) < 512
       then Inr (0, m\<lparr>files := fs, runs := runs m @ [curl_cmd ''-T'' r]\<rparr>) else Inl BufOverflow)"
    using parseFtpInfo_text [OF assms(1,3,4) 1(3)] assms(5,7)
    by (simp add: startFtpUpload_block_def sprintf_c_def command_size_def rj_system_run)
  with 1(1) show ?thesis by blast
qed (use assms(6) in blast)

definition ex_ftp :: ftpInfo where
  "ex_ftp = \<lparr>serverIp = ''10.0.0.1'', port = 21, username = [], password = [], localFileName = ''/tmp/log.tar'',
     remoteFileName = ''log.tar'', ftp_timeout = 30\<rparr>"

theorem ftp_upload_command_witness:
  "\<exists>json mem'. add_fields ex_platform [] [] (ftp_fields ex_ftp) = Inr (json, mem')
    \<and> startFtpUpload_block ex_platform (\<lambda>_ _ fs. Some ([], 0, fs)) (Some json) ex_machine =
        Inr (0, ex_machine\<lparr>runs := [''curl -m 30 -T /tmp/log.tar ftp://10.0.0.1:21/log.tar >/dev/null 2>&1'']\<rparr>)"
proof -
  have f: "fields_ok (ftp_fields ex_ftp)" by code_simp
  have c: "curl_cmd ''-T'' ex_ftp = ''curl -m 30 -T /tmp/log.tar ftp://10.0.0.1:21/log.tar >/dev/null 2>&1''"
    by code_simp
  have "length (text_of (ftp_fields ex_ftp)) < 1000" by code_simp
  then have "\<not> huge (text_of (ftp_fields ex_ftp))" by (simp add: huge_def)
  moreover have "pow10 ex_platform (Fin 0) = Fin 1" by (simp add: ex_platform_def)
  ultimately show ?thesis
    using ftp_upload_command [OF f, of "[]" ex_machine ex_platform "\<lambda>_ _ fs. Some ([], 0, fs)" "[]" "files ex_machine"]
    by (simp add: c) (simp add: ex_machine_def)
qed

end
