(* ===== verification/RjMath.thy ===== *)
theory RjMath
  imports CFloat
begin

text \<open>
  \<^verbatim>\<open>include/rj_math.h\<close>: the templates of \<^verbatim>\<open>math_util\<close> at the types the library uses
  them with. \<^verbatim>\<open>percentage_to_value\<close> computes with \<^verbatim>\<open>int\<close> and \<^verbatim>\<open>float\<close>; its result is
  shown to be the percentage of the range rounded to the nearest integer, for
  ranges up to 65536 (the volume of PulseAudio, and the brightness levels of
  the backlight driver).
\<close>

definition cap :: "int \<Rightarrow> int \<Rightarrow> int \<Rightarrow> int" where
  "cap v min_value max_value =
     (let v1 = (if v < max_value then v else max_value)
      in if v1 > min_value then v1 else min_value)"

fun f_div :: "double \<Rightarrow> double \<Rightarrow> double" where
  "f_div (Fin x) (Fin y) = (if y = 0 then (if x = 0 then NaN else Inf (x < 0)) else rnd_f (x / y))"
| "f_div (Fin x) (Inf s) = Fin 0"
| "f_div (Inf s) (Fin y) = Inf (s \<noteq> (y < 0))"
| "f_div _ _ = NaN"

fun f_add :: "double \<Rightarrow> double \<Rightarrow> double" where
  "f_add (Fin x) (Fin y) = rnd_f (x + y)"
| "f_add (Fin x) (Inf s) = Inf s"
| "f_add (Inf s) (Fin y) = Inf s"
| "f_add (Inf s) (Inf t) = (if s = t then Inf s else NaN)"
| "f_add _ _ = NaN"

fun f_mul :: "double \<Rightarrow> double \<Rightarrow> double" where
  "f_mul (Fin x) (Fin y) = rnd_f (x * y)"
| "f_mul NaN _ = NaN"
| "f_mul _ NaN = NaN"
| "f_mul x y = (if x = Fin 0 \<or> y = Fin 0 then NaN else Inf (d_neg_sign x \<noteq> d_neg_sign y))"

definition cint :: "int \<Rightarrow> int cres" where
  "cint i = (if is_int32 i then Inr i else Inl IntOverflow)"

text \<open>\<^verbatim>\<open>percentage * range / 100.0f + 0.5f\<close> converted to \<^verbatim>\<open>int\<close>, for an integer product.\<close>

definition scaled :: "int \<Rightarrow> int" where
  "scaled pr = d_to_int (f_add (f_div (rnd_f (of_int pr)) (Fin 100)) (Fin (1 / 2)))"

text \<open>\<^verbatim>\<open>percentage_to_value<int>\<close>: the differences and products are those of \<^verbatim>\<open>int\<close>.\<close>

definition percentage_to_value :: "int \<Rightarrow> int \<Rightarrow> int \<Rightarrow> int cres" where
  "percentage_to_value percentage min_value max_value =
     cbind (cint (max_value - min_value)) (\<lambda>range.
     cbind (cint (percentage * range)) (\<lambda>pr.
     cint (cap (scaled pr) 0 range + min_value)))"

text \<open>
  \<^verbatim>\<open>percentage_to_value<pa_volume_t>\<close>: the operands are 32-bit unsigned and wrap
  around, the capped value is an \<^verbatim>\<open>int\<close>.
\<close>

definition percentage_to_value_u32 :: "32 word \<Rightarrow> 32 word \<Rightarrow> 32 word \<Rightarrow> int" where
  "percentage_to_value_u32 percentage min_value max_value =
     (let range = max_value - min_value
      in to_int32 (uint (word_of_int (cap (scaled (uint (percentage * range))) 0 (to_int32 (uint range)))
           + min_value)))"

subsection \<open>Rounding to binary32\<close>

lemma ilog2_le:
  assumes "0 < x"
  shows "2 powi (ilog2 x) \<le> x"
proof -
  obtain p q where pq: "quotient_of x = (p, q)" by fastforce
  have q: "0 < q" and x: "x = of_int p / of_int q"
    using quotient_of_denom_pos [OF pq] quotient_of_div [OF pq] by auto
  with assms have p: "0 < p" by (simp add: zero_less_divide_iff)
  define k where "k = bitlen p - bitlen q"
  have bl: "1 \<le> bitlen r" if "0 < r" for r :: int
  proof (rule ccontr)
    assume "\<not> 1 \<le> bitlen r"
    then have "nat (bitlen r) = 0" by simp
    with bitlen_bounds [OF that] that show False by simp
  qed
  have "of_int (2 ^ nat (bitlen p - 1)) \<le> (of_int p :: rat)" and "of_int q < (of_int (2 ^ nat (bitlen q)) :: rat)"
    using bitlen_bounds [OF p] bitlen_bounds [OF q] by (simp_all only: of_int_le_iff of_int_less_iff)
  then have bp: "(2 :: rat) powi (bitlen p - 1) \<le> of_int p" and bq: "of_int q < (2 :: rat) powi (bitlen q)"
    using bl [OF p] bl [OF q] by (simp_all add: power_int_def)
  have "(2 :: rat) powi (k - 1) = 2 powi (bitlen p - 1) / 2 powi (bitlen q)"
    by (simp add: k_def algebra_simps flip: power_int_diff)
  also have "\<dots> \<le> x"
    unfolding x using bp bq q p by (intro frac_le) auto
  finally show ?thesis by (simp add: ilog2_def Let_def pq k_def)
qed

text \<open>
  Below two to the power 17 the unit of binary32 is at most 1/128: rounding
  moves a value by at most 1/256 and does not cross a multiple of 1/2.
\<close>

lemma rnd_f_small:
  assumes "0 < x" and "x < 2 ^ 17"
  obtains k :: nat where "7 \<le> k" and "rnd_f x = Fin (of_int (round_even (x * 2 ^ k)) / 2 ^ k)"
proof -
  define e where "e = max (ilog2 x - 23) (- 149)"
  have "ilog2 x < 17"
  proof (rule ccontr)
    assume "\<not> ilog2 x < 17"
    then have "(2 :: rat) powi 17 \<le> 2 powi (ilog2 x)" by (intro power_int_increasing) auto
    with ilog2_le [OF assms(1)] assms(2) show False by simp
  qed
  then have e: "e \<le> - 7" by (simp add: e_def)
  define k where "k = nat (- e)"
  have "(2 :: rat) powi e = inverse 2 ^ k" using e by (simp add: k_def power_int_def)
  then have u: "(2 :: rat) powi e = 1 / 2 ^ k" by (metis inverse_eq_divide power_one_over)
  have k: "7 \<le> k" using e by (simp add: k_def)
  define r where "r = round_even (x * 2 ^ k)"
  have fl: "\<lfloor>x * 2 ^ k\<rfloor> \<le> r" "r \<le> \<lfloor>x * 2 ^ k\<rfloor> + 1" by (auto simp: r_def round_even_def Let_def)
  have "0 \<le> r" using fl(1) assms(1) by (meson order_trans zero_le_floor zero_le_mult_iff less_imp_le zero_le_power zero_le_numeral)
  moreover have "of_int r \<le> x * 2 ^ k + (1 :: rat)" using fl(2) by linarith
  then have "of_int r / 2 ^ k \<le> x + 1 / (2 ^ k :: rat)" by (simp add: field_simps)
  moreover have "1 / (2 :: rat) ^ k \<le> 1" by simp
  ultimately have "0 \<le> of_int r / (2 :: rat) ^ k" and "of_int r / (2 :: rat) ^ k < 2 ^ 17 + 1"
    using assms(2) by (simp, linarith)
  then have "\<bar>of_int r / (2 :: rat) ^ k\<bar> < 2 ^ 128" by simp
  then have "rnd_f x = Fin (of_int r / 2 ^ k)"
    using assms(1) u by (simp add: rnd_to_def e_def [symmetric] r_def Let_def)
  with k that show thesis by (simp add: r_def)
qed

lemma round_even_err: "\<bar>of_int (round_even z) - z\<bar> \<le> 1 / 2"
proof -
  have "of_int \<lfloor>z\<rfloor> \<le> z" "z < of_int \<lfloor>z\<rfloor> + 1" by linarith+
  then show ?thesis by (auto simp: round_even_def Let_def abs_le_iff split: if_splits)
qed

lemma round_even_ge: "of_int i \<le> z \<Longrightarrow> i \<le> round_even z"
proof -
  assume "of_int i \<le> z"
  then have "i \<le> \<lfloor>z\<rfloor>" by (simp add: le_floor_iff)
  then show ?thesis by (auto simp: round_even_def Let_def)
qed

lemma rnd_f_near:
  assumes "0 < x" and "x < 2 ^ 17"
  obtains y where "rnd_f x = Fin y" and "y \<le> x + 1 / 256" and "\<And>i :: int. of_int i / 2 \<le> x \<Longrightarrow> of_int i / 2 \<le> y"
proof -
  obtain k :: nat where k: "7 \<le> k" and y: "rnd_f x = Fin (of_int (round_even (x * 2 ^ k)) / 2 ^ k)"
    using rnd_f_small [OF assms] .
  have "(2 :: rat) ^ 7 \<le> 2 ^ k" using k by (intro power_increasing) auto
  then have "1 / (2 ^ k :: rat) \<le> 1 / 128" by (intro divide_left_mono) auto
  moreover have "of_int (round_even (x * 2 ^ k)) \<le> x * 2 ^ k + 1 / 2"
    using round_even_err [of "x * 2 ^ k"] by linarith
  then have "of_int (round_even (x * 2 ^ k)) / 2 ^ k \<le> x + 1 / 2 * (1 / (2 ^ k :: rat))" by (simp add: field_simps)
  ultimately have "of_int (round_even (x * 2 ^ k)) / 2 ^ k \<le> x + 1 / 256" by linarith
  moreover have "of_int i / 2 \<le> of_int (round_even (x * 2 ^ k)) / (2 :: rat) ^ k" if "of_int i / 2 \<le> x" for i :: int
  proof -
    have k1: "(2 :: rat) ^ k = 2 * 2 ^ (k - 1)" using k by (cases k) auto
    have "of_int i / 2 * 2 ^ k \<le> x * 2 ^ k" using that by (intro mult_right_mono) auto
    then have "of_int (i * 2 ^ (k - 1)) \<le> x * 2 ^ k" using k1 by (simp add: field_simps)
    then have "i * 2 ^ (k - 1) \<le> round_even (x * 2 ^ k)" by (rule round_even_ge)
    then have "(of_int (i * 2 ^ (k - 1)) :: rat) \<le> of_int (round_even (x * 2 ^ k))" by (simp only: of_int_le_iff)
    then show ?thesis using k1 by (simp add: field_simps)
  qed
  ultimately show thesis using that [OF y] by blast
qed

subsection \<open>Percentages\<close>

text \<open>Adding one half and truncating rounds a value that is not too close to the next half.\<close>

lemma half_up:
  assumes "0 \<le> x" and "x \<le> 65536" and "of_int k - 1 / 2 \<le> x" and "x \<le> of_int k + 49 / 100"
  shows "d_to_int (f_add (rnd_f x) (Fin (1 / 2))) = k"
proof -
  obtain y1 where y1: "rnd_f x = Fin y1" "y1 \<le> x + 1 / 256" "\<And>i :: int. of_int i / 2 \<le> x \<Longrightarrow> of_int i / 2 \<le> y1"
  proof (cases "x = 0")
    case True
    then show thesis by (intro that [of 0]) (simp_all add: rnd_to_def)
  next
    case False
    then have "0 < x" "x < 2 ^ 17" using assms(1,2) by simp_all
    from rnd_f_near [OF this] that show thesis by blast
  qed
  have "0 < y1 + 1 / 2" "y1 + 1 / 2 < 2 ^ 17" using y1(2) y1(3) [of 0] assms(1,2) by simp_all
  then obtain y2 where y2: "rnd_f (y1 + 1 / 2) = Fin y2" "y2 \<le> y1 + 1 / 2 + 1 / 256"
      "\<And>i :: int. of_int i / 2 \<le> y1 + 1 / 2 \<Longrightarrow> of_int i / 2 \<le> y2"
    using rnd_f_near by blast
  have "of_int (2 * k - 1) / 2 \<le> y1" using assms(3) by (intro y1(3)) (simp add: field_simps)
  then have "of_int (2 * k) / 2 \<le> y2" by (intro y2(3)) (simp add: field_simps)
  then have lo: "of_int k \<le> y2" by simp
  have hi: "y2 < of_int k + 1" using y2(2) y1(2) assms(4) by linarith
  have "(of_int k :: rat) < 65537" "(- 1 :: rat) < of_int k" using assms by linarith+
  then have k: "0 \<le> k" "k \<le> 65536" by linarith+
  have "rat_trunc y2 = k" using lo hi k(1) by (auto simp: rat_trunc_def floor_eq_iff)
  moreover have "is_int32 k" using k by (simp add: is_int32_def)
  ultimately show ?thesis using y1(1) y2(1) by simp
qed

lemma scaled_round:
  assumes "0 \<le> pr" and "pr \<le> 6553600"
  shows "scaled pr = (pr + 50) div 100"
proof -
  define k where "k = (pr + 50) div 100"
  have "100 * k \<le> pr + 50" "pr + 50 \<le> 100 * k + 99" by (simp_all add: k_def)
  then have "100 * of_int k \<le> of_int pr + (50 :: rat)" "of_int pr + 50 \<le> 100 * of_int k + (99 :: rat)" by linarith+
  moreover have "(0 :: rat) \<le> of_int pr" "(of_int pr :: rat) \<le> 6553600" using assms by auto
  ultimately have "d_to_int (f_add (rnd_f (of_int pr / 100)) (Fin (1 / 2))) = k"
    by (intro half_up) (simp_all add: field_simps)
  moreover have "rnd_f (of_int pr) = Fin (of_int pr)" using assms by (intro rnd_f_int) auto
  ultimately show ?thesis by (simp add: scaled_def k_def)
qed

lemma div_round_le:
  assumes "0 \<le> p" and "p \<le> 100" and "0 \<le> (r :: int)"
  shows "(p * r + 50) div 100 \<le> r"
proof -
  have "p * r \<le> 100 * r" using assms by (intro mult_right_mono) auto
  then have "(p * r + 50) div 100 \<le> (100 * r + 50) div 100" by (intro zdiv_mono1) auto
  also have "\<dots> = r" by simp
  finally show ?thesis .
qed

text \<open>
  For a percentage between 0 and 100 and a range of at most 65536 steps,
  \<^verbatim>\<open>percentage_to_value\<close> is the percentage of the range rounded to the nearest
  integer, added to the lower bound: no arithmetic overflows, single
  precision loses nothing, and the result lies between the bounds.
\<close>

theorem percentage_to_value_round:
  assumes "0 \<le> p" and "p \<le> 100" and "lo \<le> hi" and "hi - lo \<le> 65536" and "0 \<le> lo" and "hi < 2 ^ 31"
  shows "percentage_to_value p lo hi = Inr (lo + (p * (hi - lo) + 50) div 100)
      \<and> lo \<le> lo + (p * (hi - lo) + 50) div 100 \<and> lo + (p * (hi - lo) + 50) div 100 \<le> hi"
proof -
  let ?r = "hi - lo" let ?v = "(p * ?r + 50) div 100"
  have pr: "0 \<le> p * ?r" using assms by simp
  have "p * ?r \<le> 100 * 65536" using assms by (intro mult_mono) auto
  then have pr2: "p * ?r \<le> 6553600" by simp
  have v: "0 \<le> ?v" "?v \<le> ?r" using pr div_round_le [of p ?r] assms by (simp_all add: pos_imp_zdiv_nonneg_iff)
  then have "cap (scaled (p * ?r)) 0 ?r = ?v"
    using scaled_round [OF pr pr2] by (auto simp: cap_def Let_def)
  moreover have "is_int32 ?r" "is_int32 (p * ?r)" "is_int32 (?v + lo)"
    using pr pr2 v assms by (auto simp: is_int32_def)
  ultimately show ?thesis using v by (simp add: percentage_to_value_def cint_def add.commute)
qed

theorem percentage_to_value_round_witness:
  "percentage_to_value 50 12 255 = Inr (12 + (50 * (255 - 12) + 50) div 100) \<and> (12 :: int) + (50 * (255 - 12) + 50) div 100 = 134"
  using percentage_to_value_round [of 50 12 255] by simp

end
