(* ===== verification/AudioCore.thy ===== *)
theory AudioCore
  imports RjMath RjUtils
begin

unbundle bit_operations_syntax

text \<open>
  \<^verbatim>\<open>control/audiocore.cpp\<close>, \<^verbatim>\<open>sink.cpp\<close>, \<^verbatim>\<open>source.cpp\<close>, \<^verbatim>\<open>sinkinput.cpp\<close>, \<^verbatim>\<open>sourceoutput.cpp\<close> and
  \<^verbatim>\<open>audio_manager.cpp\<close>: the sound devices PulseAudio reports, and the choice of the
  default device.

  PulseAudio is another program. What it reports arrives as arguments of the
  callbacks; what the library asks of it is recorded in \<open>reqs\<close>, in order.
  Whether it accepts a request (the operation returned is not NULL), and how
  it scales a volume over the channels, are the fields of the parameter \<open>pulse\<close>.
  A \<^verbatim>\<open>std::map\<close> with \<^verbatim>\<open>std::greater\<close> is the list of its entries in iteration order,
  with descending keys.
\<close>

subsection \<open>Ordered maps\<close>

fun mput :: "'k::linorder \<Rightarrow> 'v \<Rightarrow> ('k \<times> 'v) list \<Rightarrow> ('k \<times> 'v) list" where
  "mput k v [] = [(k, v)]"
| "mput k v ((k', v') # xs) =
     (if k = k' then (k, v) # xs
      else if k' < k then (k, v) # (k', v') # xs
      else (k', v') # mput k v xs)"

definition mdel :: "'k \<Rightarrow> ('k \<times> 'v) list \<Rightarrow> ('k \<times> 'v) list" where
  "mdel k xs = filter (\<lambda>e. fst e \<noteq> k) xs"

definition descending :: "('k::linorder \<times> 'v) list \<Rightarrow> bool" where
  "descending xs = sorted_wrt (>) (map fst xs)"

lemma mput_keys: "fst ` set (mput k v xs) = insert k (fst ` set xs)"
  by (induction k v xs rule: mput.induct) auto

lemma mput_descending: "descending xs \<Longrightarrow> descending (mput k v xs)"
proof (induction k v xs rule: mput.induct)
  case (2 k v k' v' xs)
  have "set (map fst (mput k v xs)) = insert k (set (map fst xs))" using mput_keys [of k v xs] by simp
  with 2 show ?case by (auto simp: descending_def simp del: set_map)
qed (simp add: descending_def)

lemma mput_set: "set (mput k v xs) \<subseteq> insert (k, v) (set xs)"
  by (induction k v xs rule: mput.induct) auto

lemma map_of_mput: "descending xs \<Longrightarrow> map_of (mput k v xs) = (map_of xs)(k \<mapsto> v)"
proof (induction k v xs rule: mput.induct)
  case (2 k v k' v' xs)
  then show ?case by (auto simp: descending_def fun_upd_twist fun_eq_iff)
qed simp

lemma mdel_descending: "descending xs \<Longrightarrow> descending (mdel k xs)"
  by (induction xs) (auto simp: descending_def mdel_def)

lemma map_of_mdel: "map_of (mdel k xs) = (map_of xs)(k := None)"
  by (induction xs) (auto simp: mdel_def fun_eq_iff)

subsection \<open>State\<close>

text \<open>The class \<^verbatim>\<open>Device\<close> with its subclasses \<^verbatim>\<open>Sink\<close> and \<^verbatim>\<open>Source\<close>.\<close>

record device =
  dev_name :: string
  dev_description :: string
  dev_index :: "32 word"
  dev_card :: "32 word"
  prio_type :: string

text \<open>The classes \<^verbatim>\<open>SinkInput\<close> and \<^verbatim>\<open>SourceOutput\<close>.\<close>

record stream =
  str_name :: string
  str_index :: "32 word"

datatype pa_req =
    SetDefaultSink string
  | SetDefaultSource string
  | MoveSinkInput "32 word" string
  | MoveSourceOutput "32 word" string
  | GetSinkInfo "32 word"
  | GetSourceInfo "32 word"
  | GetSinkInputInfo "32 word"
  | GetSourceOutputInfo "32 word"
  | GetServerInfo
  | GetSinkInfoByName string
  | GetSinkInfoList
  | GetSourceInfoList
  | GetSinkInputInfoList
  | GetSourceOutputInfoList
  | Subscribe
  | SetCardProfile "32 word" string
  | SetSinkVolume string "32 word list"
  | SetSourceVolume string "32 word list"
  | Connect
  | Disconnect
  | MainloopQuit

record pulse =
  pa_ok :: "pa_req \<Rightarrow> bool"
  cvolume_scale :: "32 word list \<Rightarrow> 32 word \<Rightarrow> 32 word list"
  cvolume_max :: "32 word list \<Rightarrow> 32 word"

record audio =
  sinks :: "(32 word \<times> device) list"
  sources :: "(32 word \<times> device) list"
  sinkInputs :: "(32 word \<times> stream) list"
  sourceOutputs :: "(32 word \<times> stream) list"
  defaultSinkName :: string
  defaultSourceName :: string
  innerCardName :: string
  innerCardIdx :: "32 word"
  termialType :: string
  pa_ctx :: bool
  sinkVol :: "32 word list"
  dev_volume :: "32 word list"
  bHDMI :: bool
  retry :: int
  mInited :: bool
  reqs :: "pa_req list"

text \<open>The constructor of \<^verbatim>\<open>AudioCore\<close>.\<close>

definition AudioCore_new :: audio where
  "AudioCore_new = \<lparr>sinks = [], sources = [], sinkInputs = [], sourceOutputs = [],
     defaultSinkName = [], defaultSourceName = [], innerCardName = [], innerCardIdx = 0,
     termialType = [], pa_ctx = False, sinkVol = [], dev_volume = [], bHDMI = False, retry = 3,
     mInited = False, reqs = []\<rparr>"

definition ask :: "pa_req list \<Rightarrow> audio \<Rightarrow> audio" where
  "ask rs a = a\<lparr>reqs := reqs a @ rs\<rparr>"

definition PA_VOLUME_MUTED :: "32 word" where "PA_VOLUME_MUTED = 0"
definition PA_VOLUME_NORM :: "32 word" where "PA_VOLUME_NORM = 0x10000"
definition PA_INVALID_INDEX :: "32 word" where "PA_INVALID_INDEX = 0xFFFFFFFF"
definition PA_SOURCE_HARDWARE :: "32 word" where "PA_SOURCE_HARDWARE = 4"

definition RJ_IDV_TYPE :: string where "RJ_IDV_TYPE = ''IDV''"
definition RJ_VDI_TYPE :: string where "RJ_VDI_TYPE = ''VDI''"
definition HDMI_PROFILE :: string where "HDMI_PROFILE = ''output:hdmi-stereo+input:analog-stereo''"
definition ANA_PROFILE :: string where "ANA_PROFILE = ''output:analog-stereo+input:analog-stereo''"

definition is_usb :: "device \<Rightarrow> bool" where
  "is_usb w \<longleftrightarrow> contains_sub ''USB'' (prio_type w) \<or> contains_sub ''usb'' (prio_type w)"

definition is_hdmi :: "device \<Rightarrow> bool" where
  "is_hdmi w \<longleftrightarrow> contains_sub ''HDMI'' (prio_type w) \<or> contains_sub ''hdmi'' (prio_type w)"

subsection \<open>The default device\<close>

text \<open>
  The loop of \<^verbatim>\<open>Sink::autoDefault\<close>; the results are \<^verbatim>\<open>def_name\<close>, \<^verbatim>\<open>hdmi_name\<close> and
  \<^verbatim>\<open>ana_name\<close>. In \<^verbatim>\<open>Source::autoDefault\<close> the branch of HDMI devices only continues,
  as it does for sinks with \<^verbatim>\<open>bHDMI\<close> false.
\<close>

fun pick_loop :: "bool \<Rightarrow> (32 word \<times> device) list \<Rightarrow> string \<Rightarrow> string \<Rightarrow> string \<times> string \<times> string" where
  "pick_loop hdmi [] hdmi_name ana_name = ([], hdmi_name, ana_name)"
| "pick_loop hdmi ((i, w) # ws) hdmi_name ana_name =
     (if is_usb w then (dev_name w, hdmi_name, ana_name)
      else if is_hdmi w then
        if \<not> hdmi then pick_loop hdmi ws hdmi_name ana_name
        else pick_loop hdmi ws (if hdmi_name = [] then dev_name w else hdmi_name) ana_name
      else pick_loop hdmi ws hdmi_name (if ana_name = [] then dev_name w else ana_name))"

definition pick :: "bool \<Rightarrow> (32 word \<times> device) list \<Rightarrow> string" where
  "pick hdmi ws =
     (case pick_loop hdmi ws [] [] of (def_name, hdmi_name, ana_name) \<Rightarrow>
        if def_name = [] then (if hdmi_name = [] then ana_name else hdmi_name) else def_name)"

definition sink_autoDefault :: "audio \<Rightarrow> audio" where
  "sink_autoDefault ac =
     (let def_name = pick (bHDMI ac) (sinks ac)
      in if def_name = [] then ac
         else if def_name = defaultSinkName ac then ac
         else ask (SetDefaultSink def_name
                     # map (\<lambda>(i, w). MoveSinkInput (str_index w) def_name) (sinkInputs ac))
                (ac\<lparr>defaultSinkName := def_name\<rparr>))"

definition source_autoDefault :: "audio \<Rightarrow> audio" where
  "source_autoDefault ac =
     (let def_name = pick False (sources ac)
      in if def_name = [] then ac
         else if def_name = defaultSourceName ac then ac
         else ask (SetDefaultSource def_name
                     # map (\<lambda>(i, w). MoveSourceOutput (str_index w) def_name) (sourceOutputs ac))
                (ac\<lparr>defaultSourceName := def_name\<rparr>))"

subsection \<open>What PulseAudio reports\<close>

record dev_info =
  i_index :: "32 word"
  i_card :: "32 word"
  i_name :: string
  i_description :: string
  alsa_name :: "string option"
  bus_path :: "string option"
  monitor_of_sink :: "32 word"
  i_flags :: "32 word"

record str_info =
  s_index :: "32 word"
  s_name :: string

record server_info =
  default_source_name :: "string option"
  default_sink_name :: "string option"

definition vdiBuiltInUsb :: string where
  "vdiBuiltInUsb = ''pci-0000:00:14.0-usb-0:3:1.0''"

text \<open>
  A new device: its \<^verbatim>\<open>prio_type\<close>, and the inner card if it is that. A property that is
  missing is a NULL pointer, which \<^verbatim>\<open>std::string\<close> does not accept.
\<close>

definition new_sink :: "dev_info \<Rightarrow> audio \<Rightarrow> (device \<times> audio) cres" where
  "new_sink info ac =
     (case alsa_name info of None \<Rightarrow> Inl NullDeref
      | Some nm \<Rightarrow>
          let w = \<lparr>dev_name = [], dev_description = [], dev_index = i_index info, dev_card = 0, prio_type = nm\<rparr>
          in if termialType ac = RJ_VDI_TYPE then
               if is_usb w then
                 (case bus_path info of None \<Rightarrow> Inl NullDeref
                  | Some bp \<Rightarrow>
                      if vdiBuiltInUsb = bp
                      then Inr (w\<lparr>prio_type := ''inner analog''\<rparr>,
                                ac\<lparr>innerCardIdx := i_card info, innerCardName := ''VDI inner USB''\<rparr>)
                      else Inr (w, ac))
               else Inr (w, ac)
             else if termialType ac = RJ_IDV_TYPE then
               if \<not> contains_sub ''USB'' nm \<or> \<not> contains_sub ''usb'' nm
               then Inr (w\<lparr>prio_type := ''inner analog''\<rparr>,
                         ac\<lparr>innerCardIdx := i_card info, innerCardName := ''IDV inner alc662''\<rparr>)
               else Inr (w, ac)
             else Inr (w, ac))"

definition set_device :: "dev_info \<Rightarrow> device \<Rightarrow> device" where
  "set_device info w = w\<lparr>dev_card := i_card info, dev_name := i_name info, dev_description := i_description info\<rparr>"

definition updateSink :: "dev_info \<Rightarrow> audio \<Rightarrow> audio cres" where
  "updateSink info ac =
     cbind (case map_of (sinks ac) (i_index info) of Some w \<Rightarrow> Inr (w, ac) | None \<Rightarrow> new_sink info ac) (\<lambda>(w, ac1).
       Inr (sink_autoDefault (ac1\<lparr>sinks := mput (i_index info) (set_device info w) (sinks ac1)\<rparr>)))"

definition new_source :: "dev_info \<Rightarrow> audio \<Rightarrow> device cres" where
  "new_source info ac =
     (case alsa_name info of None \<Rightarrow> Inl NullDeref
      | Some nm \<Rightarrow>
          let w = \<lparr>dev_name = [], dev_description = [], dev_index = i_index info, dev_card = 0, prio_type = nm\<rparr>
          in if termialType ac = RJ_VDI_TYPE \<and> is_usb w then
               (case bus_path info of None \<Rightarrow> Inl NullDeref
                | Some bp \<Rightarrow> Inr (if vdiBuiltInUsb = bp then w\<lparr>prio_type := ''inner analog''\<rparr> else w))
             else Inr w)"

definition updateSource :: "dev_info \<Rightarrow> audio \<Rightarrow> audio cres" where
  "updateSource info ac =
     cbind (case map_of (sources ac) (i_index info) of Some w \<Rightarrow> Inr w | None \<Rightarrow> new_source info ac) (\<lambda>w.
       Inr (source_autoDefault (ac\<lparr>sources := mput (i_index info) (set_device info w) (sources ac)\<rparr>)))"

definition updateSinkInput :: "str_info \<Rightarrow> audio \<Rightarrow> audio" where
  "updateSinkInput info ac =
     (case map_of (sinkInputs ac) (s_index info) of
        Some w \<Rightarrow> ask [MoveSinkInput (str_index w) (defaultSinkName ac)] ac
      | None \<Rightarrow>
          ask [MoveSinkInput (s_index info) (defaultSinkName ac)]
            (ac\<lparr>sinkInputs := mput (s_index info) \<lparr>str_name = s_name info, str_index = s_index info\<rparr> (sinkInputs ac)\<rparr>))"

definition updateSourceOutput :: "str_info \<Rightarrow> audio \<Rightarrow> audio" where
  "updateSourceOutput info ac =
     (case map_of (sourceOutputs ac) (s_index info) of
        Some w \<Rightarrow> ask [MoveSourceOutput (str_index w) (defaultSourceName ac)] ac
      | None \<Rightarrow>
          ask [MoveSourceOutput (s_index info) (defaultSourceName ac)]
            (ac\<lparr>sourceOutputs := mput (s_index info) \<lparr>str_name = s_name info, str_index = s_index info\<rparr> (sourceOutputs ac)\<rparr>))"

definition updateServer :: "server_info \<Rightarrow> audio \<Rightarrow> audio" where
  "updateServer info ac =
     ac\<lparr>defaultSourceName := (case default_source_name info of Some n \<Rightarrow> n | None \<Rightarrow> []),
        defaultSinkName := (case default_sink_name info of Some n \<Rightarrow> n | None \<Rightarrow> [])\<rparr>"

definition removeSink :: "32 word \<Rightarrow> audio \<Rightarrow> audio" where
  "removeSink index ac =
     (if map_of (sinks ac) index = None then ac else ac\<lparr>sinks := mdel index (sinks ac)\<rparr>)"

definition removeSource :: "32 word \<Rightarrow> audio \<Rightarrow> audio" where
  "removeSource index ac =
     (if map_of (sources ac) index = None then ac else ac\<lparr>sources := mdel index (sources ac)\<rparr>)"

definition removeSinkInput :: "32 word \<Rightarrow> audio \<Rightarrow> audio" where
  "removeSinkInput index ac =
     (if map_of (sinkInputs ac) index = None then ac else ac\<lparr>sinkInputs := mdel index (sinkInputs ac)\<rparr>)"

definition removeSourceOutput :: "32 word \<Rightarrow> audio \<Rightarrow> audio" where
  "removeSourceOutput index ac =
     (if map_of (sourceOutputs ac) index = None then ac else ac\<lparr>sourceOutputs := mdel index (sourceOutputs ac)\<rparr>)"

text \<open>
  \<^verbatim>\<open>removeAll\<close> advances an iterator after the entry it points to was erased:
  the iterator is dangling unless the entry is still there.
\<close>

fun erase_loop :: "('k \<Rightarrow> 's \<Rightarrow> 's) \<Rightarrow> ('s \<Rightarrow> ('k \<times> 'v) list) \<Rightarrow> ('k \<times> 'v) list \<Rightarrow> 's \<Rightarrow> 's cres" where
  "erase_loop remove entries [] s = Inr s"
| "erase_loop remove entries ((k, v) # it) s =
     (let s' = remove k s
      in if map_of (entries s') k = None then Inl UseAfterFree else erase_loop remove entries it s')"

definition removeAll :: "audio \<Rightarrow> audio cres" where
  "removeAll ac =
     cbind (erase_loop removeSinkInput sinkInputs (sinkInputs ac) ac) (\<lambda>ac1.
     cbind (erase_loop removeSourceOutput sourceOutputs (sourceOutputs ac1) ac1) (\<lambda>ac2.
     cbind (erase_loop removeSink sinks (sinks ac2) ac2) (\<lambda>ac3.
     erase_loop removeSource sources (sources ac3) ac3)))"

subsection \<open>Callbacks\<close>

text \<open>\<^verbatim>\<open>eol\<close> is negative for a failure and positive after the last item of a list.\<close>

definition sink_cb :: "dev_info \<Rightarrow> int \<Rightarrow> audio \<Rightarrow> audio cres" where
  "sink_cb i eol w = (if eol < 0 then Inr w else if eol > 0 then Inr w else updateSink i w)"

definition sink_input_cb :: "str_info \<Rightarrow> int \<Rightarrow> audio \<Rightarrow> audio cres" where
  "sink_input_cb i eol w = (if eol < 0 then Inr w else if eol > 0 then Inr w else Inr (updateSinkInput i w))"

definition source_output_cb :: "str_info \<Rightarrow> int \<Rightarrow> audio \<Rightarrow> audio cres" where
  "source_output_cb i eol w = (if eol < 0 then Inr w else if eol > 0 then Inr w else Inr (updateSourceOutput i w))"

definition source_cb :: "dev_info \<Rightarrow> int \<Rightarrow> audio \<Rightarrow> audio cres" where
  "source_cb i eol w =
     (if eol < 0 then Inr w
      else if eol > 0 then Inr w
      else if monitor_of_sink i \<noteq> PA_INVALID_INDEX \<or> i_flags i AND PA_SOURCE_HARDWARE = 0 then Inr w
      else updateSource i w)"

definition get_sink_volume_callback :: "32 word list \<Rightarrow> int \<Rightarrow> audio \<Rightarrow> audio cres" where
  "get_sink_volume_callback volume eol w =
     (if eol < 0 then Inr w else if eol > 0 then Inr w else Inr (w\<lparr>sinkVol := volume\<rparr>))"

definition updateSinkVolume :: "audio \<Rightarrow> audio" where
  "updateSinkVolume ac = ask [GetSinkInfoByName (defaultSinkName ac)] ac"

definition paStop :: "audio \<Rightarrow> bool \<times> audio" where
  "paStop ac = (True, if pa_ctx ac then ask [Disconnect, MainloopQuit] ac else ac)"

text \<open>The default names are searched before \<^verbatim>\<open>updateServer\<close> tests them for NULL.\<close>

definition server_info_cb :: "server_info option \<Rightarrow> audio \<Rightarrow> audio cres" where
  "server_info_cb i w =
     (case i of None \<Rightarrow> Inr w
      | Some info \<Rightarrow>
          (case default_source_name info of None \<Rightarrow> Inl NullDeref
           | Some src \<Rightarrow>
               if contains_sub ''auto_null'' src then Inr (snd (paStop w))
               else (case default_sink_name info of None \<Rightarrow> Inl NullDeref
                     | Some snk \<Rightarrow>
                         if contains_sub ''auto_null'' snk then Inr (snd (paStop w))
                         else Inr (updateSinkVolume (updateServer info w)))))"

definition PA_SUBSCRIPTION_EVENT_FACILITY_MASK :: "32 word" where
  "PA_SUBSCRIPTION_EVENT_FACILITY_MASK = 0xF"
definition PA_SUBSCRIPTION_EVENT_TYPE_MASK :: "32 word" where
  "PA_SUBSCRIPTION_EVENT_TYPE_MASK = 0x30"
definition PA_SUBSCRIPTION_EVENT_NEW :: "32 word" where "PA_SUBSCRIPTION_EVENT_NEW = 0"
definition PA_SUBSCRIPTION_EVENT_CHANGE :: "32 word" where "PA_SUBSCRIPTION_EVENT_CHANGE = 0x10"
definition PA_SUBSCRIPTION_EVENT_REMOVE :: "32 word" where "PA_SUBSCRIPTION_EVENT_REMOVE = 0x20"

definition subscribe_cb :: "32 word \<Rightarrow> 32 word \<Rightarrow> audio \<Rightarrow> audio" where
  "subscribe_cb t index w =
     (let facility = t AND PA_SUBSCRIPTION_EVENT_FACILITY_MASK;
          type = t AND PA_SUBSCRIPTION_EVENT_TYPE_MASK
      in if facility = 0 then
           if type = PA_SUBSCRIPTION_EVENT_REMOVE then sink_autoDefault (removeSink index w)
           else if type = PA_SUBSCRIPTION_EVENT_NEW \<or> type = PA_SUBSCRIPTION_EVENT_CHANGE
           then ask [GetSinkInfo index] w
           else w
         else if facility = 1 then
           if type = PA_SUBSCRIPTION_EVENT_REMOVE then source_autoDefault (removeSource index w)
           else if type = PA_SUBSCRIPTION_EVENT_NEW then ask [GetSourceInfo index] w
           else w
         else if facility = 2 then
           if type = PA_SUBSCRIPTION_EVENT_REMOVE then removeSinkInput index w
           else if type = PA_SUBSCRIPTION_EVENT_NEW then ask [GetSinkInputInfo index] w
           else w
         else if facility = 3 then
           if type = PA_SUBSCRIPTION_EVENT_REMOVE then removeSourceOutput index w
           else if type = PA_SUBSCRIPTION_EVENT_NEW then ask [GetSourceOutputInfo index] w
           else w
         else if facility = 7 then ask [GetServerInfo] w
         else w)"

subsection \<open>Connecting\<close>

text \<open>
  \<^verbatim>\<open>paConnect\<close>: \<open>new\<close> tells whether a context could be made, \<open>conn\<close> what
  \<^verbatim>\<open>pa_context_connect\<close> returned. The nested call of the retry finds the context set
  and returns at once.
\<close>

definition paConnect :: "bool \<Rightarrow> int \<Rightarrow> audio \<Rightarrow> bool \<times> audio" where
  "paConnect new conn w =
     (if pa_ctx w then (False, w)
      else if \<not> new then (False, w)
      else let w1 = ask [Connect] (w\<lparr>pa_ctx := True\<rparr>)
           in if conn < 0 then
                if retry w1 = 0 then (True, w1\<lparr>retry := retry w1 - 1\<rparr>)
                else (False, w1\<lparr>pa_ctx := False\<rparr>)
              else (True, w1))"

datatype pa_state = PA_CONTEXT_UNCONNECTED | PA_CONTEXT_CONNECTING | PA_CONTEXT_AUTHORIZING
  | PA_CONTEXT_SETTING_NAME | PA_CONTEXT_READY | PA_CONTEXT_FAILED | PA_CONTEXT_TERMINATED

text \<open>The requests of a context that is ready are made in turn until one is refused.\<close>

fun ask_seq :: "pulse \<Rightarrow> pa_req list \<Rightarrow> audio \<Rightarrow> audio" where
  "ask_seq P [] w = w"
| "ask_seq P (r # rs) w = (if pa_ok P r then ask_seq P rs (ask [r] w) else ask [r] w)"

definition context_state_callback ::
  "pulse \<Rightarrow> pa_state \<Rightarrow> int \<Rightarrow> bool \<Rightarrow> int \<Rightarrow> audio \<Rightarrow> audio cres" where
  "context_state_callback P state hdmiStatus new conn w =
     (case state of
        PA_CONTEXT_READY \<Rightarrow>
          Inr (ask_seq P [Subscribe, GetServerInfo, GetSinkInfoList, GetSourceInfoList,
                          GetSinkInputInfoList, GetSourceOutputInfoList]
                 (w\<lparr>mInited := True, bHDMI := hdmiStatus \<noteq> 0\<rparr>))
      | PA_CONTEXT_FAILED \<Rightarrow>
          cbind (removeAll (w\<lparr>mInited := False\<rparr>)) (\<lambda>w1. Inr (snd (paConnect new conn (w1\<lparr>pa_ctx := False\<rparr>))))
      | PA_CONTEXT_TERMINATED \<Rightarrow> removeAll (w\<lparr>mInited := False\<rparr>)
      | _ \<Rightarrow> Inr w)"

text \<open>\<^verbatim>\<open>created\<close>: \<^verbatim>\<open>pthread_create\<close> succeeded.\<close>

definition paStart :: "string \<Rightarrow> bool \<Rightarrow> audio \<Rightarrow> bool \<times> audio" where
  "paStart type created ac = (created, ac\<lparr>termialType := type\<rparr>)"

text \<open>One event that the main loop of PulseAudio delivers to the library.\<close>

datatype pa_event =
    SinkEv dev_info int
  | SourceEv dev_info int
  | SinkInputEv str_info int
  | SourceOutputEv str_info int
  | ServerEv "server_info option"
  | SubscribeEv "32 word" "32 word"
  | StateEv pa_state int bool int
  | VolumeEv "32 word list" int

definition deliver :: "pulse \<Rightarrow> pa_event \<Rightarrow> audio \<Rightarrow> audio cres" where
  "deliver P e w =
     (case e of
        SinkEv i eol \<Rightarrow> sink_cb i eol w
      | SourceEv i eol \<Rightarrow> source_cb i eol w
      | SinkInputEv i eol \<Rightarrow> sink_input_cb i eol w
      | SourceOutputEv i eol \<Rightarrow> source_output_cb i eol w
      | ServerEv i \<Rightarrow> server_info_cb i w
      | SubscribeEv t idx \<Rightarrow> Inr (subscribe_cb t idx w)
      | StateEv st hs new conn \<Rightarrow> context_state_callback P st hs new conn w
      | VolumeEv v eol \<Rightarrow> get_sink_volume_callback v eol w)"

fun deliver_all :: "pulse \<Rightarrow> pa_event list \<Rightarrow> audio \<Rightarrow> audio cres" where
  "deliver_all P [] w = Inr w"
| "deliver_all P (e # es) w = cbind (deliver P e w) (deliver_all P es)"

text \<open>
  \<^verbatim>\<open>main_loop\<close>: \<open>loop\<close> and \<open>api\<close> tell whether the loop and its interface could be made;
  the loop then delivers \<open>es\<close> until it ends.
\<close>

definition main_loop :: "pulse \<Rightarrow> bool \<Rightarrow> bool \<Rightarrow> bool \<Rightarrow> int \<Rightarrow> pa_event list \<Rightarrow> audio \<Rightarrow> audio cres" where
  "main_loop P loop api new conn es w =
     (let out = (\<lambda>w. w\<lparr>pa_ctx := False\<rparr>)
      in if \<not> loop then Inr (out w)
         else if \<not> api then Inr (out w)
         else case paConnect new conn w of
                (False, w1) \<Rightarrow> Inr (out w1)
              | (True, w1) \<Rightarrow> cbind (deliver_all P es w1) (\<lambda>w2. Inr (out w2)))"

subsection \<open>Volume and profile\<close>

text \<open>\<^verbatim>\<open>int\<close> to \<^verbatim>\<open>pa_volume_t\<close> and back wrap around.\<close>

definition volume_of :: "int \<Rightarrow> 32 word" where
  "volume_of percentage =
     word_of_int (percentage_to_value_u32 (word_of_int percentage) PA_VOLUME_MUTED PA_VOLUME_NORM)"

definition setSinkVolume :: "pulse \<Rightarrow> int \<Rightarrow> audio \<Rightarrow> int \<times> audio" where
  "setSinkVolume P volume ac =
     (if \<not> mInited ac then (- 1, ac)
      else let ac1 = ac\<lparr>sinkVol := cvolume_scale P (sinkVol ac) (volume_of volume)\<rparr>;
               r = SetSinkVolume (defaultSinkName ac1) (sinkVol ac1)
           in (if pa_ok P r then 0 else - 1, ask [r] ac1))"

text \<open>\<^verbatim>\<open>pa_cvolume_max(...) * 100.0f / PA_VOLUME_NORM + 0.5f\<close>, truncated.\<close>

definition volume_percent :: "32 word \<Rightarrow> int" where
  "volume_percent v =
     d_to_int (f_add (f_div (f_mul (rnd_f (of_int (uint v))) (Fin 100)) (rnd_f (of_int (uint PA_VOLUME_NORM)))) (Fin (1 / 2)))"

definition getSinkVolume :: "pulse \<Rightarrow> audio \<Rightarrow> int" where
  "getSinkVolume P ac = (if \<not> mInited ac then - 1 else volume_percent (cvolume_max P (sinkVol ac)))"

definition sink_setVolume :: "pulse \<Rightarrow> string \<Rightarrow> int \<Rightarrow> audio \<Rightarrow> int \<times> audio" where
  "sink_setVolume P name percentage ac =
     (let ac1 = ac\<lparr>dev_volume := cvolume_scale P (dev_volume ac) (volume_of percentage)\<rparr>;
          r = SetSinkVolume name (dev_volume ac1)
      in (if pa_ok P r then 0 else - 1, ask [r] ac1))"

definition source_updateVolume :: "pulse \<Rightarrow> string \<Rightarrow> int \<Rightarrow> audio \<Rightarrow> int \<times> audio" where
  "source_updateVolume P name percentage ac =
     (let ac1 = ac\<lparr>dev_volume := cvolume_scale P (dev_volume ac) (volume_of percentage)\<rparr>;
          r = SetSourceVolume name (dev_volume ac1)
      in (if pa_ok P r then 0 else - 1, ask [r] ac1))"

definition changeProfile :: "pulse \<Rightarrow> string \<Rightarrow> audio \<Rightarrow> int \<times> audio" where
  "changeProfile P profileName ac =
     (if \<not> mInited ac then (- 1, ac)
      else if innerCardName ac = [] then (- 1, ac)
      else if prefix_of ''hdmi'' profileName then
        let ac1 = ac\<lparr>bHDMI := True\<rparr>
        in if termialType ac1 = RJ_IDV_TYPE then
             let r = SetCardProfile (innerCardIdx ac1) HDMI_PROFILE
             in (if pa_ok P r then 0 else - 1, ask [r] ac1)
           else if termialType ac1 = RJ_VDI_TYPE then (0, sink_autoDefault ac1)
           else (- 1, ac1)
      else if prefix_of ''analog'' profileName then
        let ac1 = ac\<lparr>bHDMI := False\<rparr>
        in if termialType ac1 = RJ_IDV_TYPE then
             let r = SetCardProfile (innerCardIdx ac1) ANA_PROFILE
             in (if pa_ok P r then 0 else - 1, ask [r] ac1)
           else if termialType ac1 = RJ_VDI_TYPE then (0, sink_autoDefault ac1)
           else (- 1, ac1)
      else (0, ac))"

subsection \<open>The choice of the default device\<close>

text \<open>The first device of a kind, in the order of the map.\<close>

definition first_of :: "(device \<Rightarrow> bool) \<Rightarrow> (32 word \<times> device) list \<Rightarrow> string" where
  "first_of p ws = (case filter (\<lambda>e. p (snd e)) ws of [] \<Rightarrow> [] | e # _ \<Rightarrow> dev_name (snd e))"

lemma first_of_simps [simp]:
  "first_of p [] = []"
  "first_of p ((i, w) # ws) = (if p w then dev_name w else first_of p ws)"
  by (simp_all add: first_of_def)

definition hdmi_only :: "device \<Rightarrow> bool" where
  "hdmi_only w \<longleftrightarrow> is_hdmi w \<and> \<not> is_usb w"

definition analog :: "device \<Rightarrow> bool" where
  "analog w \<longleftrightarrow> \<not> is_hdmi w \<and> \<not> is_usb w"

definition named :: "(32 word \<times> device) list \<Rightarrow> bool" where
  "named ws = list_all (\<lambda>e. dev_name (snd e) \<noteq> []) ws"

lemma first_of_empty: "named ws \<Longrightarrow> first_of p ws = [] \<longleftrightarrow> (\<forall>e\<in>set ws. \<not> p (snd e))"
  by (induction ws) (auto simp: named_def split: if_splits)

lemma pick_loop_first:
  assumes "named ws"
  shows "case pick_loop hdmi ws h a of (d, h', a') \<Rightarrow> d = first_of is_usb ws
     \<and> (d = [] \<longrightarrow> h' = (if h = [] \<and> hdmi then first_of hdmi_only ws else h)
          \<and> a' = (if a = [] then first_of analog ws else a))"
  using assms
proof (induction hdmi ws h a rule: pick_loop.induct)
  case (2 hdmi i w ws h a)
  then have n: "named ws" "dev_name w \<noteq> []" by (simp_all add: named_def)
  consider "is_usb w" | "\<not> is_usb w" "is_hdmi w" "\<not> hdmi" | "\<not> is_usb w" "is_hdmi w" "hdmi"
    | "\<not> is_usb w" "\<not> is_hdmi w" by blast
  then show ?case
  proof cases
    case 1
    then show ?thesis using n by simp
  next
    case 2
    then show ?thesis using "2.IH"(1) n by (auto simp: hdmi_only_def analog_def split: prod.splits)
  next
    case 3
    then show ?thesis using "2.IH"(2) n by (auto simp: hdmi_only_def analog_def split: prod.splits)
  next
    case 4
    then show ?thesis using "2.IH"(3) n by (auto simp: hdmi_only_def analog_def split: prod.splits)
  qed
qed simp

lemma pick_eq:
  assumes "named ws"
  shows "pick hdmi ws =
    (if first_of is_usb ws \<noteq> [] then first_of is_usb ws
     else if hdmi \<and> first_of hdmi_only ws \<noteq> [] then first_of hdmi_only ws
     else first_of analog ws)"
  using pick_loop_first [OF assms, where hdmi = hdmi and h = "[]" and a = "[]"]
  by (cases "pick_loop hdmi ws [] []"; cases hdmi) (auto simp: pick_def)

text \<open>With descending indices the first device of a kind is the one with the largest index.\<close>

lemma first_of_max:
  assumes "descending ws" and "(i, w) \<in> set ws" and "p w" and "\<forall>(j, v)\<in>set ws. p v \<longrightarrow> j \<le> i"
  shows "first_of p ws = dev_name w"
  using assms
proof (induction ws)
  case (Cons e ws)
  obtain j v where e: "e = (j, v)" by fastforce
  show ?case
  proof (cases "p v")
    case True
    then have "j \<le> i" using Cons.prems(4) e by auto
    have "(i, w) = (j, v)"
    proof (rule ccontr)
      assume "(i, w) \<noteq> (j, v)"
      then have "(i, w) \<in> set ws" using Cons.prems(2) e by auto
      then have "i < j" using Cons.prems(1) e by (auto simp: descending_def dest: bspec)
      with \<open>j \<le> i\<close> show False by simp
    qed
    with True e show ?thesis by simp
  next
    case False
    with Cons e have "(i, w) \<in> set ws" by auto
    with False Cons e show ?thesis by (auto simp: descending_def)
  qed
qed simp

subsection \<open>Well-formed states\<close>

definition dev_map :: "(32 word \<times> device) list \<Rightarrow> bool" where
  "dev_map ws \<longleftrightarrow> descending ws \<and> (\<forall>(i, w)\<in>set ws. dev_index w = i)"

definition str_map :: "(32 word \<times> stream) list \<Rightarrow> bool" where
  "str_map ws \<longleftrightarrow> descending ws \<and> (\<forall>(i, w)\<in>set ws. str_index w = i)"

definition audio_wf :: "audio \<Rightarrow> bool" where
  "audio_wf ac \<longleftrightarrow> dev_map (sinks ac) \<and> dev_map (sources ac) \<and> str_map (sinkInputs ac) \<and> str_map (sourceOutputs ac)"

lemma dev_map_put: "dev_map ws \<Longrightarrow> dev_index w = i \<Longrightarrow> dev_map (mput i w ws)"
  using mput_set [of i w ws] by (auto simp: dev_map_def mput_descending)

lemma str_map_put: "str_map ws \<Longrightarrow> str_index w = i \<Longrightarrow> str_map (mput i w ws)"
  using mput_set [of i w ws] by (auto simp: str_map_def mput_descending)

lemma dev_map_del: "dev_map ws \<Longrightarrow> dev_map (mdel i ws)"
  by (auto simp: dev_map_def mdel_descending) (auto simp: mdel_def)

lemma str_map_del: "str_map ws \<Longrightarrow> str_map (mdel i ws)"
  by (auto simp: str_map_def mdel_descending) (auto simp: mdel_def)

lemma ask_simps [simp]:
  "sinks (ask rs a) = sinks a" "sources (ask rs a) = sources a"
  "sinkInputs (ask rs a) = sinkInputs a" "sourceOutputs (ask rs a) = sourceOutputs a"
  "defaultSinkName (ask rs a) = defaultSinkName a" "reqs (ask rs a) = reqs a @ rs"
  "mInited (ask rs a) = mInited a" "sinkVol (ask rs a) = sinkVol a"
  by (simp_all add: ask_def)

lemma autoDefault_maps [simp]:
  "sinks (sink_autoDefault a) = sinks a" "sources (sink_autoDefault a) = sources a"
  "sinkInputs (sink_autoDefault a) = sinkInputs a" "sourceOutputs (sink_autoDefault a) = sourceOutputs a"
  "sinks (source_autoDefault a) = sinks a" "sources (source_autoDefault a) = sources a"
  "sinkInputs (source_autoDefault a) = sinkInputs a" "sourceOutputs (source_autoDefault a) = sourceOutputs a"
  by (simp_all add: sink_autoDefault_def source_autoDefault_def Let_def)

lemma wf_autoDefault [simp]:
  "audio_wf (sink_autoDefault a) = audio_wf a" "audio_wf (source_autoDefault a) = audio_wf a"
  "audio_wf (ask rs a) = audio_wf a"
  by (simp_all add: audio_wf_def)

lemma wf_remove:
  assumes "audio_wf a"
  shows "audio_wf (removeSink i a)" "audio_wf (removeSource i a)"
    "audio_wf (removeSinkInput i a)" "audio_wf (removeSourceOutput i a)"
  using assms
  by (auto simp: audio_wf_def removeSink_def removeSource_def removeSinkInput_def removeSourceOutput_def
      dev_map_del str_map_del)

lemma new_sink_keeps:
  assumes "new_sink info a = Inr (w, a')"
  shows "dev_index w = i_index info" "sinks a' = sinks a" "audio_wf a' = audio_wf a"
  using assms by (auto simp: new_sink_def Let_def audio_wf_def split: option.splits if_splits)

lemma wf_updateSink:
  assumes "audio_wf a" and "updateSink info a = Inr a'"
  shows "audio_wf a'"
proof -
  from assms(2) obtain w a1 where
    w: "(case map_of (sinks a) (i_index info) of Some w \<Rightarrow> Inr (w, a) | None \<Rightarrow> new_sink info a) = Inr (w, a1)"
    and a': "a' = sink_autoDefault (a1\<lparr>sinks := mput (i_index info) (set_device info w) (sinks a1)\<rparr>)"
    by (auto simp: updateSink_def cbind_Inr_iff)
  have "dev_index w = i_index info" "sinks a1 = sinks a" "audio_wf a1"
    using w assms(1) new_sink_keeps [of info a w a1]
    by (auto simp: audio_wf_def dev_map_def dest!: map_of_SomeD split: option.splits)
  then show ?thesis by (auto simp: a' audio_wf_def set_device_def intro!: dev_map_put)
qed

lemma wf_updateSource:
  assumes "audio_wf a" and "updateSource info a = Inr a'"
  shows "audio_wf a'"
proof -
  from assms(2) obtain w where
    w: "(case map_of (sources a) (i_index info) of Some w \<Rightarrow> Inr w | None \<Rightarrow> new_source info a) = Inr w"
    and a': "a' = source_autoDefault (a\<lparr>sources := mput (i_index info) (set_device info w) (sources a)\<rparr>)"
    by (auto simp: updateSource_def cbind_Inr_iff)
  have "dev_index w = i_index info"
    using w assms(1)
    by (auto simp: audio_wf_def dev_map_def new_source_def Let_def dest!: map_of_SomeD split: option.splits if_splits)
  with assms(1) show ?thesis by (auto simp: a' audio_wf_def set_device_def intro!: dev_map_put)
qed

lemma wf_updateStream:
  assumes "audio_wf a"
  shows "audio_wf (updateSinkInput info a)" "audio_wf (updateSourceOutput info a)"
  using assms
  by (auto simp: updateSinkInput_def updateSourceOutput_def audio_wf_def intro!: str_map_put split: option.splits)

lemma wf_subscribe: "audio_wf a \<Longrightarrow> audio_wf (subscribe_cb t i a)"
  by (simp add: subscribe_cb_def Let_def wf_remove)

lemma erase_loop_nil:
  assumes "\<And>k s. map_of (entries (remove k s)) k = None"
  shows "erase_loop remove entries es s = (if es = [] then Inr s else Inl UseAfterFree)"
  using assms by (cases es) auto

lemma removeAll_eq:
  "removeAll a = (if sinkInputs a = [] \<and> sourceOutputs a = [] \<and> sinks a = [] \<and> sources a = []
     then Inr a else Inl UseAfterFree)"
proof -
  have "map_of (sinkInputs (removeSinkInput k s)) k = None" "map_of (sourceOutputs (removeSourceOutput k s)) k = None"
    "map_of (sinks (removeSink k s)) k = None" "map_of (sources (removeSource k s)) k = None" for k s
    by (simp_all add: removeSinkInput_def removeSourceOutput_def removeSink_def removeSource_def map_of_mdel)
  then show ?thesis by (simp add: removeAll_def erase_loop_nil)
qed

lemma wf_ask_seq [simp]: "audio_wf (ask_seq P rs a) = audio_wf a"
  by (induction P rs a rule: ask_seq.induct) simp_all

lemma wf_deliver:
  assumes "audio_wf a" and "deliver P e a = Inr a'"
  shows "audio_wf a'"
proof -
  have fields: "audio_wf (a\<lparr>mInited := x, bHDMI := y\<rparr>)" "audio_wf (a\<lparr>mInited := x, pa_ctx := y\<rparr>)"
    "audio_wf (a\<lparr>mInited := x\<rparr>)" "audio_wf (a\<lparr>sinkVol := v\<rparr>)" for x y v
    using assms(1) by (simp_all add: audio_wf_def)
  show ?thesis
  proof (cases e)
    case (ServerEv i)
    then show ?thesis using assms
      by (auto simp: deliver_def server_info_cb_def paStop_def updateSinkVolume_def updateServer_def audio_wf_def
          split: option.splits if_splits)
  next
    case (StateEv st hs new conn)
    have "audio_wf (snd (paConnect new conn b))" if "audio_wf b" for b
      using that by (auto simp: paConnect_def Let_def audio_wf_def)
    then show ?thesis using assms StateEv fields
      by (auto simp: deliver_def context_state_callback_def cbind_Inr_iff removeAll_eq split: pa_state.splits if_splits)
  next
    case (SinkEv i eol)
    then show ?thesis using assms wf_updateSink [OF assms(1)] by (auto simp: deliver_def sink_cb_def split: if_splits)
  next
    case (SourceEv i eol)
    then show ?thesis using assms wf_updateSource [OF assms(1)]
      by (auto simp: deliver_def source_cb_def split: if_splits)
  next
    case (SinkInputEv i eol)
    then show ?thesis using assms by (auto simp: deliver_def sink_input_cb_def wf_updateStream split: if_splits)
  next
    case (SourceOutputEv i eol)
    then show ?thesis using assms by (auto simp: deliver_def source_output_cb_def wf_updateStream split: if_splits)
  next
    case (SubscribeEv t i)
    then show ?thesis using assms by (auto simp: deliver_def wf_subscribe)
  next
    case (VolumeEv v eol)
    then show ?thesis using assms fields(4) by (auto simp: deliver_def get_sink_volume_callback_def split: if_splits)
  qed
qed

subsection \<open>Reachable states\<close>

inductive audio_reach :: "pulse \<Rightarrow> audio \<Rightarrow> bool" for P where
  start: "audio_reach P (snd (paStart type created AudioCore_new))"
| connect: "audio_reach P w \<Longrightarrow> audio_reach P (snd (paConnect new conn w))"
| event: "audio_reach P w \<Longrightarrow> deliver P e w = Inr w' \<Longrightarrow> audio_reach P w'"
| volume: "audio_reach P w \<Longrightarrow> audio_reach P (snd (setSinkVolume P v w))"
| profile: "audio_reach P w \<Longrightarrow> audio_reach P (snd (changeProfile P name w))"

lemma reach_deliver_all: "audio_reach P w \<Longrightarrow> deliver_all P es w = Inr w' \<Longrightarrow> audio_reach P w'"
  by (induction P es w rule: deliver_all.induct) (auto simp: cbind_Inr_iff intro: event)

lemma reach_wf: "audio_reach P w \<Longrightarrow> audio_wf w"
proof (induction rule: audio_reach.induct)
  case (start type created)
  show ?case
    by (simp add: paStart_def AudioCore_new_def audio_wf_def dev_map_def str_map_def descending_def)
next
  case (connect w new conn)
  then show ?case by (auto simp: paConnect_def Let_def audio_wf_def)
next
  case (event w e w')
  then show ?case by (blast intro: wf_deliver)
next
  case (volume w v)
  then show ?case by (auto simp: setSinkVolume_def Let_def audio_wf_def)
next
  case (profile w name)
  have "audio_wf (w\<lparr>bHDMI := b\<rparr>)" for b using profile.IH by (simp add: audio_wf_def)
  then show ?case using profile.IH by (auto simp: changeProfile_def Let_def)
qed

subsection \<open>Properties\<close>

text \<open>A machine with an analog card and an HDMI output, to which a headset is plugged.\<close>

definition ex_info :: "32 word \<Rightarrow> string \<Rightarrow> string \<Rightarrow> dev_info" where
  "ex_info i nm alsa = \<lparr>i_index = i, i_card = 0, i_name = nm, i_description = [], alsa_name = Some alsa,
     bus_path = Some [], monitor_of_sink = PA_INVALID_INDEX, i_flags = PA_SOURCE_HARDWARE\<rparr>"

definition ex_pulse :: pulse where
  "ex_pulse = \<lparr>pa_ok = (\<lambda>_. True), cvolume_scale = (\<lambda>v m. [m]), cvolume_max = (\<lambda>v. fold max v 0)\<rparr>"

definition ex_audio :: audio where
  "ex_audio = (case deliver_all ex_pulse
       [SinkEv (ex_info 1 ''hdmi0'' ''HDMI 0'') 0, SinkEv (ex_info 2 ''card0'' ''ALC662'') 0,
        SinkInputEv \<lparr>s_index = 7, s_name = ''player''\<rparr> 0, SinkEv (ex_info 5 ''headset'' ''USB Audio'') 0]
       (snd (paStart ''VDI'' True AudioCore_new)) of Inr a \<Rightarrow> a | Inl _ \<Rightarrow> AudioCore_new)"

lemma ex_audio_reach: "audio_reach ex_pulse ex_audio"
proof -
  have "deliver_all ex_pulse
       [SinkEv (ex_info 1 ''hdmi0'' ''HDMI 0'') 0, SinkEv (ex_info 2 ''card0'' ''ALC662'') 0,
        SinkInputEv \<lparr>s_index = 7, s_name = ''player''\<rparr> 0, SinkEv (ex_info 5 ''headset'' ''USB Audio'') 0]
       (snd (paStart ''VDI'' True AudioCore_new)) = Inr ex_audio" by code_simp
  with start reach_deliver_all show ?thesis by blast
qed

text \<open>
  C15. The default sink: after \<^verbatim>\<open>Sink::autoDefault\<close> it is the USB device with the
  largest index; without USB devices, and if HDMI is switched on, the HDMI
  device with the largest index; otherwise the remaining device with the
  largest index. When the default changes, PulseAudio is told so and then
  told to move every playing stream to it, in this order.
\<close>

theorem sink_default_choice:
  assumes "audio_wf ac" and "named (sinks ac)"
    and "(i, w) \<in> set (sinks ac)" and "\<forall>(j, v)\<in>set (sinks ac). kind v \<longrightarrow> j \<le> i" and "kind w"
    and "kind = is_usb
      \<or> kind = hdmi_only \<and> bHDMI ac \<and> (\<forall>(j, v)\<in>set (sinks ac). \<not> is_usb v)
      \<or> kind = analog \<and> (\<forall>(j, v)\<in>set (sinks ac). \<not> is_usb v) \<and> \<not> (bHDMI ac \<and> (\<exists>(j, v)\<in>set (sinks ac). hdmi_only v))"
  shows "defaultSinkName (sink_autoDefault ac) = dev_name w
    \<and> reqs (sink_autoDefault ac) = reqs ac @
        (if dev_name w = defaultSinkName ac then []
         else SetDefaultSink (dev_name w) # map (\<lambda>(i, s). MoveSinkInput i (dev_name w)) (sinkInputs ac))"
proof -
  have d: "descending (sinks ac)" using assms(1) by (simp add: audio_wf_def dev_map_def)
  have ne: "dev_name w \<noteq> []" using assms(2,3) by (force simp: named_def list_all_iff)
  have f: "first_of kind (sinks ac) = dev_name w" by (rule first_of_max [OF d assms(3,5,4)])
  note e = first_of_empty [OF assms(2)]
  have p: "pick (bHDMI ac) (sinks ac) = dev_name w"
    using assms(6)
  proof (elim disjE conjE)
    assume "kind = is_usb"
    with f ne show ?thesis by (simp add: pick_eq [OF assms(2)])
  next
    assume "kind = hdmi_only" "bHDMI ac" "\<forall>(j, v)\<in>set (sinks ac). \<not> is_usb v"
    moreover from this(3) have "first_of is_usb (sinks ac) = []" by (auto simp: e)
    ultimately show ?thesis using f ne by (simp add: pick_eq [OF assms(2)])
  next
    assume a: "kind = analog" "\<forall>(j, v)\<in>set (sinks ac). \<not> is_usb v" "\<not> (bHDMI ac \<and> (\<exists>(j, v)\<in>set (sinks ac). hdmi_only v))"
    have "first_of is_usb (sinks ac) = []" using a(2) by (auto simp: e)
    moreover have "bHDMI ac \<Longrightarrow> first_of hdmi_only (sinks ac) = []" using a(3) by (auto simp: e)
    ultimately show ?thesis using f a(1) by (auto simp: pick_eq [OF assms(2)])
  qed
  have "map (\<lambda>(i, s). MoveSinkInput (str_index s) n) (sinkInputs ac) = map (\<lambda>(i, s). MoveSinkInput i n) (sinkInputs ac)" for n
    using assms(1) by (auto simp: audio_wf_def str_map_def)
  with p ne show ?thesis by (auto simp: sink_autoDefault_def Let_def)
qed

theorem sink_default_choice_witness:
  "defaultSinkName (sink_autoDefault (ex_audio\<lparr>defaultSinkName := ''card0''\<rparr>)) = ''headset''
    \<and> reqs (sink_autoDefault (ex_audio\<lparr>defaultSinkName := ''card0''\<rparr>)) =
       reqs ex_audio @ [SetDefaultSink ''headset'', MoveSinkInput 7 ''headset'']"
proof -
  have wf: "audio_wf (ex_audio\<lparr>defaultSinkName := ''card0''\<rparr>)"
    using reach_wf [OF ex_audio_reach] by (simp add: audio_wf_def)
  have s: "sinks ex_audio = [(5, \<lparr>dev_name = ''headset'', dev_description = [], dev_index = 5, dev_card = 0, prio_type = ''USB Audio''\<rparr>),
      (2, \<lparr>dev_name = ''card0'', dev_description = [], dev_index = 2, dev_card = 0, prio_type = ''ALC662''\<rparr>),
      (1, \<lparr>dev_name = ''hdmi0'', dev_description = [], dev_index = 1, dev_card = 0, prio_type = ''HDMI 0''\<rparr>)]"
    "map fst (sinkInputs ex_audio) = [7]" by code_simp+
  from s(2) obtain x where "sinkInputs ex_audio = [(7, x)]" by auto
  with s(1) sink_default_choice [OF wf, of 5 _ is_usb] show ?thesis
    by (simp add: named_def is_usb_def contains_sub_def)
qed

text \<open>
  C14. In every reachable state of the audio component the four maps are ordered
  and every entry is stored under its own index, whatever PulseAudio
  reports and in whatever order.
\<close>

theorem audio_invariant:
  assumes "audio_reach P w"
  shows "descending (sinks w) \<and> descending (sources w) \<and> descending (sinkInputs w) \<and> descending (sourceOutputs w)
    \<and> (\<forall>(i, d)\<in>set (sinks w) \<union> set (sources w). dev_index d = i)
    \<and> (\<forall>(i, s)\<in>set (sinkInputs w) \<union> set (sourceOutputs w). str_index s = i)"
  using reach_wf [OF assms] by (auto simp: audio_wf_def dev_map_def str_map_def)

theorem audio_invariant_witness:
  "length (sinks ex_audio) = 3 \<and> descending (sinks ex_audio) \<and> list_all (\<lambda>(i, d). dev_index d = i) (sinks ex_audio)"
proof -
  have "length (sinks ex_audio) = 3" by code_simp
  with audio_invariant [OF ex_audio_reach] show ?thesis by (auto simp: list_all_iff)
qed

text \<open>
  When the audio server is lost or ends while any device or stream is
  known, \<^verbatim>\<open>removeAll\<close> advances an iterator to an entry it has just released.
\<close>

theorem remove_all_dangling:
  assumes "sinks w \<noteq> [] \<or> sources w \<noteq> [] \<or> sinkInputs w \<noteq> [] \<or> sourceOutputs w \<noteq> []"
    and "st = PA_CONTEXT_FAILED \<or> st = PA_CONTEXT_TERMINATED"
  shows "context_state_callback P st hs new conn w = Inl UseAfterFree"
  using assms by (auto simp: context_state_callback_def removeAll_eq)

theorem remove_all_dangling_witness:
  "context_state_callback ex_pulse PA_CONTEXT_FAILED 0 True 0 ex_audio = Inl UseAfterFree"
proof -
  have "sinks ex_audio \<noteq> []" by code_simp
  then show ?thesis by (intro remove_all_dangling) auto
qed

lemma volume_of_eq:
  assumes "0 \<le> p" and "p \<le> 100"
  shows "uint (volume_of p) = (p * 65536 + 50) div 100" and "(p * 65536 + 50) div 100 \<le> 65536"
proof -
  let ?v = "(p * 65536 + 50) div 100"
  have v: "0 \<le> ?v" "?v \<le> 65536" using assms by auto
  then show "?v \<le> 65536" by simp
  have r: "PA_VOLUME_NORM - PA_VOLUME_MUTED = (0x10000 :: 32 word)"
    by (simp add: PA_VOLUME_NORM_def PA_VOLUME_MUTED_def)
  have "uint (word_of_int p * (0x10000 :: 32 word)) = p * 65536"
    using assms by (simp add: uint_word_of_int uint_word_ariths take_bit_eq_mod)
  then have "cap (scaled (uint (word_of_int p * (0x10000 :: 32 word)))) 0 (to_int32 (uint (0x10000 :: 32 word))) = ?v"
    using v assms scaled_round [of "p * 65536"] by (simp add: cap_def Let_def to_int32_def)
  then have "percentage_to_value_u32 (word_of_int p) PA_VOLUME_MUTED PA_VOLUME_NORM = ?v"
    using v unfolding percentage_to_value_u32_def r Let_def
    by (simp add: PA_VOLUME_MUTED_def uint_word_of_int take_bit_eq_mod to_int32_def)
  then show "uint (volume_of p) = ?v" using v by (simp add: volume_of_def uint_word_of_int take_bit_eq_mod)
qed

lemma volume_percent_of:
  assumes "0 \<le> p" and "p \<le> 100"
  shows "volume_percent (volume_of p) = p"
proof -
  define n where "n = (p * 65536 + 50) div 100"
  have n: "uint (volume_of p) = n" "0 \<le> n" "n \<le> 65536"
    using volume_of_eq [OF assms] assms by (simp_all add: n_def)
  have "100 * n \<le> p * 65536 + 50" "p * 65536 + 50 \<le> 100 * n + 99" by (simp_all add: n_def)
  then have b: "100 * of_int n \<le> of_int p * 65536 + (50 :: rat)" "of_int p * 65536 + 50 \<le> 100 * of_int n + (99 :: rat)"
    by linarith+
  have x: "(of_int n * 100) / 65536 = (of_int (n * 100) / 65536 :: rat)" by simp
  have "d_to_int (f_add (rnd_f (of_int n * 100 / 65536)) (Fin (1 / 2))) = p"
    using b n by (intro half_up) (simp_all add: field_simps)
  moreover have "rnd_f (of_int n) = Fin (of_int n)" "rnd_f (of_int (n * 100)) = Fin (of_int (n * 100))"
    "rnd_f (of_int 65536) = Fin (of_int 65536)"
    using n by (intro rnd_f_int; simp)+
  ultimately show ?thesis by (simp add: volume_percent_def n(1) PA_VOLUME_NORM_def)
qed

text \<open>
  A volume between 0 and 100 that is set is the volume read back, when
  PulseAudio accepts the request and \<^verbatim>\<open>pa_cvolume_scale\<close> makes the loudest channel
  the one given, as it is documented to.
\<close>

theorem volume_roundtrip:
  assumes "mInited ac" and "0 \<le> p" and "p \<le> 100"
    and "cvolume_max P (cvolume_scale P (sinkVol ac) (volume_of p)) = volume_of p"
    and "pa_ok P (SetSinkVolume (defaultSinkName ac) (cvolume_scale P (sinkVol ac) (volume_of p)))"
  shows "fst (setSinkVolume P p ac) = 0 \<and> getSinkVolume P (snd (setSinkVolume P p ac)) = p"
  using assms by (simp add: setSinkVolume_def getSinkVolume_def Let_def volume_percent_of)

theorem volume_roundtrip_witness:
  "fst (setSinkVolume ex_pulse 37 (ex_audio\<lparr>mInited := True\<rparr>)) = 0
    \<and> getSinkVolume ex_pulse (snd (setSinkVolume ex_pulse 37 (ex_audio\<lparr>mInited := True\<rparr>))) = 37"
  by (rule volume_roundtrip) (simp_all add: ex_pulse_def)

subsection \<open>Observations\<close>

text \<open>
  On IDV terminals a USB headset is taken for the built-in card: the test for
  both spellings is a disjunction of negations.
\<close>

lemma idv_usb_taken_for_inner:
  assumes "termialType ac = RJ_IDV_TYPE" and "alsa_name info = Some ''USB Audio''"
  shows "\<exists>w ac'. new_sink info ac = Inr (w, ac') \<and> prio_type w = ''inner analog'' \<and> innerCardIdx ac' = i_card info"
proof -
  have "\<not> contains_sub ''usb'' ''USB Audio''" by code_simp
  then show ?thesis using assms by (simp add: new_sink_def RJ_IDV_TYPE_def RJ_VDI_TYPE_def Let_def)
qed

text \<open>A failed connection is not retried while retries are left.\<close>

lemma connect_not_retried:
  "\<not> pa_ctx w \<Longrightarrow> new \<Longrightarrow> conn < 0 \<Longrightarrow> retry w = 3 \<Longrightarrow>
   \<exists>w'. paConnect new conn w = (False, w') \<and> retry w' = 3 \<and> \<not> pa_ctx w'"
  by (simp add: paConnect_def Let_def ask_def)

end
