(* ===== verification/Video.thy ===== *)
theory Video
  imports RjUtils
begin

unbundle bit_operations_syntax

text \<open>
  \<^verbatim>\<open>control/video_core.cpp\<close> and \<^verbatim>\<open>control/video_manager.cpp\<close>: the resolutions that
  \<^verbatim>\<open>xrandr\<close> prints, the ones that two monitors have in common, and switching to a
  resolution.

  A position of \<^verbatim>\<open>std::string\<close> is None for \<^verbatim>\<open>npos\<close>, to which adding 1 gives 0. The
  number of characters between two positions, an unsigned subtraction, is
  None when it wraps around and thus exceeds every string. \<^verbatim>\<open>substr\<close> beyond the
  end of a string is an exception that nobody catches, here an out-of-bounds
  fault.
\<close>

subsection \<open>Strings\<close>

definition pos_next :: "nat option \<Rightarrow> nat" where
  "pos_next p = (case p of None \<Rightarrow> 0 | Some i \<Rightarrow> i + 1)"

definition pos_diff :: "nat option \<Rightarrow> nat \<Rightarrow> nat option" where
  "pos_diff p b = (case p of None \<Rightarrow> None | Some a \<Rightarrow> if b \<le> a then Some (a - b) else None)"

text \<open>\<^verbatim>\<open>s.find(p, from)\<close>, \<^verbatim>\<open>s.rfind(" ", from)\<close> and \<^verbatim>\<open>s.substr(pos, n)\<close>.\<close>

definition str_find :: "string \<Rightarrow> nat \<Rightarrow> string \<Rightarrow> nat option" where
  "str_find p from s = (if length s < from then None else map_option ((+) from) (find_sub p (drop from s)))"

definition str_rfind_space :: "nat \<Rightarrow> string \<Rightarrow> nat option" where
  "str_rfind_space from s =
     (let t = take (Suc from) s; u = takeWhile (\<lambda>c. c \<noteq> CHR '' '') (rev t)
      in if length u = length t then None else Some (length t - length u - 1))"

definition str_substr :: "nat \<Rightarrow> nat option \<Rightarrow> string \<Rightarrow> string cres" where
  "str_substr pos n s =
     (if length s < pos then Inl OutOfBounds
      else Inr (case n of None \<Rightarrow> drop pos s | Some k \<Rightarrow> take k (drop pos s)))"

subsection \<open>Resolutions\<close>

definition DEV_RES_BEST :: "32 word" where "DEV_RES_BEST = 1"
definition DEV_RES_CUR :: "32 word" where "DEV_RES_CUR = 2"

record RateInfo =
  rate :: string
  rate_flag :: "32 word"

record ResInfo =
  res :: string
  res_flag :: "32 word"
  rateList :: "RateInfo list"

record DevInfo =
  devType :: string
  resList :: "ResInfo list"

definition IS_SUPPORTED_RES :: "32 word \<Rightarrow> 32 word \<Rightarrow> bool" where
  "IS_SUPPORTED_RES w h \<longleftrightarrow> 1024 \<le> w \<and> 720 \<le> h \<and> 1024 * 768 \<le> w * h"

text \<open>
  The mark that follows the dot at \<open>strPos0\<close>: the flag, the end of the rate and
  where the rest of the text begins.
\<close>

definition rate_mark :: "nat \<Rightarrow> nat option \<Rightarrow> string \<Rightarrow> 32 word \<times> nat option \<times> nat" where
  "rate_mark strPos0 strPos1 tmpStr =
     (case str_find ''*+'' strPos0 tmpStr of
        Some i \<Rightarrow> (DEV_RES_BEST OR DEV_RES_CUR, Some i, i + 2)
      | None \<Rightarrow>
          (case str_find '' +'' strPos0 tmpStr of
             Some i \<Rightarrow> (DEV_RES_BEST, Some i, i + 2)
           | None \<Rightarrow>
               (case str_find ''*'' strPos0 tmpStr of
                  Some i \<Rightarrow> (DEV_RES_CUR, Some i, i + 1)
                | None \<Rightarrow>
                    (case str_find '' '' strPos0 tmpStr of
                       Some i \<Rightarrow> (0, Some i, i + 1)
                     | None \<Rightarrow> (0, strPos1, length tmpStr)))))"

text \<open>The loop over the refresh rates of a line; the flags of all rates are combined.\<close>

function rates_loop :: "string \<Rightarrow> ResInfo \<Rightarrow> ResInfo cres" where
  "rates_loop tmpStr resInfo =
     (case str_find ''.'' 0 tmpStr of
        None \<Rightarrow> Inr resInfo
      | Some strPos0 \<Rightarrow>
          let strPos1 = str_rfind_space strPos0 tmpStr
          in cbind (str_substr (pos_next strPos1) (pos_diff (Some strPos0) (pos_next strPos1)) tmpStr) (\<lambda>str0.
             let (flag, p1, next) = rate_mark strPos0 strPos1 tmpStr
             in cbind (str_substr (strPos0 + 1) (pos_diff p1 (strPos0 + 1)) tmpStr) (\<lambda>str1.
                cbind (str_substr next None tmpStr) (\<lambda>rest.
                  let resInfo' = resInfo\<lparr>res_flag := res_flag resInfo OR flag,
                        rateList := rateList resInfo @ [\<lparr>rate = str0 @ ''.'' @ str1, rate_flag = flag\<rparr>]\<rparr>
                  in if rest = [] then Inr resInfo' else rates_loop rest resInfo'))))"
  by pat_completeness auto

lemma str_find_Some:
  assumes "str_find p from s = Some i"
  shows "from \<le> i" and "i + length p \<le> length s"
proof -
  from assms obtain j where j: "from \<le> length s" "find_sub p (drop from s) = Some j" "i = from + j"
    by (auto simp: str_find_def split: if_splits)
  from find_sub_Some [OF j(2)] obtain u v where "drop from s = u @ p @ v" "length u = j" by blast
  then have "length s - from = j + length p + length v" by (metis length_drop length_append add.assoc)
  with j show "from \<le> i" "i + length p \<le> length s" by simp_all
qed

lemma rate_mark_next:
  assumes "rate_mark p0 p1 s = (flag, e, next)" and "p0 < length s"
  shows "0 < next" and "next \<le> length s"
  using assms by (auto simp: rate_mark_def split: option.splits dest!: str_find_Some(2) [OF sym])

lemma str_substr_Inr: "str_substr pos n s = Inr t \<Longrightarrow> pos \<le> length s
    \<and> t = (case n of None \<Rightarrow> drop pos s | Some k \<Rightarrow> take k (drop pos s))"
  by (auto simp: str_substr_def split: if_splits)

termination rates_loop
proof (relation "measure (\<lambda>(tmpStr, resInfo). length tmpStr)", simp)
  fix tmpStr :: string and resInfo strPos0 x str0 x1 flag y p1 "next" str1 rest resInfo'
  assume f: "str_find ''.'' 0 tmpStr = Some strPos0" "x = str_rfind_space strPos0 tmpStr"
    "x1 = rate_mark strPos0 x tmpStr" "(flag, y) = x1" "(p1, next) = y"
    and r: "str_substr next None tmpStr = Inr rest" "rest \<noteq> []"
  have "strPos0 < length tmpStr" using str_find_Some(2) [OF f(1)] by simp
  moreover have "rate_mark strPos0 x tmpStr = (flag, p1, next)" using f by simp
  ultimately have "0 < next" by (blast dest: rate_mark_next(1))
  then show "((rest, resInfo'), tmpStr, resInfo) \<in> measure (\<lambda>(tmpStr, resInfo). length tmpStr)"
    using str_substr_Inr [OF r(1)] r(2) by auto
qed

declare rates_loop.simps [simp del]

subsection \<open>The output of xrandr\<close>

definition has :: "string \<Rightarrow> string \<Rightarrow> bool" where
  "has p s = (str_find p 0 s \<noteq> None)"

text \<open>A line with a resolution: its name, width and height, and whether it is interlaced.\<close>

definition mode_name :: "string \<Rightarrow> nat \<Rightarrow> (string \<times> 32 word \<times> 32 word \<times> bool) cres" where
  "mode_name it strPos0 =
     (let strPos1 = str_rfind_space strPos0 it
      in cbind (str_substr (pos_next strPos1) (pos_diff (Some strPos0) (pos_next strPos1)) it) (\<lambda>str0.
         cbind (str_substr (strPos0 + 1) (pos_diff (str_find '' '' strPos0 it) (strPos0 + 1)) it) (\<lambda>str1.
           let name = str0 @ ''x'' @ str1;
               width = word_of_int (atoi name);
               interlaced = has ''i'' str1;
               str1' = (if interlaced then remove1 (CHR ''i'') str1 else str1)
           in Inr (name, width, word_of_int (atoi str1'), interlaced))))"

record vscan =
  devCnt :: nat
  isConnected :: bool
  devInfo :: DevInfo
  devList :: "DevInfo list"

definition clear_dev :: DevInfo where
  "clear_dev = \<lparr>devType = [], resList = []\<rparr>"

text \<open>One line of the output; the first component tells whether the loop is left.\<close>

definition scan_line :: "string \<Rightarrow> vscan \<Rightarrow> (bool \<times> vscan) cres" where
  "scan_line it v =
     (if has ''VIRTUAL1'' it then Inr (True, v)
      else if has '' disconnected'' it then Inr (False, v\<lparr>isConnected := False\<rparr>)
      else case str_find '' connected'' 0 it of
        Some strPos0 \<Rightarrow>
          let n = devCnt v + 1;
              dl = (if n > 1 then devList v @ [devInfo v] else devList v)
          in Inr (False, v\<lparr>isConnected := True, devCnt := n, devList := dl,
                    devInfo := clear_dev\<lparr>devType := take strPos0 it\<rparr>\<rparr>)
      | None \<Rightarrow>
          (case str_find ''x'' 0 it of
             None \<Rightarrow> Inr (False, v)
           | Some strPos0 \<Rightarrow>
               if isConnected v \<and> \<not> has '' x '' it
               then cbind (mode_name it strPos0) (\<lambda>(name, width, height, bInterlaced).
                 if IS_SUPPORTED_RES width height \<and> \<not> bInterlaced
                 then cbind (rates_loop it \<lparr>res = name, res_flag = 0, rateList = []\<rparr>) (\<lambda>resInfo.
                        Inr (False, v\<lparr>devInfo := (devInfo v)\<lparr>resList := resList (devInfo v) @ [resInfo]\<rparr>\<rparr>))
                 else Inr (False, v))
               else Inr (False, v)))"

fun scan_lines :: "string list \<Rightarrow> vscan \<Rightarrow> vscan cres" where
  "scan_lines [] v = Inr v"
| "scan_lines (it # its) v =
     cbind (scan_line it v) (\<lambda>(stop, v'). if stop then Inr v' else scan_lines its v')"

definition parse_xrandr :: "string list \<Rightarrow> DevInfo list cres" where
  "parse_xrandr cmdRes =
     cbind (scan_lines cmdRes \<lparr>devCnt = 0, isConnected = False, devInfo = clear_dev, devList = []\<rparr>) (\<lambda>v.
       Inr (if devCnt v > 0 then devList v @ [devInfo v] else devList v))"

definition XRANDR_OUTFILE :: string where
  "XRANDR_OUTFILE = ''/tmp/xrandr.out''"

text \<open>\<^verbatim>\<open>VideoCore::getResolutionList\<close>: the return value and \<^verbatim>\<open>devList\<close>.\<close>

definition core_getResolutionList ::
  "shell \<Rightarrow> 'a machine_scheme \<Rightarrow> ((int \<times> DevInfo list) \<times> 'a machine_scheme) cres" where
  "core_getResolutionList sh m =
     cbind (if file_exists XRANDR_OUTFILE m then Inr ((0, []), m)
            else dev_exec sh (''xrandr -q > '' @ XRANDR_OUTFILE) [] m) (\<lambda>((r, cmdRes), m1).
       if r < 0 then Inr ((- 1, []), m1)
       else cbind (dev_exec sh (''cat '' @ XRANDR_OUTFILE) cmdRes m1) (\<lambda>((r2, cmdRes2), m2).
         if r2 < 0 then Inr ((- 1, []), m2)
         else cbind (parse_xrandr cmdRes2) (\<lambda>devs. Inr ((0, devs), m2))))"

subsection \<open>Switching to a resolution\<close>

text \<open>
  Making a new mode with \<^verbatim>\<open>cvt\<close> and \<^verbatim>\<open>xrandr --newmode\<close>; the result tells whether it was made.
  A resolution without the letter x makes \<^verbatim>\<open>std::string::replace\<close> throw.
\<close>

definition create_mode :: "shell \<Rightarrow> string \<Rightarrow> 'a machine_scheme \<Rightarrow> (bool \<times> 'a machine_scheme) cres" where
  "create_mode sh r m =
     (case str_find ''x'' 0 r of
        None \<Rightarrow> Inl OutOfBounds
      | Some i \<Rightarrow>
          cbind (sprintf_c 256 (''cvt '' @ r[i := CHR '' ''])) (\<lambda>cmd.
          cbind (dev_exec sh cmd [] m) (\<lambda>((cnt, cmdRes), m1).
            if cnt < 0 \<or> length cmdRes \<noteq> 2 then Inr (False, m1)
            else let str0 = cmdRes ! 1;
                     strPos0 = str_find [CHR 0x22] 0 str0;
                     strPos1 = str_find [CHR 0x22] (pos_next strPos0) str0
                 in cbind (str_substr (pos_next strPos1) None str0) (\<lambda>modeLine.
                    cbind (sprintf_c 256 (''xrandr --newmode '' @ [CHR 0x22] @ r @ [CHR 0x22] @ '' '' @ modeLine)) (\<lambda>cmd2.
                      let (r2, m2) = rj_system sh cmd2 m1 in Inr (0 \<le> r2, m2))))))"

definition output_cmd :: "DevInfo \<Rightarrow> string \<Rightarrow> string" where
  "output_cmd d r = ''xrandr --output '' @ devType d @ '' --mode '' @ r"

text \<open>
  The loop over the monitors: \<open>created\<close> is \<^verbatim>\<open>isModeCreated\<close>; the results are \<^verbatim>\<open>ret\<close> and
  \<^verbatim>\<open>isSameResList\<close>. The string \<^verbatim>\<open>mode\<close> is \<^verbatim>\<open>res\<close> once the mode was made.
\<close>

fun set_loop ::
  "shell \<Rightarrow> string \<Rightarrow> DevInfo list \<Rightarrow> bool \<Rightarrow> 'a machine_scheme
     \<Rightarrow> ((int \<times> bool list) \<times> 'a machine_scheme) cres" where
  "set_loop sh r [] created m = Inr ((0, []), m)"
| "set_loop sh r (d # ds) created m =
     (case find (\<lambda>i. res i = r) (resList d) of
        Some ri \<Rightarrow>
          if res_flag ri AND DEV_RES_CUR \<noteq> 0
          then cbind (set_loop sh r ds created m) (\<lambda>((ret, same), m1). Inr ((ret, True # same), m1))
          else cbind (sprintf_c 256 (output_cmd d r)) (\<lambda>cmd.
               let (r1, m1) = rj_system sh cmd m
               in cbind (set_loop sh r ds created m1) (\<lambda>((ret, same), m2).
                    Inr ((if r1 < 0 then - 1 else ret, False # same), m2)))
      | None \<Rightarrow>
          cbind (if created then Inr (True, m) else create_mode sh r m) (\<lambda>(ok, m1).
            if \<not> ok then Inr ((- 1, []), m1)
            else cbind (sprintf_c 256 (''xrandr --addmode '' @ devType d @ '' '' @ r)) (\<lambda>cmd.
                 let (r2, m2) = rj_system sh cmd m1
                 in if r2 < 0 then Inr ((- 1, []), m2)
                    else cbind (sprintf_c 256 (output_cmd d r)) (\<lambda>cmd2.
                         let (r3, m3) = rj_system sh cmd2 m2
                         in if r3 < 0 then Inr ((- 1, []), m3)
                            else cbind (set_loop sh r ds True m3) (\<lambda>((ret, same), m4).
                                   Inr ((ret, False # same), m4))))))"

definition core_setResolution :: "shell \<Rightarrow> string \<Rightarrow> 'a machine_scheme \<Rightarrow> (int \<times> 'a machine_scheme) cres" where
  "core_setResolution sh r m =
     (if r = [] then Inr (- 1, m)
      else cbind (core_getResolutionList sh m) (\<lambda>((g, devs), m1).
        if g < 0 \<or> devs = [] then Inr (- 1, m1)
        else cbind (set_loop sh r devs False m1) (\<lambda>((ret, same), m2).
          if list_all id same then Inr (if ret < 0 then - 1 else 0, m2)
          else cbind (dev_exec sh (''xrandr -q > '' @ XRANDR_OUTFILE) [] m2) (\<lambda>((cnt, _), m3).
                 Inr (if cnt < 0 \<or> ret < 0 then - 1 else 0, m3)))))"

subsection \<open>The video manager\<close>

record DevResInfo =
  dr_res :: string
  dr_flag :: "32 word"

definition final_flag :: "DevResInfo list \<Rightarrow> 32 word" where
  "final_flag xs = fold (\<lambda>d f. f OR dr_flag d) xs 0"

definition single_list :: "DevInfo \<Rightarrow> DevResInfo list" where
  "single_list d = map (\<lambda>i. \<lparr>dr_res = res i, dr_flag = res_flag i\<rparr>) (resList d)"

definition dual_list :: "DevInfo \<Rightarrow> DevInfo \<Rightarrow> DevResInfo list" where
  "dual_list d0 d1 =
     concat (map (\<lambda>i0. concat (map (\<lambda>i1.
       if res i0 = res i1 then [\<lparr>dr_res = res i0, dr_flag = res_flag i0 AND res_flag i1\<rparr>] else []) (resList d1)))
       (resList d0))"

text \<open>The first resolution is marked best or current when none is.\<close>

definition mark_default :: "DevResInfo list \<Rightarrow> DevResInfo list" where
  "mark_default xs =
     (case xs of [] \<Rightarrow> []
      | x # ys \<Rightarrow>
          let finalFlag = final_flag xs;
              f1 = (if finalFlag AND DEV_RES_BEST = 0 then dr_flag x OR DEV_RES_BEST else dr_flag x);
              f2 = (if finalFlag AND DEV_RES_CUR = 0 then f1 OR DEV_RES_CUR else f1)
          in x\<lparr>dr_flag := f2\<rparr> # ys)"

definition merge_devs :: "DevInfo list \<Rightarrow> int \<times> DevResInfo list" where
  "merge_devs devs =
     (case devs of
        [] \<Rightarrow> (0, [])
      | [d] \<Rightarrow> (0, mark_default (single_list d))
      | [d0, d1] \<Rightarrow> (0, mark_default (dual_list d0 d1))
      | _ \<Rightarrow> (- 1, []))"

definition getResolutionList ::
  "shell \<Rightarrow> 'a machine_scheme \<Rightarrow> ((int \<times> DevResInfo list) \<times> 'a machine_scheme) cres" where
  "getResolutionList sh m =
     cbind (core_getResolutionList sh m) (\<lambda>((ret, devs), m1).
       Inr (if ret < 0 then (- 1, []) else merge_devs devs, m1))"

definition getSupportResolution :: "shell \<Rightarrow> 'a machine_scheme \<Rightarrow> (string \<times> 'a machine_scheme) cres" where
  "getSupportResolution sh m =
     cbind (getResolutionList sh m) (\<lambda>((_, xs), m1). Inr (concat (map (\<lambda>d. dr_res d @ '';'') xs), m1))"

text \<open>The last resolution with a flag wins.\<close>

definition last_with :: "32 word \<Rightarrow> DevResInfo list \<Rightarrow> string" where
  "last_with flag xs = fold (\<lambda>d cur. if dr_flag d AND flag \<noteq> 0 then dr_res d else cur) xs []"

definition vm_getCurrentResolution :: "shell \<Rightarrow> 'a machine_scheme \<Rightarrow> (string \<times> 'a machine_scheme) cres" where
  "vm_getCurrentResolution sh m =
     cbind (getResolutionList sh m) (\<lambda>((_, xs), m1). Inr (last_with DEV_RES_CUR xs, m1))"

definition vm_getOptimumResolution :: "shell \<Rightarrow> 'a machine_scheme \<Rightarrow> (string \<times> 'a machine_scheme) cres" where
  "vm_getOptimumResolution sh m =
     cbind (getResolutionList sh m) (\<lambda>((_, xs), m1). Inr (last_with DEV_RES_BEST xs, m1))"

definition vm_setResolution :: "shell \<Rightarrow> string \<Rightarrow> 'a machine_scheme \<Rightarrow> (int \<times> 'a machine_scheme) cres" where
  "vm_setResolution sh r m = cbind (core_setResolution sh r m) (\<lambda>(ret, m1). Inr (if ret < 0 then - 1 else 0, m1))"

subsection \<open>Which resolution is current\<close>

definition mode_bit :: "32 word \<Rightarrow> bool" where
  "mode_bit f \<longleftrightarrow> f = DEV_RES_BEST \<or> f = DEV_RES_CUR"

lemma flag_bits [simp]:
  "x AND DEV_RES_BEST = 0 \<longleftrightarrow> \<not> bit x 0"
  "x AND DEV_RES_CUR = 0 \<longleftrightarrow> \<not> bit x 1"
  using and_exp_eq_0_iff_not_bit [of x 0] and_exp_eq_0_iff_not_bit [of x 1]
  by (simp_all add: DEV_RES_BEST_def DEV_RES_CUR_def)

lemma mode_bit_cases:
  assumes "mode_bit f"
  obtains n where "n < 2" "\<And>x. x AND f = 0 \<longleftrightarrow> \<not> bit x n"
proof -
  from assms consider "f = DEV_RES_BEST" | "f = DEV_RES_CUR" unfolding mode_bit_def by auto
  then show thesis
  proof cases
    case 1
    then show thesis by (intro that [of 0]) simp_all
  next
    case 2
    then show thesis by (intro that [of 1]) simp_all
  qed
qed

lemma mark_bits [simp]:
  "bit DEV_RES_BEST 0" "\<not> bit DEV_RES_BEST 1" "\<not> bit DEV_RES_CUR 0" "bit DEV_RES_CUR 1"
  by (simp_all add: DEV_RES_BEST_def DEV_RES_CUR_def)

lemma last_with_flagged:
  assumes "\<exists>d \<in> set xs. dr_flag d AND f \<noteq> 0"
  shows "\<exists>d \<in> set xs. dr_flag d AND f \<noteq> 0 \<and> last_with f xs = dr_res d"
  using assms
proof (induction xs rule: rev_induct)
  case (snoc x xs)
  then show ?case by (cases "dr_flag x AND f = 0") (auto simp: last_with_def)
qed simp

lemma final_flag_bit: "bit (final_flag xs) k \<longleftrightarrow> (\<exists>d \<in> set xs. bit (dr_flag d) k)"
  by (induction xs rule: rev_induct) (auto simp: final_flag_def bit_or_iff)

lemma mark_default_bits:
  assumes "xs \<noteq> []" "k < 2"
  shows "\<exists>d \<in> set (mark_default xs). bit (dr_flag d) k"
    and "d \<in> set (mark_default xs) \<Longrightarrow> bit (dr_flag d) k \<Longrightarrow> (\<exists>e \<in> set xs. bit (dr_flag e) k)
           \<Longrightarrow> \<exists>e \<in> set xs. bit (dr_flag e) k \<and> dr_res e = dr_res d"
    and "d \<in> set (mark_default xs) \<Longrightarrow> dr_res d \<in> dr_res ` set xs"
proof -
  from assms obtain x ys where xs: "xs = x # ys" by (cases xs) auto
  from assms have k: "k = 0 \<or> k = 1" by auto
  show "\<exists>d \<in> set (mark_default xs). bit (dr_flag d) k"
    using k final_flag_bit [of xs k]
    by (elim disjE) (auto simp: mark_default_def xs Let_def bit_or_iff simp del: One_nat_def)
  show "dr_res d \<in> dr_res ` set xs" if "d \<in> set (mark_default xs)"
    using that by (auto simp: mark_default_def xs Let_def)
  show "\<exists>e \<in> set xs. bit (dr_flag e) k \<and> dr_res e = dr_res d"
    if "d \<in> set (mark_default xs)" "bit (dr_flag d) k" "\<exists>e \<in> set xs. bit (dr_flag e) k"
    using that k final_flag_bit [of xs k]
    by (elim disjE) (auto simp: mark_default_def xs Let_def bit_or_iff simp del: One_nat_def split: if_splits)
qed

definition supported :: "DevInfo \<Rightarrow> string set" where
  "supported d = res ` set (resList d)"

definition flagged :: "32 word \<Rightarrow> DevInfo \<Rightarrow> string set" where
  "flagged f d = res ` {i \<in> set (resList d). res_flag i AND f \<noteq> 0}"

definition common :: "(DevInfo \<Rightarrow> string set) \<Rightarrow> DevInfo list \<Rightarrow> string set" where
  "common S devs = (\<Inter>d \<in> set devs. S d)"

definition plain_list :: "DevInfo list \<Rightarrow> DevResInfo list" where
  "plain_list devs = (case devs of [d] \<Rightarrow> single_list d | [d0, d1] \<Rightarrow> dual_list d0 d1 | _ \<Rightarrow> [])"

lemma merge_devs_plain:
  assumes "length devs \<le> 2"
  shows "merge_devs devs = (0, mark_default (plain_list devs))"
  using assms by (auto simp: merge_devs_def plain_list_def mark_default_def split: list.splits)

lemma dual_list_res:
  "(\<exists>d \<in> set (dual_list d0 d1). dr_res d = r \<and> P (dr_flag d))
   \<longleftrightarrow> (\<exists>i0 \<in> set (resList d0). \<exists>i1 \<in> set (resList d1). res i0 = r \<and> res i1 = r \<and> P (res_flag i0 AND res_flag i1))"
  by (fastforce simp: dual_list_def split: if_splits)

lemma plain_list_common:
  assumes "length devs \<le> 2" "devs \<noteq> []" "mode_bit f"
  shows "dr_res ` set (plain_list devs) = common supported devs"
    and "dr_res ` {d \<in> set (plain_list devs). dr_flag d AND f \<noteq> 0} = common (flagged f) devs"
proof -
  obtain n where f: "\<And>x. x AND f = 0 \<longleftrightarrow> \<not> bit x n" using mode_bit_cases [OF assms(3)] by metis
  from assms consider d where "devs = [d]" | d0 d1 where "devs = [d0, d1]"
    by (cases devs; cases "tl devs") auto
  then have "dr_res ` set (plain_list devs) = common supported devs
    \<and> dr_res ` {d \<in> set (plain_list devs). dr_flag d AND f \<noteq> 0} = common (flagged f) devs"
  proof cases
    case 1
    then show ?thesis
      by (force simp: plain_list_def single_list_def common_def supported_def flagged_def)
  next
    case 2
    have im: "r \<in> dr_res ` {d \<in> set (dual_list d0 d1). P (dr_flag d)} \<longleftrightarrow>
        (\<exists>i0 \<in> set (resList d0). \<exists>i1 \<in> set (resList d1). res i0 = r \<and> res i1 = r \<and> P (res_flag i0 AND res_flag i1))"
      for P r unfolding dual_list_res [of d0 d1 r P, symmetric] by (auto simp: image_iff)
    have "dr_res ` set (dual_list d0 d1) = supported d0 \<inter> supported d1"
      using im [of _ "\<lambda>_. True"] by (simp add: set_eq_iff supported_def image_iff) metis
    moreover have "dr_res ` {d \<in> set (dual_list d0 d1). dr_flag d AND f \<noteq> 0} = flagged f d0 \<inter> flagged f d1"
      using im [of _ "\<lambda>g. bit g n"] by (simp add: set_eq_iff flagged_def f bit_and_iff image_iff) metis
    ultimately show ?thesis by (simp add: 2 plain_list_def common_def)
  qed
  then show "dr_res ` set (plain_list devs) = common supported devs"
    "dr_res ` {d \<in> set (plain_list devs). dr_flag d AND f \<noteq> 0} = common (flagged f) devs" by auto
qed

lemma last_with_common:
  assumes "length devs \<le> 2" "devs \<noteq> []" "mode_bit f" "common supported devs \<noteq> {}"
  shows "last_with f (snd (merge_devs devs))
           \<in> (if common (flagged f) devs = {} then common supported devs else common (flagged f) devs)"
proof -
  obtain n where n: "n < 2" and f: "\<And>x. x AND f = 0 \<longleftrightarrow> \<not> bit x n"
    using mode_bit_cases [OF assms(3)] by metis
  note pl = plain_list_common [OF assms(1-3)]
  let ?xs = "plain_list devs"
  have ne: "?xs \<noteq> []" using pl(1) assms(4) by auto
  obtain d where d: "d \<in> set (mark_default ?xs)" "bit (dr_flag d) n" "last_with f (mark_default ?xs) = dr_res d"
    using last_with_flagged [of "mark_default ?xs" f] mark_default_bits(1) [OF ne n] by (auto simp: f)
  have mem: "dr_res d \<in> common supported devs"
    using mark_default_bits(3) [OF ne n d(1)] pl(1) by blast
  have "dr_res d \<in> common (flagged f) devs" if "common (flagged f) devs \<noteq> {}"
  proof -
    from that have "\<exists>e \<in> set ?xs. bit (dr_flag e) n" unfolding pl(2) [symmetric] by (auto simp: f)
    from mark_default_bits(2) [OF ne n d(1,2) this] show ?thesis
      unfolding pl(2) [symmetric] by (auto simp: f image_iff)
  qed
  with mem d(3) show ?thesis by (simp add: merge_devs_plain assms(1))
qed

lemma core_getResolutionList_cat:
  assumes "files m XRANDR_OUTFILE \<noteq> None"
    and "sh (''cat '' @ XRANDR_OUTFILE) [] (files m) = Some (concat (map (\<lambda>l. l @ [newline]) ls), 0, files m)"
    and "list_all dev_line ls" and "parse_xrandr ls = Inr devs"
  shows "core_getResolutionList sh m = Inr ((0, devs), m\<lparr>runs := runs m @ [''cat '' @ XRANDR_OUTFILE]\<rparr>)"
  using assms
  by (simp add: core_getResolutionList_def file_exists_def dev_exec_def popen_def dev_exec_lines_unlines)

text \<open>A machine on which \<^verbatim>\<open>xrandr\<close> printed two monitors.\<close>

definition ex_xrandr :: "string list" where
  "ex_xrandr =
     [''Screen 0: minimum 320 x 200, current 1920 x 1080, maximum 8192 x 8192'',
      ''HDMI-1 connected primary'',
      ''   1920x1080     60.00 +  50.00  '',
      ''   1280x1024     75.02*   60.02  '',
      ''VGA-1 connected'',
      ''   1920x1080     60.00*+'',
      ''   1280x1024     60.02  '',
      ''VIRTUAL1 disconnected'']"

definition ex_video :: machine where
  "ex_video = ex_machine\<lparr>files := [XRANDR_OUTFILE \<mapsto> concat (map (\<lambda>l. l @ [newline]) ex_xrandr)]\<rparr>"

definition ex_video_sh :: shell where
  "ex_video_sh cmd inp fs = Some (case fs XRANDR_OUTFILE of None \<Rightarrow> [] | Some t \<Rightarrow> t, 0, fs)"

definition ex_devs :: "DevInfo list" where
  "ex_devs =
     [\<lparr>devType = ''HDMI-1'', resList =
         [\<lparr>res = ''1920x1080'', res_flag = 1,
            rateList = [\<lparr>rate = ''60.00'', rate_flag = 1\<rparr>, \<lparr>rate = ''50.00'', rate_flag = 0\<rparr>]\<rparr>,
          \<lparr>res = ''1280x1024'', res_flag = 2,
            rateList = [\<lparr>rate = ''75.02'', rate_flag = 2\<rparr>, \<lparr>rate = ''60.02'', rate_flag = 0\<rparr>]\<rparr>]\<rparr>,
      \<lparr>devType = ''VGA-1'', resList =
         [\<lparr>res = ''1920x1080'', res_flag = 3, rateList = [\<lparr>rate = ''60.00'', rate_flag = 3\<rparr>]\<rparr>,
          \<lparr>res = ''1280x1024'', res_flag = 0, rateList = [\<lparr>rate = ''60.02'', rate_flag = 0\<rparr>]\<rparr>]\<rparr>]"

lemma ex_video_devs:
  "core_getResolutionList ex_video_sh ex_video =
     Inr ((0, ex_devs), ex_video\<lparr>runs := [''cat '' @ XRANDR_OUTFILE]\<rparr>)"
proof -
  have "list_all dev_line ex_xrandr" by code_simp
  moreover have "parse_xrandr ex_xrandr = Inr ex_devs" by code_simp
  ultimately show ?thesis
    using core_getResolutionList_cat [of ex_video ex_video_sh ex_xrandr ex_devs]
    by (simp add: ex_video_def ex_video_sh_def ex_machine_def)
qed

text \<open>
  C16. With one or two monitors that share a resolution, the current and the
  optimum resolution that the video manager reports are resolutions that
  every connected monitor supports; when some resolution is marked current
  (best) on every monitor, the reported one is such a resolution.
\<close>

theorem resolution_choice:
  assumes "core_getResolutionList sh m = Inr ((0, devs), m')"
    and "length devs \<le> 2" "devs \<noteq> []" "common supported devs \<noteq> {}"
  shows "\<exists>cur opt. vm_getCurrentResolution sh m = Inr (cur, m') \<and> vm_getOptimumResolution sh m = Inr (opt, m')
    \<and> cur \<in> common supported devs \<and> opt \<in> common supported devs
    \<and> (common (flagged DEV_RES_CUR) devs \<noteq> {} \<longrightarrow> cur \<in> common (flagged DEV_RES_CUR) devs)
    \<and> (common (flagged DEV_RES_BEST) devs \<noteq> {} \<longrightarrow> opt \<in> common (flagged DEV_RES_BEST) devs)"
proof -
  have sub: "common (flagged f) devs \<subseteq> common supported devs" for f
    by (auto simp: common_def flagged_def supported_def)
  note c = last_with_common [OF assms(2,3) _ assms(4), of DEV_RES_CUR]
    and b = last_with_common [OF assms(2,3) _ assms(4), of DEV_RES_BEST]
  show ?thesis
    using c b sub [of DEV_RES_CUR] sub [of DEV_RES_BEST]
    by (cases "merge_devs devs")
       (auto simp: vm_getCurrentResolution_def vm_getOptimumResolution_def getResolutionList_def assms(1)
          mode_bit_def split: if_splits)
qed

theorem resolution_choice_witness:
  "\<exists>m' cur opt. vm_getCurrentResolution ex_video_sh ex_video = Inr (cur, m')
    \<and> vm_getOptimumResolution ex_video_sh ex_video = Inr (opt, m')
    \<and> cur \<in> common supported ex_devs \<and> opt \<in> common (flagged DEV_RES_BEST) ex_devs"
proof -
  have c: "common supported ex_devs = {''1920x1080'', ''1280x1024''}"
    "common (flagged DEV_RES_BEST) ex_devs = {''1920x1080''}"
    by (auto simp: common_def supported_def flagged_def ex_devs_def image_iff conj_disj_distribR ex_disj_distrib)
  show ?thesis
    using resolution_choice [OF ex_video_devs] c by (auto simp: ex_devs_def)
qed

subsection \<open>Reading the output of xrandr\<close>

lemma rfind_space_le: "pos_next (str_rfind_space p s) \<le> length s"
proof -
  have "length (takeWhile (\<lambda>c. c \<noteq> CHR '' '') (rev (take (Suc p) s))) \<le> length (take (Suc p) s)"
    using length_takeWhile_le [of _ "rev (take (Suc p) s)"] by simp
  then show ?thesis by (auto simp: str_rfind_space_def pos_next_def Let_def)
qed

lemma str_substr_ok: "pos \<le> length s \<Longrightarrow> \<exists>t. str_substr pos n s = Inr t"
  by (simp add: str_substr_def)

lemma rates_loop_step:
  assumes "str_find ''.'' 0 s = Some p0" and m: "rate_mark p0 (str_rfind_space p0 s) s = (flag, p1, nx)"
  obtains r' where "rates_loop s r = rates_loop (drop nx s) r'" and "res r' = res r"
    and "res_flag r' = res_flag r OR flag" and "length (drop nx s) < length s"
proof -
  have p0: "p0 < length s" using str_find_Some(2) [OF assms(1)] by simp
  note nx = rate_mark_next [OF m p0]
  obtain a where a: "str_substr (pos_next (str_rfind_space p0 s))
      (pos_diff (Some p0) (pos_next (str_rfind_space p0 s))) s = Inr a"
    using str_substr_ok [OF rfind_space_le] by blast
  obtain b where b: "str_substr (p0 + 1) (pos_diff p1 (p0 + 1)) s = Inr b"
    using str_substr_ok [of "p0 + 1" s] p0 by fastforce
  have c: "str_substr nx None s = Inr (drop nx s)" using nx by (simp add: str_substr_def)
  let ?r = "r\<lparr>res_flag := res_flag r OR flag,
    rateList := rateList r @ [\<lparr>rate = a @ ''.'' @ b, rate_flag = flag\<rparr>]\<rparr>"
  have "rates_loop s r = (if drop nx s = [] then Inr ?r else rates_loop (drop nx s) ?r)"
    by (subst rates_loop.simps) (simp add: assms a b [simplified] c Let_def del: drop_eq_Nil)
  also have "\<dots> = rates_loop (drop nx s) ?r"
    by (auto simp: rates_loop.simps [of "[]"] str_find_def)
  finally show thesis using nx p0 by (intro that [of ?r]) auto
qed

lemma rates_loop_total: "\<exists>r'. rates_loop s r = Inr r' \<and> res r' = res r"
proof (induction "length s" arbitrary: s r rule: less_induct)
  case less
  show ?case
  proof (cases "str_find ''.'' 0 s")
    case None
    then show ?thesis by (simp add: rates_loop.simps)
  next
    case (Some p0)
    obtain flag p1 nx where m: "rate_mark p0 (str_rfind_space p0 s) s = (flag, p1, nx)" by (metis surj_pair)
    from rates_loop_step [OF Some m, of r] less show ?thesis by metis
  qed
qed

definition width_of :: "string \<Rightarrow> 32 word" where
  "width_of r = word_of_int (atoi r)"

definition height_of :: "string \<Rightarrow> 32 word" where
  "height_of r = word_of_int (atoi (tl (dropWhile (\<lambda>c. c \<noteq> CHR ''x'') r)))"

definition dev_ok :: "DevInfo \<Rightarrow> bool" where
  "dev_ok d = list_all (\<lambda>i. IS_SUPPORTED_RES (width_of (res i)) (height_of (res i))) (resList d)"

lemma str_find_char_first:
  assumes "str_find [c] 0 s = Some p"
  shows "p < length s" and "c \<notin> set (take p s)" and "s ! p = c"
proof -
  show "p < length s" using str_find_Some(2) [OF assms] by simp
  show "s ! p = c" using assms find_sub_Some [of "[c]" s p] by (auto simp: str_find_def option.map_ident nth_append)
  have "find_sub [c] s = Some p \<Longrightarrow> c \<notin> set (take p s)"
    by (induction s arbitrary: p) (auto split: if_splits)
  then show "c \<notin> set (take p s)" using assms by (simp add: str_find_def option.map_ident)
qed

lemma mode_name_total:
  assumes "str_find ''x'' 0 s = Some p0"
  shows "\<exists>name w h bi. mode_name s p0 = Inr (name, w, h, bi) \<and> w = width_of name
    \<and> (\<not> bi \<longrightarrow> h = height_of name)"
proof -
  note p0 = str_find_char_first [OF assms]
  let ?q = "pos_next (str_rfind_space p0 s)"
  obtain a where a: "str_substr ?q (pos_diff (Some p0) ?q) s = Inr a"
    using str_substr_ok [OF rfind_space_le] by blast
  obtain b where b: "str_substr (p0 + 1) (pos_diff (str_find '' '' p0 s) (p0 + 1)) s = Inr b"
    using str_substr_ok [of "p0 + 1" s] p0 by fastforce
  have q: "?q \<le> p0"
  proof -
    have sp: "takeWhile (\<lambda>c. c \<noteq> CHR '' '') (rev (take (Suc p0) s)) \<noteq> []"
      using p0(1,3) by (simp add: take_Suc_conv_app_nth)
    then show ?thesis
      using length_takeWhile_le [of "\<lambda>c. c \<noteq> CHR '' ''" "rev (take (Suc p0) s)"] p0(1)
      by (cases "takeWhile (\<lambda>c. c \<noteq> CHR '' '') (rev (take (Suc p0) s))")
         (auto simp: str_rfind_space_def pos_next_def Let_def min_def)
  qed
  have "a = take (p0 - ?q) (drop ?q s)" using str_substr_Inr [OF a] q by (simp add: pos_diff_def)
  then have "set a \<subseteq> set (take p0 s)" using q by (simp add: take_drop set_drop_subset)
  then have "CHR ''x'' \<notin> set a" using p0(2) by blast
  then have "dropWhile (\<lambda>c. c \<noteq> CHR ''x'') (a @ CHR ''x'' # b) = CHR ''x'' # b" by (subst dropWhile_append2) auto
  then show ?thesis by (simp add: mode_name_def a b [simplified] Let_def width_of_def height_of_def)
qed

definition scan_ok :: "vscan \<Rightarrow> bool" where
  "scan_ok v \<longleftrightarrow> list_all dev_ok (devList v) \<and> dev_ok (devInfo v)"

lemma scan_line_ok:
  assumes "scan_ok v"
  shows "\<exists>stop v'. scan_line it v = Inr (stop, v') \<and> scan_ok v'"
proof (cases "has ''VIRTUAL1'' it \<or> has '' disconnected'' it \<or> str_find '' connected'' 0 it \<noteq> None
    \<or> str_find ''x'' 0 it = None \<or> \<not> isConnected v \<or> has '' x '' it")
  case True
  then show ?thesis using assms
    by (auto simp: scan_line_def scan_ok_def dev_ok_def clear_dev_def Let_def split: option.splits)
next
  case False
  then obtain p0 where x: "str_find ''x'' 0 it = Some p0" by auto
  from mode_name_total [OF this] obtain name w h bi where
    mn: "mode_name it p0 = Inr (name, w, h, bi)" "w = width_of name" "\<not> bi \<longrightarrow> h = height_of name" by blast
  obtain r where r: "rates_loop it \<lparr>res = name, res_flag = 0, rateList = []\<rparr> = Inr r" "res r = name"
    using rates_loop_total [of it "\<lparr>res = name, res_flag = 0, rateList = []\<rparr>"] by auto
  show ?thesis using assms False x mn r
    by (auto simp: scan_line_def scan_ok_def dev_ok_def)
qed

lemma scan_lines_ok: "scan_ok v \<Longrightarrow> \<exists>v'. scan_lines its v = Inr v' \<and> scan_ok v'"
proof (induction its arbitrary: v)
  case (Cons it its)
  from scan_line_ok [OF Cons.prems, of it] obtain stop v' where
    "scan_line it v = Inr (stop, v')" "scan_ok v'" by blast
  with Cons.IH [of v'] show ?case by (cases stop) auto
qed simp

text \<open>
  C37. Whatever \<^verbatim>\<open>xrandr\<close> prints, reading its output raises no exception of
  \<^verbatim>\<open>std::string\<close>, ends, and lists only resolutions that are wide and high enough to be
  supported.
\<close>

theorem xrandr_read_safe:
  "\<exists>devs. parse_xrandr ls = Inr devs \<and> list_all dev_ok devs"
proof -
  have "scan_ok \<lparr>devCnt = 0, isConnected = False, devInfo = clear_dev, devList = []\<rparr>"
    by (simp add: scan_ok_def dev_ok_def clear_dev_def)
  from scan_lines_ok [OF this, of ls] show ?thesis
    by (auto simp: parse_xrandr_def scan_ok_def)
qed

subsection \<open>The marks of the refresh rates\<close>

text \<open>
  \<^verbatim>\<open>xrandr\<close> prints a rate as a padded number with two marks: a star or a blank for the
  current rate and a plus or a blank for the preferred one.
\<close>

type_synonym rate_text = "string \<times> bool \<times> bool"

definition rate_chars :: "rate_text \<Rightarrow> string" where
  "rate_chars r = (case r of (h, cur, pref) \<Rightarrow>
     h @ [if cur then CHR ''*'' else CHR '' '', if pref then CHR ''+'' else CHR '' ''])"

definition rates_text :: "rate_text list \<Rightarrow> string" where
  "rates_text rs = concat (map rate_chars rs)"

definition num_char :: "char \<Rightarrow> bool" where
  "num_char c \<longleftrightarrow> isdigit c \<or> c = CHR ''.'' \<or> c = CHR '' ''"

definition rate_head :: "string \<Rightarrow> bool" where
  "rate_head h \<longleftrightarrow> (\<exists>a b. h = CHR '' '' # a @ CHR ''.'' # b
     \<and> list_all (\<lambda>c. isdigit c \<or> c = CHR '' '') a \<and> list_all isdigit b)"

text \<open>The marks that the loop sees: a star before the last lone plus is lost.\<close>

definition has_mark :: "(bool \<Rightarrow> bool \<Rightarrow> bool) \<Rightarrow> rate_text list \<Rightarrow> bool" where
  "has_mark Q rs = list_ex (\<lambda>(h, cur, pref). Q cur pref) rs"

definition cur_kept :: "rate_text list \<Rightarrow> bool \<Rightarrow> bool" where
  "cur_kept rs = fold (\<lambda>(h, cur, pref) kept. \<not> pref \<and> (kept \<or> cur)) rs"

definition seen_marks :: "rate_text list \<Rightarrow> 32 word" where
  "seen_marks rs =
     (if has_mark (\<lambda>cur pref. cur \<and> pref) rs then DEV_RES_BEST OR DEV_RES_CUR
      else (if has_mark (\<lambda>cur pref. pref) rs then DEV_RES_BEST else 0)
           OR (if cur_kept rs False then DEV_RES_CUR else 0))"

fun first_mark :: "(bool \<Rightarrow> bool \<Rightarrow> bool) \<Rightarrow> rate_text list \<Rightarrow> (nat \<times> rate_text list) option" where
  "first_mark Q [] = None"
| "first_mark Q ((h, cur, pref) # rs) =
     (if Q cur pref then Some (length h, rs)
      else map_option (\<lambda>(i, r). (length h + 2 + i, r)) (first_mark Q rs))"

lemma num_char_simps [simp]: "\<not> num_char (CHR ''*'')" "\<not> num_char (CHR ''+'')"
  by (simp_all add: num_char_def isdigit_def)

lemma find_sub_clean:
  assumes "list_all num_char h" and "q \<in> {''*+'', '' +'', ''*''}" and "y \<noteq> []" "hd y \<noteq> CHR ''+''"
  shows "find_sub q (h @ y) = map_option ((+) (length h)) (find_sub q y)"
proof (rule find_sub_skip)
  fix i assume i: "i < length h"
  then have d: "drop i (h @ y) = h ! i # drop (Suc i) h @ y" by (simp add: Cons_nth_drop_Suc)
  have n: "num_char (h ! i)" using assms(1) i by (simp add: list_all_length)
  have "drop (Suc i) h @ y \<noteq> []" "hd (drop (Suc i) h @ y) \<noteq> CHR ''+''"
    using assms i by (auto simp: list_all_length hd_append hd_drop_conv_nth not_le)
  then obtain c t where "drop (Suc i) h @ y = c # t" "c \<noteq> CHR ''+''" by (cases "drop (Suc i) h @ y") auto
  with d n assms(2) show "\<not> prefix_of q (drop i (h @ y))" by (auto simp: num_char_def isdigit_def prefix_of_iff)
qed (use assms(2) in auto)

lemma rates_text_simps [simp]:
  "rates_text [] = []" "rates_text (r # rs) = rate_chars r @ rates_text rs"
  by (simp_all add: rates_text_def)

lemma find_first_mark:
  assumes "list_all (\<lambda>(h, _). list_all num_char h) rs"
    and "list_all (\<lambda>(h, _). h \<noteq> [] \<and> hd h = CHR '' '') (tl rs)"
  shows "find_sub ''*+'' (rates_text rs) = map_option fst (first_mark (\<lambda>c p. c \<and> p) rs)
    \<and> find_sub '' +'' (rates_text rs) = map_option fst (first_mark (\<lambda>c p. \<not> c \<and> p) rs)
    \<and> find_sub ''*'' (rates_text rs) = map_option fst (first_mark (\<lambda>c p. c) rs)"
  using assms
proof (induction rs)
  case (Cons r rs)
  obtain h c p where r: "r = (h, c, p)" by (metis surj_pair)
  obtain y where y: "rates_text rs = y" "y = [] \<or> hd y = CHR '' ''"
    using Cons.prems(2) by (cases rs) (auto simp: rate_chars_def)
  note sk = find_sub_clean [of h _ "[if c then CHR ''*'' else CHR '' '', if p then CHR ''+'' else CHR '' ''] @ y"]
  have h: "list_all num_char h" using Cons.prems r by simp
  have tl: "list_all (\<lambda>(h, _). list_all num_char h) rs"
    "list_all (\<lambda>(h, _). h \<noteq> [] \<and> hd h = CHR '' '') (tl rs)"
    using Cons.prems by (simp, cases rs) auto
  note IH = Cons.IH [OF tl]
  note s = r rate_chars_def option.map_comp comp_def case_prod_unfold
  have "find_sub ''*+'' (rates_text (r # rs)) = map_option fst (first_mark (\<lambda>c p. c \<and> p) (r # rs))"
    using sk [of "''*+''"] h y IH by (cases y) (auto simp: s)
  moreover have "find_sub '' +'' (rates_text (r # rs)) = map_option fst (first_mark (\<lambda>c p. \<not> c \<and> p) (r # rs))"
    using sk [of "'' +''"] h y IH by (cases y) (auto simp: s)
  moreover have "find_sub ''*'' (rates_text (r # rs)) = map_option fst (first_mark (\<lambda>c p. c) (r # rs))"
    using sk [of "''*''"] h y IH by (cases y) (auto simp: s)
  ultimately show ?case by blast
qed simp

lemma first_mark_split:
  "first_mark Q rs = Some (i, r) \<Longrightarrow> \<exists>pre h c p. rs = pre @ (h, c, p) # r \<and> Q c p
     \<and> \<not> has_mark Q pre \<and> i = length (rates_text pre) + length h"
proof (induction rs arbitrary: i)
  case (Cons x rs)
  obtain h c p where x: "x = (h, c, p)" by (metis surj_pair)
  show ?case
  proof (cases "Q c p")
    case True
    with Cons.prems x show ?thesis by (intro exI [of _ "[]"] exI [of _ h] exI [of _ c] exI [of _ p]) (auto simp: has_mark_def)
  next
    case False
    with Cons.prems x obtain j where j: "first_mark Q rs = Some (j, r)" "i = length h + 2 + j" by auto
    from Cons.IH [OF j(1)] obtain pre h' c' p' where "rs = pre @ (h', c', p') # r" "Q c' p'"
      "\<not> has_mark Q pre" "j = length (rates_text pre) + length h'" by blast
    with x False j(2) show ?thesis
      by (intro exI [of _ "x # pre"] exI [of _ h'] exI [of _ c'] exI [of _ p']) (auto simp: rate_chars_def has_mark_def)
  qed
qed simp

lemma first_mark_None: "first_mark Q rs = None \<longleftrightarrow> \<not> has_mark Q rs"
  by (induction Q rs rule: first_mark.induct) (auto simp: has_mark_def)

lemma has_mark_simps [simp]:
  "\<not> has_mark Q []" "has_mark Q ((h, c, p) # rs) \<longleftrightarrow> Q c p \<or> has_mark Q rs"
  "has_mark Q (rs @ rs') \<longleftrightarrow> has_mark Q rs \<or> has_mark Q rs'"
  by (simp_all add: has_mark_def)

lemma has_mark_pref: "has_mark (\<lambda>c p. p) rs \<longleftrightarrow> has_mark (\<lambda>c p. c \<and> p) rs \<or> has_mark (\<lambda>c p. \<not> c \<and> p) rs"
proof (induction rs)
  case (Cons x rs)
  then show ?case by (cases x) auto
qed simp

lemma has_mark_mem: "(h, c, p) \<in> set rs \<Longrightarrow> Q c p \<Longrightarrow> has_mark Q rs"
  by (force simp: has_mark_def list_ex_iff)

lemma cur_kept_simps [simp]:
  "cur_kept [] k = k" "cur_kept ((h, c, p) # rs) k = cur_kept rs (\<not> p \<and> (k \<or> c))"
  "cur_kept (rs @ rs') k = cur_kept rs' (cur_kept rs k)"
  by (simp_all add: cur_kept_def)

lemma cur_kept_lone: "\<not> has_mark (\<lambda>c p. p) rs \<Longrightarrow> cur_kept rs k \<longleftrightarrow> k \<or> has_mark (\<lambda>c p. c) rs"
proof (induction rs arbitrary: k)
  case (Cons x rs)
  then show ?case by (cases x) simp
qed simp

lemma seen_marks_head: "seen_marks ((h, c, p) # rs) = seen_marks ((h', c, p) # rs)"
  by (simp add: seen_marks_def)

lemma seen_marks_both:
  assumes "first_mark (\<lambda>c p. c \<and> p) rs = Some (i, r)"
  shows "seen_marks rs = (DEV_RES_BEST OR DEV_RES_CUR) OR seen_marks r"
proof -
  have "has_mark (\<lambda>c p. c \<and> p) rs" using assms first_mark_None [of "\<lambda>c p. c \<and> p" rs] by auto
  then show ?thesis by (simp add: seen_marks_def DEV_RES_BEST_def DEV_RES_CUR_def)
qed

lemma seen_marks_best:
  assumes "first_mark (\<lambda>c p. c \<and> p) rs = None" and "first_mark (\<lambda>c p. \<not> c \<and> p) rs = Some (i, r)"
  shows "seen_marks rs = DEV_RES_BEST OR seen_marks r"
proof -
  from first_mark_split [OF assms(2)] obtain pre h where rs: "rs = pre @ (h, False, True) # r" by auto
  have "\<not> has_mark (\<lambda>c p. c \<and> p) rs" using assms(1) by (simp add: first_mark_None)
  then show ?thesis by (simp add: rs seen_marks_def DEV_RES_BEST_def DEV_RES_CUR_def)
qed

lemma seen_marks_cur:
  assumes "first_mark (\<lambda>c p. c \<and> p) rs = None" "first_mark (\<lambda>c p. \<not> c \<and> p) rs = None"
    and "first_mark (\<lambda>c p. c) rs = Some (i, r)"
  shows "seen_marks rs = DEV_RES_CUR OR seen_marks r"
proof -
  from first_mark_split [OF assms(3)] obtain pre h p where rs: "rs = pre @ (h, True, p) # r" by auto
  have "\<not> has_mark (\<lambda>c p. p) rs" using assms(1,2) by (simp add: first_mark_None has_mark_pref)
  then show ?thesis using assms(1)
    by (simp add: rs first_mark_None cur_kept_lone seen_marks_def DEV_RES_BEST_def DEV_RES_CUR_def)
qed

lemma seen_marks_none:
  assumes "first_mark (\<lambda>c p. c) rs = None" "first_mark (\<lambda>c p. \<not> c \<and> p) rs = None"
  shows "seen_marks rs = 0"
proof -
  have n: "\<not> has_mark (\<lambda>c p. c) rs" "\<not> has_mark (\<lambda>c p. \<not> c \<and> p) rs" using assms by (simp_all add: first_mark_None)
  then have "\<not> has_mark (\<lambda>c p. c \<and> p) rs" by (force simp: has_mark_def list_ex_iff)
  then show ?thesis using n has_mark_pref [of rs] cur_kept_lone [of rs False] by (simp add: seen_marks_def)
qed

lemma find_sub_char: "c \<notin> set x \<Longrightarrow> find_sub [c] (x @ c # y) = Some (length x)"
  by (induction x) auto

lemma rate_head_num: "rate_head h \<Longrightarrow> list_all num_char h \<and> h \<noteq> [] \<and> hd h = CHR '' ''"
  by (auto simp: rate_head_def num_char_def list_all_iff)

lemma first_mark_rest:
  assumes "first_mark Q rs = Some (i, r)"
  shows "\<exists>c p. (\<exists>h. (h, c, p) \<in> set rs) \<and> Q c p \<and> drop (i + 2) (rates_text rs) = rates_text r
    \<and> drop (Suc i) (rates_text rs) = (if p then CHR ''+'' else CHR '' '') # rates_text r"
    and "length r < length rs" and "set r \<subseteq> set rs"
proof -
  from first_mark_split [OF assms] obtain pre h c p where
    rs: "rs = pre @ (h, c, p) # r" "Q c p" "i = length (rates_text pre) + length h" by blast
  then show "length r < length rs" "set r \<subseteq> set rs" by auto
  have "rates_text rs = (rates_text pre @ h) @
      [if c then CHR ''*'' else CHR '' '', if p then CHR ''+'' else CHR '' ''] @ rates_text r"
    by (simp add: rs rates_text_def rate_chars_def)
  then show "\<exists>c p. (\<exists>h. (h, c, p) \<in> set rs) \<and> Q c p \<and> drop (i + 2) (rates_text rs) = rates_text r
    \<and> drop (Suc i) (rates_text rs) = (if p then CHR ''+'' else CHR '' '') # rates_text r"
    using rs by (intro exI [of _ c] exI [of _ p]) auto
qed

lemma rate_mark_chunks:
  assumes t: "t = x @ rates_text rs" and rs: "rs = (CHR ''.'' # b, c, p) # rs'" and b: "list_all isdigit b"
    and rs': "list_all (\<lambda>(h, _). rate_head h) rs'"
  shows "\<exists>flag e nx sp rs2. rate_mark (length x) q t = (flag, e, nx)
    \<and> drop nx t = sp @ rates_text rs2 \<and> set sp \<subseteq> {CHR '' ''} \<and> length rs2 < length rs
    \<and> set rs2 \<subseteq> set rs' \<and> seen_marks rs = flag OR seen_marks rs2"
proof -
  let ?both = "\<lambda>c p. c \<and> p" and ?best = "\<lambda>c p. \<not> c \<and> p" and ?cur = "\<lambda>c p::bool. c"
  have "list_all (\<lambda>(h, _). list_all num_char h) rs" "list_all (\<lambda>(h, _). h \<noteq> [] \<and> hd h = CHR '' '') (tl rs)"
    using rs b rs' rate_head_num by (force simp: rs list_all_iff num_char_def)+
  note ff = find_first_mark [OF this]
  have sf: "str_find y (length x) t = map_option ((+) (length x)) (find_sub y (rates_text rs))" for y
    by (simp add: str_find_def t)
  have tail: "set r \<subseteq> set rs'" if "first_mark Q rs = Some (i, r)" for Q i r
    using first_mark_rest(2,3) [OF that] first_mark_split [OF that] by (auto simp: rs Cons_eq_append_conv)
  show ?thesis
  proof (cases "first_mark ?both rs")
    case (Some a)
    then obtain i r where f: "first_mark ?both rs = Some (i, r)" by (cases a) auto
    with ff sf have "rate_mark (length x) q t = (DEV_RES_BEST OR DEV_RES_CUR, Some (length x + i), length x + i + 2)"
      by (simp add: rate_mark_def)
    moreover have "drop (length x + i + 2) t = [] @ rates_text r" using first_mark_rest(1) [OF f] by (auto simp: t)
    ultimately show ?thesis using first_mark_rest(2) [OF f] tail [OF f] seen_marks_both [OF f] by (metis empty_set empty_subsetI)
  next
    case nb: None
    show ?thesis
    proof (cases "first_mark ?best rs")
      case (Some a)
      then obtain i r where f: "first_mark ?best rs = Some (i, r)" by (cases a) auto
      with ff sf nb have "rate_mark (length x) q t = (DEV_RES_BEST, Some (length x + i), length x + i + 2)"
        by (simp add: rate_mark_def)
      moreover have "drop (length x + i + 2) t = [] @ rates_text r" using first_mark_rest(1) [OF f] by (auto simp: t)
      ultimately show ?thesis
        using first_mark_rest(2) [OF f] tail [OF f] seen_marks_best [OF nb f] by (metis empty_set empty_subsetI)
    next
      case np: None
      show ?thesis
      proof (cases "first_mark ?cur rs")
        case (Some a)
        then obtain i r where f: "first_mark ?cur rs = Some (i, r)" by (cases a) auto
        with ff sf nb np have "rate_mark (length x) q t = (DEV_RES_CUR, Some (length x + i), length x + i + 1)"
          by (simp add: rate_mark_def)
        moreover obtain h c p where "(h, c, p) \<in> set rs" "c"
          "drop (Suc i) (rates_text rs) = (if p then CHR ''+'' else CHR '' '') # rates_text r"
          using first_mark_rest(1) [OF f] by blast
        then have "drop (length x + i + 1) t = '' '' @ rates_text r"
          using nb has_mark_mem [of h c p rs ?both] by (simp add: t first_mark_None split: if_splits)
        ultimately show ?thesis
          using first_mark_rest(2) [OF f] tail [OF f] seen_marks_cur [OF nb np f]
          by (metis list.set empty_subsetI insert_subset singletonI)
      next
        case None
        then have cp: "\<not> c" "\<not> p" using np by (auto simp: rs split: if_splits)
        have "CHR '' '' \<notin> set (CHR ''.'' # b)" using b by (force simp: list_all_iff isdigit_def)
        then have "find_sub '' '' (CHR ''.'' # b @ CHR '' '' # y) = Some (Suc (length b))" for y
          using find_sub_char [of "CHR '' ''" "CHR ''.'' # b" y] by simp
        then have "rate_mark (length x) q t = (0, Some (length x + Suc (length b)), length x + Suc (length b) + 1)"
          using ff sf nb np None cp by (simp add: rate_mark_def rs rate_chars_def)
        moreover have "drop (length x + Suc (length b) + 1) t = '' '' @ rates_text rs'"
          using cp by (simp add: t rs rate_chars_def)
        moreover have "seen_marks rs' = 0"
          using None np by (intro seen_marks_none) (auto simp: rs split: if_splits)
        ultimately show ?thesis using seen_marks_none [OF None np]
          by (intro exI [of _ 0] exI [of _ "'' ''"] exI [of _ rs'] exI) (auto simp: rs)
      qed
    qed
  qed
qed

lemma rates_loop_marks:
  assumes "list_all (\<lambda>(h, _). rate_head h) rs" and "CHR ''.'' \<notin> set sp"
  shows "\<exists>r'. rates_loop (sp @ rates_text rs) r = Inr r' \<and> res r' = res r \<and> res_flag r' = res_flag r OR seen_marks rs"
  using assms
proof (induction "length rs" arbitrary: rs sp r rule: less_induct)
  case less
  show ?case
  proof (cases rs)
    case Nil
    have "find_sub ''.'' sp = None" using less.prems(2) by (induction sp) auto
    then show ?thesis using Nil by (simp add: rates_loop.simps str_find_def seen_marks_def)
  next
    case (Cons y rs')
    then obtain h c p where y: "rs = (h, c, p) # rs'" by (cases y) auto
    with less.prems obtain a b where h: "h = CHR '' '' # a @ CHR ''.'' # b"
      and a: "list_all (\<lambda>c. isdigit c \<or> c = CHR '' '') a" and b: "list_all isdigit b"
      by (auto simp: rate_head_def)
    let ?x = "sp @ CHR '' '' # a" and ?rs = "(CHR ''.'' # b, c, p) # rs'" and ?t = "sp @ rates_text rs"
    have t: "?t = ?x @ rates_text ?rs" by (simp add: y h rate_chars_def)
    have "CHR ''.'' \<notin> set ?x" using a less.prems(2) by (auto simp: list_all_iff isdigit_def)
    then have dot: "str_find ''.'' 0 ?t = Some (length ?x)"
      using find_sub_char [of "CHR ''.''" ?x] by (simp add: t str_find_def rate_chars_def)
    have rs': "list_all (\<lambda>(h, _). rate_head h) rs'" using less.prems(1) y by simp
    from rate_mark_chunks [OF t refl b rs', of "str_rfind_space (length ?x) ?t"]
    obtain flag e nx sp2 rs2 where m: "rate_mark (length ?x) (str_rfind_space (length ?x) ?t) ?t = (flag, e, nx)"
      and d: "drop nx ?t = sp2 @ rates_text rs2" "set sp2 \<subseteq> {CHR '' ''}" "length rs2 < length ?rs"
      and r2: "set rs2 \<subseteq> set rs'" and seen: "seen_marks ?rs = flag OR seen_marks rs2" by blast
    from rates_loop_step [OF dot m, of r] obtain r' where r': "rates_loop ?t r = rates_loop (drop nx ?t) r'"
      "res r' = res r" "res_flag r' = res_flag r OR flag" by metis
    have ok2: "list_all (\<lambda>(h, _). rate_head h) rs2" "CHR ''.'' \<notin> set sp2"
      using rs' r2 d(2) by (auto simp: list_all_iff)
    have "length rs2 < length rs" using d(3) y by simp
    from less.hyps [OF this ok2, of r'] r' d(1) seen show ?thesis
      by (auto simp: y or.assoc seen_marks_head [of h c p rs' "CHR ''.'' # b"])
  qed
qed

definition mode_line :: "string \<Rightarrow> string \<Rightarrow> rate_text list \<Rightarrow> string" where
  "mode_line w h rs = ''   '' @ w @ ''x'' @ h @ '' '' @ rates_text rs"

definition mode_char :: "char \<Rightarrow> bool" where
  "mode_char c \<longleftrightarrow> num_char c \<or> c = CHR ''*'' \<or> c = CHR ''+''"

lemma rates_text_chars: "list_all (\<lambda>(h, _). rate_head h) rs \<Longrightarrow> list_all mode_char (rates_text rs)"
  by (induction rs) (auto simp: rate_chars_def mode_char_def list_all_iff num_char_def dest!: rate_head_num)

lemma has_foreign:
  assumes "c \<in> set p" "c \<notin> set s"
  shows "str_find p 0 s = None" and "\<not> has p s"
proof -
  show n: "str_find p 0 s = None"
  proof (cases "find_sub p s")
    case (Some i)
    with find_sub_Some [OF this] assms show ?thesis by auto
  qed (simp add: str_find_def)
  then show "\<not> has p s" by (simp add: has_def)
qed

lemma digits_no_space: "list_all isdigit w \<Longrightarrow> CHR '' '' \<notin> set w \<and> CHR ''x'' \<notin> set w \<and> CHR ''.'' \<notin> set w \<and> CHR ''i'' \<notin> set w"
  by (auto simp: list_all_iff isdigit_def)

lemma mode_line_name:
  assumes w: "list_all isdigit w" and h: "list_all isdigit h" and rs: "list_all (\<lambda>(t, _). rate_head t) rs"
  defines "L \<equiv> mode_line w h rs"
  shows "str_find ''x'' 0 L = Some (3 + length w)"
    and "mode_name L (3 + length w) = Inr (w @ ''x'' @ h, width_of (w @ ''x'' @ h), height_of (w @ ''x'' @ h), False)"
proof -
  note dw = digits_no_space [OF w] and dh = digits_no_space [OF h]
  have L: "L = (''   '' @ w) @ CHR ''x'' # h @ CHR '' '' # rates_text rs" by (simp add: L_def mode_line_def)
  have x: "CHR ''x'' \<notin> set (''   '' @ w)" using dw by simp
  then show p: "str_find ''x'' 0 L = Some (3 + length w)"
    using find_sub_char [OF x] by (simp only: L str_find_def) simp
  have rf: "str_rfind_space (3 + length w) L = Some 2"
  proof -
    have "take (Suc (3 + length w)) L = ''   '' @ w @ ''x''" by (simp add: L eval_nat_numeral)
    moreover have "takeWhile (\<lambda>c. c \<noteq> CHR '' '') (rev w @ ''   '') = rev w"
      using dw by (subst takeWhile_append2) auto
    ultimately show ?thesis by (simp add: str_rfind_space_def Let_def)
  qed
  have f: "str_find '' '' (3 + length w) L = Some (3 + length w + 1 + length h)"
    using find_sub_char [of "CHR '' ''" "CHR ''x'' # h" "rates_text rs"] dh by (simp add: L str_find_def eval_nat_numeral)
  have i: "\<not> has ''i'' h" by (rule has_foreign(2) [of "CHR ''i''"]) (use dh in simp_all)
  have dx: "dropWhile (\<lambda>c. c \<noteq> CHR ''x'') (w @ CHR ''x'' # h) = CHR ''x'' # h" using dw by (subst dropWhile_append2) auto
  show "mode_name L (3 + length w) = Inr (w @ ''x'' @ h, width_of (w @ ''x'' @ h), height_of (w @ ''x'' @ h), False)"
  proof -
    have "str_substr 3 (Some (length w)) L = Inr w" "str_substr (Suc (3 + length w)) (Some (length h)) L = Inr h"
      by (simp_all add: L str_substr_def eval_nat_numeral)
    then show ?thesis
      by (simp add: mode_name_def rf f pos_next_def pos_diff_def Let_def i width_of_def height_of_def dx)
  qed
qed

lemma seen_marks_bits:
  "bit (seen_marks rs) 0 \<longleftrightarrow> has_mark (\<lambda>c p. p) rs"
  "bit (seen_marks rs) 1 \<longleftrightarrow> has_mark (\<lambda>c p. c \<and> p) rs \<or> cur_kept rs False"
  by (auto simp: seen_marks_def bit_or_iff has_mark_pref simp del: One_nat_def)

text \<open>
  A line of \<^verbatim>\<open>xrandr\<close> for a supported resolution, with any number of rates each marked
  current, preferred, both or neither, is listed under its name. It is marked best
  exactly when a rate is preferred, and current exactly when a rate is both
  or a current rate stands behind every rate that is only preferred.
\<close>

theorem mode_line_marks:
  assumes "list_all isdigit w" "list_all isdigit h" "h \<noteq> []"
    and "list_all (\<lambda>(t, _). rate_head t) rs"
    and "IS_SUPPORTED_RES (width_of (w @ ''x'' @ h)) (height_of (w @ ''x'' @ h))" and "isConnected v"
  shows "\<exists>i. scan_line (mode_line w h rs) v =
      Inr (False, v\<lparr>devInfo := (devInfo v)\<lparr>resList := resList (devInfo v) @ [i]\<rparr>\<rparr>)
    \<and> res i = w @ ''x'' @ h
    \<and> (res_flag i AND DEV_RES_BEST \<noteq> 0 \<longleftrightarrow> has_mark (\<lambda>cur pref. pref) rs)
    \<and> (res_flag i AND DEV_RES_CUR \<noteq> 0 \<longleftrightarrow> has_mark (\<lambda>cur pref. cur \<and> pref) rs \<or> cur_kept rs False)"
proof -
  let ?L = "mode_line w h rs"
  have ch: "list_all (\<lambda>c. mode_char c \<or> c = CHR ''x'') ?L"
    using assms(1,2) rates_text_chars [OF assms(4)]
    by (auto simp: mode_line_def mode_char_def num_char_def list_all_iff)
  have out: "CHR ''V'' \<notin> set ?L" "CHR ''c'' \<notin> set ?L"
    using ch by (auto simp: list_all_iff mode_char_def num_char_def isdigit_def)
  have nv: "\<not> has ''VIRTUAL1'' ?L" "\<not> has '' disconnected'' ?L" "str_find '' connected'' 0 ?L = None"
    using has_foreign [of "CHR ''V''" "''VIRTUAL1''" ?L] has_foreign [of "CHR ''c''" "'' disconnected''" ?L]
      has_foreign [of "CHR ''c''" "'' connected''" ?L] out by simp_all
  have L: "?L = (''   '' @ w) @ CHR ''x'' # h @ CHR '' '' # rates_text rs" by (simp add: mode_line_def)
  have "\<not> has '' x '' ?L"
  proof
    assume "has '' x '' ?L"
    then obtain a b where ab: "?L = (a @ '' '') @ CHR ''x'' # '' '' @ b"
      using find_sub_Some [of "'' x ''" ?L] by (auto simp: has_def str_find_def)
    have "CHR ''x'' \<notin> set (''   '' @ w)" "CHR ''x'' \<notin> set (h @ CHR '' '' # rates_text rs)"
      using digits_no_space [OF assms(1)] digits_no_space [OF assms(2)] rates_text_chars [OF assms(4)]
      by (auto simp: list_all_iff mode_char_def num_char_def isdigit_def)
    then have "h @ CHR '' '' # rates_text rs = '' '' @ b"
      using ab unfolding L by (subst (asm) append_Cons_eq_iff) auto
    then show False using assms(2,3) by (cases h) (auto simp: isdigit_def)
  qed
  moreover have "CHR ''.'' \<notin> set (''   '' @ w @ ''x'' @ h @ '' '')"
    using digits_no_space [OF assms(1)] digits_no_space [OF assms(2)] by simp
  note rates_loop_marks [OF assms(4) this, of "\<lparr>res = w @ ''x'' @ h, res_flag = 0, rateList = []\<rparr>"]
  moreover have "?L = (''   '' @ w @ ''x'' @ h @ '' '') @ rates_text rs" by (simp add: mode_line_def)
  ultimately obtain r where "rates_loop ?L \<lparr>res = w @ ''x'' @ h, res_flag = 0, rateList = []\<rparr> = Inr r"
    "res r = w @ ''x'' @ h" "res_flag r = seen_marks rs" "\<not> has '' x '' ?L" by auto
  then show ?thesis using mode_line_name [OF assms(1,2,4)] nv assms(5,6)
    by (intro exI [of _ r]) (simp add: scan_line_def seen_marks_bits del: One_nat_def append_Cons append_assoc)
qed

theorem mode_line_marks_witness:
  "\<exists>i. scan_line ''   1920x1080     60.00*   50.00 +  59.94  ''
      \<lparr>devCnt = 1, isConnected = True, devInfo = clear_dev, devList = []\<rparr>
     = Inr (False, \<lparr>devCnt = 1, isConnected = True,
         devInfo = \<lparr>devType = [], resList = [i]\<rparr>, devList = []\<rparr>)
     \<and> res_flag i AND DEV_RES_BEST \<noteq> 0 \<and> res_flag i AND DEV_RES_CUR = 0"
proof -
  let ?rs = "[(''    60.00'', True, False), (''  50.00'', False, True), (''  59.94'', False, False)]"
  have h: "rate_head ''    60.00''" "rate_head ''  50.00''" "rate_head ''  59.94''"
    unfolding rate_head_def
    by (rule exI [of _ "''   60''"] exI [of _ "'' 50''"] exI [of _ "'' 59''"],
        rule exI [of _ "''00''"] exI [of _ "''00''"] exI [of _ "''94''"], simp add: isdigit_def)+
  have "IS_SUPPORTED_RES (width_of ''1920x1080'') (height_of ''1920x1080'')" by code_simp
  with mode_line_marks [of "''1920''" "''1080''" ?rs
      "\<lparr>devCnt = 1, isConnected = True, devInfo = clear_dev, devList = []\<rparr>"] h
  show ?thesis by (auto simp: isdigit_def mode_line_def rate_chars_def clear_dev_def)
qed

end
