(* ===== verification/DevManager.thy ===== *)
theory DevManager
  imports AudioCore Video
begin

text \<open>
  \<^verbatim>\<open>control/audio_manager.cpp\<close> and the commands of \<^verbatim>\<open>control/video_manager.cpp\<close>: the classes that
  \<^verbatim>\<open>control.cpp\<close> uses, which forward to the audio and video core and report to two
  callbacks. The calls of the callbacks are recorded.
\<close>

record DevMsg =
  msg_id :: int
  dev_msg :: string

datatype dev_call = DevEvent DevMsg | JsonEvent string

record manager =
  m_cb :: bool
  m_jcb :: bool
  dev_calls :: "dev_call list"

definition DEV_HANDLE_REQUEST_SND_DEV_LIST :: int where "DEV_HANDLE_REQUEST_SND_DEV_LIST = 101"
definition DEV_HANDLE_SWITCH_SND_DEV :: int where "DEV_HANDLE_SWITCH_SND_DEV = 102"
definition DEV_HANDLE_REQUEST_BACKLIGHT :: int where "DEV_HANDLE_REQUEST_BACKLIGHT = 111"
definition DEV_HANDLE_SET_BACKLIGHT :: int where "DEV_HANDLE_SET_BACKLIGHT = 112"
definition DEV_HANDLE_SAVE_BACKLIGHT :: int where "DEV_HANDLE_SAVE_BACKLIGHT = 113"
definition DEV_EVENT_SAVE_BACKLIGHT :: int where "DEV_EVENT_SAVE_BACKLIGHT = 1"

definition registerCallback :: "bool \<Rightarrow> bool \<Rightarrow> manager \<Rightarrow> manager" where
  "registerCallback cb jcb g = g\<lparr>m_cb := cb, m_jcb := jcb\<rparr>"

definition doEvent :: "DevMsg \<Rightarrow> manager \<Rightarrow> manager" where
  "doEvent msg g = (if \<not> m_cb g then g else g\<lparr>dev_calls := dev_calls g @ [DevEvent msg]\<rparr>)"

definition doJsonEvent :: "string \<Rightarrow> manager \<Rightarrow> manager" where
  "doJsonEvent json g = (if \<not> m_jcb g then g else g\<lparr>dev_calls := dev_calls g @ [JsonEvent json]\<rparr>)"

text \<open>\<^verbatim>\<open>{"handle": n}\<close>\<close>

definition handle_json :: "string \<Rightarrow> string" where
  "handle_json n = ''{'' @ [CHR 0x22] @ ''handle'' @ [CHR 0x22] @ '': '' @ n @ ''}''"

definition am_doJsonCommand :: "int \<Rightarrow> manager \<Rightarrow> manager" where
  "am_doJsonCommand handle g =
     (if handle = DEV_HANDLE_REQUEST_SND_DEV_LIST then doJsonEvent (handle_json ''201'') g
      else if handle = DEV_HANDLE_SWITCH_SND_DEV then doJsonEvent (handle_json ''201'') g
      else g)"

definition vm_doJsonCommand :: "int \<Rightarrow> manager \<Rightarrow> manager" where
  "vm_doJsonCommand handle g =
     (if handle = DEV_HANDLE_REQUEST_BACKLIGHT then doJsonEvent (handle_json ''211'') g
      else if handle = DEV_HANDLE_SET_BACKLIGHT then doJsonEvent (handle_json ''212'') g
      else if handle = DEV_HANDLE_SAVE_BACKLIGHT
      then doJsonEvent (handle_json ''212'')
             (doEvent \<lparr>msg_id = DEV_EVENT_SAVE_BACKLIGHT, dev_msg = ''save backlight value''\<rparr> g)
      else g)"

text \<open>\<open>created\<close>: whether the thread of the audio core could be created.\<close>

definition am_startPaService :: "string \<Rightarrow> bool \<Rightarrow> audio \<Rightarrow> int \<times> audio" where
  "am_startPaService type created a = (let (ok, a') = paStart type created a in (if ok then 0 else - 1, a'))"

definition am_stopPaService :: "audio \<Rightarrow> int \<times> audio" where
  "am_stopPaService a = (let (ok, a') = paStop a in (if ok then 0 else - 1, a'))"

definition am_setVolume :: "pulse \<Rightarrow> int \<Rightarrow> audio \<Rightarrow> int \<times> audio" where
  "am_setVolume P volume a = setSinkVolume P volume a"

definition am_getVolume :: "pulse \<Rightarrow> audio \<Rightarrow> int" where
  "am_getVolume P a = getSinkVolume P a"

definition am_changeHDMI :: "pulse \<Rightarrow> string \<Rightarrow> audio \<Rightarrow> int \<times> audio" where
  "am_changeHDMI P profilename a = changeProfile P profilename a"

text \<open>Without callbacks commands have no effect; a command is answered by at most one JSON event.\<close>

lemma commands_silent:
  "\<not> m_cb g \<Longrightarrow> \<not> m_jcb g \<Longrightarrow> am_doJsonCommand h g = g \<and> vm_doJsonCommand h g = g"
  by (simp add: am_doJsonCommand_def vm_doJsonCommand_def doJsonEvent_def doEvent_def)

lemma commands_one_answer:
  assumes "\<not> m_cb g"
  shows "\<exists>es. dev_calls (am_doJsonCommand h g) = dev_calls g @ es \<and> length es \<le> 1"
    and "\<exists>es. dev_calls (vm_doJsonCommand h g) = dev_calls g @ es \<and> length es \<le> 1"
  using assms by (simp_all add: am_doJsonCommand_def vm_doJsonCommand_def doJsonEvent_def doEvent_def)

end
