(* ===== verification/Product.thy ===== *)
theory Product
  imports DevManager ApiChecks
begin

text \<open>
  \<^verbatim>\<open>product/product.cpp\<close>: what is known about the terminal, read once from a script, and
  the functions that return it. The state of the library extends the machine
  with its static variables; the fields of the information are arrays of 64 bytes.
\<close>

subsection \<open>The static variables of the library\<close>

record rj_systeminfo_t =
  serial_number :: string
  product_id :: string
  product_name :: string
  hardware_version :: string
  os_version :: string
  cpu :: string
  memory :: string
  bit_width :: string
  bios_version :: string
  platform_type :: string
  sys_size :: string
  data_size :: string

record 'd system = machine +
  sysInfo :: rj_systeminfo_t
  core :: audio
  bn_min :: int
  bn_max :: int
  nv :: 'd

definition SIZE_64 :: nat where "SIZE_64 = 64"
definition SIZE_128 :: nat where "SIZE_128 = 128"
definition SIZE_1K :: nat where "SIZE_1K = 1024"

definition RJ_SCRIPT_PATH :: string where
  "RJ_SCRIPT_PATH = ''/usr/local/bin/system/''"

subsection \<open>Reading the information\<close>

text \<open>The macro \<^verbatim>\<open>GETSYSTEMINFO_STRXXX\<close>: the line behind the tag, into an array of 64 bytes.\<close>

definition GETSYSTEMINFO_STRXXX :: "string \<Rightarrow> string \<Rightarrow> string \<Rightarrow> string cres" where
  "GETSYSTEMINFO_STRXXX txt_in tag to =
     (case find_sub tag txt_in of
        Some i \<Rightarrow>
          cbind (rj_strncp_line to (drop (i + length tag) txt_in) SIZE_64) (\<lambda>(n, to').
            Inr (if n < SIZE_64 then to'[n := NUL] else to'[SIZE_64 - 1 := NUL]))
      | None \<Rightarrow> Inr (to[0 := NUL]))"

definition fill_info :: "string \<Rightarrow> rj_systeminfo_t \<Rightarrow> rj_systeminfo_t cres" where
  "fill_info txt_in s =
     cbind (GETSYSTEMINFO_STRXXX txt_in ''serialnum='' (serial_number s)) (\<lambda>v1.
     cbind (GETSYSTEMINFO_STRXXX txt_in ''productid='' (product_id s)) (\<lambda>v2.
     cbind (GETSYSTEMINFO_STRXXX txt_in ''productname='' (product_name s)) (\<lambda>v3.
     cbind (GETSYSTEMINFO_STRXXX txt_in ''hdversion='' (hardware_version s)) (\<lambda>v4.
     cbind (GETSYSTEMINFO_STRXXX txt_in ''sysversion='' (os_version s)) (\<lambda>v5.
     cbind (GETSYSTEMINFO_STRXXX txt_in ''platform='' (platform_type s)) (\<lambda>v6.
     cbind (GETSYSTEMINFO_STRXXX txt_in ''cpu='' (cpu s)) (\<lambda>v7.
     cbind (GETSYSTEMINFO_STRXXX txt_in ''memory='' (memory s)) (\<lambda>v8.
     cbind (GETSYSTEMINFO_STRXXX txt_in ''bit='' (bit_width s)) (\<lambda>v9.
     cbind (GETSYSTEMINFO_STRXXX txt_in ''biosversion='' (bios_version s)) (\<lambda>v10.
     cbind (GETSYSTEMINFO_STRXXX txt_in ''syssize='' (sys_size s)) (\<lambda>v11.
     cbind (GETSYSTEMINFO_STRXXX txt_in ''datasize='' (data_size s)) (\<lambda>v12.
       Inr \<lparr>serial_number = v1, product_id = v2, product_name = v3, hardware_version = v4, os_version = v5,
            cpu = v7, memory = v8, bit_width = v9, bios_version = v10, platform_type = v6, sys_size = v11,
            data_size = v12\<rparr>))))))))))))"

definition rc_getsysteminfo ::
  "shell \<Rightarrow> rj_systeminfo_t \<Rightarrow> 'a machine_scheme \<Rightarrow> ((int \<times> rj_systeminfo_t) \<times> 'a machine_scheme) cres" where
  "rc_getsysteminfo sh system_info m =
     (if \<not> file_exists (RJ_SCRIPT_PATH @ ''getSysInfo'') m then Inr ((ERROR_10000, system_info), m)
      else cbind (rj_exec_result sh (''bash '' @ RJ_SCRIPT_PATH @ ''getSysInfo'') (replicate SIZE_1K NUL) m) (\<lambda>((_, out), m1).
        if c_str out = [] then Inr ((ERROR_10000, system_info), m1)
        else cbind (fill_info (c_str out) system_info) (\<lambda>s. Inr ((0, s), m1))))"

definition zero_info :: rj_systeminfo_t where
  "zero_info =
     (let z = replicate SIZE_64 NUL
      in \<lparr>serial_number = z, product_id = z, product_name = z, hardware_version = z, os_version = z, cpu = z,
          memory = z, bit_width = z, bios_version = z, platform_type = z, sys_size = z, data_size = z\<rparr>)"

text \<open>\<^verbatim>\<open>startPaService\<close> of \<^verbatim>\<open>control.cpp\<close>; \<open>created\<close> tells whether the thread could be created.\<close>

definition startPaService :: "string \<Rightarrow> bool \<Rightarrow> 'd system \<Rightarrow> int \<times> 'd system" where
  "startPaService type created s =
     (let (ret, a) = am_startPaService type created (core s)
      in (if ret < 0 then ERROR_10000 else ret, s\<lparr>core := a\<rparr>))"

definition productInit :: "shell \<Rightarrow> bool \<Rightarrow> 'd system \<Rightarrow> (int \<times> 'd system) cres" where
  "productInit sh created s =
     cbind (rc_getsysteminfo sh zero_info (s\<lparr>sysInfo := zero_info\<rparr>)) (\<lambda>((ret, info), s1).
       if ret \<noteq> 0 then Inr (ERROR_10001, s1\<lparr>sysInfo := info\<rparr>)
       else Inr (startPaService (snprintf_c SIZE_64 (c_str (platform_type info))) created (s1\<lparr>sysInfo := info\<rparr>)))"

subsection \<open>Returning the information\<close>

definition get_info :: "string \<Rightarrow> string option \<Rightarrow> 'd system \<Rightarrow> ((int \<times> string option) \<times> 'd system) cres" where
  "get_info field buf s =
     (if \<not> g_isinit s then Inr ((ERROR_10001, init_text buf), s)
      else cbind (put_text buf (c_str field)) (\<lambda>b. Inr ((SUCCESS_0, b), s)))"

definition getProductType :: "string option \<Rightarrow> 'd system \<Rightarrow> ((int \<times> string option) \<times> 'd system) cres" where
  "getProductType buf s = get_info (product_name (sysInfo s)) buf s"

definition getAbsLayerVersion :: "string \<Rightarrow> string option \<Rightarrow> 'd system \<Rightarrow> ((int \<times> string option) \<times> 'd system) cres" where
  "getAbsLayerVersion version buf s = get_info version buf s"

definition getSystemVersion :: "string option \<Rightarrow> 'd system \<Rightarrow> ((int \<times> string option) \<times> 'd system) cres" where
  "getSystemVersion buf s = get_info (os_version (sysInfo s)) buf s"

definition getHardwareVesion :: "string option \<Rightarrow> 'd system \<Rightarrow> ((int \<times> string option) \<times> 'd system) cres" where
  "getHardwareVesion buf s = get_info (hardware_version (sysInfo s)) buf s"

definition getProductId :: "string option \<Rightarrow> 'd system \<Rightarrow> ((int \<times> string option) \<times> 'd system) cres" where
  "getProductId buf s = get_info (product_id (sysInfo s)) buf s"

definition getSerialNumber :: "string option \<Rightarrow> 'd system \<Rightarrow> ((int \<times> string option) \<times> 'd system) cres" where
  "getSerialNumber buf s = get_info (serial_number (sysInfo s)) buf s"

definition getBiosInfo :: "string option \<Rightarrow> 'd system \<Rightarrow> ((int \<times> string option) \<times> 'd system) cres" where
  "getBiosInfo buf s = get_info (bios_version (sysInfo s)) buf s"

definition getCpuInfo :: "string option \<Rightarrow> 'd system \<Rightarrow> ((int \<times> string option) \<times> 'd system) cres" where
  "getCpuInfo buf s = get_info (cpu (sysInfo s)) buf s"

definition getMemoryInfo :: "string option \<Rightarrow> 'd system \<Rightarrow> ((int \<times> string option) \<times> 'd system) cres" where
  "getMemoryInfo buf s = get_info (memory (sysInfo s)) buf s"

text \<open>Not implemented: the buffer is left as it is.\<close>

definition getBaseboardInfo :: "string option \<Rightarrow> 'd system \<Rightarrow> ((int \<times> string option) \<times> 'd system) cres" where
  "getBaseboardInfo buf s =
     (if \<not> g_isinit s then Inr ((ERROR_10001, init_text buf), s) else Inr ((SUCCESS_0, buf), s))"

definition getSystemBit :: "string option \<Rightarrow> 'd system \<Rightarrow> ((int \<times> string option) \<times> 'd system) cres" where
  "getSystemBit buf s = get_info (bit_width (sysInfo s)) buf s"

definition getTermialType :: "string option \<Rightarrow> 'd system \<Rightarrow> ((int \<times> string option) \<times> 'd system) cres" where
  "getTermialType buf s = get_info (platform_type (sysInfo s)) buf s"

subsection \<open>Disks and logs\<close>

definition DATA_PARTITION :: string where
  "DATA_PARTITION = ''/opt/lessons''"

definition df_cmd :: "string \<Rightarrow> string" where
  "df_cmd path = ''df -BKB '' @ path @ '' | awk '' @ quote @ ''NR>1{print $4}'' @ quote"

definition disk_text :: "string \<Rightarrow> string \<Rightarrow> string" where
  "disk_text total_size avail = ''Total:'' @ total_size @ '' Available:'' @ avail"

definition disk_space ::
  "shell \<Rightarrow> string \<Rightarrow> string \<Rightarrow> string option \<Rightarrow> 'd system \<Rightarrow> ((int \<times> string option) \<times> 'd system) cres" where
  "disk_space sh path total_size buf s =
     cbind (rj_exec_result sh (snprintf_c SIZE_64 (df_cmd path)) (replicate SIZE_64 NUL) s) (\<lambda>((_, out), s1).
       cbind (put_text buf (disk_text (c_str total_size) (if c_str out = [] then ''empty'' else chomp (c_str out)))) (\<lambda>b.
         Inr ((SUCCESS_0, b), s1)))"

text \<open>The first test compares the first four characters only, the second the whole text.\<close>

definition getDiskInfo ::
  "shell \<Rightarrow> string option \<Rightarrow> string option \<Rightarrow> 'd system \<Rightarrow> ((int \<times> string option) \<times> 'd system) cres" where
  "getDiskInfo sh type buf s =
     (if \<not> g_isinit s then Inr ((ERROR_10001, init_text buf), s)
      else if no_para type then cbind (put_text buf (rj_strerror ERROR_11003)) (\<lambda>b. Inr ((ERROR_11003, b), s))
      else if prefix_of ''data'' (the type)
      then if \<not> file_exists DATA_PARTITION s
           then cbind (put_text buf (disk_text ''empty'' ''empty'')) (\<lambda>b. Inr ((SUCCESS_0, b), s))
           else disk_space sh DATA_PARTITION (data_size (sysInfo s)) buf s
      else if the type = ''system'' then disk_space sh ''/'' (sys_size (sysInfo s)) buf s
      else Inr ((SUCCESS_0, buf), s))"

definition collectLog_block ::
  "shell \<Rightarrow> string option \<Rightarrow> string option \<Rightarrow> 'd system \<Rightarrow> ((int \<times> string option) \<times> 'd system) cres" where
  "collectLog_block sh fileName buf s =
     (if \<not> g_isinit s then Inr ((ERROR_10001, init_text buf), s)
      else if no_para fileName then cbind (put_text buf (rj_strerror ERROR_11003)) (\<lambda>b. Inr ((ERROR_11003, b), s))
      else cbind (sprintf_c SIZE_1K (''bash '' @ RJ_SCRIPT_PATH @ ''collet_log.sh '' @ the fileName @ '' '')) (\<lambda>cmd_buf.
           cbind (rj_exec_result sh cmd_buf (replicate SIZE_128 NUL) s) (\<lambda>((_, result), s1).
             if c_str result = [] then Inr ((ERROR_10000, buf), s1)
             else cbind (put_text buf (chomp (c_str result))) (\<lambda>b. Inr ((SUCCESS_0, b), s1)))))"

definition LOG_FILE_PATH :: string where
  "LOG_FILE_PATH = ''/tmp/log/''"

definition rmLogFile :: "shell \<Rightarrow> string option \<Rightarrow> 'd system \<Rightarrow> int \<times> 'd system" where
  "rmLogFile sh path s =
     (if \<not> g_isinit s then (ERROR_10001, s)
      else if no_para path then (ERROR_11003, s)
      else if \<not> prefix_of LOG_FILE_PATH (the path) then (ERROR_10000, s)
      else if \<not> file_exists (the path) s then (SUCCESS_0, s)
      else let (r, s1) = rj_system sh (snprintf_c SIZE_128 (''rm -f '' @ the path)) s
           in (if r \<noteq> 0 then ERROR_10000 else SUCCESS_0, s1))"

subsection \<open>Information in lines\<close>

text \<open>The script prints a line with name and value for each item it knows, in any order.\<close>

definition info_keys :: "string list" where
  "info_keys =
     [''serialnum'', ''productid'', ''productname'', ''hdversion'', ''sysversion'', ''platform'', ''cpu'', ''memory'',
      ''bit'', ''biosversion'', ''syssize'', ''datasize'']"

definition info_line :: "string \<times> string \<Rightarrow> string" where
  "info_line kv = fst kv @ ''='' @ snd kv @ [newline]"

definition info_text :: "(string \<times> string) list \<Rightarrow> string" where
  "info_text kvs = concat (map info_line kvs)"

definition info_char :: "char \<Rightarrow> bool" where
  "info_char c \<longleftrightarrow> 0x20 \<le> (of_char c :: int) \<and> (of_char c :: int) < 0x80 \<and> c \<noteq> CHR ''=''"

definition info_ok :: "(string \<times> string) list \<Rightarrow> bool" where
  "info_ok kvs \<longleftrightarrow> distinct (map fst kvs)
     \<and> list_all (\<lambda>(k, v). k \<in> set info_keys \<and> list_all info_char v \<and> length v < 64) kvs"

definition info_value :: "(string \<times> string) list \<Rightarrow> string \<Rightarrow> string" where
  "info_value kvs k = (case map_of kvs k of None \<Rightarrow> [] | Some v \<Rightarrow> v)"

lemma info_keys_chars: "k \<in> set info_keys \<Longrightarrow> newline \<notin> set k \<and> CHR ''='' \<notin> set k \<and> NUL \<notin> set k"
proof -
  have "list_all (\<lambda>k. newline \<notin> set k \<and> CHR ''='' \<notin> set k \<and> NUL \<notin> set k) info_keys" by code_simp
  then show "k \<in> set info_keys \<Longrightarrow> ?thesis" by (simp add: list_all_iff)
qed

lemma info_keys_suffix:
  assumes "k \<in> set info_keys" "k' \<in> set info_keys" "drop i k' = k"
  shows "k' = k"
proof -
  have a: "list_all (\<lambda>k. list_all (\<lambda>k'. list_all (\<lambda>i. drop i k' = k \<longrightarrow> k' = k) [0..<length k']) info_keys) info_keys"
    by code_simp
  have "list_all (\<lambda>k. k \<noteq> []) info_keys" by code_simp
  then have "k \<noteq> []" using assms(1) unfolding list_all_iff by blast
  then have "i < length k'" unfolding assms(3) [symmetric] by simp
  then have "i \<in> set [0..<length k']" by simp
  with a assms show ?thesis unfolding list_all_iff by blast
qed

lemma info_chars:
  "info_char c \<Longrightarrow> c \<noteq> newline \<and> c \<noteq> NUL \<and> \<not> schar c < 0x20 \<and> c \<noteq> CHR 0x0A \<and> c \<noteq> CHR 0x0D"
proof -
  assume "info_char c"
  then have b: "0x20 \<le> (of_char c :: int)" "(of_char c :: int) < 0x80" by (simp_all add: info_char_def)
  then have "c \<noteq> CHR 0x0A" "c \<noteq> CHR 0x0D" "c \<noteq> CHR 0x00" by auto
  with b show ?thesis by (simp add: newline_def NUL_def schar_def)
qed

lemma unique_pos:
  assumes "c \<notin> set xs" "c \<notin> set ys" "m < length (xs @ c # ys)" "(xs @ c # ys) ! m = c"
  shows "m = length xs"
proof (cases "m < length xs")
  case True
  with assms(1,4) nth_mem [OF True] show ?thesis by (simp add: nth_append)
next
  case False
  show ?thesis
  proof (rule ccontr)
    assume ne: "m \<noteq> length xs"
    with False have l: "m - Suc (length xs) < length ys" using assms(3) by simp
    from ne False have "m - length xs = Suc (m - Suc (length xs))" by simp
    with assms(4) False have "ys ! (m - Suc (length xs)) = c" by (simp add: nth_append)
    with assms(2) nth_mem [OF l] show False by simp
  qed
qed

text \<open>A tag is not found within the line of another item.\<close>

lemma tag_not_in_line:
  assumes "k \<in> set info_keys" "k' \<in> set info_keys" "k \<noteq> k'" "list_all info_char v'"
    and "i < length (info_line (k', v'))"
  shows "\<not> prefix_of (k @ ''='') (drop i (info_line (k', v') @ y))"
proof
  let ?x = "k' @ CHR ''='' # v'" and ?tag = "k @ ''=''"
  assume "prefix_of ?tag (drop i (info_line (k', v') @ y))"
  then obtain t where t: "drop i ((?x @ [newline]) @ y) = ?tag @ t" by (auto simp: prefix_of_iff info_line_def)
  have len: "i \<le> length ?x" using assms(5) by (simp add: info_line_def)
  have nth: "((?x @ [newline]) @ y) ! (i + j) = ?tag ! j" if "j < length ?tag" for j
  proof -
    have "((?x @ [newline]) @ y) ! (i + j) = drop i ((?x @ [newline]) @ y) ! j"
      using len by (subst nth_drop) simp_all
    also have "\<dots> = ?tag ! j" unfolding t using that by (simp only: nth_append if_True)
    finally show ?thesis .
  qed
  have nl: "newline \<notin> set ?tag" using info_keys_chars [OF assms(1)] by (simp add: newline_def)
  have inx: "i + length ?tag \<le> length ?x"
  proof (rule ccontr)
    assume "\<not> ?thesis"
    then have "length ?x - i < length ?tag" using len by simp
    with nth [of "length ?x - i"] len have "newline = ?tag ! (length ?x - i)" by (simp add: nth_append)
    with \<open>length ?x - i < length ?tag\<close> nl show False by (metis nth_mem)
  qed
  have eq: "?x ! (i + j) = ?tag ! j" if "j < length ?tag" for j
  proof -
    have "((xs @ [newline]) @ y) ! m = xs ! m" if "m < length xs" for xs m using that by (simp add: nth_append)
    from this [of "i + j" ?x] nth [OF that] inx that show ?thesis by simp
  qed
  from eq [of "length k"] have "?x ! (i + length k) = CHR ''=''" by simp
  moreover have "CHR ''='' \<notin> set k'" "CHR ''='' \<notin> set v'"
    using info_keys_chars [OF assms(2)] assms(4) by (auto simp: list_all_iff info_char_def)
  ultimately have m: "i + length k = length k'"
    using inx unique_pos [of "CHR ''=''" k' v' "i + length k"] by simp
  have "drop i k' = k"
  proof (rule nth_equalityI)
    show "length (drop i k') = length k" using m by simp
    fix j assume "j < length (drop i k')"
    then have j: "j < length k" using m by simp
    then have "?x ! (i + j) = k' ! (i + j)" "?tag ! j = k ! j" using m by (simp_all add: nth_append)
    with eq [of j] j m show "drop i k' ! j = k ! j" by simp
  qed
  from info_keys_suffix [OF assms(1,2) this] assms(3) show False by simp
qed

lemma find_tag:
  assumes "info_ok kvs" "k \<in> set info_keys"
  shows "case map_of kvs k of None \<Rightarrow> find_sub (k @ ''='') (info_text kvs) = None
    | Some v \<Rightarrow> \<exists>i rest. find_sub (k @ ''='') (info_text kvs) = Some i
        \<and> drop (i + length (k @ ''='')) (info_text kvs) = v @ newline # rest"
  using assms(1)
proof (induction kvs)
  case Nil
  show ?case by (simp add: info_text_def)
next
  case (Cons kv kvs)
  obtain k' v' where kv: "kv = (k', v')" by (cases kv)
  have ok: "info_ok kvs" "k' \<in> set info_keys" "list_all info_char v'" using Cons.prems kv by (auto simp: info_ok_def)
  show ?case
  proof (cases "k' = k")
    case True
    have "prefix_of (k @ ''='') (info_text (kv # kvs))"
      by (simp add: kv True info_text_def info_line_def prefix_of_iff)
    then have "find_sub (k @ ''='') (info_text (kv # kvs)) = Some 0"
      by (cases "info_text (kv # kvs)") (auto simp: prefix_of_iff)
    then show ?thesis by (simp add: kv True info_text_def info_line_def)
  next
    case False
    have "find_sub (k @ ''='') (info_line (k', v') @ info_text kvs)
        = map_option ((+) (length (info_line (k', v')))) (find_sub (k @ ''='') (info_text kvs))"
      using tag_not_in_line [OF assms(2) ok(2) _ ok(3)] False by (intro find_sub_skip) auto
    then show ?thesis using Cons.IH [OF ok(1)] False
      by (auto simp: kv info_text_def split: option.splits)
  qed
qed

lemma strncp_line_value:
  "list_all info_char v \<Longrightarrow> length v \<le> n \<Longrightarrow> n \<noteq> 0 \<Longrightarrow> strncp_line_chars n (v @ newline # rest) = v"
proof (induction v arbitrary: n)
  case Nil
  then show ?case by (cases n) (simp_all add: schar_def newline_def)
next
  case (Cons c v)
  then obtain n' where n': "n = Suc n'" by (cases n) auto
  show ?case
  proof (cases "v = []")
    case True
    then show ?thesis using Cons n' info_chars [of c] by (cases n') (simp_all add: schar_def newline_def)
  next
    case False
    then show ?thesis using Cons n' info_chars [of c] by (cases n') simp_all
  qed
qed

lemma get_field:
  assumes "info_ok kvs" "k \<in> set info_keys" "length to = 64"
  shows "\<exists>to'. GETSYSTEMINFO_STRXXX (info_text kvs) (k @ ''='') to = Inr to' \<and> length to' = 64
    \<and> c_str to' = info_value kvs k"
proof (cases "map_of kvs k")
  case None
  with find_tag [OF assms(1,2)] have "find_sub (k @ ''='') (info_text kvs) = None" by simp
  then show ?thesis using None assms(3)
    by (cases to) (simp_all add: GETSYSTEMINFO_STRXXX_def info_value_def c_str_def)
next
  case (Some v)
  with find_tag [OF assms(1,2)] obtain i rest where
    i: "find_sub (k @ ''='') (info_text kvs) = Some i"
      "drop (i + length (k @ ''='')) (info_text kvs) = v @ newline # rest" by auto
  have v: "list_all info_char v" "length v < 64"
    using map_of_SomeD [OF Some] assms(1) by (auto simp: info_ok_def list_all_iff)
  have "c_str v = v" using v(1) info_chars by (intro c_str_id) (auto simp: list_all_iff)
  moreover have "(v @ drop (length v) to)[length v := NUL] = v @ NUL # drop (Suc (length v)) to"
    using v(2) assms(3) by (simp add: list_update_append Cons_nth_drop_Suc [symmetric])
  ultimately show ?thesis using i(1) i(2) [simplified] v Some assms(3)
    by (simp add: GETSYSTEMINFO_STRXXX_def rj_strncp_line_def strncp_line_value SIZE_64_def put_at_def info_value_def
        c_str_append_NUL)
qed

lemma fill_info_value:
  assumes "info_ok kvs"
  obtains f where "fill_info (info_text kvs) zero_info = Inr
      \<lparr>serial_number = f ''serialnum'', product_id = f ''productid'', product_name = f ''productname'',
       hardware_version = f ''hdversion'', os_version = f ''sysversion'', cpu = f ''cpu'', memory = f ''memory'',
       bit_width = f ''bit'', bios_version = f ''biosversion'', platform_type = f ''platform'',
       sys_size = f ''syssize'', data_size = f ''datasize''\<rparr>"
    and "\<forall>k \<in> set info_keys. c_str (f k) = info_value kvs k"
proof -
  let ?z = "replicate 64 NUL"
  have "\<forall>k \<in> set info_keys. \<exists>t. GETSYSTEMINFO_STRXXX (info_text kvs) (k @ ''='') ?z = Inr t \<and> c_str t = info_value kvs k"
    using get_field [OF assms, of _ ?z] by auto
  then obtain f where f: "\<forall>k \<in> set info_keys. GETSYSTEMINFO_STRXXX (info_text kvs) (k @ ''='') ?z = Inr (f k)
      \<and> c_str (f k) = info_value kvs k" by metis
  have g: "GETSYSTEMINFO_STRXXX (info_text kvs) ''serialnum='' ?z = Inr (f ''serialnum'')"
    "GETSYSTEMINFO_STRXXX (info_text kvs) ''productid='' ?z = Inr (f ''productid'')"
    "GETSYSTEMINFO_STRXXX (info_text kvs) ''productname='' ?z = Inr (f ''productname'')"
    "GETSYSTEMINFO_STRXXX (info_text kvs) ''hdversion='' ?z = Inr (f ''hdversion'')"
    "GETSYSTEMINFO_STRXXX (info_text kvs) ''sysversion='' ?z = Inr (f ''sysversion'')"
    "GETSYSTEMINFO_STRXXX (info_text kvs) ''platform='' ?z = Inr (f ''platform'')"
    "GETSYSTEMINFO_STRXXX (info_text kvs) ''cpu='' ?z = Inr (f ''cpu'')"
    "GETSYSTEMINFO_STRXXX (info_text kvs) ''memory='' ?z = Inr (f ''memory'')"
    "GETSYSTEMINFO_STRXXX (info_text kvs) ''bit='' ?z = Inr (f ''bit'')"
    "GETSYSTEMINFO_STRXXX (info_text kvs) ''biosversion='' ?z = Inr (f ''biosversion'')"
    "GETSYSTEMINFO_STRXXX (info_text kvs) ''syssize='' ?z = Inr (f ''syssize'')"
    "GETSYSTEMINFO_STRXXX (info_text kvs) ''datasize='' ?z = Inr (f ''datasize'')"
    using f by (simp_all add: info_keys_def)
  show thesis
    by (rule that [of f]) (use f in \<open>simp_all add: fill_info_def zero_info_def SIZE_64_def Let_def g\<close>)
qed

definition returns_text :: "(string option \<Rightarrow> 'd system \<Rightarrow> ((int \<times> string option) \<times> 'd system) cres) \<Rightarrow> string \<Rightarrow> 'd system \<Rightarrow> string \<Rightarrow> bool" where
  "returns_text get b s v \<longleftrightarrow>
     (\<exists>b'. get (Some b) s = Inr ((0, Some b'), s) \<and> length b' = length b \<and> c_str b' = take (length b - 1) v)"

lemma get_info_returns:
  "g_isinit s \<Longrightarrow> b \<noteq> [] \<Longrightarrow> c_str f = v \<Longrightarrow> returns_text (get_info f) b s v"
proof -
  assume a: "g_isinit s" "b \<noteq> []" "c_str f = v"
  have "NUL \<notin> set v" using a(3) by (auto simp: c_str_def dest: set_takeWhileD)
  with a show ?thesis by (auto simp: returns_text_def get_info_def SUCCESS_0_def c_str_snprintf_to)
qed

lemma getter_returns:
  assumes "g_isinit s" "b \<noteq> []"
  shows "c_str (serial_number (sysInfo s)) = v \<Longrightarrow> returns_text getSerialNumber b s v"
    and "c_str (product_id (sysInfo s)) = v \<Longrightarrow> returns_text getProductId b s v"
    and "c_str (product_name (sysInfo s)) = v \<Longrightarrow> returns_text getProductType b s v"
    and "c_str (hardware_version (sysInfo s)) = v \<Longrightarrow> returns_text getHardwareVesion b s v"
    and "c_str (os_version (sysInfo s)) = v \<Longrightarrow> returns_text getSystemVersion b s v"
    and "c_str (cpu (sysInfo s)) = v \<Longrightarrow> returns_text getCpuInfo b s v"
    and "c_str (memory (sysInfo s)) = v \<Longrightarrow> returns_text getMemoryInfo b s v"
    and "c_str (bit_width (sysInfo s)) = v \<Longrightarrow> returns_text getSystemBit b s v"
    and "c_str (bios_version (sysInfo s)) = v \<Longrightarrow> returns_text getBiosInfo b s v"
    and "c_str (platform_type (sysInfo s)) = v \<Longrightarrow> returns_text getTermialType b s v"
  using get_info_returns [OF assms] unfolding returns_text_def getSerialNumber_def getProductId_def getProductType_def
    getHardwareVesion_def getSystemVersion_def getCpuInfo_def getMemoryInfo_def getSystemBit_def getBiosInfo_def
    getTermialType_def by blast+

lemma info_text_no_NUL: "info_ok kvs \<Longrightarrow> NUL \<notin> set (info_text kvs)"
  by (induction kvs)
     (auto simp: info_ok_def info_text_def info_line_def newline_def NUL_def list_all_iff
        dest: info_chars dest!: info_keys_chars [unfolded NUL_def])

lemma productInit_info:
  assumes "info_ok kvs" "kvs \<noteq> []" "length (info_text kvs) < 1024"
    and "file_exists (RJ_SCRIPT_PATH @ ''getSysInfo'') s"
    and "sh (''bash '' @ RJ_SCRIPT_PATH @ ''getSysInfo'') [] (files s) = Some (info_text kvs, st, fs)"
  obtains f where "productInit sh True s = Inr (0, s\<lparr>files := fs, runs := runs s @ [''bash '' @ RJ_SCRIPT_PATH @ ''getSysInfo''],
      sysInfo := \<lparr>serial_number = f ''serialnum'', product_id = f ''productid'', product_name = f ''productname'',
       hardware_version = f ''hdversion'', os_version = f ''sysversion'', cpu = f ''cpu'', memory = f ''memory'',
       bit_width = f ''bit'', bios_version = f ''biosversion'', platform_type = f ''platform'',
       sys_size = f ''syssize'', data_size = f ''datasize''\<rparr>,
      core := (core s)\<lparr>termialType := info_value kvs ''platform''\<rparr>\<rparr>)"
    and "\<forall>k \<in> set info_keys. c_str (f k) = info_value kvs k"
proof -
  let ?cmd = "''bash '' @ RJ_SCRIPT_PATH @ ''getSysInfo''"
  obtain f where f: "fill_info (info_text kvs) zero_info = Inr
      \<lparr>serial_number = f ''serialnum'', product_id = f ''productid'', product_name = f ''productname'',
       hardware_version = f ''hdversion'', os_version = f ''sysversion'', cpu = f ''cpu'', memory = f ''memory'',
       bit_width = f ''bit'', bios_version = f ''biosversion'', platform_type = f ''platform'',
       sys_size = f ''syssize'', data_size = f ''datasize''\<rparr>"
    "\<forall>k \<in> set info_keys. c_str (f k) = info_value kvs k" using fill_info_value [OF assms(1)] by blast
  obtain buf where buf: "rj_exec_result sh ?cmd (replicate 1024 NUL) (s\<lparr>sysInfo := zero_info\<rparr>)
      = Inr ((rj_pclose (Some st), buf), s\<lparr>sysInfo := zero_info, files := fs, runs := runs s @ [?cmd]\<rparr>)"
    "c_str buf = take (1024 - 1) (info_text kvs)"
    using rj_exec_result_ok [of sh ?cmd "s\<lparr>sysInfo := zero_info\<rparr>" "info_text kvs" st fs 1024] assms(5) info_text_no_NUL [OF assms(1)]
    by auto
  have b: "c_str buf = info_text kvs" using buf(2) assms(3) by simp
  have "info_text kvs \<noteq> []" using assms(2) by (cases kvs) (auto simp: info_text_def info_line_def)
  note b = b this
  have "c_str (f ''platform'') = info_value kvs ''platform''" using f(2) by (simp add: info_keys_def)
  moreover have "length (info_value kvs ''platform'') < 64"
    using assms(1) by (auto simp: info_value_def info_ok_def list_all_iff dest!: map_of_SomeD split: option.splits)
  ultimately show thesis
    using f assms(4) buf(1) b
    by (intro that [of f])
       (simp_all add: productInit_def rc_getsysteminfo_def file_exists_def SIZE_1K_def SIZE_64_def snprintf_c_def
          startPaService_def am_startPaService_def paStart_def)
qed

text \<open>
  \<^verbatim>\<open>scripts/getSysInfo\<close>: the end of the script, which prints its variables that are not
  empty, one on a line; \<open>v k\<close> is the value as \<^verbatim>\<open>echo\<close> prints it, runs of blanks already joined.
  \<^verbatim>\<open>storage\<close> is printed but never assigned.
\<close>

definition getSysInfo_items :: "string list" where
  "getSysInfo_items =
     [''serialnum'', ''productid'', ''productname'', ''platform'', ''hdversion'', ''biosversion'', ''sysversion'', ''bit'',
      ''cpu'', ''memory'', ''storage'', ''datasize'', ''syssize'']"

definition getSysInfo_print :: "(string \<Rightarrow> string) \<Rightarrow> string" where
  "getSysInfo_print v = concat (map (\<lambda>k. if v k \<noteq> [] then k @ ''='' @ v k @ [newline] else []) getSysInfo_items)"

definition items_of :: "(string \<Rightarrow> string) \<Rightarrow> (string \<times> string) list" where
  "items_of v = map (\<lambda>k. (k, v k)) (filter (\<lambda>k. v k \<noteq> []) getSysInfo_items)"

lemma getSysInfo_text: "getSysInfo_print v = info_text (items_of v)"
proof -
  have "concat (map (\<lambda>k. if v k \<noteq> [] then k @ ''='' @ v k @ [newline] else []) ks)
      = info_text (map (\<lambda>k. (k, v k)) (filter (\<lambda>k. v k \<noteq> []) ks))" for ks
    by (induction ks) (simp_all add: info_text_def info_line_def)
  then show ?thesis by (simp add: getSysInfo_print_def items_of_def)
qed

lemma getSysInfo_keys: "distinct getSysInfo_items" "set getSysInfo_items = insert ''storage'' (set info_keys)"
proof -
  show "distinct getSysInfo_items" by code_simp
  show "set getSysInfo_items = insert ''storage'' (set info_keys)" unfolding getSysInfo_items_def info_keys_def by auto
qed

lemma items_of_ok:
  assumes "v ''storage'' = []" "\<forall>k \<in> set info_keys. list_all info_char (v k) \<and> length (v k) < 64"
  shows "info_ok (items_of v)" and "k \<in> set info_keys \<Longrightarrow> info_value (items_of v) k = v k"
proof -
  have "distinct (map fst (items_of v))" using getSysInfo_keys(1) by (simp add: items_of_def o_def)
  moreover have "k \<in> set info_keys" if "k \<in> set getSysInfo_items" "v k \<noteq> []" for k
    using that assms(1) getSysInfo_keys(2) by auto
  ultimately show "info_ok (items_of v)" using assms(2) by (auto simp: info_ok_def items_of_def list_all_iff)
next
  assume k: "k \<in> set info_keys"
  have "map_of (map (\<lambda>k. (k, v k)) (filter (\<lambda>k. v k \<noteq> []) ks)) k = (if k \<in> set ks \<and> v k \<noteq> [] then Some (v k) else None)" for ks
    by (induction ks) auto
  then show "info_value (items_of v) k = v k" using k getSysInfo_keys(2) by (simp add: info_value_def items_of_def)
qed


definition ex_system :: "'d \<Rightarrow> 'd system" where
  "ex_system d = machine.extend (ex_machine\<lparr>files := [RJ_SCRIPT_PATH @ ''getSysInfo'' \<mapsto> []]\<rparr>)
     \<lparr>sysInfo = zero_info, core = AudioCore_new, bn_min = 0, bn_max = 100, nv = d\<rparr>"

definition ex_info_vars :: "string \<Rightarrow> string" where
  "ex_info_vars k = (if k = ''platform'' then ''RG-CT3100'' else if k = ''serialnum'' then ''G1X'' else [])"


end
