(* ===== verification/BiosNv.thy ===== *)
theory BiosNv
  imports ApiChecks "HOL-Library.Word"
begin

text \<open>
  \<^verbatim>\<open>control/rw_bios_nv_user.cpp\<close>: reading and writing variables of the firmware through a
  kernel module. The device is a parameter: whether it opens, and what the two
  requests of each terminal type do to its state.
\<close>

record GET_VAR_STRUCTURE =
  var_name :: "16 word"
  var_value :: "16 word"
  RetStatus :: "16 word"

record BIOS_VAR_STRUCTURE =
  bios_name :: "16 word"
  bios_value :: "16 word"
  RtcWake :: "16 word"
  var_hour :: "16 word"
  var_minute :: "16 word"
  var_second :: "16 word"
  MinIncrease :: "16 word"
  bios_status :: "16 word"

record 'd nv_device =
  nv_open :: bool
  vdi_get :: "'d \<Rightarrow> GET_VAR_STRUCTURE \<Rightarrow> int \<times> GET_VAR_STRUCTURE"
  vdi_set :: "'d \<Rightarrow> GET_VAR_STRUCTURE \<Rightarrow> int \<times> GET_VAR_STRUCTURE \<times> 'd"
  idv_get :: "'d \<Rightarrow> BIOS_VAR_STRUCTURE \<Rightarrow> int \<times> BIOS_VAR_STRUCTURE"
  idv_set :: "'d \<Rightarrow> BIOS_VAR_STRUCTURE \<Rightarrow> int \<times> BIOS_VAR_STRUCTURE \<times> 'd"

definition AC_POWER_VAR_NAME :: "32 word" where
  "AC_POWER_VAR_NAME = 0"

text \<open>The module is loaded when \<^verbatim>\<open>lsmod\<close> does not list it.\<close>

definition load_module :: "shell \<Rightarrow> 'a machine_scheme \<Rightarrow> 'a machine_scheme cres" where
  "load_module sh m =
     cbind (rj_exec_result sh ''lsmod | grep rw_bios_nv'' (replicate 128 NUL) m) (\<lambda>((_, buf), m1).
       Inr (if c_str buf = [] then snd (rj_system sh ''insmod /usr/local/bin/rw_bios_nv.ko'' m1) else m1))"

text \<open>\<^verbatim>\<open>nv_value\<close> keeps its value when the request fails.\<close>

definition vdi_bios_nv_read_user ::
  "'d nv_device \<Rightarrow> shell \<Rightarrow> 32 word \<Rightarrow> 32 word \<Rightarrow> 'd \<Rightarrow> 'a machine_scheme \<Rightarrow> (32 word \<times> 'a machine_scheme) cres" where
  "vdi_bios_nv_read_user D sh nv_name nv_value d m =
     cbind (load_module sh m) (\<lambda>m1.
       if \<not> nv_open D then Inr (nv_value, m1)
       else let (ret, v) = vdi_get D d \<lparr>var_name = ucast nv_name, var_value = 0, RetStatus = 0\<rparr>
            in Inr (if 0 \<le> ret \<and> RetStatus v = 1 then ucast (var_value v) else nv_value, m1))"

text \<open>The status of the request is not initialised by the caller.\<close>

definition vdi_bios_nv_write_user ::
  "'d nv_device \<Rightarrow> shell \<Rightarrow> 16 word \<Rightarrow> 32 word \<Rightarrow> 32 word \<Rightarrow> 'd \<Rightarrow> 'a machine_scheme \<Rightarrow> ('d \<times> 'a machine_scheme) cres" where
  "vdi_bios_nv_write_user D sh junk nv_name nv_value d m =
     cbind (load_module sh m) (\<lambda>m1.
       if \<not> nv_open D then Inr (d, m1)
       else let (ret, v, d') = vdi_set D d \<lparr>var_name = ucast nv_name, var_value = ucast nv_value, RetStatus = junk\<rparr>
            in Inr (d', m1))"

text \<open>The fields other than the name are not initialised by the caller.\<close>

definition idv_bios_nv_read_user ::
  "'d nv_device \<Rightarrow> shell \<Rightarrow> BIOS_VAR_STRUCTURE \<Rightarrow> 32 word \<Rightarrow> 32 word \<Rightarrow> 'd \<Rightarrow> 'a machine_scheme \<Rightarrow> (32 word \<times> 'a machine_scheme) cres" where
  "idv_bios_nv_read_user D sh junk nv_name nv_value d m =
     cbind (load_module sh m) (\<lambda>m1.
       if \<not> nv_open D then Inr (nv_value, m1)
       else let (ret, v) = idv_get D d (junk\<lparr>bios_name := ucast nv_name\<rparr>)
            in Inr (if 0 \<le> ret \<and> bios_status v = 1 then ucast (bios_value v) else nv_value, m1))"

text \<open>The variable is read first, so that the other settings are written back as they were.\<close>

definition idv_bios_nv_write_user ::
  "'d nv_device \<Rightarrow> shell \<Rightarrow> BIOS_VAR_STRUCTURE \<Rightarrow> 32 word \<Rightarrow> 32 word \<Rightarrow> 'd \<Rightarrow> 'a machine_scheme \<Rightarrow> ('d \<times> 'a machine_scheme) cres" where
  "idv_bios_nv_write_user D sh junk nv_name nv_value d m =
     cbind (load_module sh m) (\<lambda>m1.
       if \<not> nv_open D then Inr (d, m1)
       else let (ret, v) = idv_get D d (junk\<lparr>bios_name := ucast nv_name\<rparr>)
            in if ret < 0 \<or> bios_status v \<noteq> 1 then Inr (d, m1)
               else let (ret2, v2, d') = idv_set D d (v\<lparr>bios_value := ucast nv_value\<rparr>) in Inr (d', m1))"

lemma load_module_total: "\<exists>fs rs. load_module sh m = Inr (m\<lparr>files := fs, runs := rs\<rparr>)"
proof -
  from rj_exec_result_total [of 128 sh "''lsmod | grep rw_bios_nv''" m] obtain r buf fs rs where
    1: "rj_exec_result sh ''lsmod | grep rw_bios_nv'' (replicate 128 NUL) m = Inr ((r, buf), m\<lparr>files := fs, runs := rs\<rparr>)"
    by auto
  from rj_system_state [of sh "''insmod /usr/local/bin/rw_bios_nv.ko''" "m\<lparr>files := fs, runs := rs\<rparr>"]
  obtain r2 fs2 rs2 where
    "rj_system sh ''insmod /usr/local/bin/rw_bios_nv.ko'' (m\<lparr>files := fs, runs := rs\<rparr>) = (r2, m\<lparr>files := fs2, runs := rs2\<rparr>)"
    by auto
  with 1 show ?thesis by (cases "c_str buf = []") (auto simp: load_module_def)
qed

end
