(* ===== verification/ControlConf.thy ===== *)
theory ControlConf
  imports IniRoundtrip RjUtils
begin

text \<open>
  The settings of \<^verbatim>\<open>control/control.cpp\<close>: \<^verbatim>\<open>rj_set_int_conf\<close> and \<^verbatim>\<open>rj_get_int_conf\<close>
  load, change and write back \<^verbatim>\<open>system.ini\<close> through the ini parser. The interface
  \<open>int_store\<close> states what the rest of the component relies on; it holds for
  files that contain the section of the keys in use.
\<close>

definition system_ini :: string where
  "system_ini = ''/etc/UserCfg/system.ini''"

text \<open>Opening the file with \<^verbatim>\<open>w+\<close> empties it before the new value is stored.\<close>

definition rj_set_int_conf :: "string \<Rightarrow> int \<Rightarrow> 'a machine_scheme \<Rightarrow> (int \<times> 'a machine_scheme) cres" where
  "rj_set_int_conf key val m =
     cbind (iniparser_load (heap m) (files m system_ini)) (\<lambda>(ini, h1).
       case ini of
         None \<Rightarrow> Inr (- 1, m\<lparr>heap := h1\<rparr>)
       | Some d \<Rightarrow>
           if \<not> writable m system_ini
           then cbind (iniparser_freedict (Some d)) (\<lambda>_. Inr (- 1, m\<lparr>heap := h1\<rparr>))
           else let m1 = m\<lparr>files := (files m)(system_ini \<mapsto> [])\<rparr>
                in cbind (iniparser_set_int h1 (Some d) (Some key) val) (\<lambda>(ret, ini', h2).
                   if ret < 0
                   then cbind (iniparser_freedict ini') (\<lambda>_. Inr (ret, m1\<lparr>heap := h2\<rparr>))
                   else cbind (iniparser_dump_ini ini') (\<lambda>out.
                        cbind (iniparser_freedict ini') (\<lambda>_.
                          Inr (ret, m1\<lparr>heap := h2, files := (files m1)(system_ini \<mapsto> out)\<rparr>)))))"

definition rj_get_int_conf :: "string \<Rightarrow> int \<Rightarrow> 'a machine_scheme \<Rightarrow> (int \<times> 'a machine_scheme) cres" where
  "rj_get_int_conf key notfound m =
     cbind (iniparser_load (heap m) (files m system_ini)) (\<lambda>(ini, h1).
       case ini of
         None \<Rightarrow> Inr (notfound, m\<lparr>heap := h1\<rparr>)
       | Some d \<Rightarrow>
           cbind (iniparser_getint (Some d) (Some key) notfound) (\<lambda>val.
           cbind (iniparser_freedict (Some d)) (\<lambda>_. Inr (val, m\<lparr>heap := h1\<rparr>))))"

subsection \<open>Files that hold settings\<close>

text \<open>The mapping a text loads as, and with how many insertions.\<close>

definition loads_as :: "string \<Rightarrow> (string \<rightharpoonup> string option) \<Rightarrow> bool" where
  "loads_as text mp = (\<forall>h. no_fail h \<longrightarrow> (\<exists>d h' c. iniparser_load h (Some text) = Inr (Some d, h')
     \<and> dict_wf d \<and> dict_map d = mp \<and> dict_cap d c \<and> c < 2 ^ 25 \<and> no_fail h'))"

definition conf_map :: "(string \<rightharpoonup> string option) \<Rightarrow> bool" where
  "conf_map mp = (\<forall>k v. mp k = Some v \<longrightarrow>
     (if is_section k then v = None \<and> ini_sec_ok k
      else \<exists>s. v = Some s \<and> mp (sec_of k) \<noteq> None \<and> ent_ok (sec_of k) (key_of k) s))"

text \<open>The keys the component uses.\<close>

definition conf_keys :: "string set" where
  "conf_keys = {''control:brightness'', ''control:hdmi''}"

definition conf :: "(string \<rightharpoonup> string option) \<Rightarrow> 'a machine_scheme \<Rightarrow> bool" where
  "conf mp m \<longleftrightarrow> (\<exists>text. files m system_ini = Some text \<and> loads_as text mp) \<and> conf_map mp
     \<and> finite (dom mp) \<and> card (dom mp \<union> conf_keys) < 2 ^ 20 \<and> no_fail (heap m) \<and> writable m system_ini"

lemma conf_key_facts:
  assumes "k \<in> conf_keys"
  shows "strlwc (Some k) = Some k" and "\<not> is_section k" and "sec_of k = ''control''"
    and "is_int32 v \<Longrightarrow> ent_ok ''control'' (key_of k) (show_int v)"
proof -
  have "list_all (\<lambda>k. strlwc (Some k) = Some k \<and> \<not> is_section k \<and> sec_of k = ''control''
      \<and> ini_key_ok (key_of k) \<and> length (padded_key (key_of k)) \<le> 40 \<and> length (key_of k) \<le> 20)
    [''control:brightness'', ''control:hdmi'']" by code_simp
  with assms have k: "strlwc (Some k) = Some k" "\<not> is_section k" "sec_of k = ''control''"
    "ini_key_ok (key_of k)" "length (padded_key (key_of k)) \<le> 40" "length (key_of k) \<le> 20"
    unfolding conf_keys_def by auto
  from k show "strlwc (Some k) = Some k" "\<not> is_section k" "sec_of k = ''control''" by simp_all
  assume v: "is_int32 v"
  have val: "ini_val_ok (show_int v)"
  proof -
    have d: "c \<noteq> x" if "c \<in> set (show_int v)" "x \<in> {CHR '';'', CHR ''#'', CHR 0x22, CHR 0x27, CHR 0x5C, newline, NUL}" for c x
      using show_int_chars [OF that(1)] that(2) by (auto simp: isdigit_def newline_def NUL_def)
    have sp: "\<not> isspace c" if "c \<in> set (show_int v)" for c
      using show_int_chars [OF that] isdigit_not by (auto simp: isspace_def)
    let ?s = "show_int v"
    have h: "hd ?s \<in> set ?s" and l: "last ?s \<in> set ?s" by simp_all
    have "trimmed ?s" using sp [OF h] sp [OF l] by (simp add: trimmed_def)
    moreover have "one_line ?s" "CHR '';'' \<notin> set ?s" "CHR ''#'' \<notin> set ?s"
      using d [of _ newline] d [of _ NUL] d [of _ "CHR '';''"] d [of _ "CHR ''#''"] by (auto simp: one_line_def)
    moreover have "hd ?s \<noteq> CHR 0x22" "hd ?s \<noteq> CHR 0x27" "last ?s \<noteq> CHR 0x5C"
      using d [OF h] d [OF l] by simp_all
    ultimately show ?thesis by (simp add: ini_val_ok_def)
  qed
  from k(4-6) val show_int_length [OF v] show "ent_ok ''control'' (key_of k) (show_int v)" by (simp add: ent_ok_def)
qed

lemma conf_load:
  assumes "conf mp m"
  obtains d h c where "iniparser_load (heap m) (files m system_ini) = Inr (Some d, h)" and "dict_wf d"
    and "dict_map d = mp" and "dict_cap d c" and "c < 2 ^ 25" and "no_fail h"
  using assms unfolding conf_def loads_as_def by fastforce

text \<open>A mapping that a dictionary of well-formed sections and entries is written back as.\<close>

definition dump_map :: "(string \<rightharpoonup> string option) \<Rightarrow> bool" where
  "dump_map mp \<longleftrightarrow> (\<forall>k v. mp k = Some v \<longrightarrow> (if is_section k then ini_sec_ok k
       else mp (sec_of k) \<noteq> None \<longrightarrow> ent_ok (sec_of k) (key_of k) (val_str v)))
     \<and> (\<exists>s. is_section s \<and> mp s \<noteq> None) \<and> finite (dom mp) \<and> card (dom mp) < 2 ^ 21"

lemma dump_loads:
  assumes "dict_wf d" and "dump_map (dict_map d)"
  shows "\<exists>out. iniparser_dump_ini (Some d) = Inr out \<and> loads_as out (reload_map (dict_map d))"
proof -
  note ent = dict_entries_facts(2) [OF assms(1)]
  have sec: "s \<in> set (ini_sections d) \<longleftrightarrow> is_section s \<and> dict_map d s \<noteq> None" for s
    using ent by (force simp: ini_sections_def)
  have "ini_dict_ok d"
    unfolding ini_dict_ok_def
  proof (intro conjI ballI impI)
    fix e assume "e \<in> set (dict_entries d)"
    then obtain k v where "e = (k, v)" "dict_map d k = Some v" using ent by (metis surj_pair)
    with assms(2) show "case e of (k, v) \<Rightarrow> if is_section k then ini_sec_ok k
        else sec_of k \<in> set (ini_sections d) \<longrightarrow> ent_ok (sec_of k) (key_of k) (val_str v)"
      by (auto simp: dump_map_def sec)
  next
    assume "ini_sections d = []"
    with assms(2) sec show "dict_entries d = []" by (auto simp: dump_map_def)
  qed
  moreover have len: "length (dict_entries d) = card (dom (dict_map d))"
  proof -
    have "set (map fst (dict_entries d)) = dom (dict_map d)" using ent by (force simp: dom_def)
    then show ?thesis using distinct_card [OF dict_entries_facts(1) [OF assms(1)]] by simp
  qed
  then have "length (dict_entries d) < 2 ^ 21" using assms(2) by (simp add: dump_map_def)
  ultimately have "\<exists>out d' m'. iniparser_dump_ini (Some d) = Inr out
      \<and> iniparser_load h (Some out) = Inr (Some d', m') \<and> dict_wf d' \<and> no_fail m'
      \<and> dict_cap d' (3 * length (dict_entries d) + 1) \<and> dict_map d' = reload_map (dict_map d)" if "no_fail h" for h
    using dump_load_ok [OF assms(1), of h] that by auto
  note dl = this
  from dl [of "[]"] obtain out where out: "iniparser_dump_ini (Some d) = Inr out" by auto
  have "3 * length (dict_entries d) + 1 < 2 ^ 25" using \<open>length (dict_entries d) < 2 ^ 21\<close> by simp
  then have "loads_as out (reload_map (dict_map d))"
    unfolding loads_as_def using dl out by (metis Inr_inject)
  with out show ?thesis by blast
qed

lemma conf_map_reload:
  assumes "conf_map mp"
  shows "reload_map mp = mp"
proof
  fix k
  show "reload_map mp k = mp k"
    using assms [unfolded conf_map_def, rule_format, of k]
    by (cases "mp k") (auto simp: reload_map_def reload_value_def val_str_def split: if_splits)
qed

lemma conf_map_update:
  assumes "conf_map mp" and "k \<in> conf_keys" and "is_int32 v"
  shows "mp ''control'' \<noteq> None \<Longrightarrow> conf_map (mp(k \<mapsto> Some (show_int v)))"
    and "\<exists>s. is_section s \<and> mp s \<noteq> None \<Longrightarrow> finite (dom mp) \<Longrightarrow> card (dom mp \<union> conf_keys) < 2 ^ 20 \<Longrightarrow>
      dump_map (mp(k \<mapsto> Some (show_int v)))"
    and "mp ''control'' = None \<Longrightarrow> reload_map (mp(k \<mapsto> Some (show_int v))) = mp"
proof -
  note kf = conf_key_facts [OF assms(2)]
  have kc: "k \<noteq> ''control''" using kf(2) by (auto simp: is_section_def)
  have sk: "sec_of j \<noteq> k" for j using kf(2) is_section_sec_of [of j] by auto
  note cm = assms(1) [unfolded conf_map_def, rule_format]
  show "conf_map (mp(k \<mapsto> Some (show_int v)))" if "mp ''control'' \<noteq> None"
    unfolding conf_map_def
  proof (intro allI impI)
    fix j w assume "(mp(k \<mapsto> Some (show_int v))) j = Some w"
    then show "if is_section j then w = None \<and> ini_sec_ok j
        else \<exists>s. w = Some s \<and> (mp(k \<mapsto> Some (show_int v))) (sec_of j) \<noteq> None \<and> ent_ok (sec_of j) (key_of j) s"
      using kf(2,3) kf(4) [OF assms(3)] sk cm [of j w] that kc by (cases "j = k") (auto split: if_splits)
  qed
  show "dump_map (mp(k \<mapsto> Some (show_int v)))"
    if "\<exists>s. is_section s \<and> mp s \<noteq> None" "finite (dom mp)" "card (dom mp \<union> conf_keys) < 2 ^ 20"
    unfolding dump_map_def
  proof (intro conjI allI impI)
    fix j w assume "(mp(k \<mapsto> Some (show_int v))) j = Some w"
    then show "if is_section j then ini_sec_ok j
        else (mp(k \<mapsto> Some (show_int v))) (sec_of j) \<noteq> None \<longrightarrow> ent_ok (sec_of j) (key_of j) (val_str w)"
      using kf(2,3) kf(4) [OF assms(3)] sk cm [of j w] by (cases "j = k") (auto simp: val_str_def)
  next
    show "\<exists>s. is_section s \<and> (mp(k \<mapsto> Some (show_int v))) s \<noteq> None" using that(1) by auto
    show "finite (dom (mp(k \<mapsto> Some (show_int v))))" using that(2) by simp
    have "dom (mp(k \<mapsto> Some (show_int v))) \<subseteq> dom mp \<union> conf_keys" using assms(2) by auto
    moreover have "finite (dom mp \<union> conf_keys)" using that(2) by (simp add: conf_keys_def)
    ultimately have "card (dom (mp(k \<mapsto> Some (show_int v)))) \<le> card (dom mp \<union> conf_keys)"
      by (intro card_mono)
    also have "\<dots> < 2 ^ 21" using that(3) by simp
    finally show "card (dom (mp(k \<mapsto> Some (show_int v)))) < 2 ^ 21" .
  qed
  show "reload_map (mp(k \<mapsto> Some (show_int v))) = mp" if "mp ''control'' = None"
  proof
    fix j
    show "reload_map (mp(k \<mapsto> Some (show_int v))) j = mp j"
    proof (cases "j = k")
      case True
      have "mp k = None" using cm [of k] kf(2,3) that by (cases "mp k") auto
      with True kf(2,3) kc that show ?thesis by (simp add: reload_map_def)
    next
      case False
      with sk [of j] have "reload_map (mp(k \<mapsto> Some (show_int v))) j = reload_map mp j" by (simp add: reload_map_def)
      then show ?thesis by (simp add: conf_map_reload [OF assms(1)])
    qed
  qed
qed

lemma set_conf:
  assumes "conf mp m" and "k \<in> conf_keys" and "is_int32 v" and "\<exists>s. is_section s \<and> mp s \<noteq> None"
  obtains m' where "rj_set_int_conf k v m = Inr (0, m')"
    and "conf (if mp ''control'' = None then mp else mp(k \<mapsto> Some (show_int v))) m'"
    and "\<exists>h out. m' = m\<lparr>heap := h, files := (files m)(system_ini \<mapsto> out)\<rparr>"
proof -
  note c = assms(1) [unfolded conf_def]
  obtain d h n where ld: "iniparser_load (heap m) (files m system_ini) = Inr (Some d, h)" "dict_wf d"
    "dict_map d = mp" "dict_cap d n" "n < 2 ^ 25" "no_fail h" using conf_load [OF assms(1)] .
  have "n < 2 ^ 26" using ld(5) by simp
  from set_cap [OF ld(2,4) this ld(6), of k "Some (show_int v)"] obtain d' h' where
    st: "dictionary_set h (Some d) (Some k) (Some (show_int v)) = Inr (0, Some d', h')" "dict_wf d'"
      "no_fail h'" "dict_map d' = mp(k \<mapsto> Some (show_int v))" using ld(3) by auto
  have set: "iniparser_set_int h (Some d) (Some k) v = Inr (0, Some d', h')"
    using st(1) show_int_length [OF assms(3)] conf_key_facts(1) [OF assms(2)]
    by (simp add: iniparser_set_int_def)
  have dm: "dump_map (dict_map d')"
    unfolding st(4) using c assms(4) by (intro conf_map_update(2) [OF _ assms(2,3)]) auto
  obtain out where out: "iniparser_dump_ini (Some d') = Inr out" "loads_as out (reload_map (dict_map d'))"
    using dump_loads [OF st(2) dm] by blast
  define m' where "m' = m\<lparr>heap := h', files := (files m)(system_ini \<mapsto> out)\<rparr>"
  define mp' where "mp' = (if mp ''control'' = None then mp else mp(k \<mapsto> Some (show_int v)))"
  have rm: "reload_map (dict_map d') = mp'" and cm: "conf_map mp'"
    unfolding st(4) mp'_def
    using conf_map_update(1,3) [OF _ assms(2,3), of mp] c conf_map_reload
    by (auto simp del: fun_upd_apply)
  have "dom mp' \<union> conf_keys = dom mp \<union> conf_keys" using assms(2) by (auto simp: mp'_def)
  then have "conf mp' m'"
    using out(2) rm cm c st(3) by (auto simp: conf_def m'_def mp'_def)
  moreover have "rj_set_int_conf k v m = Inr (0, m')"
    using ld(1) c set out(1) dictionary_del_ok [OF st(2)]
    by (simp add: rj_set_int_conf_def iniparser_freedict_def m'_def Let_def)
  ultimately show thesis using that by (auto simp: mp'_def m'_def)
qed

subsection \<open>The interface of the settings\<close>

text \<open>What is stored under a key, read from the file with an allocator that does not fail.\<close>

definition conf_read :: "'a machine_scheme \<Rightarrow> string \<Rightarrow> int option" where
  "conf_read m k =
     (case iniparser_load [] (files m system_ini) of
        Inr (Some d, _) \<Rightarrow> (case dict_map d k of Some (Some s) \<Rightarrow> Some (to_int32 (strtol 0 s)) | _ \<Rightarrow> None)
      | _ \<Rightarrow> None)"

lemma conf_read:
  assumes "conf mp m"
  shows "conf_read m k = (case mp k of Some (Some s) \<Rightarrow> Some (to_int32 (strtol 0 s)) | _ \<Rightarrow> None)"
proof -
  obtain t where "files m system_ini = Some t" "loads_as t mp" using assms by (auto simp: conf_def)
  then obtain d h where "iniparser_load [] (files m system_ini) = Inr (Some d, h)" "dict_map d = mp"
    unfolding loads_as_def by (metis no_fail_Nil)
  then show ?thesis by (simp add: conf_read_def)
qed

lemma get_conf:
  assumes "conf mp m" and "k \<in> conf_keys"
  obtains h where "rj_get_int_conf k nf m = Inr (case conf_read m k of None \<Rightarrow> nf | Some v \<Rightarrow> v, m\<lparr>heap := h\<rparr>)"
    and "conf mp (m\<lparr>heap := h\<rparr>)"
proof -
  obtain d h n where ld: "iniparser_load (heap m) (files m system_ini) = Inr (Some d, h)" "dict_wf d"
    "dict_map d = mp" "no_fail h" using conf_load [OF assms(1)] .
  note kf = conf_key_facts [OF assms(2)]
  have "conf_map mp" using assms(1) by (simp add: conf_def)
  then have "mp k \<noteq> Some None" using kf(2) by (fastforce simp: conf_map_def)
  then have "iniparser_getint (Some d) (Some k) nf = Inr (case conf_read m k of None \<Rightarrow> nf | Some v \<Rightarrow> v)"
    using kf(1) ld(2,3) conf_read [OF assms(1), of k]
    by (cases "mp k") (auto simp: iniparser_getint_def iniparser_getstring_def dict.get_law ptr_of_def)
  then have "rj_get_int_conf k nf m = Inr (case conf_read m k of None \<Rightarrow> nf | Some v \<Rightarrow> v, m\<lparr>heap := h\<rparr>)"
    using ld(1) dictionary_del_ok [OF ld(2)] by (simp add: rj_get_int_conf_def iniparser_freedict_def)
  moreover have "conf mp (m\<lparr>heap := h\<rparr>)" using assms(1) ld(4) by (simp add: conf_def)
  ultimately show thesis using that by blast
qed

fun run_puts :: "(string \<Rightarrow> int \<Rightarrow> 's \<Rightarrow> (int \<times> 's) cres) \<Rightarrow> (string \<times> int) list \<Rightarrow> 's \<Rightarrow> (int list \<times> 's) cres" where
  "run_puts put [] s = Inr ([], s)"
| "run_puts put ((k, v) # xs) s =
     cbind (put k v s) (\<lambda>(r, s1). cbind (run_puts put xs s1) (\<lambda>(rs, s2). Inr (r # rs, s2)))"

locale int_store =
  fixes inv :: "'s \<Rightarrow> bool"
    and keys :: "string set"
    and look :: "'s \<Rightarrow> string \<Rightarrow> int option"
    and get :: "string \<Rightarrow> int \<Rightarrow> 's \<Rightarrow> (int \<times> 's) cres"
    and put :: "string \<Rightarrow> int \<Rightarrow> 's \<Rightarrow> (int \<times> 's) cres"
  assumes get_law: "inv s \<Longrightarrow> k \<in> keys \<Longrightarrow>
      \<exists>s'. get k nf s = Inr (case look s k of None \<Rightarrow> nf | Some v \<Rightarrow> v, s') \<and> inv s'
           \<and> (\<forall>j\<in>keys. look s' j = look s j)"
    and put_law: "inv s \<Longrightarrow> k \<in> keys \<Longrightarrow> is_int32 v \<Longrightarrow>
      \<exists>s'. put k v s = Inr (0, s') \<and> inv s' \<and> (\<forall>j\<in>keys. look s' j = (if j = k then Some v else look s j))"
begin

lemma put_get:
  assumes "inv s" and "k \<in> keys" and "is_int32 v" and "put k v s = Inr (r, s')"
  shows "\<exists>s''. get k nf s' = Inr (v, s'')"
  using put_law [OF assms(1-3)] get_law [of s' k nf] assms(2,4) by auto

lemma run_puts_look:
  assumes "inv s" and "list_all (\<lambda>(k, v). k \<in> keys \<and> is_int32 v) xs"
  shows "\<exists>s'. run_puts put xs s = Inr (replicate (length xs) 0, s') \<and> inv s'
    \<and> (\<forall>j\<in>keys. look s' j = (case map_of (rev xs) j of None \<Rightarrow> look s j | Some v \<Rightarrow> Some v))"
  using assms
proof (induction xs arbitrary: s)
  case (Cons kv xs)
  obtain k v where kv: "kv = (k, v)" by fastforce
  with Cons.prems put_law [of s k v] obtain s1 where
    s1: "put k v s = Inr (0, s1)" "inv s1" "\<forall>j\<in>keys. look s1 j = (if j = k then Some v else look s j)" by auto
  from Cons.IH [OF s1(2)] Cons.prems obtain s2 where
    s2: "run_puts put xs s1 = Inr (replicate (length xs) 0, s2)" "inv s2"
        "\<forall>j\<in>keys. look s2 j = (case map_of (rev xs) j of None \<Rightarrow> look s1 j | Some v \<Rightarrow> Some v)" by auto
  have "\<forall>j\<in>keys. look s2 j = (case map_of (rev (kv # xs)) j of None \<Rightarrow> look s j | Some v \<Rightarrow> Some v)"
    using s1(3) s2(3) kv by (auto simp: map_add_def split: option.splits)
  with kv s1 s2 show ?case by simp
qed simp

lemma run_puts_get:
  assumes "inv s" and "list_all (\<lambda>(k, v). k \<in> keys \<and> is_int32 v) xs" and "k \<in> keys"
  shows "\<exists>s' s''. run_puts put xs s = Inr (replicate (length xs) 0, s')
    \<and> get k nf s' = Inr (case map_of (rev xs) k of Some v \<Rightarrow> v
        | None \<Rightarrow> (case look s k of Some v \<Rightarrow> v | None \<Rightarrow> nf), s'')"
proof -
  from run_puts_look [OF assms(1,2)] obtain s' where s': "run_puts put xs s = Inr (replicate (length xs) 0, s')" "inv s'"
    "look s' k = (case map_of (rev xs) k of None \<Rightarrow> look s k | Some v \<Rightarrow> Some v)" using assms(3) by blast
  from get_law [OF s'(2) assms(3), of nf] s' show ?thesis by (auto split: option.splits)
qed

end

definition conf_inv :: "'a machine_scheme \<Rightarrow> bool" where
  "conf_inv m = (\<exists>mp. conf mp m \<and> mp ''control'' \<noteq> None)"

interpretation settings: int_store conf_inv conf_keys conf_read rj_get_int_conf rj_set_int_conf
proof
  fix m :: "'a machine_scheme" and k :: string and v nf :: int
  assume "conf_inv m" and k: "k \<in> conf_keys"
  then obtain mp where mp: "conf mp m" "mp ''control'' \<noteq> None" by (auto simp: conf_inv_def)
  obtain h where "rj_get_int_conf k nf m = Inr (case conf_read m k of None \<Rightarrow> nf | Some v \<Rightarrow> v, m\<lparr>heap := h\<rparr>)"
    "conf mp (m\<lparr>heap := h\<rparr>)" using get_conf [OF mp(1) k] .
  with mp show "\<exists>m'. rj_get_int_conf k nf m = Inr (case conf_read m k of None \<Rightarrow> nf | Some v \<Rightarrow> v, m')
      \<and> conf_inv m' \<and> (\<forall>j\<in>conf_keys. conf_read m' j = conf_read m j)"
    by (auto simp: conf_inv_def conf_read_def)
  assume v: "is_int32 v"
  have "is_section ''control''" by code_simp
  with mp(2) have "\<exists>s. is_section s \<and> mp s \<noteq> None" by blast
  from set_conf [OF mp(1) k v this] mp(2) obtain m' where
    m': "rj_set_int_conf k v m = Inr (0, m')" "conf (mp(k \<mapsto> Some (show_int v))) m'" by auto
  have "conf_inv m'" using m'(2) mp(2) conf_key_facts(2) [OF k] \<open>is_section ''control''\<close>
    by (auto simp: conf_inv_def)
  moreover have "conf_read m' j = (if j = k then Some v else conf_read m j)" for j
    using int_show_roundtrip [OF v] by (simp add: conf_read [OF m'(2)] conf_read [OF mp(1)])
  ultimately show "\<exists>m'. rj_set_int_conf k v m = Inr (0, m') \<and> conf_inv m'
      \<and> (\<forall>j\<in>conf_keys. conf_read m' j = (if j = k then Some v else conf_read m j))"
    using m'(1) by blast
qed

subsection \<open>Properties\<close>

lemma loads_items:
  assumes "items_ok [] its" and "length its < 2 ^ 24"
  shows "loads_as (concat (map item_text its)) (items_run [] Map.empty its)"
  unfolding loads_as_def
proof (intro allI impI)
  fix h assume "no_fail h"
  let ?b = "\<lparr>b_section = [], b_key = [], b_value = []\<rparr>"
  from dictionary_new_ok [OF \<open>no_fail h\<close>, of 0] obtain d0 h0 where new:
    "dictionary_new h 0 = (Some d0, h0)" "dict_wf d0" "dict_map d0 = Map.empty" "no_fail h0"
    "d_n d0 = 0" "d_size d0 = 128" by auto
  have "dict_cap d0 0" using new by (simp add: dict_cap_def)
  with load_items [of ?b its d0 h0 0] new assms obtain d' h' where
    "ini_load_loop h0 (concat (map item_text its)) [] ?b d0 0 = Inr (Some (d', 0), h')" "dict_wf d'"
    "no_fail h'" "dict_cap d' (length its)" "dict_map d' = items_run [] Map.empty its" by auto
  with new(1) assms(2) show "\<exists>d h' c. iniparser_load h (Some (concat (map item_text its))) = Inr (Some d, h')
      \<and> dict_wf d \<and> dict_map d = items_run [] Map.empty its \<and> dict_cap d c \<and> c < 2 ^ 25 \<and> no_fail h'"
    by (auto simp: iniparser_load_def intro!: exI [of _ "length its"])
qed

text \<open>A machine with a settings file of one section.\<close>

definition ex_conf :: "string \<Rightarrow> machine" where
  "ex_conf s = ex_machine\<lparr>files := [system_ini \<mapsto> ''['' @ s @ '']'' @ [newline]]\<rparr>"

lemma ex_conf:
  assumes "ini_sec_ok s"
  shows "conf [s \<mapsto> None] (ex_conf s)"
proof -
  have "items_ok [] [Sec s]" using assms by simp
  from loads_items [OF this] have "loads_as (''['' @ s @ '']'' @ [newline]) [s \<mapsto> None]" by simp
  moreover have "conf_map [s \<mapsto> None]" using assms by (auto simp: conf_map_def ini_sec_ok_def)
  moreover have "card ({s} \<union> conf_keys) \<le> Suc (card conf_keys)" by (simp add: card_insert_le_m1 conf_keys_def card_insert_if)
  moreover have "card conf_keys = 2" by (simp add: conf_keys_def)
  ultimately show ?thesis by (auto simp: conf_def ex_conf_def ex_machine_def)
qed

text \<open>
  C4. Settings are kept: from a settings file with the section \<^verbatim>\<open>control\<close>, a
  sequence of calls of \<^verbatim>\<open>rj_set_int_conf\<close> succeeds, and \<^verbatim>\<open>rj_get_int_conf\<close> then
  returns the value written last under its key, or what the file held
  before, through printing, parsing, dumping and loading the file each time.
\<close>

theorem settings_last_write:
  assumes "conf_inv m" and "list_all (\<lambda>(k, v). k \<in> conf_keys \<and> is_int32 v) xs" and "k \<in> conf_keys"
  shows "\<exists>m' m''. run_puts rj_set_int_conf xs m = Inr (replicate (length xs) 0, m')
    \<and> rj_get_int_conf k nf m' = Inr (case map_of (rev xs) k of Some v \<Rightarrow> v
        | None \<Rightarrow> (case conf_read m k of Some v \<Rightarrow> v | None \<Rightarrow> nf), m'')"
  by (rule settings.run_puts_get [OF assms])

theorem settings_last_write_witness:
  "\<exists>m' m''. run_puts rj_set_int_conf [(''control:brightness'', 70), (''control:hdmi'', 1), (''control:brightness'', 30)]
        (ex_conf ''control'') = Inr ([0, 0, 0], m')
    \<and> rj_get_int_conf ''control:brightness'' 81 m' = Inr (30, m'')"
proof -
  have "ini_sec_ok ''control''" by code_simp
  from ex_conf [OF this] have "conf_inv (ex_conf ''control'')" by (auto simp: conf_inv_def)
  from settings_last_write [OF this, of "[(''control:brightness'', 70), (''control:hdmi'', 1), (''control:brightness'', 30)]"
      "''control:brightness''" 81]
  show ?thesis by (simp add: conf_keys_def is_int32_def numeral_3_eq_3)
qed

text \<open>
  A setting is lost when the settings file has sections but not
  \<^verbatim>\<open>control\<close>: \<^verbatim>\<open>rj_set_int_conf\<close> reports success, and \<^verbatim>\<open>rj_get_int_conf\<close> returns the
  default.
\<close>

theorem settings_need_section:
  assumes "conf mp m" and "mp ''control'' = None" and "is_section s" and "mp s \<noteq> None"
    and "k \<in> conf_keys" and "is_int32 v"
  shows "\<exists>m' m''. rj_set_int_conf k v m = Inr (0, m') \<and> rj_get_int_conf k nf m' = Inr (nf, m'')"
proof -
  have "\<exists>s. is_section s \<and> mp s \<noteq> None" using assms(3,4) by blast
  from set_conf [OF assms(1,5,6) this] assms(2) obtain m' where
    m': "rj_set_int_conf k v m = Inr (0, m')" "conf mp m'" by auto
  have "conf_map mp" using assms(1) by (simp add: conf_def)
  with assms(2) conf_key_facts(2,3) [OF assms(5)] have "mp k = None"
    by (cases "mp k") (fastforce simp: conf_map_def)+
  then have "conf_read m' k = None" by (simp add: conf_read [OF m'(2)])
  with m'(1) get_conf [OF m'(2) assms(5), of nf] show ?thesis by auto
qed

theorem settings_need_section_witness:
  "\<exists>m' m''. rj_set_int_conf ''control:brightness'' 30 (ex_conf ''net'') = Inr (0, m')
    \<and> rj_get_int_conf ''control:brightness'' 81 m' = Inr (81, m'')"
proof -
  have s: "ini_sec_ok ''net''" "is_section ''net''" by code_simp+
  show ?thesis
    by (rule settings_need_section [OF ex_conf [OF s(1)] _ s(2)]) (simp_all add: conf_keys_def is_int32_def)
qed

end
