(* ===== verification/Control.thy ===== *)
theory Control
  imports Product BiosNv ControlConf RjMath
begin

text \<open>
  \<^verbatim>\<open>control/control.cpp\<close>: brightness, sound, screen, power, host name, time and
  language of the terminal. The functions build on the settings
  (\<^verbatim>\<open>ControlConf\<close>), the audio core, the video manager and the firmware variables.
\<close>

subsection \<open>Brightness\<close>

definition BRIGHTNESS_PATH :: string where
  "BRIGHTNESS_PATH = ''/sys/class/backlight/intel_backlight/''"

definition is_support_brightness :: "'a machine_scheme \<Rightarrow> int" where
  "is_support_brightness m = (if \<not> file_exists (BRIGHTNESS_PATH @ ''brightness'') m then 0 else 1)"

text \<open>The division of C rounds towards zero.\<close>

definition brightness_map :: "shell \<Rightarrow> 'd system \<Rightarrow> (int \<times> 'd system) cres" where
  "brightness_map sh s =
     cbind (rj_exec_result sh (''cat '' @ BRIGHTNESS_PATH @ ''max_brightness'') (replicate SIZE_64 NUL) s) (\<lambda>((_, out), s1).
       if c_str out = [] then Inr (ERROR_11002, s1)
       else let mx = atoi (chomp (c_str out))
            in Inr (0, s1\<lparr>bn_max := mx, bn_min := (if 0 \<le> mx then mx div 20 else - (- mx div 20))\<rparr>))"

definition controlInit :: "shell \<Rightarrow> 'd system \<Rightarrow> (int \<times> 'd system) cres" where
  "controlInit sh s = (if is_support_brightness s \<noteq> 0 then brightness_map sh s else Inr (0, s))"

definition getBrightness :: "'d system \<Rightarrow> (int \<times> 'd system) cres" where
  "getBrightness s =
     init_int s (if is_support_brightness s \<noteq> 0 then rj_get_int_conf ''control:brightness'' 81 s else Inr (0, s))"

definition brightness_cmd :: "int \<Rightarrow> string" where
  "brightness_cmd actual = ''echo '' @ show_int actual @ '' > '' @ BRIGHTNESS_PATH @ ''brightness''"

definition setBrightness :: "shell \<Rightarrow> int \<Rightarrow> 'd system \<Rightarrow> (int \<times> 'd system) cres" where
  "setBrightness sh brightness s =
     init_int s
       (if brightness < 0 \<or> brightness > 100 then Inr (ERROR_10000, s)
        else if is_support_brightness s \<noteq> 0
        then cbind (percentage_to_value brightness (bn_min s) (bn_max s)) (\<lambda>actual.
               let (ret, s1) = rj_system sh (snprintf_c SIZE_64 (brightness_cmd actual)) s
               in if ret < 0 then Inr (ERROR_10000, s1)
                  else cbind (rj_set_int_conf ''control:brightness'' brightness s1) (\<lambda>(ret2, s2).
                    Inr (if ret2 < 0 then ERROR_10000 else SUCCESS_0, s2)))
        else Inr (SUCCESS_0, s))"

definition isSupportBrightness :: "'a machine_scheme \<Rightarrow> 'a int_res" where
  "isSupportBrightness m = init_int m (Inr (is_support_brightness m, m))"

subsection \<open>Sound\<close>

definition is_hdmi_connected :: "shell \<Rightarrow> 'a machine_scheme \<Rightarrow> (bool \<times> 'a machine_scheme) cres" where
  "is_hdmi_connected sh m =
     cbind (rj_exec_result sh
        (''cat `find /sys/class/drm/ | grep HDMI | sed '' @ quote @ ''s/$/'' @ [CHR 0x5C] @ ''/status/g'' @ quote
          @ ''` | grep '' @ [CHR 0x22] @ ''^connected'' @ [CHR 0x22])
        (replicate SIZE_64 NUL) m) (\<lambda>((_, out), m1). Inr (c_str out \<noteq> [], m1))"

definition getVoiceVolume :: "'a machine_scheme \<Rightarrow> 'a int_res" where
  "getVoiceVolume m = init_int m (Inr (SUCCESS_0, m))"

definition setVoiceVolume :: "int \<Rightarrow> 'a machine_scheme \<Rightarrow> 'a int_res" where
  "setVoiceVolume volume m = init_int m (Inr (SUCCESS_0, m))"

definition getHdmiVoiceStatus :: "'a machine_scheme \<Rightarrow> 'a int_res" where
  "getHdmiVoiceStatus m = init_int m (rj_get_int_conf ''control:hdmi'' 0 m)"

definition setHdmiVoiceStatus :: "pulse \<Rightarrow> shell \<Rightarrow> int \<Rightarrow> 'd system \<Rightarrow> (int \<times> 'd system) cres" where
  "setHdmiVoiceStatus P sh status s =
     init_int s
       (cbind (is_hdmi_connected sh s) (\<lambda>(con, s1).
          if \<not> con then Inr (ERROR_11001, s1)
          else let hdmi = (status \<noteq> 0);
                   (ret, a) = am_changeHDMI P (if hdmi then ''hdmi'' else ''analog'') (core s1);
                   s2 = s1\<lparr>core := a\<rparr>
               in if ret < 0 then Inr (ERROR_10000, s2)
                  else cbind (rj_set_int_conf ''control:hdmi'' (if hdmi then 1 else 0) s2) (\<lambda>(ret2, s3).
                    Inr (if ret2 < 0 then ERROR_10000 else SUCCESS_0, s3))))"

subsection \<open>Screen\<close>

text \<open>The three functions that return what the video manager finds, or an error text.\<close>

definition put_found :: "string option \<Rightarrow> string \<times> 'a machine_scheme \<Rightarrow> 'a text_res" where
  "put_found buf r =
     (if fst r = [] then cbind (put_text buf (rj_strerror ERROR_10000)) (\<lambda>b. Inr ((ERROR_10000, b), snd r))
      else cbind (put_text buf (c_str (fst r))) (\<lambda>b. Inr ((SUCCESS_0, b), snd r)))"

definition getCurrentResolution :: "shell \<Rightarrow> string option \<Rightarrow> 'a machine_scheme \<Rightarrow> 'a text_res" where
  "getCurrentResolution sh buf m = init_str m buf (cbind (vm_getCurrentResolution sh m) (put_found buf))"

definition setDeviceResolution :: "shell \<Rightarrow> string option \<Rightarrow> int \<Rightarrow> 'a machine_scheme \<Rightarrow> 'a int_res" where
  "setDeviceResolution sh r refresh m =
     init_int m (para_int m r (\<lambda>r'. cbind (vm_setResolution sh r' m) (\<lambda>(ret, m1). Inr (if ret < 0 then ERROR_10000 else ret, m1))))"

definition control_getSupportResolution :: "shell \<Rightarrow> string option \<Rightarrow> 'a machine_scheme \<Rightarrow> 'a text_res" where
  "control_getSupportResolution sh buf m = init_str m buf (cbind (getSupportResolution sh m) (put_found buf))"

definition getOptimumResolution :: "shell \<Rightarrow> string option \<Rightarrow> 'a machine_scheme \<Rightarrow> 'a text_res" where
  "getOptimumResolution sh buf m = init_str m buf (cbind (vm_getOptimumResolution sh m) (put_found buf))"

subsection \<open>Commands of the system\<close>

text \<open>Run a command; a status below 0 is reported as a failure of the command.\<close>

definition run_cmd :: "shell \<Rightarrow> string \<Rightarrow> 'a machine_scheme \<Rightarrow> int \<times> 'a machine_scheme" where
  "run_cmd sh cmd m = (let (ret, m1) = rj_system sh cmd m in (if ret < 0 then ERROR_11002 else SUCCESS_0, m1))"

definition shutDown :: "shell \<Rightarrow> 'a machine_scheme \<Rightarrow> 'a int_res" where
  "shutDown sh m = init_int m (Inr (run_cmd sh ''shutdown -h now'' m))"

definition reboot :: "shell \<Rightarrow> 'a machine_scheme \<Rightarrow> 'a int_res" where
  "reboot sh m = init_int m (Inr (run_cmd sh ''reboot'' m))"

definition setSleeptime :: "shell \<Rightarrow> int \<Rightarrow> 'a machine_scheme \<Rightarrow> 'a int_res" where
  "setSleeptime sh second m =
     init_int m (if second < 0 then Inr (ERROR_11003, m)
                 else Inr (run_cmd sh (snprintf_c SIZE_64 (''xset -s '' @ show_int second)) m))"

definition startConsole :: "shell \<Rightarrow> 'a machine_scheme \<Rightarrow> 'a int_res" where
  "startConsole sh m = init_int m (Inr (run_cmd sh ''xterm -e login -p'' m))"

definition syncServerTime_block :: "shell \<Rightarrow> string option \<Rightarrow> 'a machine_scheme \<Rightarrow> 'a int_res" where
  "syncServerTime_block sh serverip m =
     init_int m
       (if check_ipaddr serverip \<noteq> 0 then Inr (ERROR_11003, m)
        else let (ret, m1) = rj_system sh (snprintf_c SIZE_64 (''ntpdate '' @ the serverip)) m
             in if ret < 0 then Inr (ERROR_11002, m1)
                else Inr (run_cmd sh ''hwclock --systohc'' m1))"

definition setLanguage :: "shell \<Rightarrow> string option \<Rightarrow> 'a machine_scheme \<Rightarrow> 'a int_res" where
  "setLanguage sh language m =
     init_int m (para_int m language (\<lambda>lang.
       if \<not> file_exists (RJ_SCRIPT_PATH @ ''setLanguage'') m then Inr (ERROR_11000, m)
       else if lang = ''chinese''
       then Inr (run_cmd sh (snprintf_c SIZE_128 (''bash '' @ RJ_SCRIPT_PATH @ ''setLanguage chinese'')) m)
       else if lang = ''english''
       then Inr (run_cmd sh (snprintf_c SIZE_128 (''bash '' @ RJ_SCRIPT_PATH @ ''setLanguage english'')) m)
       else Inr (ERROR_11001, m)))"

subsection \<open>Power\<close>

text \<open>\<^verbatim>\<open>junk\<close>: the request structures, which are on the stack and not initialised.\<close>

definition terminal_type :: "'d system \<Rightarrow> (string \<times> 'd system) cres" where
  "terminal_type s = cbind (getTermialType (Some (replicate SIZE_64 NUL)) s) (\<lambda>((_, b), s1). Inr (c_str (the b), s1))"

definition setPowerState ::
  "'d nv_device \<Rightarrow> shell \<Rightarrow> 16 word \<Rightarrow> BIOS_VAR_STRUCTURE \<Rightarrow> int \<Rightarrow> 'd system \<Rightarrow> (int \<times> 'd system) cres" where
  "setPowerState D sh junk1 junk2 powerState s =
     init_int s
       (cbind (terminal_type s) (\<lambda>(type, s1).
          let v = (if powerState \<noteq> 0 then 1 else 0)
          in if type = ''VDI''
             then cbind (vdi_bios_nv_write_user D sh junk1 AC_POWER_VAR_NAME v (nv s1) s1) (\<lambda>(d, s2). Inr (SUCCESS_0, s2\<lparr>nv := d\<rparr>))
             else if type = ''IDV''
             then cbind (idv_bios_nv_write_user D sh junk2 AC_POWER_VAR_NAME v (nv s1) s1) (\<lambda>(d, s2). Inr (SUCCESS_0, s2\<lparr>nv := d\<rparr>))
             else Inr (ERROR_11001, s1)))"

definition getPowerState ::
  "'d nv_device \<Rightarrow> shell \<Rightarrow> BIOS_VAR_STRUCTURE \<Rightarrow> 'd system \<Rightarrow> (int \<times> 'd system) cres" where
  "getPowerState D sh junk s =
     init_int s
       (cbind (terminal_type s) (\<lambda>(type, s1).
          let state = (\<lambda>(v :: 32 word, s2). Inr (if v \<noteq> 0 then 1 else 0, s2))
          in if type = ''VDI'' then cbind (vdi_bios_nv_read_user D sh AC_POWER_VAR_NAME 0 (nv s1) s1) state
             else if type = ''IDV'' then cbind (idv_bios_nv_read_user D sh junk AC_POWER_VAR_NAME 0 (nv s1) s1) state
             else Inr (ERROR_11001, s1)))"

subsection \<open>Host name\<close>

definition hostname_ini :: string where
  "hostname_ini = ''/etc/UserCfg/hostname.ini''"

definition getHostname :: "shell \<Rightarrow> string option \<Rightarrow> 'a machine_scheme \<Rightarrow> 'a text_res" where
  "getHostname sh hostname m =
     init_str m hostname
       (cbind (if file_exists hostname_ini m then Inr (0, m)
               else cbind (rj_exec_result sh (snprintf_c SIZE_128 (''echo `hostname` > '' @ hostname_ini)) (replicate SIZE_128 NUL) m)
                      (\<lambda>((ret, _), m1). Inr (ret, m1)))
        (\<lambda>(ret, m1).
          if ret < 0 then cbind (put_text hostname (rj_strerror ERROR_11002)) (\<lambda>b. Inr ((ERROR_11002, b), m1))
          else cbind (rj_exec_result sh (snprintf_c SIZE_128 (''cat '' @ hostname_ini)) (replicate SIZE_128 NUL) m1) (\<lambda>((_, out), m2).
            if c_str out = [] then cbind (put_text hostname (rj_strerror ERROR_11002)) (\<lambda>b. Inr ((ERROR_11002, b), m2))
            else cbind (put_text hostname (chomp (c_str out))) (\<lambda>b. Inr ((SUCCESS_0, b), m2)))))"

definition setHostname :: "shell \<Rightarrow> string option \<Rightarrow> 'a machine_scheme \<Rightarrow> 'a int_res" where
  "setHostname sh hostname m =
     init_int m
       (case hostname of
          None \<Rightarrow> Inr (ERROR_11003, m)
        | Some h \<Rightarrow>
            if length h > 0x80 then Inr (ERROR_11003, m)
            else Inr (run_cmd sh (snprintf_c SIZE_128 (''echo '' @ h @ '' > '' @ hostname_ini)) m))"

subsection \<open>USB, not implemented\<close>

definition getUsbPathForOffine :: "'a machine_scheme \<Rightarrow> 'a int_res" where
  "getUsbPathForOffine m = init_int m (Inr (SUCCESS_0, m))"

definition mountUsb :: "string option \<Rightarrow> 'a machine_scheme \<Rightarrow> 'a int_res" where
  "mountUsb dev m = init_int m (Inr (SUCCESS_0, m))"

definition getUsbList :: "'a machine_scheme \<Rightarrow> 'a int_res" where
  "getUsbList m = init_int m (Inr (SUCCESS_0, m))"

definition unmountUsb :: "string option \<Rightarrow> 'a machine_scheme \<Rightarrow> 'a int_res" where
  "unmountUsb path m = init_int m (Inr (SUCCESS_0, m))"

subsection \<open>Brightness is set and kept\<close>

lemma set_conf_frame:
  assumes "rj_set_int_conf k v m = Inr (r, m')"
  obtains h fs where "m' = m\<lparr>heap := h, files := fs\<rparr>" "\<And>p. p \<noteq> system_ini \<Longrightarrow> fs p = files m p"
proof -
  have "m' = m\<lparr>heap := heap m', files := files m'\<rparr> \<and> (\<forall>p. p \<noteq> system_ini \<longrightarrow> files m' p = files m p)"
    using assms unfolding rj_set_int_conf_def Let_def
    by (auto simp: cbind_def split: sum.splits option.splits if_splits prod.splits)
  then show thesis using that by blast
qed

lemma conf_inv_frame:
  assumes "conf_inv m" "fs system_ini = files m system_ini"
  shows "conf_inv (m\<lparr>files := fs, runs := rs\<rparr>)" "conf_read (m\<lparr>files := fs, runs := rs\<rparr>) = conf_read m"
  using assms by (auto simp: conf_inv_def conf_def conf_read_def fun_eq_iff)

lemma brightness_path: "BRIGHTNESS_PATH @ ''brightness'' \<noteq> system_ini"
  by (simp add: BRIGHTNESS_PATH_def system_ini_def)

lemma brightness_cmd_short:
  assumes "0 \<le> v" "v \<le> 65536"
  shows "snprintf_c SIZE_64 (brightness_cmd v) = brightness_cmd v"
proof -
  have "length (show_nat (nat v)) \<le> 5" using assms by (intro show_nat_length) simp_all
  with assms(1) show ?thesis by (simp add: snprintf_c_def SIZE_64_def brightness_cmd_def BRIGHTNESS_PATH_def show_int_def)
qed


definition ex_bright :: "unit system" where
  "ex_bright = (ex_system ())\<lparr>files := [system_ini \<mapsto> ''[control]'' @ [newline], BRIGHTNESS_PATH @ ''brightness'' \<mapsto> ''7''],
     bn_min := 5\<rparr>"

lemma ex_bright_conf: "conf_inv ex_bright"
proof -
  have "ini_sec_ok ''control''" by code_simp
  from ex_conf [OF this] have c: "conf [''control'' \<mapsto> None] (ex_conf ''control'')" .
  have "files (ex_conf ''control'') system_ini = files ex_bright system_ini" "heap ex_bright = heap (ex_conf ''control'')"
    "writable ex_bright = writable (ex_conf ''control'')"
    by (simp_all add: ex_conf_def ex_bright_def ex_system_def machine.defs ex_machine_def BRIGHTNESS_PATH_def system_ini_def)
  with c have "conf [''control'' \<mapsto> None] ex_bright" unfolding conf_def by simp
  then show ?thesis by (auto simp: conf_inv_def)
qed


subsection \<open>The host name is kept\<close>

text \<open>
  C28. A host name of at most 94 characters is kept: after a successful
  \<^verbatim>\<open>setHostname\<close>, \<^verbatim>\<open>getHostname\<close> returns it, cut to the buffer of its caller.
  The shell is assumed to carry out the two commands \<^verbatim>\<open>echo\<close> and \<^verbatim>\<open>cat\<close>.
\<close>

theorem hostname_kept:
  assumes "g_isinit m" "NUL \<notin> set h" "length h \<le> 94" "b \<noteq> []"
    and "sh (''echo '' @ h @ '' > '' @ hostname_ini) [] (files m) = Some ([], 0, fs)" "fs hostname_ini = Some (h @ [newline])"
    and "sh (''cat '' @ hostname_ini) [] fs = Some (h @ [newline], 0, fs)"
  shows "\<exists>m1 b' m2. setHostname sh (Some h) m = Inr (0, m1) \<and> getHostname sh (Some b) m1 = Inr ((0, Some b'), m2)
    \<and> length b' = length b \<and> c_str b' = take (length b - 1) h"
proof -
  let ?e = "''echo '' @ h @ '' > '' @ hostname_ini" and ?c = "''cat '' @ hostname_ini"
  let ?m = "m\<lparr>files := fs, runs := runs m @ [?e]\<rparr>"
  have cut: "snprintf_c SIZE_128 ?e = ?e" "snprintf_c SIZE_128 ?c = ?c"
    using assms(3) by (simp_all add: snprintf_c_def SIZE_128_def hostname_ini_def)
  have set: "setHostname sh (Some h) m = Inr (0, ?m)"
    using assms(1,3) rj_system_run [of sh ?e m, OF assms(5)] cut(1)
    by (simp add: setHostname_def init_int_def run_cmd_def SUCCESS_0_def)
  have nn: "NUL \<notin> set (h @ [newline])" using assms(2) by (auto simp: NUL_def newline_def)
  obtain out where out: "rj_exec_result sh ?c (replicate 128 NUL) ?m = Inr ((0, out), ?m\<lparr>runs := runs ?m @ [?c]\<rparr>)"
    "c_str out = h @ [newline]"
    using rj_exec_result_ok [of sh ?c ?m "h @ [newline]" 0 fs 128] assms(3,7) nn by auto
  have "getHostname sh (Some b) ?m = Inr ((0, Some (snprintf_to b h)), ?m\<lparr>runs := runs ?m @ [?c]\<rparr>)"
    using assms(1,6) out cut(2)
    by (simp add: getHostname_def init_str_def file_exists_def SIZE_128_def put_text_def chomp_def SUCCESS_0_def)
  with set assms(2,4) show ?thesis by (auto simp: c_str_snprintf_to)
qed

theorem hostname_kept_witness:
  "\<exists>m1 b' m2. setHostname (\<lambda>c _ fs. if c = ''echo ct3100 > /etc/UserCfg/hostname.ini'' then Some ([], 0, fs(hostname_ini \<mapsto> ''ct3100'' @ [newline]))
        else Some (''ct3100'' @ [newline], 0, fs)) (Some ''ct3100'') ex_machine = Inr (0, m1)
    \<and> getHostname (\<lambda>c _ fs. if c = ''echo ct3100 > /etc/UserCfg/hostname.ini'' then Some ([], 0, fs(hostname_ini \<mapsto> ''ct3100'' @ [newline]))
        else Some (''ct3100'' @ [newline], 0, fs)) (Some (replicate 16 NUL)) m1 = Inr ((0, Some b'), m2)
    \<and> c_str b' = ''ct3100''"
proof -
  let ?sh = "\<lambda>c _ fs. if c = ''echo ct3100 > /etc/UserCfg/hostname.ini'' then Some ([], 0 :: int, fs(hostname_ini \<mapsto> ''ct3100'' @ [newline]))
        else Some (''ct3100'' @ [newline], 0, fs)"
  have "NUL \<notin> set ''ct3100''" by code_simp
  with hostname_kept [of ex_machine "''ct3100''" "replicate 16 NUL" ?sh "[hostname_ini \<mapsto> ''ct3100'' @ [newline]]"]
  show ?thesis by (simp add: ex_machine_def hostname_ini_def) blast
qed

text \<open>A longer name is accepted although the command that stores it is cut.\<close>

lemma hostname_cut:
  assumes "g_isinit m" "94 < length h" "length h \<le> 128"
  shows "setHostname sh (Some h) m = Inr (run_cmd sh (take 127 (''echo '' @ h @ '' > '' @ hostname_ini)) m)"
    and "take 127 (''echo '' @ h @ '' > '' @ hostname_ini) \<noteq> ''echo '' @ h @ '' > '' @ hostname_ini"
proof -
  have "length (take 127 (''echo '' @ h @ '' > '' @ hostname_ini)) < length (''echo '' @ h @ '' > '' @ hostname_ini)"
    using assms(2) by (simp add: hostname_ini_def)
  then show "take 127 (''echo '' @ h @ '' > '' @ hostname_ini) \<noteq> ''echo '' @ h @ '' > '' @ hostname_ini" by (metis less_irrefl)
qed (use assms in \<open>simp add: setHostname_def init_int_def snprintf_c_def SIZE_128_def\<close>)

subsection \<open>The power state is kept\<close>

text \<open>
  What is assumed of the device: it returns the value of the power variable that
  was stored. \<open>val\<close> and \<open>vars\<close> are the variables of the two terminal types.
\<close>

definition vdi_device_ok :: "'d nv_device \<Rightarrow> ('d \<Rightarrow> 16 word) \<Rightarrow> bool" where
  "vdi_device_ok D val \<longleftrightarrow> nv_open D
     \<and> (\<forall>d r. var_name r = 0 \<longrightarrow> vdi_get D d r = (0, r\<lparr>var_value := val d, RetStatus := 1\<rparr>))
     \<and> (\<forall>d r. var_name r = 0 \<longrightarrow> (\<exists>r' d'. vdi_set D d r = (0, r', d') \<and> val d' = var_value r))"

definition idv_device_ok :: "'d nv_device \<Rightarrow> ('d \<Rightarrow> BIOS_VAR_STRUCTURE) \<Rightarrow> bool" where
  "idv_device_ok D vars \<longleftrightarrow> nv_open D
     \<and> (\<forall>d r. bios_name r = 0 \<longrightarrow> idv_get D d r = (0, (vars d)\<lparr>bios_name := 0, bios_status := 1\<rparr>))
     \<and> (\<forall>d r. bios_name r = 0 \<longrightarrow> (\<exists>r' d'. idv_set D d r = (0, r', d') \<and> vars d' = r))"

lemma terminal_type_known:
  assumes "g_isinit s" "c_str (platform_type (sysInfo s)) = t" "length t < 64"
  shows "terminal_type s = Inr (t, s)"
  using getter_returns(10) [OF assms(1) _ assms(2), of "replicate 64 NUL"] assms(3)
  by (auto simp: terminal_type_def returns_text_def SIZE_64_def)

lemma power_name [simp]: "ucast AC_POWER_VAR_NAME = (0 :: 16 word)"
  by (simp add: AC_POWER_VAR_NAME_def)

lemma vdi_read:
  assumes "vdi_device_ok D val"
  shows "\<exists>fs rs. vdi_bios_nv_read_user D sh AC_POWER_VAR_NAME x d m = Inr (ucast (val d), m\<lparr>files := fs, runs := rs\<rparr>)"
proof -
  obtain fs rs where "load_module sh m = Inr (m\<lparr>files := fs, runs := rs\<rparr>)" using load_module_total by blast
  with assms show ?thesis
    by (auto simp: vdi_device_ok_def vdi_bios_nv_read_user_def intro!: exI [of _ fs] exI [of _ rs])
qed

lemma idv_read:
  assumes "idv_device_ok D vars"
  shows "\<exists>fs rs. idv_bios_nv_read_user D sh junk AC_POWER_VAR_NAME x d m = Inr (ucast (bios_value (vars d)), m\<lparr>files := fs, runs := rs\<rparr>)"
proof -
  obtain fs rs where "load_module sh m = Inr (m\<lparr>files := fs, runs := rs\<rparr>)" using load_module_total by blast
  with assms show ?thesis
    by (auto simp: idv_device_ok_def idv_bios_nv_read_user_def intro!: exI [of _ fs] exI [of _ rs])
qed

lemma vdi_write:
  assumes "vdi_device_ok D val"
  shows "\<exists>d' fs rs. vdi_bios_nv_write_user D sh junk AC_POWER_VAR_NAME v d m = Inr (d', m\<lparr>files := fs, runs := rs\<rparr>) \<and> val d' = ucast v"
proof -
  obtain fs rs where w: "load_module sh m = Inr (m\<lparr>files := fs, runs := rs\<rparr>)" using load_module_total by blast
  let ?r = "\<lparr>var_name = 0, var_value = ucast v, RetStatus = junk\<rparr>"
  obtain r1 d1 where "vdi_set D d ?r = (0, r1, d1)" "val d1 = ucast v"
    using assms [unfolded vdi_device_ok_def] by (metis GET_VAR_STRUCTURE.select_convs(1,2))
  with w assms show ?thesis by (auto simp: vdi_bios_nv_write_user_def vdi_device_ok_def)
qed

lemma idv_write:
  assumes "idv_device_ok D vars"
  shows "\<exists>d' fs rs. idv_bios_nv_write_user D sh junk AC_POWER_VAR_NAME v d m = Inr (d', m\<lparr>files := fs, runs := rs\<rparr>)
    \<and> vars d' = (vars d)\<lparr>bios_name := 0, bios_status := 1, bios_value := ucast v\<rparr>"
proof -
  obtain fs rs where w: "load_module sh m = Inr (m\<lparr>files := fs, runs := rs\<rparr>)" using load_module_total by blast
  let ?r = "(vars d)\<lparr>bios_name := 0, bios_status := 1, bios_value := ucast v\<rparr>"
  have "bios_name ?r = 0" by simp
  then obtain r2 d2 where "idv_set D d ?r = (0, r2, d2)" "vars d2 = ?r" using assms unfolding idv_device_ok_def by blast
  with w assms show ?thesis
    by (intro exI [of _ d2] exI [of _ fs] exI [of _ rs]) (simp add: idv_bios_nv_write_user_def idv_device_ok_def)
qed

text \<open>
  On a terminal of either type the power state that was set is the one that is
  returned, when the device keeps its variables; on an IDV terminal the
  times at which the terminal wakes up stay as they were.
\<close>

lemma power_state_kept:
  assumes "g_isinit s"
    and "c_str (platform_type (sysInfo s)) = ''VDI'' \<and> vdi_device_ok D val
      \<or> c_str (platform_type (sysInfo s)) = ''IDV'' \<and> idv_device_ok D vars"
  shows "\<exists>s1 s2. setPowerState D sh j1 j2 k s = Inr (0, s1) \<and> getPowerState D sh' j3 s1 = Inr (if k \<noteq> 0 then 1 else 0, s2)
    \<and> (c_str (platform_type (sysInfo s)) = ''IDV'' \<longrightarrow>
        (let v = vars (nv s); v1 = vars (nv s1)
         in RtcWake v1 = RtcWake v \<and> var_hour v1 = var_hour v \<and> var_minute v1 = var_minute v
          \<and> var_second v1 = var_second v \<and> MinIncrease v1 = MinIncrease v))"
  using assms(2)
proof
  let ?v = "if k \<noteq> 0 then 1 else 0 :: 32 word"
  assume a: "c_str (platform_type (sysInfo s)) = ''VDI'' \<and> vdi_device_ok D val"
  have t: "terminal_type s = Inr (''VDI'', s)" using terminal_type_known [OF assms(1)] a by simp
  obtain fs rs d' where w: "vdi_bios_nv_write_user D sh j1 AC_POWER_VAR_NAME ?v (nv s) s = Inr (d', s\<lparr>files := fs, runs := rs\<rparr>)"
    "val d' = ucast ?v" using vdi_write [OF conjunct2 [OF a], of sh j1 ?v "nv s" s] by blast
  let ?s = "s\<lparr>files := fs, runs := rs, nv := d'\<rparr>"
  have "terminal_type ?s = Inr (''VDI'', ?s)" using terminal_type_known [of ?s "''VDI''"] assms(1) a by simp
  with t w vdi_read [of D val sh' 0 d' ?s] assms(1) a show ?thesis
    by (auto simp: setPowerState_def getPowerState_def init_int_def SUCCESS_0_def Let_def)
next
  let ?v = "if k \<noteq> 0 then 1 else 0 :: 32 word"
  assume a: "c_str (platform_type (sysInfo s)) = ''IDV'' \<and> idv_device_ok D vars"
  have t: "terminal_type s = Inr (''IDV'', s)" using terminal_type_known [OF assms(1)] a by simp
  obtain fs rs d' where w: "idv_bios_nv_write_user D sh j2 AC_POWER_VAR_NAME ?v (nv s) s = Inr (d', s\<lparr>files := fs, runs := rs\<rparr>)"
    "vars d' = (vars (nv s))\<lparr>bios_name := 0, bios_status := 1, bios_value := ucast ?v\<rparr>" using idv_write [OF conjunct2 [OF a], of sh j2 ?v "nv s" s] by blast
  let ?s = "s\<lparr>files := fs, runs := rs, nv := d'\<rparr>"
  have "terminal_type ?s = Inr (''IDV'', ?s)" using terminal_type_known [of ?s "''IDV''"] assms(1) a by simp
  with t w idv_read [of D vars sh' j3 0 d' ?s] assms(1) a show ?thesis
    by (auto simp: setPowerState_def getPowerState_def init_int_def SUCCESS_0_def Let_def)
qed

subsection \<open>Setting the clock\<close>

text \<open>Two commands of which the second runs when the first one did not fail.\<close>

lemma rj_system_runs:
  "runs (snd (rj_system sh c m)) = runs m @ [c] \<or> fst (rj_system sh c m) = - 1 \<and> runs (snd (rj_system sh c m)) = runs m"
  by (auto simp: rj_system_def rj_popen_def popen_def split: option.splits)

lemma two_commands:
  fixes m :: "'a machine_scheme" and sh c1 c2
  defines "m1 \<equiv> rj_system sh c1 m"
  defines "m2 \<equiv> rj_system sh c2 (snd m1)"
  shows "\<exists>n. runs (if fst m1 < 0 then snd m1 else snd m2) = runs m @ take n [c1, c2]
    \<and> (0 \<le> fst m1 \<and> 0 \<le> fst m2 \<longrightarrow> n = 2)"
proof (cases "fst m1 < 0")
  case True
  from rj_system_runs [of sh c1 m] show ?thesis
  proof
    assume "runs (snd (rj_system sh c1 m)) = runs m @ [c1]"
    with True show ?thesis by (intro exI [of _ 1]) (simp add: m1_def)
  qed (use True in \<open>intro exI [of _ 0], simp add: m1_def\<close>)
next
  case False
  then have 1: "runs (snd m1) = runs m @ [c1]" using rj_system_runs [of sh c1 m] by (auto simp: m1_def)
  from rj_system_runs [of sh c2 "snd m1"] show ?thesis
  proof
    assume "runs (snd (rj_system sh c2 (snd m1))) = runs (snd m1) @ [c2]"
    with False 1 show ?thesis by (intro exI [of _ 2]) (simp add: m2_def)
  qed (use False 1 in \<open>intro exI [of _ 1], simp add: m2_def\<close>)
qed

text \<open>
  C29. The clock is set from a server only with a valid address, which consists of
  hexadecimal digits, colons and dots and thus holds nothing the shell
  interprets; the commands run are exactly the two of the source, never cut,
  in this order, and both have run when success is reported. Any other text runs nothing.
\<close>

theorem sync_time_commands:
  assumes "g_isinit m"
  shows "\<exists>r m1. syncServerTime_block sh ip m = Inr (r, m1)
    \<and> (if check_ipaddr ip \<noteq> 0 then r = ERROR_11003 \<and> m1 = m
       else list_all (\<lambda>c. isxdigit c \<or> c = CHR '':'' \<or> c = CHR ''.'') (the ip)
         \<and> (\<exists>n. runs m1 = runs m @ take n [''ntpdate '' @ the ip, ''hwclock --systohc''] \<and> (r = 0 \<longrightarrow> n = 2)))"
proof (cases "check_ipaddr ip = 0")
  case True
  then obtain a where a: "ip = Some a" "check_ipaddr (Some a) = 0" by (cases ip) (auto simp: check_ipaddr_def)
  have cut: "snprintf_c SIZE_64 (''ntpdate '' @ a) = ''ntpdate '' @ a"
    using check_ipaddr_text(2) [OF a(2)] by (simp add: snprintf_c_def SIZE_64_def)
  define m1 where "m1 = rj_system sh (''ntpdate '' @ a) m"
  define m2 where "m2 = rj_system sh ''hwclock --systohc'' (snd m1)"
  have res: "syncServerTime_block sh ip m = Inr (if fst m1 < 0 \<or> fst m2 < 0 then ERROR_11002 else 0, if fst m1 < 0 then snd m1 else snd m2)"
    using a cut assms
    by (simp add: syncServerTime_block_def init_int_def run_cmd_def SUCCESS_0_def m1_def m2_def split_beta)
  obtain n where "runs (if fst m1 < 0 then snd m1 else snd m2) = runs m @ take n [''ntpdate '' @ a, ''hwclock --systohc'']"
    "0 \<le> fst m1 \<and> 0 \<le> fst m2 \<longrightarrow> n = 2" using two_commands unfolding m1_def m2_def by blast
  moreover have "(if fst m1 < 0 \<or> fst m2 < 0 then ERROR_11002 else 0) = 0 \<longleftrightarrow> 0 \<le> fst m1 \<and> 0 \<le> fst m2"
    by (auto simp: ERROR_11002_def)
  ultimately show ?thesis using a check_ipaddr_text(1) [OF a(2)]
    by (intro exI [of _ "if fst m1 < 0 \<or> fst m2 < 0 then ERROR_11002 else 0"]
        exI [of _ "if fst m1 < 0 then snd m1 else snd m2"] conjI res)
       (auto simp: list_all_iff simp del: take_Cons_numeral intro!: exI [of _ n])
qed (use assms in \<open>simp add: syncServerTime_block_def init_int_def\<close>)

theorem sync_time_commands_witness:
  "\<exists>r m1. syncServerTime_block (\<lambda>_ _ fs. Some ([], 0, fs)) (Some ''10.0.0.1'') ex_machine = Inr (r, m1)
    \<and> (\<exists>n. runs m1 = take n [''ntpdate 10.0.0.1'', ''hwclock --systohc''] \<and> (r \<noteq> 0 \<or> n = 2))"
proof -
  have "check_ipaddr (Some ''10.0.0.1'') = 0" by code_simp
  with sync_time_commands [of ex_machine "\<lambda>_ _ fs. Some ([], 0, fs)" "Some ''10.0.0.1''"] show ?thesis
    by (simp add: ex_machine_def) blast
qed

end
