(* ===== verification/RjLog.thy ===== *)
theory RjLog
  imports RjUtils "HOL-Library.Word" "HOL-Library.Sublist"
begin

text \<open>
  \<^verbatim>\<open>utils/rj_log.cpp\<close>: the log file. A message is put behind its time, level and place,
  formatted into an array, written, and the file is copied and emptied when it
  reaches its limit. The static variables are the record \<open>logger\<close>; what
  \<^verbatim>\<open>vfprintf\<close> makes of a format and the arguments of the caller is a parameter
  (None when it fails), as is the text of the time.
\<close>

record logger =
  rj_log_fp :: "string option"
  rj_log_flag :: "32 word"
  logsize_cur :: "64 word"
  logsize_max :: "64 word"
  log_file_path :: string
  log_file_bak_path :: string
  stdout_text :: string

definition RJ_LOG_MAX_LEN :: nat where "RJ_LOG_MAX_LEN = 1024"
definition FILE_NAME_MAX :: nat where "FILE_NAME_MAX = 1024"
definition LINE_SZ :: nat where "LINE_SZ = 1024"
definition CMD_SZ :: nat where "CMD_SZ = 1024"

definition LOG_DIR :: string where
  "LOG_DIR = ''/var/log/rjcore_linux''"

definition log_level :: "string list" where
  "log_level = [''EMERG'', ''ALERT'', ''CRIT '', '' ERR '', ''WARN '', ''NOTICE'', ''INFO '', ''DEBUG'']"

subsection \<open>Writing and rotating\<close>

text \<open>A file opened for appending; without one the text goes to the standard output.\<close>

definition log_write :: "string \<Rightarrow> logger \<times> 'a machine_scheme \<Rightarrow> logger \<times> 'a machine_scheme" where
  "log_write t lm =
     (case rj_log_fp (fst lm) of
        None \<Rightarrow> ((fst lm)\<lparr>stdout_text := stdout_text (fst lm) @ t\<rparr>, snd lm)
      | Some p \<Rightarrow> (fst lm, (snd lm)\<lparr>files := (files (snd lm))(p \<mapsto>
            (case files (snd lm) p of None \<Rightarrow> [] | Some old \<Rightarrow> old) @ t)\<rparr>))"

definition backup_cmd :: "logger \<Rightarrow> string" where
  "backup_cmd l = snprintf_c CMD_SZ (''cp -f '' @ log_file_path l @ '' '' @ log_file_bak_path l)"

text \<open>\<^verbatim>\<open>truncate\<close> fails on a file that is missing or read-only; then the size is kept.\<close>

definition os_log :: "shell \<Rightarrow> (string \<Rightarrow> string option) \<Rightarrow> string \<Rightarrow> logger \<times> 'a machine_scheme \<Rightarrow> logger \<times> 'a machine_scheme" where
  "os_log sh vfprintf msg lm =
     (case vfprintf (snprintf_c LINE_SZ msg) of
        None \<Rightarrow> lm
      | Some t \<Rightarrow>
          let (l, m) = log_write t lm
          in if t = [] then (l, m)
             else let l1 = l\<lparr>logsize_cur := logsize_cur l + of_nat (length t)\<rparr>
                  in if logsize_max l1 \<le> logsize_cur l1
                     then let (_, m1) = rj_exec sh (backup_cmd l1) m
                          in if files m1 (log_file_path l1) = None \<or> \<not> writable m1 (log_file_path l1) then (l1, m1)
                             else (l1\<lparr>logsize_cur := 0\<rparr>, m1\<lparr>files := (files m1)(log_file_path l1 \<mapsto> [])\<rparr>)
                     else (l1, m))"

subsection \<open>Building a message\<close>

text \<open>
  \<^verbatim>\<open>snprintf(tmp, buf_left, "%s", s)\<close> at offset \<open>off\<close> of the array: at most
  \<open>left\<close> bytes with the NUL, the length of \<open>s\<close> is returned.
\<close>

definition snprintf_at :: "nat \<Rightarrow> 64 word \<Rightarrow> string \<Rightarrow> string \<Rightarrow> string cres" where
  "snprintf_at off left s msg =
     (if left = 0 then Inr msg
      else put_at off (take (unat left - 1) s @ [NUL]) msg)"

text \<open>
  The place a part is written to, the space that is left, which is a \<^verbatim>\<open>size_t\<close> and
  wraps around, and the length so far.
\<close>

definition log_part :: "string \<Rightarrow> string \<times> nat \<times> 64 word \<times> nat \<Rightarrow> (string \<times> nat \<times> 64 word \<times> nat) cres" where
  "log_part s x = (case x of (msg, off, left, len_all) \<Rightarrow>
     cbind (snprintf_at off left s msg) (\<lambda>msg'.
       Inr (msg', off + length s, left - of_nat (length s), len_all + length s)))"

definition level_text :: "int \<Rightarrow> string option" where
  "level_text level =
     (if 0 \<le> level \<and> level < 8 then Some ('' <'' @ log_level ! nat level @ ''> '') else None)"

definition place_text :: "string option \<Rightarrow> string option \<Rightarrow> int \<Rightarrow> string option" where
  "place_text fname fun_name line =
     (case (fname, fun_name) of
        (Some f, Some g) \<Rightarrow>
          if f \<noteq> [] \<and> g \<noteq> [] \<and> 0 \<le> line
          then Some (''[ '' @ f @ '':'' @ g @ ''('' @ show_int line @ '') ] '') else None
      | _ \<Rightarrow> None)"

definition opt_part :: "string option \<Rightarrow> string \<times> nat \<times> 64 word \<times> nat \<Rightarrow> (string \<times> nat \<times> 64 word \<times> nat) cres" where
  "opt_part s x = (case s of None \<Rightarrow> Inr x | Some t \<Rightarrow> log_part t x)"

definition msg_log_warning :: string where
  "msg_log_warning = ''log message is long'' @ [newline]"

text \<open>The text behind the other parts, with a newline, or a warning.\<close>

definition log_finish :: "string \<Rightarrow> string \<times> nat \<times> 64 word \<times> nat \<Rightarrow> string cres" where
  "log_finish fmt x = (case x of (msg, off, left, len_all) \<Rightarrow>
     let len_fmt = min (length fmt) RJ_LOG_MAX_LEN
     in if len_all = 0 then Inr [newline]
        else if RJ_LOG_MAX_LEN \<le> len_all
        then cbind (snprintf_at off left msg_log_warning msg) (\<lambda>msg'. Inr (c_str msg'))
        else cbind (snprintf_at off left fmt msg) (\<lambda>msg'.
             if len_fmt = 0 then Inl OutOfBounds
             else if fmt ! (len_fmt - 1) \<noteq> newline
             then cbind (put_at (off + len_fmt) [newline, NUL] msg') (\<lambda>msg''. Inr (c_str msg''))
             else Inr (c_str msg')))"

text \<open>\<open>junk\<close> is what the array holds at first, \<open>now\<close> the text of the time.\<close>

definition rj_log_text ::
  "string \<Rightarrow> string \<Rightarrow> string option \<Rightarrow> string option \<Rightarrow> int \<Rightarrow> int \<Rightarrow> string \<Rightarrow> string cres" where
  "rj_log_text junk now fname fun_name line level fmt =
     cbind (log_part now (junk, 0, of_nat RJ_LOG_MAX_LEN, min (length fmt) RJ_LOG_MAX_LEN)) (\<lambda>x1.
     cbind (opt_part (level_text level) x1) (\<lambda>x2.
     cbind (opt_part (place_text fname fun_name line) x2) (log_finish fmt)))"

definition rj_log ::
  "shell \<Rightarrow> (string \<Rightarrow> string option) \<Rightarrow> string \<Rightarrow> string \<Rightarrow> string option \<Rightarrow> string option \<Rightarrow> int \<Rightarrow> int \<Rightarrow> string
     \<Rightarrow> logger \<times> 'a machine_scheme \<Rightarrow> (logger \<times> 'a machine_scheme) cres" where
  "rj_log sh vfprintf junk now fname fun_name line level fmt lm =
     cbind (rj_log_text junk now fname fun_name line level fmt) (\<lambda>buf. Inr (os_log sh vfprintf buf lm))"

subsection \<open>Opening\<close>

definition rjlog_close :: "logger \<Rightarrow> logger" where
  "rjlog_close l = l\<lparr>rj_log_fp := None\<rparr>"

definition rjlog_open :: "shell \<Rightarrow> string \<Rightarrow> logger \<times> 'a machine_scheme \<Rightarrow> int \<times> logger \<times> 'a machine_scheme" where
  "rjlog_open sh path lm =
     (let l = rjlog_close (fst lm); m = snd lm
      in if \<not> writable m path then (- 1, l, m)
         else let m1 = m\<lparr>files := (files m)(path \<mapsto> (case files m path of None \<Rightarrow> [] | Some s \<Rightarrow> s))\<rparr>;
                  (_, m2) = rj_exec sh (snprintf_c CMD_SZ (''chmod 0775 '' @ log_file_path l @ '' '')) m1
              in (0, l\<lparr>rj_log_fp := Some path, logsize_cur := of_nat (rj_get_file_size path m2)\<rparr>, m2))"

definition rjlog_set_flag :: "32 word \<Rightarrow> logger \<Rightarrow> logger" where
  "rjlog_set_flag flag l = l\<lparr>rj_log_flag := flag\<rparr>"

definition rjlog_get_flag :: "logger \<Rightarrow> 32 word" where
  "rjlog_get_flag l = rj_log_flag l"

text \<open>The directory is made when it is missing.\<close>

definition rjlog_init :: "shell \<Rightarrow> string option \<Rightarrow> logger \<times> 'a machine_scheme \<Rightarrow> int \<times> logger \<times> 'a machine_scheme" where
  "rjlog_init sh comName lm =
     (case comName of
        None \<Rightarrow> (- 1, lm)
      | Some com \<Rightarrow>
          if com = [] then (- 1, lm)
          else let (l, m) = lm
               in if \<not> file_exists LOG_DIR m \<and> \<not> writable m LOG_DIR then (- 1, lm)
                  else let m1 = (if file_exists LOG_DIR m then m else m\<lparr>files := (files m)(LOG_DIR \<mapsto> [])\<rparr>);
                           path = snprintf_c FILE_NAME_MAX (LOG_DIR @ ''/rjcore_linux_'' @ com @ ''.log'');
                           bak = snprintf_c FILE_NAME_MAX (LOG_DIR @ ''/rjcore_linux_'' @ com @ ''_bak.log'');
                           (ret, l1, m2) = rjlog_open sh path (l\<lparr>log_file_path := path, log_file_bak_path := bak\<rparr>, m1)
                       in if ret \<noteq> 0 then (- 1, l1, m2)
                          else (0, l1\<lparr>logsize_max := (if com = ''shine'' then 5 * 1024 * 1024 else 1024 * 1024)\<rparr>, m2))"

subsection \<open>What a message looks like\<close>

definition space_left :: "string \<Rightarrow> 64 word" where
  "space_left p = 1024 - of_nat (length p)"

text \<open>The array after the parts \<open>p\<close>: all of it, or as much as fits, with a NUL.\<close>

definition log_holds :: "string \<Rightarrow> string \<Rightarrow> bool" where
  "log_holds p msg \<longleftrightarrow> length msg = 1025 \<and> (\<exists>r. msg = take 1023 p @ NUL # r)"

lemma space_left_unat: "length p < 1024 \<Longrightarrow> unat (space_left p) = 1024 - length p"
proof -
  assume a: "length p < 1024"
  then have "of_nat (length p) \<le> (1024 :: 64 word)" by (simp add: word_le_nat_alt unat_of_nat)
  then show ?thesis using a by (simp add: space_left_def unat_sub unat_of_nat)
qed

lemma space_left_0: "length p < 1024 \<Longrightarrow> space_left p \<noteq> 0"
  using space_left_unat [of p] by auto

lemma snprintf_at_holds:
  assumes "length msg = 1025" "length p < 1024" "take (length p) msg = p"
  shows "\<exists>msg'. snprintf_at (length p) (space_left p) s msg = Inr msg' \<and> log_holds (p @ s) msg'"
proof -
  let ?w = "take (1023 - length p) s @ [NUL]"
  have "snprintf_at (length p) (space_left p) s msg = Inr (p @ ?w @ drop (length p + length ?w) msg)"
    using assms space_left_unat [OF assms(2)] space_left_0 [OF assms(2)] by (simp add: snprintf_at_def put_at_def)
  moreover have "length (p @ ?w @ drop (length p + length ?w) msg) = 1025" using assms(1,2) by simp
  ultimately show ?thesis using assms(2) by (auto simp: log_holds_def)
qed

lemma log_part_step:
  assumes "length msg = 1025" "length p < 1024" "take (length p) msg = p"
  shows "\<exists>msg'. log_part s (msg, length p, space_left p, n) = Inr (msg', length (p @ s), space_left (p @ s), n + length s)
    \<and> log_holds (p @ s) msg'"
  using snprintf_at_holds [OF assms, of s] by (auto simp: log_part_def space_left_def algebra_simps)

lemma log_holds_take: "log_holds p msg \<Longrightarrow> length p < 1024 \<Longrightarrow> length msg = 1025 \<and> take (length p) msg = p"
  by (auto simp: log_holds_def)

definition opt_text :: "string option \<Rightarrow> string" where
  "opt_text z = (case z of None \<Rightarrow> [] | Some t \<Rightarrow> t)"

lemma opt_part_step:
  assumes "log_holds p msg" "length p < 1024"
  shows "\<exists>msg'. opt_part z (msg, length p, space_left p, n)
      = Inr (msg', length (p @ (opt_text z)), space_left (p @ (opt_text z)),
          n + length (opt_text z))
    \<and> log_holds (p @ (opt_text z)) msg'"
  using assms log_part_step [of msg p _ n] log_holds_take [OF assms] by (cases z) (auto simp: opt_part_def opt_text_def)

definition log_prefix :: "string \<Rightarrow> string option \<Rightarrow> string option \<Rightarrow> int \<Rightarrow> int \<Rightarrow> string" where
  "log_prefix now fname fun_name line level =
     now @ opt_text (level_text level) @ opt_text (place_text fname fun_name line)"

lemma level_text_length: "level_text level = Some t \<Longrightarrow> length t \<le> 10"
proof -
  assume a: "level_text level = Some t"
  have "list_all (\<lambda>x. length x \<le> 6) log_level" "length log_level = 8" by code_simp+
  then have "length (log_level ! nat level) \<le> 6" using a by (auto simp: level_text_def list_all_length split: if_splits)
  with a show ?thesis by (auto simp: level_text_def split: if_splits)
qed

lemma log_parts:
  assumes "length junk = 1025" "length now = 18"
  shows "\<exists>msg. log_holds (log_prefix now fname fun_name line level) msg
    \<and> rj_log_text junk now fname fun_name line level fmt = log_finish fmt
       (msg, length (log_prefix now fname fun_name line level), space_left (log_prefix now fname fun_name line level),
        min (length fmt) 1024 + length (log_prefix now fname fun_name line level))"
proof -
  let ?n = "min (length fmt) 1024"
  let ?l = "opt_text (level_text level)" and ?p = "opt_text (place_text fname fun_name line)"
  have s0: "of_nat RJ_LOG_MAX_LEN = space_left []" by (simp add: space_left_def RJ_LOG_MAX_LEN_def)
  obtain m1 where 1: "log_part now (junk, 0, space_left [], ?n) = Inr (m1, length now, space_left now, ?n + length now)" "log_holds now m1"
    using log_part_step [of junk "[]" now ?n] assms by auto
  obtain m2 where 2: "opt_part (level_text level) (m1, length now, space_left now, ?n + length now)
      = Inr (m2, length (now @ ?l), space_left (now @ ?l), ?n + length now + length ?l)" "log_holds (now @ ?l) m2"
    using opt_part_step [OF 1(2), of "level_text level" "?n + length now"] assms(2) by auto
  have "length (now @ ?l) < 1024" using assms(2) level_text_length [of level] by (auto simp: opt_text_def split: option.splits)
  from opt_part_step [OF 2(2) this, of "place_text fname fun_name line" "?n + length now + length ?l"] 1 2 s0 show ?thesis
    by (auto simp: log_prefix_def add.assoc rj_log_text_def RJ_LOG_MAX_LEN_def)
qed

lemma c_str_cut: "NUL \<notin> set p \<Longrightarrow> c_str (take n p @ NUL # r) = take n p"
  by (subst c_str_append_NUL) (auto intro!: c_str_id dest: in_set_takeD)

lemma log_finish_short:
  assumes "log_holds pre msg" "fmt \<noteq> []" "NUL \<notin> set pre" "NUL \<notin> set fmt" "length pre + length fmt < 1024"
  shows "log_finish fmt (msg, length pre, space_left pre, min (length fmt) 1024 + length pre)
    = Inr (pre @ fmt @ (if last fmt = newline then [] else [newline]))"
proof -
  have p: "length pre < 1024" using assms(5) by simp
  from snprintf_at_holds [OF _ p, of msg fmt] log_holds_take [OF assms(1) p]
  obtain msg' r where m: "snprintf_at (length pre) (space_left pre) fmt msg = Inr msg'" "length msg' = 1025"
    "msg' = take 1023 (pre @ fmt) @ NUL # r" by (auto simp: log_holds_def)
  have m': "msg' = (pre @ fmt) @ NUL # r" using m(3) assms(5) by simp
  have l: "fmt ! (length fmt - 1) = last fmt" using assms(2) by (simp add: last_conv_nth)
  show ?thesis
  proof (cases "last fmt = newline")
    case True
    have "c_str msg' = pre @ fmt" using m' c_str_cut [of "pre @ fmt" 1024 r] assms(3,4,5) by simp
    then show ?thesis using True assms(2,5) m(1) l by (simp add: log_finish_def RJ_LOG_MAX_LEN_def)
  next
    case False
    have "put_at (length pre + length fmt) [newline, NUL] msg' = Inr ((pre @ fmt @ [newline]) @ NUL # drop 1 r)"
      using m' m(2) assms(5) by (simp add: put_at_def)
    moreover have "c_str ((pre @ fmt @ [newline]) @ NUL # drop 1 r) = pre @ fmt @ [newline]"
      using c_str_cut [of "pre @ fmt @ [newline]" 1024 "drop 1 r"] assms(3,4,5) by (simp add: NUL_def newline_def)
    ultimately show ?thesis using False assms(2,5) m(1) l by (simp add: log_finish_def RJ_LOG_MAX_LEN_def)
  qed
qed

lemma log_finish_long:
  assumes "log_holds pre msg" "NUL \<notin> set pre" "length pre \<le> 1024" "1024 \<le> length pre + length fmt"
  shows "log_finish fmt (msg, length pre, space_left pre, min (length fmt) 1024 + length pre)
    = Inr (take 1023 (pre @ msg_log_warning))"
proof -
  have w: "NUL \<notin> set msg_log_warning" by code_simp
  show ?thesis
  proof (cases "length pre = 1024")
    case True
    then have "space_left pre = 0" by (simp add: space_left_def)
    moreover have "c_str msg = take 1023 pre" using assms(1,2) by (auto simp: log_holds_def c_str_cut)
    ultimately show ?thesis using True by (simp add: log_finish_def RJ_LOG_MAX_LEN_def snprintf_at_def)
  next
    case False
    then have p: "length pre < 1024" using assms(3) by simp
    from snprintf_at_holds [OF _ p, of msg msg_log_warning] log_holds_take [OF assms(1) p]
    obtain msg' r where m: "snprintf_at (length pre) (space_left pre) msg_log_warning msg = Inr msg'"
      "msg' = take 1023 (pre @ msg_log_warning) @ NUL # r" by (auto simp: log_holds_def)
    have "c_str msg' = take 1023 (pre @ msg_log_warning)"
      unfolding m(2) by (rule c_str_cut) (use assms(2) w in simp)
    then show ?thesis using m(1) assms(4) p by (auto simp: log_finish_def RJ_LOG_MAX_LEN_def Let_def)
  qed
qed

lemma log_finish_overrun:
  assumes "log_holds pre msg" "1024 < length pre" "length pre < 2 ^ 32"
  shows "log_finish fmt (msg, length pre, space_left pre, min (length fmt) 1024 + length pre) = Inl BufOverflow"
proof -
  have "space_left pre \<noteq> 0"
  proof
    assume "space_left pre = 0"
    then have "of_nat (length pre) = (1024 :: 64 word)" by (simp add: space_left_def)
    then have "unat (of_nat (length pre) :: 64 word) = unat (1024 :: 64 word)" by (rule arg_cong)
    then have "length pre = 1024" using assms(3) by (simp add: unat_of_nat)
    with assms(2) show False by simp
  qed
  moreover have "pre \<noteq> []" using assms(2) by auto
  ultimately show ?thesis using assms(1,2)
    by (simp add: log_finish_def RJ_LOG_MAX_LEN_def snprintf_at_def put_at_def log_holds_def cbind_def Let_def)
qed

text \<open>
  C25. A log message is its time, level and place followed by the text and a newline;
  when that is longer than the array a short warning replaces the text. The
  array is overrun exactly when the part before the text is longer than 1024 characters.
\<close>

theorem log_line:
  fixes fname fun_name and line level :: int and now :: string
  defines "pre \<equiv> log_prefix now fname fun_name line level"
  assumes "length junk = 1025" "length now = 18" "fmt \<noteq> []" "NUL \<notin> set pre" "NUL \<notin> set fmt" "length pre < 2 ^ 32"
  shows "rj_log_text junk now fname fun_name line level fmt =
    (if 1024 < length pre then Inl BufOverflow
     else if length pre + length fmt < 1024 then Inr (pre @ fmt @ (if last fmt = newline then [] else [newline]))
     else Inr (take 1023 (pre @ msg_log_warning)))"
proof -
  obtain msg where "log_holds pre msg" "rj_log_text junk now fname fun_name line level fmt
      = log_finish fmt (msg, length pre, space_left pre, min (length fmt) 1024 + length pre)"
    using log_parts [OF assms(2,3)] unfolding pre_def by blast
  then show ?thesis using log_finish_short [of pre msg fmt] log_finish_long [of pre msg fmt] log_finish_overrun [of pre msg fmt] assms
    by auto
qed

theorem log_line_witness:
  "rj_log_text (replicate 1025 (CHR ''?'')) ''11-05 10:20:30.123'' (Some ''bt.cpp'') (Some ''f'') 7 6 ''hi %d''
     = Inr (''11-05 10:20:30.123 <INFO > [ bt.cpp:f(7) ] hi %d'' @ [newline])"
proof -
  have "log_prefix ''11-05 10:20:30.123'' (Some ''bt.cpp'') (Some ''f'') 7 6 = ''11-05 10:20:30.123 <INFO > [ bt.cpp:f(7) ] ''"
    "NUL \<notin> set (log_prefix ''11-05 10:20:30.123'' (Some ''bt.cpp'') (Some ''f'') 7 6)" "NUL \<notin> set ''hi %d''" "last ''hi %d'' \<noteq> newline"
    by code_simp+
  with log_line [of "replicate 1025 (CHR ''?'')" "''11-05 10:20:30.123''" "''hi %d''" "Some ''bt.cpp''" "Some ''f''" 7 6]
  show ?thesis by simp
qed

subsection \<open>The log is rotated\<close>

text \<open>
  A log that is open: its size is known and below the limit. The name of the
  backup differs from that of the log.
\<close>

definition log_inv :: "logger \<times> 'a machine_scheme \<Rightarrow> bool" where
  "log_inv lm = (case lm of (l, m) \<Rightarrow> rj_log_fp l = Some (log_file_path l) \<and> writable m (log_file_path l)
     \<and> log_file_path l \<noteq> log_file_bak_path l \<and> logsize_max l \<le> 5 * 1024 * 1024
     \<and> (\<exists>t. files m (log_file_path l) = Some t \<and> unat (logsize_cur l) = length t \<and> length t < unat (logsize_max l)))"

definition file_text :: "string option \<Rightarrow> string" where
  "file_text z = (case z of None \<Rightarrow> [] | Some t \<Rightarrow> t)"

definition kept_log :: "logger \<times> 'a machine_scheme \<Rightarrow> string" where
  "kept_log lm = (case lm of (l, m) \<Rightarrow> file_text (files m (log_file_bak_path l)) @ file_text (files m (log_file_path l)))"

text \<open>What is assumed of \<^verbatim>\<open>cp\<close>.\<close>

definition cp_ok :: "shell \<Rightarrow> logger \<Rightarrow> bool" where
  "cp_ok sh l \<longleftrightarrow> (\<forall>fs t. fs (log_file_path l) = Some t \<longrightarrow>
     (\<exists>out. sh (backup_cmd l) [] fs = Some (out, 0, fs(log_file_bak_path l \<mapsto> t))))"

lemma os_log_step:
  assumes "log_inv lm" "cp_ok sh (fst lm)" "vf (snprintf_c LINE_SZ msg) = Some t" "length t < 2 ^ 32"
  shows "log_inv (os_log sh vf msg lm) \<and> suffix (kept_log (os_log sh vf msg lm)) (kept_log lm @ t)
    \<and> log_file_path (fst (os_log sh vf msg lm)) = log_file_path (fst lm)
    \<and> log_file_bak_path (fst (os_log sh vf msg lm)) = log_file_bak_path (fst lm)
    \<and> logsize_max (fst (os_log sh vf msg lm)) = logsize_max (fst lm)"
proof -
  obtain l m where lm: "lm = (l, m)" by fastforce
  let ?p = "log_file_path l" and ?b = "log_file_bak_path l"
  obtain old where i: "rj_log_fp l = Some ?p" "writable m ?p" "?p \<noteq> ?b" "logsize_max l \<le> 5 * 1024 * 1024"
    "files m ?p = Some old" "unat (logsize_cur l) = length old" "length old < unat (logsize_max l)"
    using assms(1) by (auto simp: lm log_inv_def)
  have mx: "unat (logsize_max l) \<le> 5242880" using i(4) by (simp add: word_le_nat_alt)
  let ?m = "m\<lparr>files := (files m)(?p \<mapsto> old @ t)\<rparr>" and ?cur = "logsize_cur l + of_nat (length t)"
  have cur: "unat ?cur = length old + length t"
    using i(6,7) mx assms(4) by (simp add: unat_word_ariths unat_of_nat)
  have w: "log_write t lm = (l, ?m)" using i(1,5) by (simp add: log_write_def lm)
  show ?thesis
  proof (cases "t = []")
    case True
    with w assms(1,3) i(5) show ?thesis by (simp add: os_log_def lm fun_upd_idem)
  next
    case False
    show ?thesis
    proof (cases "logsize_max l \<le> ?cur")
      case True
      have "backup_cmd (l\<lparr>logsize_cur := ?cur\<rparr>) = backup_cmd l" by (simp add: backup_cmd_def)
      moreover obtain out where "sh (backup_cmd l) [] (files ?m) = Some (out, 0, (files ?m)(?b \<mapsto> old @ t))"
        using assms(2) [unfolded cp_ok_def, rule_format, of "files ?m" "old @ t"] by (auto simp: lm)
      ultimately have ex: "rj_exec sh (backup_cmd (l\<lparr>logsize_cur := ?cur\<rparr>)) ?m
          = (0, ?m\<lparr>files := (files ?m)(?b \<mapsto> old @ t), runs := runs m @ [backup_cmd l]\<rparr>)"
        by (simp add: rj_exec_def popen_def)
      have "os_log sh vf msg lm = (l\<lparr>logsize_cur := 0\<rparr>, m\<lparr>files := (files m)(?p \<mapsto> old @ t, ?b \<mapsto> old @ t, ?p \<mapsto> []),
          runs := runs m @ [backup_cmd l]\<rparr>)"
        using False True ex w assms(3) i(2,3) by (simp add: os_log_def)
      then show ?thesis using i by (auto simp: log_inv_def kept_log_def file_text_def lm suffix_def)
    next
      case cur': False
      then have "length old + length t < unat (logsize_max l)" using cur by (simp add: word_le_nat_alt)
      moreover have "os_log sh vf msg lm = (l\<lparr>logsize_cur := ?cur\<rparr>, ?m)"
        using False cur' w assms(3) by (simp add: os_log_def)
      ultimately show ?thesis using i cur by (simp add: log_inv_def kept_log_def file_text_def lm)
    qed
  qed
qed

text \<open>
  C24. The log never reaches its limit, however many messages are written, and the
  backup followed by the log is at every moment the end of all that was
  written: rotating drops only what is older than the last rotation.
\<close>

theorem log_rotation:
  assumes "log_inv lm" "cp_ok sh (fst lm)"
    and "list_all (\<lambda>(vf, msg). \<exists>t. vf (snprintf_c LINE_SZ msg) = Some t \<and> length t < 2 ^ 32) ms"
  shows "log_inv (fold (\<lambda>(vf, msg). os_log sh vf msg) ms lm)
    \<and> suffix (kept_log (fold (\<lambda>(vf, msg). os_log sh vf msg) ms lm))
        (kept_log lm @ concat (map (\<lambda>(vf, msg). the (vf (snprintf_c LINE_SZ msg))) ms))"
  using assms
proof (induction ms arbitrary: lm)
  case (Cons x ms)
  obtain vf msg where x: "x = (vf, msg)" by fastforce
  then obtain t where t: "vf (snprintf_c LINE_SZ msg) = Some t" "length t < 2 ^ 32" using Cons.prems(3) by auto
  let ?lm = "os_log sh vf msg lm"
  have s: "log_inv ?lm" "suffix (kept_log ?lm) (kept_log lm @ t)" "log_file_path (fst ?lm) = log_file_path (fst lm)"
    "log_file_bak_path (fst ?lm) = log_file_bak_path (fst lm)" using os_log_step [where vf = vf and msg = msg, OF Cons.prems(1,2) t] by simp_all
  have "cp_ok sh (fst ?lm)" using Cons.prems(2) s(3,4) by (simp add: cp_ok_def backup_cmd_def)
  note ih = Cons.IH [OF s(1) this]
  have "suffix (kept_log ?lm @ c) (kept_log lm @ t @ c)" for c using s(2) by (auto simp: suffix_def)
  with ih Cons.prems(3) t(1) show ?case by (auto simp: x intro: suffix_order.trans)
qed simp

definition ex_logger :: logger where
  "ex_logger = \<lparr>rj_log_fp = Some ''/a'', rj_log_flag = 0, logsize_cur = 0, logsize_max = 8,
     log_file_path = ''/a'', log_file_bak_path = ''/b'', stdout_text = []\<rparr>"

theorem log_rotation_witness:
  "log_inv (fold (\<lambda>(vf, msg). os_log (\<lambda>_ _ fs. Some ([], 0, fs(''/b'' := fs ''/a''))) vf msg) [(Some, ''first''), (Some, ''second''), (Some, ''3'')]
      (ex_logger, ex_machine\<lparr>files := [''/a'' \<mapsto> []]\<rparr>))"
proof -
  have "cp_ok (\<lambda>_ _ fs. Some ([], 0, fs(''/b'' := fs ''/a''))) ex_logger" by (auto simp: cp_ok_def ex_logger_def)
  moreover have "log_inv (ex_logger, ex_machine\<lparr>files := [''/a'' \<mapsto> []]\<rparr>)"
    by (simp add: log_inv_def ex_logger_def ex_machine_def word_le_nat_alt)
  ultimately show ?thesis
    using log_rotation [of "(ex_logger, ex_machine\<lparr>files := [''/a'' \<mapsto> []]\<rparr>)" "\<lambda>_ _ fs. Some ([], 0, fs(''/b'' := fs ''/a''))"
        "[(Some, ''first''), (Some, ''second''), (Some, ''3'')]"]
    by (simp add: snprintf_c_def LINE_SZ_def)
qed

end
