(* ===== verification/Common.thy ===== *)
theory Common
  imports Control RjLog NetworkExtra
begin

text \<open>
  \<^verbatim>\<open>common/common.cpp\<close> and \<^verbatim>\<open>common/log.cpp\<close>: the start of the library and the log functions
  for its users. \<^verbatim>\<open>g_callback\<close> is stored and never read; the callback reaches the network
  client, whose callback pointer it becomes.
\<close>

definition isInit :: "'a machine_scheme \<Rightarrow> bool" where
  "isInit m = g_isinit m"

definition Init ::
  "shell \<Rightarrow> bool \<Rightarrow> client_kernel \<Rightarrow> string option \<Rightarrow> logger \<Rightarrow> 'd system \<Rightarrow> (int \<times> logger \<times> 'd system \<times> client option) ipc" where
  "Init sh created k comName l s =
     (let (ret, l1, s1) = rjlog_init sh comName (l, s)
      in if ret \<noteq> 0 then Ret (ERROR_10001, l1, s1, None)
         else ibind (lift_c (productInit sh created s1)) (\<lambda>(ret2, s2).
              if ret2 \<noteq> 0 then Ret (ERROR_10001, l1, s2, None)
              else ibind (lift_c (controlInit sh s2)) (\<lambda>(ret3, s3).
                   if ret3 \<noteq> 0 then Ret (ERROR_10001, l1, s3, None)
                   else ibind (network_init k) (\<lambda>c. Ret (SUCCESS_0, l1, s3\<lparr>g_isinit := True\<rparr>, Some c)))))"

text \<open>The functions \<^verbatim>\<open>logEmerg\<close> to \<^verbatim>\<open>logDebug\<close> log the text of their caller with the format \<^verbatim>\<open>%s\<close>.\<close>

definition log_text ::
  "int \<Rightarrow> shell \<Rightarrow> (string \<Rightarrow> string option) \<Rightarrow> string \<Rightarrow> string \<Rightarrow> string \<Rightarrow> int
     \<Rightarrow> logger \<times> 'a machine_scheme \<Rightarrow> (logger \<times> 'a machine_scheme) cres" where
  "log_text level sh vfprintf junk now fun_name line lm =
     rj_log sh vfprintf junk now (Some ''log.cpp'') (Some fun_name) line level ''%s'' lm"

definition logEmerg where "logEmerg sh vfprintf junk now lm = log_text 0 sh vfprintf junk now ''logEmerg'' 23 lm"
definition logError where "logError sh vfprintf junk now lm = log_text 3 sh vfprintf junk now ''logError'' 28 lm"
definition logWarn where "logWarn sh vfprintf junk now lm = log_text 4 sh vfprintf junk now ''logWarn'' 33 lm"
definition logInfo where "logInfo sh vfprintf junk now lm = log_text 6 sh vfprintf junk now ''logInfo'' 38 lm"
definition logDebug where "logDebug sh vfprintf junk now lm = log_text 7 sh vfprintf junk now ''logDebug'' 43 lm"

subsection \<open>Ready or not\<close>

lemma rj_exec_state: "\<exists>r fs rs. rj_exec sh cmd m = (r, m\<lparr>files := fs, runs := rs\<rparr>)"
proof (cases "sh cmd [] (files m)")
  case None
  then have "rj_exec sh cmd m = (- 1, m\<lparr>files := files m, runs := runs m\<rparr>)" by (simp add: rj_exec_def popen_def)
  then show ?thesis by blast
next
  case (Some x)
  obtain out st fs where "x = (out, st, fs)" by (metis surj_pair)
  with Some have "rj_exec sh cmd m = (0, m\<lparr>files := fs, runs := runs m @ [cmd]\<rparr>)" by (simp add: rj_exec_def popen_def)
  then show ?thesis by blast
qed

lemma rjlog_open_frame:
  assumes "rjlog_open sh path (l, s) = (r, l1, s1)"
  shows "g_isinit s1 = g_isinit s" and "r = 0 \<Longrightarrow> rj_log_fp l1 = Some path" and "log_file_path l1 = log_file_path l"
proof -
  let ?s = "s\<lparr>files := (files s)(path \<mapsto> (case files s path of None \<Rightarrow> [] | Some t \<Rightarrow> t))\<rparr>"
  let ?c = "snprintf_c CMD_SZ (''chmod 0775 '' @ log_file_path l @ '' '')"
  obtain r2 fs rs where "rj_exec sh ?c ?s = (r2, ?s\<lparr>files := fs, runs := rs\<rparr>)" using rj_exec_state by blast
  with assms show "g_isinit s1 = g_isinit s" "r = 0 \<Longrightarrow> rj_log_fp l1 = Some path" "log_file_path l1 = log_file_path l"
    by (auto simp: rjlog_open_def rjlog_close_def Let_def split: if_splits)
qed

text \<open>
  What the steps need of the machine: a name for the log whose directory exists or can be made and whose file can
  be written; a script that exists and prints something about the terminal, and a thread for the audio
  service; and, where there is a backlight, a maximum that can be read.
\<close>

definition log_ready :: "string option \<Rightarrow> 'a machine_scheme \<Rightarrow> bool" where
  "log_ready comName m \<longleftrightarrow>
     (case comName of
        None \<Rightarrow> False
      | Some com \<Rightarrow> com \<noteq> [] \<and> (file_exists LOG_DIR m \<or> writable m LOG_DIR)
          \<and> writable m (snprintf_c FILE_NAME_MAX (LOG_DIR @ ''/rjcore_linux_'' @ com @ ''.log'')))"

definition printed :: "shell \<Rightarrow> string \<Rightarrow> nat \<Rightarrow> 'a machine_scheme \<Rightarrow> string" where
  "printed sh cmd n m = (case rj_exec_result sh cmd (replicate n NUL) m of Inr ((_, buf), _) \<Rightarrow> c_str buf | Inl _ \<Rightarrow> [])"

definition terminal_ready :: "shell \<Rightarrow> bool \<Rightarrow> 'a machine_scheme \<Rightarrow> bool" where
  "terminal_ready sh created m \<longleftrightarrow> file_exists (RJ_SCRIPT_PATH @ ''getSysInfo'') m
     \<and> printed sh (''bash '' @ RJ_SCRIPT_PATH @ ''getSysInfo'') 1024 m \<noteq> [] \<and> created"

definition backlight_ready :: "shell \<Rightarrow> 'a machine_scheme \<Rightarrow> bool" where
  "backlight_ready sh m \<longleftrightarrow> (if file_exists (BRIGHTNESS_PATH @ ''brightness'') m
     then printed sh (''cat '' @ BRIGHTNESS_PATH @ ''max_brightness'') 64 m \<noteq> [] else True)"

lemma rjlog_init_steps:
  assumes "rjlog_init sh comName (l, s) = (r, l1, s1)"
  shows "g_isinit s1 = g_isinit s \<and> (r = 0 \<longleftrightarrow> log_ready comName s) \<and> (r = 0 \<longrightarrow> rj_log_fp l1 = Some (log_file_path l1))"
proof (cases "comName = None \<or> comName = Some [] \<or> \<not> file_exists LOG_DIR s \<and> \<not> writable s LOG_DIR")
  case True
  then have "rjlog_init sh comName (l, s) = (- 1, l, s)" by (cases comName) (auto simp: rjlog_init_def)
  with assms True show ?thesis by (auto simp: log_ready_def split: option.splits)
next
  case False
  then obtain com where com: "comName = Some com" "com \<noteq> []" by auto
  define path bak where "path = snprintf_c FILE_NAME_MAX (LOG_DIR @ ''/rjcore_linux_'' @ com @ ''.log'')"
    and "bak = snprintf_c FILE_NAME_MAX (LOG_DIR @ ''/rjcore_linux_'' @ com @ ''_bak.log'')"
  define s0 where "s0 = (if file_exists LOG_DIR s then s else s\<lparr>files := (files s)(LOG_DIR \<mapsto> [])\<rparr>)"
  obtain r2 l2 s2 where o: "rjlog_open sh path (l\<lparr>log_file_path := path, log_file_bak_path := bak\<rparr>, s0) = (r2, l2, s2)"
    by (metis surj_pair)
  have r2: "r2 = 0 \<longleftrightarrow> writable s path"
    using o by (auto simp: rjlog_open_def s0_def Let_def split: if_splits prod.splits)
  have "rjlog_init sh comName (l, s) = (if r2 \<noteq> 0 then (- 1, l2, s2)
      else (0, l2\<lparr>logsize_max := (if com = ''shine'' then 5 * 1024 * 1024 else 1024 * 1024)\<rparr>, s2))"
    using False com o [unfolded path_def bak_def s0_def] by (auto simp: rjlog_init_def Let_def)
  moreover have "log_ready comName s \<longleftrightarrow> r2 = 0" using False com by (simp add: log_ready_def r2 path_def)
  ultimately show ?thesis using assms rjlog_open_frame [OF o] by (auto simp: s0_def split: if_splits)
qed

lemma strncp_line_chars_length: "length (strncp_line_chars n src) \<le> n"
  by (induction n src rule: strncp_line_chars.induct) auto

lemma info_field_total: "\<exists>v. GETSYSTEMINFO_STRXXX txt tag (replicate 64 NUL) = Inr v"
  using strncp_line_chars_length [of 64]
  by (cases "find_sub tag txt") (auto simp: GETSYSTEMINFO_STRXXX_def rj_strncp_line_def put_at_def SIZE_64_def Let_def)

lemma fill_info_total: "\<exists>i. fill_info txt zero_info = Inr i"
proof -
  from info_field_total obtain f where "\<And>tag. GETSYSTEMINFO_STRXXX txt tag (replicate 64 NUL) = Inr (f tag)" by metis
  then show ?thesis by (simp add: fill_info_def zero_info_def SIZE_64_def Let_def)
qed

lemma productInit_steps:
  "\<exists>r s2. productInit sh created s1 = Inr (r, s2) \<and> (r = 0 \<longleftrightarrow> terminal_ready sh created s1) \<and> g_isinit s2 = g_isinit s1"
proof -
  let ?c = "''bash '' @ RJ_SCRIPT_PATH @ ''getSysInfo''" and ?s = "s1\<lparr>sysInfo := zero_info\<rparr>"
  obtain r buf fs rs where b: "rj_exec_result sh ?c (replicate 1024 NUL) ?s = Inr ((r, buf), ?s\<lparr>files := fs, runs := rs\<rparr>)"
    using rj_exec_result_total [of 1024 sh ?c ?s] by auto
  have "printed sh ?c 1024 s1 = printed sh ?c 1024 ?s"
    by (simp add: printed_def rj_exec_result_def rj_popen_def popen_def cbind_def split: option.splits sum.splits prod.splits)
  also have "\<dots> = c_str buf" unfolding printed_def b by simp
  finally have p: "printed sh ?c 1024 s1 = c_str buf" .
  obtain i where "fill_info (c_str buf) zero_info = Inr i" using fill_info_total by blast
  then show ?thesis using b p
    by (auto simp: productInit_def rc_getsysteminfo_def SIZE_1K_def terminal_ready_def file_exists_def startPaService_def
        am_startPaService_def paStart_def ERROR_10000_def ERROR_10001_def)
qed

lemma controlInit_steps:
  "\<exists>r s3. controlInit sh s2 = Inr (r, s3) \<and> (r = 0 \<longleftrightarrow> backlight_ready sh s2) \<and> g_isinit s3 = g_isinit s2"
proof -
  let ?c = "''cat '' @ BRIGHTNESS_PATH @ ''max_brightness''"
  obtain r buf fs rs where b: "rj_exec_result sh ?c (replicate 64 NUL) s2 = Inr ((r, buf), s2\<lparr>files := fs, runs := rs\<rparr>)"
    using rj_exec_result_total [of 64 sh ?c s2] by auto
  then show ?thesis
    by (auto simp: controlInit_def is_support_brightness_def brightness_map_def backlight_ready_def printed_def SIZE_64_def
        Let_def ERROR_11002_def)
qed

text \<open>
  C33. Starting the library, for every machine. The log, the terminal and the backlight are set up in this
  order, and none of these steps faults. The first one that the machine is not ready for ends the start:
  it reports the error for a failed start, leaves the machine as this step left it, so that no
  later step has run, makes no client and enables nothing. When the machine is ready for all
  three, the log is open and the client for the network is made; the start blocks or faults exactly when this does,
  and otherwise succeeds with the functions of the library enabled.
\<close>

theorem init_outcome:
  "\<exists>r1 l1 s1 r2 s2 r3 s3. rjlog_init sh comName (l, s) = (r1, l1, s1)
    \<and> productInit sh created s1 = Inr (r2, s2) \<and> controlInit sh s2 = Inr (r3, s3)
    \<and> isInit s1 = isInit s \<and> isInit s2 = isInit s \<and> isInit s3 = isInit s
    \<and> (log_ready comName s \<longrightarrow> rj_log_fp l1 = Some (log_file_path l1))
    \<and> Init sh created k comName l s =
        (if \<not> log_ready comName s then Ret (ERROR_10001, l1, s1, None)
         else if \<not> terminal_ready sh created s1 then Ret (ERROR_10001, l1, s2, None)
         else if \<not> backlight_ready sh s2 then Ret (ERROR_10001, l1, s3, None)
         else ibind (network_init k) (\<lambda>c. Ret (0, l1, s3\<lparr>g_isinit := True\<rparr>, Some c)))"
proof -
  obtain r1 l1 s1 where 1: "rjlog_init sh comName (l, s) = (r1, l1, s1)" by (metis surj_pair)
  obtain r2 s2 where 2: "productInit sh created s1 = Inr (r2, s2)" "r2 = 0 \<longleftrightarrow> terminal_ready sh created s1" "g_isinit s2 = g_isinit s1"
    using productInit_steps by blast
  obtain r3 s3 where 3: "controlInit sh s2 = Inr (r3, s3)" "r3 = 0 \<longleftrightarrow> backlight_ready sh s2" "g_isinit s3 = g_isinit s2"
    using controlInit_steps by blast
  note 4 = rjlog_init_steps [OF 1]
  have "Init sh created k comName l s =
      (if \<not> log_ready comName s then Ret (ERROR_10001, l1, s1, None)
       else if \<not> terminal_ready sh created s1 then Ret (ERROR_10001, l1, s2, None)
       else if \<not> backlight_ready sh s2 then Ret (ERROR_10001, l1, s3, None)
       else ibind (network_init k) (\<lambda>c. Ret (0, l1, s3\<lparr>g_isinit := True\<rparr>, Some c)))"
    using 1 2 3 4 by (simp add: Init_def SUCCESS_0_def)
  moreover have "isInit s1 = isInit s" "isInit s2 = isInit s" "isInit s3 = isInit s"
    "log_ready comName s \<longrightarrow> rj_log_fp l1 = Some (log_file_path l1)" using 2 3 4 by (simp_all add: isInit_def)
  ultimately show ?thesis using 1 2(1) 3(1) by blast
qed

definition ex_kernel :: client_kernel where
  "ex_kernel = \<lparr>k_sock = Some 7, k_bind = True, k_pid = 99, k_counter = 0, k_conn = replicate 5 Refused, k_sends = (\<lambda>_. [])\<rparr>"

definition ex_script :: shell where
  "ex_script = (\<lambda>c _ fs. Some (if c = ''bash '' @ RJ_SCRIPT_PATH @ ''getSysInfo'' then ''platform=VDI'' @ [newline] else [], 0, fs))"

definition ex_log :: logger where
  "ex_log = \<lparr>rj_log_fp = None, rj_log_flag = 0, logsize_cur = 0, logsize_max = 0, log_file_path = [], log_file_bak_path = [], stdout_text = []\<rparr>"

theorem init_outcome_witness:
  "\<exists>l' s' cl. Init ex_script True ex_kernel (Some ''shine'') ex_log (ex_system ()) = Ret (0, l', s', Some cl) \<and> isInit s'
     \<and> rj_log_fp l' = Some (log_file_path l')"
proof -
  let ?s1 = "snd (snd (rjlog_init ex_script (Some ''shine'') (ex_log, ex_system ())))"
  let ?s2 = "snd (projr (productInit ex_script True ?s1))"
  have r: "log_ready (Some ''shine'') (ex_system ())" "terminal_ready ex_script True ?s1" "backlight_ready ex_script ?s2"
    by code_simp+
  have "case network_init ex_kernel of Ret _ \<Rightarrow> True | _ \<Rightarrow> False" by code_simp
  then obtain cl where "network_init ex_kernel = Ret cl" by (auto split: ipc.splits)
  with init_outcome [of ex_script "Some ''shine''" ex_log "ex_system ()" True ex_kernel] r show ?thesis
    by (auto simp: isInit_def)
qed

end
