(* ===== verification/Bt.thy ===== *)
theory Bt
  imports RcJson RjIpc ApiChecks
begin

text \<open>
  \<^verbatim>\<open>bt/bt.cpp\<close>: requests to the BitTorrent server, JSON over a local socket. The
  kernel's answers are the record \<open>bt_kernel\<close>; the socket is blocking, so a \<^verbatim>\<open>recv\<close> with no
  answer left does not return. A request returns the buffer of the caller and
  the bytes that were sent.
\<close>

record bt_kernel =
  b_sock :: "int option"
  b_connect :: bool
  b_sends :: "send_ans list"
  b_recvs :: "recv_ans list"

definition BT_MAKE_SEED_START :: int where "BT_MAKE_SEED_START = 10"
definition BT_MAKE_SEED_CANCLE :: int where "BT_MAKE_SEED_CANCLE = 12"
definition BT_FILE_DOWNLOAD_START :: int where "BT_FILE_DOWNLOAD_START = 30"
definition BT_GET_FILE_PROGRESS :: int where "BT_GET_FILE_PROGRESS = 31"
definition BT_FILE_DOWNLOAD_CANCLE :: int where "BT_FILE_DOWNLOAD_CANCLE = 32"
definition BT_SHARE_FILE_START :: int where "BT_SHARE_FILE_START = 50"
definition BT_SHARE_FILE_STOP :: int where "BT_SHARE_FILE_STOP = 51"

text \<open>The loop is that of \<^verbatim>\<open>RjService::handleWrite\<close>.\<close>

definition cmd_send :: "int \<Rightarrow> string \<Rightarrow> send_ans list \<Rightarrow> (int \<times> string) ipc" where
  "cmd_send fd buf ans =
     (let total_length = to_int32 (int (length buf))
      in if 0 < total_length \<and> (fd < 0 \<or> FD_SETSIZE \<le> fd) then Fault BufOverflow
         else ibind (write_loop ans buf 0 total_length) (\<lambda>(r, d, _). Ret (r, d)))"

text \<open>
  The loop around \<^verbatim>\<open>recv\<close> at offset \<open>total_len\<close>. What does not fit is left for the next
  call, which then asks for no bytes and gets none, as at the end of the connection.
\<close>

fun bt_recv_loop :: "recv_ans list \<Rightarrow> string \<Rightarrow> nat \<Rightarrow> (recv_ans \<times> string \<times> nat) ipc" where
  "bt_recv_loop ans respone total_len =
     (if length respone \<le> total_len then Ret (Closed, respone, total_len)
      else case ans of
        [] \<Rightarrow> Blocked
      | Received s # as \<Rightarrow>
          let n = take (length respone - total_len) s
          in if n = [] then Ret (Closed, respone, total_len)
             else ibind (lift_c (put_at total_len n respone)) (\<lambda>r.
               if length n < length s then Ret (Closed, r, total_len + length n)
               else bt_recv_loop as r (total_len + length n))
      | Closed # as \<Rightarrow> Ret (Closed, respone, total_len)
      | RecvErr e # as \<Rightarrow> Ret (RecvErr e, respone, total_len))"

declare bt_recv_loop.simps [simp del]

definition recv_respone :: "recv_ans list \<Rightarrow> string \<Rightarrow> (int \<times> string) ipc" where
  "recv_respone ans respone =
     ibind (bt_recv_loop ans respone 0) (\<lambda>(n, r, total_len).
       Ret (if (n = RecvErr EAGAIN \<or> n = RecvErr EINTR) \<and> 0 < total_len then 0 else - 1, r))"

definition create_client_socket :: "bt_kernel \<Rightarrow> string option \<Rightarrow> string option \<Rightarrow> (int \<times> string option \<times> string) ipc" where
  "create_client_socket k request respone =
     (case (request, respone) of
        (Some req, Some resp) \<Rightarrow>
          if req = [] then Ret (- 2, respone, [])
          else (case b_sock k of
                  None \<Rightarrow> Ret (- 2, respone, [])
                | Some sockfd \<Rightarrow>
                    if \<not> b_connect k then Ret (- 2, respone, [])
                    else ibind (cmd_send sockfd req (b_sends k)) (\<lambda>(ret, d).
                      if ret < 0 then Ret (- 1, respone, d)
                      else ibind (recv_respone (b_recvs k) resp) (\<lambda>(ret2, resp'). Ret (ret2, Some resp', d))))
      | _ \<Rightarrow> Ret (- 2, respone, []))"

text \<open>The label \<^verbatim>\<open>ERROR\<close>: the text is written without regard to the size of the buffer.\<close>

definition bt_error :: "string option \<Rightarrow> int \<Rightarrow> string option ipc" where
  "bt_error respone ret =
     (case respone of
        None \<Rightarrow> Fault NullDeref
      | Some b \<Rightarrow> ibind (lift_c (put_at 0 (''RJFAIL-'' @ show_int (15000 - ret) @ [NUL]) b)) (\<lambda>b'. Ret (Some b')))"

definition bt_send_request ::
  "platform \<Rightarrow> bt_kernel \<Rightarrow> string option \<Rightarrow> int \<Rightarrow> string option \<Rightarrow> 'a machine_scheme \<Rightarrow> (string option \<times> string) ipc" where
  "bt_send_request P k request msg_type respone m =
     (if \<not> g_isinit m then Ret (init_text respone, [])
      else ibind (lift_c (cJSON_Parse P (heap m) request)) (\<lambda>(root, h1).
        if root = None then ibind (bt_error respone (- 2)) (\<lambda>b. Ret (b, []))
        else let (n1, h2) = cJSON_CreateNumber h1 (d_of_int 1)
             in ibind (lift_c (cJSON_AddItemToObject h2 root ''packet_type'' n1)) (\<lambda>(root1, h3).
                let (n2, h4) = cJSON_CreateNumber h3 (d_of_int msg_type)
                in ibind (lift_c (cJSON_AddItemToObject h4 root1 ''msg_type'' n2)) (\<lambda>(root2, h5).
                   ibind (lift_c (cJSON_Print P h5 root2)) (\<lambda>(msg, _).
                     if msg = None then ibind (bt_error respone (- 2)) (\<lambda>b. Ret (b, []))
                     else ibind (create_client_socket k msg respone) (\<lambda>(ret, resp', d).
                       if ret < 0 then ibind (bt_error resp' ret) (\<lambda>b. Ret (b, d)) else Ret (resp', d)))))))"

definition BtMakeSeed_block :: "platform \<Rightarrow> bt_kernel \<Rightarrow> string option \<Rightarrow> string option \<Rightarrow> 'a machine_scheme \<Rightarrow> (string option \<times> string) ipc" where
  "BtMakeSeed_block P k request respone m = bt_send_request P k request BT_MAKE_SEED_START respone m"

definition BtMakeSeedCancel :: "platform \<Rightarrow> bt_kernel \<Rightarrow> string option \<Rightarrow> string option \<Rightarrow> 'a machine_scheme \<Rightarrow> (string option \<times> string) ipc" where
  "BtMakeSeedCancel P k request respone m = bt_send_request P k request BT_MAKE_SEED_CANCLE respone m"

definition BtShareStart :: "platform \<Rightarrow> bt_kernel \<Rightarrow> string option \<Rightarrow> string option \<Rightarrow> 'a machine_scheme \<Rightarrow> (string option \<times> string) ipc" where
  "BtShareStart P k request respone m = bt_send_request P k request BT_SHARE_FILE_START respone m"

definition BtShareStop :: "platform \<Rightarrow> bt_kernel \<Rightarrow> string option \<Rightarrow> string option \<Rightarrow> 'a machine_scheme \<Rightarrow> (string option \<times> string) ipc" where
  "BtShareStop P k request respone m = bt_send_request P k request BT_SHARE_FILE_STOP respone m"

definition BtDownload_block :: "platform \<Rightarrow> bt_kernel \<Rightarrow> string option \<Rightarrow> string option \<Rightarrow> 'a machine_scheme \<Rightarrow> (string option \<times> string) ipc" where
  "BtDownload_block P k request respone m = bt_send_request P k request BT_FILE_DOWNLOAD_START respone m"

definition BtDownloadCancle :: "platform \<Rightarrow> bt_kernel \<Rightarrow> string option \<Rightarrow> string option \<Rightarrow> 'a machine_scheme \<Rightarrow> (string option \<times> string) ipc" where
  "BtDownloadCancle P k request respone m = bt_send_request P k request BT_FILE_DOWNLOAD_CANCLE respone m"

definition BtGetStatus :: "platform \<Rightarrow> bt_kernel \<Rightarrow> string option \<Rightarrow> string option \<Rightarrow> 'a machine_scheme \<Rightarrow> (string option \<times> string) ipc" where
  "BtGetStatus P k request respone m = bt_send_request P k request BT_GET_FILE_PROGRESS respone m"

subsection \<open>What is sent and what comes back\<close>

definition bt_fields :: "(string \<times> field) list \<Rightarrow> int \<Rightarrow> (string \<times> field) list" where
  "bt_fields fs n = fs @ [(''packet_type'', FInt 1), (''msg_type'', FInt n)]"

lemma add_number:
  assumes "no_fail h" "is_int32 n"
  shows "\<exists>h1 h2. cJSON_CreateNumber h (d_of_int n) = (Some (new_item (FInt n)), h1)
    \<and> cJSON_AddItemToObject h1 (Some (obj_of fs)) k (Some (new_item (FInt n))) = Inr (Some (obj_of (fs @ [(k, FInt n)])), h2)
    \<and> no_fail h2"
proof -
  from create_field [of h "FInt n"] assms obtain h1 where
    "cJSON_CreateNumber h (d_of_int n) = (Some (new_item (FInt n)), h1)" "no_fail h1" by auto
  moreover from this(2) have "cJSON_AddItemToObject h1 (Some (obj_of fs)) k (Some (new_item (FInt n)))
      = Inr (Some (obj_of (fs @ [(k, FInt n)])), tl h1)"
    by (simp add: cJSON_AddItemToObject_def cJSON_AddItemToArray_def cJSON_strdup_def alloc_ok children_def obj_of_def)
  moreover have "no_fail (tl h1)" using \<open>no_fail h1\<close> by (simp add: mem_simps)
  ultimately show ?thesis by blast
qed

lemma bt_fields_ok: "fields_ok fs \<Longrightarrow> is_int32 n \<Longrightarrow> fields_ok (bt_fields fs n)"
proof -
  have "NUL \<notin> set ''packet_type''" "NUL \<notin> set ''msg_type''" by code_simp+
  then show "fields_ok fs \<Longrightarrow> is_int32 n \<Longrightarrow> fields_ok (bt_fields fs n)"
    by (auto simp: fields_ok_def bt_fields_def is_int32_def)
qed

lemma field_text: "json_text (field_item f) d fmt = json_text (field_item f) 0 False"
  by (cases f rule: field_item.cases) auto

lemma join_members_fmt: "length (join_members False d es) \<le> length (join_members True d es)"
  by (induction es) auto

lemma obj_text:
  "json_text (obj_of gs) 0 fmt = object_text fmt 0 (map (\<lambda>f. (name_text (field_item f), json_text (field_item f) 0 False)) gs)"
proof -
  have "json_text (obj_of gs) 0 fmt = object_text fmt 0 (map (\<lambda>f. (name_text (field_item f), json_text (field_item f) 1 fmt)) gs)"
    by (simp add: obj_of_def comp_def)
  then show ?thesis by (simp only: field_text [of _ 1 fmt])
qed

text \<open>The text of the request is not longer than what is sent.\<close>

lemma bt_text_length: "length (text_of fs) \<le> length (json_text (obj_of (bt_fields fs n)) 0 True)"
proof -
  let ?es = "map (\<lambda>f. (name_text (field_item f), json_text (field_item f) 0 False)) (bt_fields fs n)"
  have "length (object_text False 0 ?es) \<le> length (object_text True 0 ?es)"
    using join_members_fmt [of 1 ?es] by (simp add: object_text_def)
  moreover have "length (text_of fs) \<le> length (text_of (bt_fields fs n))" using text_of_append by (simp add: bt_fields_def)
  moreover have "text_of (bt_fields fs n) = json_text (obj_of (bt_fields fs n)) 0 False" by (simp add: text_of_def bt_fields_def del: json_text.simps)
  ultimately show ?thesis by (simp only: obj_text)
qed

lemma bt_message:
  assumes "fields_ok fs" "fs \<noteq> []" "no_fail (heap m)" "pow10 P (Fin 0) = Fin 1" "is_int32 n" "g_isinit m"
    and "\<not> huge (json_text (obj_of (bt_fields fs n)) 0 True)"
  shows "bt_send_request P k (Some (text_of fs)) n respone m =
    ibind (create_client_socket k (Some (json_text (obj_of (bt_fields fs n)) 0 True)) respone) (\<lambda>(ret, resp', d).
      if ret < 0 then ibind (bt_error resp' ret) (\<lambda>b. Ret (b, d)) else Ret (resp', d))"
proof -
  have "length (text_of fs) \<le> int_max" using bt_text_length [of fs n] assms(7) by (simp add: huge_def int_max_def)
  then obtain h1 where h1: "cJSON_Parse P (heap m) (Some (text_of fs)) = Inr (Some (obj_of fs), h1)" "no_fail h1"
    using reparse [OF printable_obj_of [OF assms(1)] assms(3,4), of False] assms(2) by (auto simp: text_of_def)
  obtain h2 h3 where 1: "cJSON_CreateNumber h1 (d_of_int 1) = (Some (new_item (FInt 1)), h2)"
    "cJSON_AddItemToObject h2 (Some (obj_of fs)) ''packet_type'' (Some (new_item (FInt 1)))
      = Inr (Some (obj_of (fs @ [(''packet_type'', FInt 1)])), h3)" "no_fail h3"
    using add_number [OF h1(2), of 1 fs "''packet_type''"] by (auto simp: is_int32_def)
  obtain h4 h5 where 2: "cJSON_CreateNumber h3 (d_of_int n) = (Some (new_item (FInt n)), h4)"
    "cJSON_AddItemToObject h4 (Some (obj_of (fs @ [(''packet_type'', FInt 1)]))) ''msg_type'' (Some (new_item (FInt n)))
      = Inr (Some (obj_of (bt_fields fs n)), h5)" "no_fail h5"
    using add_number [OF 1(3) assms(5), of "fs @ [(''packet_type'', FInt 1)]" "''msg_type''"] by (auto simp: bt_fields_def)
  obtain h6 where 3: "print_item P h5 (Some (obj_of (bt_fields fs n))) True = Inr (Some (json_text (obj_of (bt_fields fs n)) 0 True), h6)"
    using assms(7) by (cases rule: print_item_text [OF printable_obj_of [OF bt_fields_ok [OF assms(1,5)]] 2(3), of P True]) auto
  show ?thesis using assms(6) h1(1) 1(1,2) 2(1,2) 3
    by (simp add: bt_send_request_def cJSON_Print_def del: json_text.simps)
qed

lemma bt_recv_fits:
  assumes "[] \<notin> set chunks" "t + length (concat chunks) < length b" "\<nexists>x. a = Received x"
  shows "bt_recv_loop (map Received chunks @ a # as) b t
    = Ret (a, take t b @ concat chunks @ drop (t + length (concat chunks)) b, t + length (concat chunks))"
  using assms(1,2)
proof (induction chunks arbitrary: b t)
  case Nil
  then show ?case using assms(3) by (cases a) (simp_all add: bt_recv_loop.simps)
next
  case (Cons c cs)
  let ?b = "take t b @ c @ drop (t + length c) b"
  have "put_at t c b = Inr ?b" "take (length b - t) c = c" "c \<noteq> []" "t < length b"
    using Cons.prems by (auto simp: put_at_def)
  then have "bt_recv_loop (map Received (c # cs) @ a # as) b t = bt_recv_loop (map Received cs @ a # as) ?b (t + length c)"
    by (subst bt_recv_loop.simps) simp
  also have "\<dots> = Ret (a, take (t + length c) ?b @ concat cs @ drop (t + length c + length (concat cs)) ?b, t + length c + length (concat cs))"
    using Cons.prems by (intro Cons.IH) simp_all
  finally show ?case using \<open>t < length b\<close> by (simp add: ac_simps)
qed

lemma cmd_send_all:
  assumes "fits_int t" "fd_ok fd" "accepts ans (length t)"
  shows "cmd_send fd t ans = Ret (0, t)"
  using write_loop_accepts [of ans t 0] assms by (auto simp: cmd_send_def Let_def fits_int_total fd_ok_def)

lemma bt_recv_open:
  "[] \<notin> set chunks \<Longrightarrow> t + length (concat chunks) < length b \<Longrightarrow> bt_recv_loop (map Received chunks) b t = Blocked"
proof (induction chunks arbitrary: b t)
  case Nil
  then show ?case by (simp add: bt_recv_loop.simps)
next
  case (Cons c cs)
  let ?b = "take t b @ c @ drop (t + length c) b"
  have "put_at t c b = Inr ?b" "take (length b - t) c = c" "c \<noteq> []" "t < length b"
    using Cons.prems by (auto simp: put_at_def)
  then have "bt_recv_loop (map Received (c # cs)) b t = bt_recv_loop (map Received cs) ?b (t + length c)"
    by (subst bt_recv_loop.simps) simp
  with Cons.IH [of "t + length c" ?b] Cons.prems show ?case by simp
qed

text \<open>What \<^verbatim>\<open>recv_respone\<close> makes of the ways in which a reply can end.\<close>

lemma recv_respone_ends:
  assumes "[] \<notin> set chunks" "length (concat chunks) < length b" "\<nexists>x as. ends = Received x # as"
  shows "recv_respone (map Received chunks @ ends) b =
    (case ends of [] \<Rightarrow> Blocked
     | a # as \<Rightarrow> Ret (if chunks \<noteq> [] \<and> a \<in> {RecvErr EAGAIN, RecvErr EINTR} then 0 else - 1,
         concat chunks @ drop (length (concat chunks)) b))"
proof (cases ends)
  case Nil
  with bt_recv_open [OF assms(1), of 0 b] assms(2) show ?thesis by (simp add: recv_respone_def)
next
  case (Cons a as)
  have "concat chunks = [] \<longleftrightarrow> chunks = []" using assms(1) by (cases chunks) auto
  with Cons bt_recv_fits [OF assms(1), of 0 b a as] assms(2,3) show ?thesis by (auto simp: recv_respone_def)
qed

lemma bt_error_text:
  "bt_error (Some b) (- 1) = (if length b < 13 then Fault BufOverflow else Ret (Some (''RJFAIL-15001'' @ [NUL] @ drop 13 b)))"
proof -
  have "char_of (49 :: nat) = CHR ''1''" "char_of (53 :: nat) = CHR ''5''" "char_of (48 :: nat) = CHR ''0''" by code_simp+
  then have e: "''RJFAIL-'' @ show_int (15000 - (- 1)) @ [NUL] = ''RJFAIL-15001'' @ [NUL]"
    by (simp add: show_int_def show_nat.simps digit_char_def)
  show ?thesis unfolding bt_error_def by (simp only: option.case e) (simp add: put_at_def eval_nat_numeral)
qed


definition ex_bt :: "(string \<times> field) list" where
  "ex_bt = [(''file'', FString ''a.iso'')]"

definition ex_bt_text :: string where
  "ex_bt_text = json_text (obj_of (bt_fields ex_bt 30)) 0 True"

definition ex_bt_kernel :: "recv_ans \<Rightarrow> bt_kernel" where
  "ex_bt_kernel a = \<lparr>b_sock = Some 5, b_connect = True, b_sends = [Sent 10, SendErr EINTR, Sent (length ex_bt_text - 10)],
     b_recvs = [Received ''seed'', Received ''ing'', a]\<rparr>"

lemma ex_bt_facts:
  "fields_ok ex_bt" "ex_bt \<noteq> []" "10 < length ex_bt_text" "fits_int ex_bt_text" "no_fail (heap ex_machine)" "g_isinit ex_machine"
  "pow10 ex_platform (Fin 0) = Fin 1" "is_int32 30" "fd_ok 5" "accepts (b_sends (ex_bt_kernel a)) (length ex_bt_text)"
  "length ex_bt_text < 100"
proof -
  have l: "10 < length ex_bt_text \<and> length ex_bt_text < 100" by code_simp
  then show "10 < length ex_bt_text" "length ex_bt_text < 100" "fits_int ex_bt_text" by (simp_all add: fits_int_def)
  obtain d where "length ex_bt_text = Suc (10 + d)" using l less_imp_Suc_add by blast
  then have "length ex_bt_text = Suc (10 + d)" "Suc (10 + d) - 10 = Suc d" by simp_all
  then show "accepts (b_sends (ex_bt_kernel a)) (length ex_bt_text)"
    by (simp only: ex_bt_kernel_def bt_kernel.simps accepts.simps) simp
  show "fields_ok ex_bt" by code_simp
qed (simp_all add: ex_bt_def ex_machine_def ex_platform_def is_int32_def fd_ok_def FD_SETSIZE_def)


end
