(* ===== verification/Sysmisc.thy ===== *)
theory Sysmisc
  imports RcJson ApiChecks
begin

text \<open>
  \<^verbatim>\<open>sysmisc/sysmisc.cpp\<close>: disks and upgrades, through scripts. These functions do not
  check that the library is initialised.
\<close>

definition getPlatHWInfo :: "shell \<Rightarrow> string option \<Rightarrow> 'a machine_scheme \<Rightarrow> (int \<times> string option) \<times> 'a machine_scheme" where
  "getPlatHWInfo sh info m =
     (if info = None then ((ERROR_10000, None), m)
      else let ((ret, b), m1) = rj_system_r_args sh info ''bash /usr/local/bin/system/getHWCfg'' m
           in ((if ret = 0 then SUCCESS_0 else ERROR_10000, b), m1))"

definition getDiskStatus_block :: "shell \<Rightarrow> 'a machine_scheme \<Rightarrow> int \<times> 'a machine_scheme" where
  "getDiskStatus_block sh m =
     (let (ret, m1) = rj_system_args sh ''bash /usr/local/bin/system/diskstatus_mgr --status'' m
      in (if ret = 0 then SUCCESS_0 else if ret > 0 then ERROR_10000 - ret else ERROR_10000, m1))"

definition getPersonalDiskList_block :: "shell \<Rightarrow> string option \<Rightarrow> 'a machine_scheme \<Rightarrow> (int \<times> string option) \<times> 'a machine_scheme" where
  "getPersonalDiskList_block sh disks m =
     (if disks = None then ((ERROR_10000, None), m)
      else let ((ret, b), m1) = rj_system_r_args sh disks ''bash /usr/local/bin/system/getDataDiskInfoList'' m
           in ((if ret = 0 then SUCCESS_0 else ERROR_10000, b), m1))"

text \<open>Run a script with the text behind it; anything but status 0 is an error.\<close>

definition run_script :: "shell \<Rightarrow> string \<Rightarrow> 'a machine_scheme \<Rightarrow> int \<times> 'a machine_scheme" where
  "run_script sh cmd m =
     (let (ret, m1) = rj_system_args sh (''bash /usr/local/bin/system/'' @ cmd) m
      in (if ret = 0 then SUCCESS_0 else ERROR_10000, m1))"

definition formatPersonalDisk_block :: "shell \<Rightarrow> string option \<Rightarrow> 'a machine_scheme \<Rightarrow> int \<times> 'a machine_scheme" where
  "formatPersonalDisk_block sh dev m =
     (case dev of None \<Rightarrow> (ERROR_10000, m) | Some d \<Rightarrow> run_script sh (''formatDataDiskDev '' @ d) m)"

text \<open>The format has three places for four arguments: the option is dropped.\<close>

definition mountPersonalDisk_block ::
  "shell \<Rightarrow> string option \<Rightarrow> string option \<Rightarrow> string option \<Rightarrow> 'a machine_scheme \<Rightarrow> int \<times> 'a machine_scheme" where
  "mountPersonalDisk_block sh dev dir option m =
     (case (dev, dir) of
        (None, _) \<Rightarrow> (ERROR_10000, m)
      | (_, None) \<Rightarrow> (ERROR_10000, m)
      | (Some d, Some r) \<Rightarrow> run_script sh (''mountDataDisk '' @ d @ '' '' @ r) m)"

definition umountPersonalDisk_block :: "shell \<Rightarrow> string option \<Rightarrow> 'a machine_scheme \<Rightarrow> int \<times> 'a machine_scheme" where
  "umountPersonalDisk_block sh dir m =
     (case dir of None \<Rightarrow> (ERROR_10000, m) | Some d \<Rightarrow> run_script sh (''umountDataDisk '' @ d) m)"

definition checkISOVersion :: "shell \<Rightarrow> string option \<Rightarrow> 'a machine_scheme \<Rightarrow> int \<times> 'a machine_scheme" where
  "checkISOVersion sh verstr m =
     (case verstr of None \<Rightarrow> (ERROR_10000, m) | Some v \<Rightarrow> run_script sh (''checkISOVersion '' @ v) m)"

definition ipxeUpgrade :: "shell \<Rightarrow> string option \<Rightarrow> 'a machine_scheme \<Rightarrow> int \<times> 'a machine_scheme" where
  "ipxeUpgrade sh verstr m =
     (case verstr of None \<Rightarrow> (ERROR_10000, m) | Some v \<Rightarrow> run_script sh (''ipxe_upgrade '' @ v) m)"

text \<open>\<^verbatim>\<open>FASTUPGRADE_PARAM_JSON\<close> for one key after the other: None when a value is empty.\<close>

definition upgrade_keys :: "string list" where
  "upgrade_keys = [''ip'', ''mask'', ''gateway'', ''ser_ip'', ''mode'', ''img_name'', ''postrun'', ''isover'']"

fun upgrade_params :: "platform \<Rightarrow> mem \<Rightarrow> string \<Rightarrow> string list \<Rightarrow> string list option cres" where
  "upgrade_params P mem json [] = Inr (Some [])"
| "upgrade_params P mem json (k # ks) =
     cbind (rc_json_get_string P mem json k) (\<lambda>v.
       if v = [] then Inr None
       else cbind (upgrade_params P mem json ks) (\<lambda>vs. Inr (map_option ((#) v) vs)))"

definition fastUpgrade :: "platform \<Rightarrow> shell \<Rightarrow> string option \<Rightarrow> 'a machine_scheme \<Rightarrow> (int \<times> 'a machine_scheme) cres" where
  "fastUpgrade P sh jsonmsg m =
     (case jsonmsg of
        None \<Rightarrow> Inr (ERROR_10000, m)
      | Some json \<Rightarrow>
          cbind (upgrade_params P (heap m) json upgrade_keys) (\<lambda>vs.
            Inr (case vs of
                   None \<Rightarrow> (ERROR_10000, m)
                 | Some xs \<Rightarrow> run_script sh (''fast_upgrade'' @ concat (map (\<lambda>v. '' '' @ c_str v) xs)) m)))"

subsection \<open>The upgrade runs with all values or not at all\<close>

lemma field_string_no_NUL: "fields_ok fs \<Longrightarrow> NUL \<notin> set (field_string (field_lookup fs k))"
proof (induction fs)
  case (Cons f fs)
  obtain k' v where f: "f = (k', v)" by fastforce
  have ok: "field_ok v" "fields_ok fs" using Cons.prems by (auto simp: fields_ok_def f)
  have "NUL \<notin> set (field_string (Some v))" using ok(1) by (cases v) auto
  with Cons.IH [OF ok(2)] show ?case by (auto simp: f)
qed simp

lemma upgrade_params_text:
  assumes "fields_ok fs" "fs \<noteq> []" "no_fail mem" "pow10 P (Fin 0) = Fin 1" "length (text_of fs) \<le> int_max"
    "list_all (\<lambda>k. NUL \<notin> set k) ks"
  shows "upgrade_params P mem (text_of fs) ks
    = Inr (let vs = map (\<lambda>k. field_string (field_lookup fs k)) ks in if [] \<in> set vs then None else Some vs)"
  using assms(6)
proof (induction ks)
  case (Cons k ks)
  then show ?case using rc_json_get_text(2) [OF assms(1-5), of k] by (auto simp: Let_def)
qed simp

text \<open>The text of the first member whose name agrees with the key up to case; empty when there is none.\<close>

definition member_string :: "cjson \<Rightarrow> string \<Rightarrow> string" where
  "member_string c k =
     (case find (\<lambda>i. cJSON_strcasecmp (j_string i) (Some k) = 0) (j_child c) of
        None \<Rightarrow> []
      | Some i \<Rightarrow> (case j_valuestring i of None \<Rightarrow> [] | Some v \<Rightarrow> v))"

lemma find_name_find:
  "find (\<lambda>i. cJSON_strcasecmp (j_string i) s = 0) cs = (let i = find_name cs s in if i < length cs then Some (cs ! i) else None)"
  by (induction cs) (auto simp: Let_def)

lemma get_string_parse:
  assumes "NUL \<notin> set k"
  shows "rc_json_get_string P mem json k =
    cbind (cJSON_Parse P mem (Some (c_str json))) (\<lambda>(c, _). case c of None \<Rightarrow> Inl NullDeref | Some c \<Rightarrow> Inr (member_string c k))"
  using c_str_id [OF assms]
  by (auto simp: rc_json_get_string_def init_key_node_def cJSON_GetObjectItem_def children_def member_string_def
      find_name_find cbind_def Let_def split: sum.splits option.splits)

lemma upgrade_params_parse:
  assumes "list_all (\<lambda>k. NUL \<notin> set k) ks" "ks \<noteq> []"
  shows "upgrade_params P mem json ks =
    cbind (cJSON_Parse P mem (Some (c_str json))) (\<lambda>(c, _). case c of
      None \<Rightarrow> Inl NullDeref
    | Some c \<Rightarrow> Inr (let vs = map (member_string c) ks in if [] \<in> set vs then None else Some vs))"
  using assms
proof (induction ks)
  case (Cons k ks)
  then show ?case
    by (cases "ks = []") (auto simp: get_string_parse cbind_def Let_def split: sum.splits option.splits)
qed simp

lemma fast_upgrade_script:
  "run_script sh (''fast_upgrade'' @ args) m =
    (let cmd = ''bash /usr/local/bin/system/fast_upgrade'' @ args
     in if 1024 \<le> length cmd then (ERROR_10000, m)
        else (if fst (rj_system sh cmd m) = 0 then 0 else ERROR_10000, snd (rj_system sh cmd m)))"
  by (simp add: run_script_def rj_system_args_def SYSTEM_CMDLINE_LENGTH_def split_beta Let_def SUCCESS_0_def)

text \<open>
  C30. \<^verbatim>\<open>fastUpgrade\<close>, for every text, every shell and every state. The upgrade script runs exactly when
  the text parses, the item has all eight members as non-empty strings and the command fits into
  1023 characters; then the eight values stand behind the script in the order it expects. A missing or
  empty value, a longer command and a NULL text run nothing and report an error. A text that
  does not parse is not reported: the first look-up dereferences a NULL pointer, and a
  fault of the parser is passed on.
\<close>

theorem fast_upgrade:
  "fastUpgrade P sh None m = Inr (ERROR_10000, m)
  \<and> fastUpgrade P sh (Some json) m =
     (case cJSON_Parse P (heap m) (Some (c_str json)) of
        Inl e \<Rightarrow> Inl e
      | Inr (None, _) \<Rightarrow> Inl NullDeref
      | Inr (Some c, _) \<Rightarrow>
          (let vs = map (member_string c) upgrade_keys;
               cmd = ''bash /usr/local/bin/system/fast_upgrade'' @ concat (map (\<lambda>v. '' '' @ c_str v) vs)
           in Inr (if [] \<in> set vs \<or> 1024 \<le> length cmd then (ERROR_10000, m)
                   else (if fst (rj_system sh cmd m) = 0 then 0 else ERROR_10000, snd (rj_system sh cmd m)))))"
proof -
  have keys: "list_all (\<lambda>k. NUL \<notin> set k) upgrade_keys" "upgrade_keys \<noteq> []" by code_simp+
  note d = fastUpgrade_def upgrade_params_parse [OF keys] fast_upgrade_script cbind_def Let_def
  show ?thesis
  proof (cases "cJSON_Parse P (heap m) (Some (c_str json))")
    case (Inr p)
    then show ?thesis by (cases p; cases "fst p") (simp_all add: d del: append.simps)
  qed (simp add: d)
qed

text \<open>
  With a text built by the helper functions of \<^verbatim>\<open>rc_json.cpp\<close>, the values are the fields that were added.
\<close>

theorem fast_upgrade_fields:
  fixes fs :: "(string \<times> field) list"
  defines "vs \<equiv> map (\<lambda>k. field_string (field_lookup fs k)) upgrade_keys"
  defines "cmd \<equiv> ''bash /usr/local/bin/system/fast_upgrade'' @ concat (map (\<lambda>v. '' '' @ v) vs)"
  assumes "fields_ok fs" "fs \<noteq> []" "no_fail mem" "no_fail (heap m)" "pow10 P (Fin 0) = Fin 1" "\<not> huge (text_of fs)"
  shows "\<exists>json mem'. add_fields P mem [] fs = Inr (json, mem')
    \<and> fastUpgrade P sh (Some json) m = Inr
       (if [] \<in> set vs \<or> 1024 \<le> length cmd then (ERROR_10000, m)
        else (if fst (rj_system sh cmd m) = 0 then 0 else ERROR_10000, snd (rj_system sh cmd m)))"
proof (cases rule: add_fields_cases [OF assms(3,5,7)])
  case (1 mem')
  have keys: "list_all (\<lambda>k. NUL \<notin> set k) upgrade_keys" by code_simp
  have c: "c_str v = v" if "v \<in> set vs" for v
    using that field_string_no_NUL [OF assms(3)] by (auto simp: vs_def c_str_id)
  have "map (\<lambda>v. '' '' @ c_str v) vs = map (\<lambda>v. '' '' @ v) vs" by (rule map_cong) (simp_all add: c)
  from arg_cong [OF this, of concat]
  have cmd: "''bash /usr/local/bin/system/fast_upgrade'' @ concat (map (\<lambda>v. '' '' @ c_str v) vs) = cmd"
    unfolding cmd_def by simp
  have "fastUpgrade P sh (Some (text_of fs)) m = Inr (if [] \<in> set vs then (ERROR_10000, m)
      else run_script sh (''fast_upgrade'' @ concat (map (\<lambda>v. '' '' @ c_str v) vs)) m)"
    using upgrade_params_text [OF assms(3,4,6,7) 1(3) keys] by (simp add: fastUpgrade_def vs_def [symmetric] Let_def)
  also have "\<dots> = Inr (if [] \<in> set vs \<or> 1024 \<le> length cmd then (ERROR_10000, m)
        else (if fst (rj_system sh cmd m) = 0 then 0 else ERROR_10000, snd (rj_system sh cmd m)))"
    by (simp only: fast_upgrade_script cmd Let_def) simp
  finally show ?thesis using 1(1) by blast
qed (use assms(8) in blast)

definition ex_upgrade :: "(string \<times> field) list" where
  "ex_upgrade = map (\<lambda>k. (k, FString ''x'')) upgrade_keys"

theorem fast_upgrade_fields_witness:
  "\<exists>json mem'. add_fields ex_platform [] [] ex_upgrade = Inr (json, mem')
    \<and> fastUpgrade ex_platform (\<lambda>_ _ fs. Some ([], 0, fs)) (Some json) ex_machine
      = Inr (0, ex_machine\<lparr>runs := [''bash /usr/local/bin/system/fast_upgrade x x x x x x x x'']\<rparr>)"
proof -
  have f: "fields_ok ex_upgrade" "ex_upgrade \<noteq> []"
    "map (\<lambda>k. field_string (field_lookup ex_upgrade k)) upgrade_keys = replicate 8 ''x''" by code_simp+
  have p: "pow10 ex_platform (Fin 0) = Fin 1" by (simp add: ex_platform_def)
  have r: "rj_system (\<lambda>_ _ fs. Some ([], 0, fs)) c ex_machine = (0, ex_machine\<lparr>runs := [c]\<rparr>)" for c
    using rj_system_run [of "\<lambda>_ _ fs. Some ([], 0, fs)" c ex_machine] by (simp add: ex_machine_def)
  have n: "replicate 8 ''x'' = [''x'', ''x'', ''x'', ''x'', ''x'', ''x'', ''x'', ''x'']" by (simp add: eval_nat_numeral)
  have "length (text_of ex_upgrade) < 1000" by code_simp
  then have h: "\<not> huge (text_of ex_upgrade)" by (simp add: huge_def)
  show ?thesis
    using fast_upgrade_fields [OF f(1,2), of "[]" ex_machine ex_platform "\<lambda>_ _ fs. Some ([], 0, fs)", unfolded f(3) r n] p h
    by (simp add: ex_machine_def)
qed

end
