(* ===== verification/Application.thy ===== *)
theory Application
  imports Product ApiChecks
begin

text \<open>
  \<^verbatim>\<open>application/application.cpp\<close>: starting programs and installing packages.
\<close>

text \<open>
  \<^verbatim>\<open>sscanf(s, "%s ", buf)\<close> into an array of \<open>n\<close> zero bytes: the first word, which the
  format does not limit. Without a word the array keeps its zeros.
\<close>

definition sscanf_word :: "nat \<Rightarrow> string \<Rightarrow> string cres" where
  "sscanf_word n s =
     (let w = takeWhile (\<lambda>c. \<not> isspace c) (dropWhile isspace s)
      in if length w < n then Inr w else Inl BufOverflow)"

definition isProcessRunning :: "shell \<Rightarrow> string option \<Rightarrow> 'a machine_scheme \<Rightarrow> 'a int_res" where
  "isProcessRunning sh processname m =
     init_int m (para_int m processname (\<lambda>n.
       cbind (rj_exec_result sh (snprintf_c SIZE_128 (''pidof '' @ n)) (replicate SIZE_128 NUL) m) (\<lambda>((_, out), m1).
         Inr (if c_str out \<noteq> [] then 1 else 0, m1))))"

definition pidof_cmd :: "string \<Rightarrow> string \<Rightarrow> string" where
  "pidof_cmd pid_name processname =
     snprintf_c SIZE_128 (''pidof '' @ (if pid_name \<noteq> [] then pid_name else processname))"

definition startProcess :: "shell \<Rightarrow> string option \<Rightarrow> string option \<Rightarrow> 'a machine_scheme \<Rightarrow> 'a int_res" where
  "startProcess sh path processname m =
     init_int m (para_int m path (\<lambda>p. para_int m processname (\<lambda>n.
       if last p \<noteq> CHR ''/'' then Inr (ERROR_11003, m)
       else let cmd_merge = snprintf_c SIZE_128 (p @ n)
            in cbind (sscanf_word SIZE_128 cmd_merge) (\<lambda>bin_file.
               if \<not> file_exists bin_file m then Inr (ERROR_11000, m)
               else cbind (sscanf_word SIZE_128 n) (\<lambda>pid_name.
                    cbind (rj_exec_result sh (pidof_cmd pid_name n) (replicate SIZE_128 NUL) m) (\<lambda>((_, out), m1).
                      if c_str out \<noteq> [] then Inr (SUCCESS_0, m1)
                      else let (ret, m2) = rj_system sh (snprintf_c SIZE_128 (cmd_merge @ '' >/dev/null 2>&1 &'')) m1
                           in if ret < 0 then Inr (ERROR_10000, m2)
                              else cbind (rj_exec_result sh (pidof_cmd pid_name n) out m2) (\<lambda>((_, out2), m3).
                                Inr (if c_str out2 = [] then ERROR_11002 else SUCCESS_0, m3)))))))) "

definition installDeb_block :: "shell \<Rightarrow> string option \<Rightarrow> string option \<Rightarrow> 'a machine_scheme \<Rightarrow> 'a int_res" where
  "installDeb_block sh debPath debName m =
     init_int m (para_int m debPath (\<lambda>p. para_int m debName (\<lambda>n.
       if last p \<noteq> CHR ''/'' then Inr (ERROR_11003, m)
       else let deb = snprintf_c SIZE_1K (p @ n @ ''.deb'')
            in if \<not> file_exists deb m then Inr (ERROR_11000, m)
               else cbind (rj_exec_result sh (snprintf_c SIZE_128 (''dpkg -i '' @ deb @ '' >/dev/null 2>&1'')) (replicate SIZE_128 NUL) m) (\<lambda>((ret, _), m1).
                 if ret < 0 then Inr (ERROR_10000, m1)
                 else cbind (rj_exec_result sh (snprintf_c SIZE_128 (''dpkg -l '' @ n @ '' 2>/dev/null'')) (replicate SIZE_128 NUL) m1) (\<lambda>((_, out), m2).
                   Inr (if c_str out \<noteq> [] then SUCCESS_0 else ERROR_11002, m2))))))"

definition uninstallDeb_block :: "shell \<Rightarrow> string option \<Rightarrow> 'a machine_scheme \<Rightarrow> 'a int_res" where
  "uninstallDeb_block sh debName m =
     init_int m (para_int m debName (\<lambda>n.
       cbind (rj_exec_result sh (snprintf_c SIZE_128 (''dpkg -r '' @ n @ '' 2>&1'')) (replicate SIZE_1K NUL) m) (\<lambda>((_, out), m1).
         if contains_sub (''isn'' @ quote @ ''t installed'') (c_str out) then Inr (ERROR_11002, m1)
         else cbind (rj_exec_result sh (snprintf_c SIZE_128 (''dpkg -l '' @ n @ '' 2>/dev/null'')) (replicate SIZE_1K NUL) m1) (\<lambda>((_, out2), m2).
           Inr (if c_str out2 = [] then SUCCESS_0 else ERROR_11002, m2)))))"

text \<open>\<^verbatim>\<open>newpack\<close> is not checked; formatting a NULL string is undefined.\<close>

definition mergeDeltaPacket_block ::
  "shell \<Rightarrow> string option \<Rightarrow> string option \<Rightarrow> string option \<Rightarrow> 'a machine_scheme \<Rightarrow> 'a int_res" where
  "mergeDeltaPacket_block sh old delta newpack m =
     init_int m (para_int m old (\<lambda>oldf. para_int m delta (\<lambda>deltaf.
       if \<not> file_exists oldf m \<or> \<not> file_exists deltaf m then Inr (ERROR_11000, m)
       else case newpack of
              None \<Rightarrow> Inl NullDeref
            | Some newf \<Rightarrow>
                cbind (rj_exec_result sh (snprintf_c SIZE_128 (''bspatch '' @ oldf @ '' '' @ newf @ '' '' @ deltaf @ '' 2>&1''))
                   (replicate SIZE_1K NUL) m) (\<lambda>((_, out), m1).
                  Inr (if c_str out = [] then SUCCESS_0 else ERROR_11002, m1)))))"

subsection \<open>Starting a program\<close>

text \<open>A word of a command line: no white space, no NUL, not empty.\<close>

definition word_ok :: "string \<Rightarrow> bool" where
  "word_ok w \<longleftrightarrow> w \<noteq> [] \<and> list_all (\<lambda>c. \<not> isspace c \<and> c \<noteq> NUL) w"

lemma sscanf_word_of:
  assumes "word_ok w" "args = [] \<or> isspace (hd args)" "length w < n"
  shows "sscanf_word n (w @ args) = Inr w"
proof -
  obtain c t where w: "w = c # t" using assms(1) by (cases w) (auto simp: word_ok_def)
  have "dropWhile isspace (w @ args) = w @ args" using assms(1) by (simp add: w word_ok_def)
  moreover have "takeWhile (\<lambda>c. \<not> isspace c) (w @ args) = w"
    using assms(1,2) by (cases args) (auto simp: word_ok_def list_all_iff takeWhile_append2)
  ultimately show ?thesis using assms(3) by (simp add: sscanf_word_def)
qed


text \<open>The first word of the name is not limited to the array.\<close>

lemma start_process_overflow:
  assumes "g_isinit m" "p \<noteq> []" "last p = CHR ''/''" "word_ok w" "128 \<le> length w"
    and "sscanf_word SIZE_128 (snprintf_c SIZE_128 (p @ w)) = Inr b" "file_exists b m"
  shows "startProcess sh (Some p) (Some w) m = Inl BufOverflow"
proof -
  have "takeWhile (\<lambda>c. \<not> isspace c) w = w" "dropWhile isspace w = w" "w \<noteq> []"
    using assms(4) by (cases w; auto simp: word_ok_def list_all_iff)+
  then have "sscanf_word SIZE_128 w = Inl BufOverflow" using assms(5) by (simp only: sscanf_word_def SIZE_128_def Let_def) simp
  then show ?thesis using assms \<open>w \<noteq> []\<close>
    by (simp add: startProcess_def init_int_def para_int_def no_para_def Let_def cbind_def)
qed


end
