(* ===== verification/RjThread.thy ===== *)
theory RjThread
  imports CPrelude
begin

text \<open>
  \<^verbatim>\<open>network/rj_thread.cpp\<close>: the life of a thread. \<open>unjoined\<close> counts the threads of the
  operating system that were created and not joined yet; joining when there is none
  is undefined. The body of the thread is not part of the model.
\<close>

datatype RjThreadStatus = NET_THREAD_UNINITED | NET_THREAD_RUNNING | NET_THREAD_WAITING | NET_THREAD_STOPPING

record thread =
  mStatus :: RjThreadStatus
  mName :: string
  unjoined :: nat

definition THREAD_NAME_LEN :: nat where
  "THREAD_NAME_LEN = 64"

text \<open>\<^verbatim>\<open>strncpy\<close> leaves a name of 64 characters or more without a NUL; \<open>junk\<close> is the array before.\<close>

definition RjThread_new :: "string \<Rightarrow> string option \<Rightarrow> thread" where
  "RjThread_new junk name_arg =
     \<lparr>mStatus = NET_THREAD_UNINITED,
      mName = (case name_arg of
                 Some s \<Rightarrow> take THREAD_NAME_LEN s @ replicate (THREAD_NAME_LEN - length s) NUL
               | None \<Rightarrow> ''rj_thread'' @ [NUL] @ drop 10 junk),
      unjoined = 0\<rparr>"

definition get_status :: "thread \<Rightarrow> RjThreadStatus" where
  "get_status t = mStatus t"

definition set_status :: "RjThreadStatus \<Rightarrow> thread \<Rightarrow> thread" where
  "set_status status t = t\<lparr>mStatus := status\<rparr>"

text \<open>\<open>created\<close>: whether \<^verbatim>\<open>pthread_create\<close> succeeds.\<close>

definition start :: "bool \<Rightarrow> thread \<Rightarrow> thread" where
  "start created t =
     (if mStatus t = NET_THREAD_UNINITED
      then if created then t\<lparr>mStatus := NET_THREAD_RUNNING, unjoined := Suc (unjoined t)\<rparr>
           else t\<lparr>mStatus := NET_THREAD_UNINITED\<rparr>
      else t)"

definition stop :: "thread \<Rightarrow> thread cres" where
  "stop t =
     (if mStatus t \<noteq> NET_THREAD_UNINITED
      then if unjoined t = 0 then Inl UseAfterFree
           else Inr (t\<lparr>mStatus := NET_THREAD_UNINITED, unjoined := unjoined t - 1\<rparr>)
      else Inr t)"

inductive thread_reach :: "thread \<Rightarrow> bool" where
  reach_new: "thread_reach (RjThread_new junk name_arg)"
| reach_start: "thread_reach t \<Longrightarrow> thread_reach (start created t)"
| reach_stop: "thread_reach t \<Longrightarrow> stop t = Inr t' \<Longrightarrow> thread_reach t'"
| reach_status: "thread_reach t \<Longrightarrow> mStatus t \<noteq> NET_THREAD_UNINITED \<Longrightarrow> status \<noteq> NET_THREAD_UNINITED \<Longrightarrow>
    thread_reach (set_status status t)"

inductive_cases thread_reachE: "thread_reach t"

lemma thread_reach_count: "thread_reach t \<Longrightarrow> unjoined t = (if mStatus t = NET_THREAD_UNINITED then 0 else 1)"
  by (induction rule: thread_reach.induct)
     (auto simp: RjThread_new_def start_def stop_def set_status_def split: if_splits)

text \<open>
  As long as nobody sets the status to or from uninitialised by hand, a thread
  object has at most one running thread, has one exactly when its status says so,
  and stopping it, any number of times, joins each thread once.
\<close>

theorem thread_lifecycle:
  assumes "thread_reach t"
  shows "unjoined t = (if get_status t = NET_THREAD_UNINITED then 0 else 1)
    \<and> (\<exists>t'. stop t = Inr t' \<and> unjoined t' = 0 \<and> stop t' = Inr t')"
  using thread_reach_count [OF assms] by (auto simp: get_status_def stop_def)

theorem thread_lifecycle_witness:
  "\<exists>t'. stop (start True (start True (RjThread_new [] (Some ''svc'')))) = Inr t' \<and> unjoined t' = 0 \<and> stop t' = Inr t'"
  using thread_lifecycle [OF reach_start [OF reach_start [OF reach_new]]] by blast

text \<open>Setting the status by hand makes a later stop join a thread that is not there.\<close>

lemma set_status_join: "stop (set_status NET_THREAD_RUNNING (RjThread_new junk name_arg)) = Inl UseAfterFree"
  by (simp add: stop_def set_status_def RjThread_new_def)

end
