(* ===== verification/RjData.thy ===== *)
theory RjData
  imports CPrelude "HOL-Library.Word"
begin

text \<open>
  \<^verbatim>\<open>include/rj_data.h\<close>: macros that read and write integers of 16, 24, 32 and 64 bits
  in either byte order at a pointer, and \<^verbatim>\<open>net_clip\<close>. A pointer is the list of the bytes
  from there on; using a byte that is not there is a fault. The operands of
  the shifts are promoted to \<^verbatim>\<open>int\<close>, whose bits are a word of 32 bits.
\<close>

unbundle bit_operations_syntax

definition NET_RB16 :: "8 word list \<Rightarrow> 32 word cres" where
  "NET_RB16 x = (if length x < 2 then Inl OutOfBounds
     else Inr (push_bit 8 (ucast (x ! 0)) OR ucast (x ! 1)))"

definition NET_WB16 :: "8 word list \<Rightarrow> 'a :: len word \<Rightarrow> 8 word list cres" where
  "NET_WB16 p d = (if length p < 2 then Inl BufOverflow
     else Inr (p[1 := ucast d, 0 := ucast (drop_bit 8 d)]))"

definition NET_RL16 :: "8 word list \<Rightarrow> 32 word cres" where
  "NET_RL16 x = (if length x < 2 then Inl OutOfBounds
     else Inr (push_bit 8 (ucast (x ! 1)) OR ucast (x ! 0)))"

definition NET_WL16 :: "8 word list \<Rightarrow> 'a :: len word \<Rightarrow> 8 word list cres" where
  "NET_WL16 p d = (if length p < 2 then Inl BufOverflow
     else Inr (p[0 := ucast d, 1 := ucast (drop_bit 8 d)]))"

definition NET_RB32 :: "8 word list \<Rightarrow> 32 word cres" where
  "NET_RB32 x = (if length x < 4 then Inl OutOfBounds
     else Inr (push_bit 24 (ucast (x ! 0)) OR push_bit 16 (ucast (x ! 1)) OR push_bit 8 (ucast (x ! 2)) OR ucast (x ! 3)))"

definition NET_WB32 :: "8 word list \<Rightarrow> 'a :: len word \<Rightarrow> 8 word list cres" where
  "NET_WB32 p d = (if length p < 4 then Inl BufOverflow
     else Inr (p[3 := ucast d, 2 := ucast (drop_bit 8 d), 1 := ucast (drop_bit 16 d), 0 := ucast (drop_bit 24 d)]))"

definition NET_RL32 :: "8 word list \<Rightarrow> 32 word cres" where
  "NET_RL32 x = (if length x < 4 then Inl OutOfBounds
     else Inr (push_bit 24 (ucast (x ! 3)) OR push_bit 16 (ucast (x ! 2)) OR push_bit 8 (ucast (x ! 1)) OR ucast (x ! 0)))"

definition NET_WL32 :: "8 word list \<Rightarrow> 'a :: len word \<Rightarrow> 8 word list cres" where
  "NET_WL32 p d = (if length p < 4 then Inl BufOverflow
     else Inr (p[0 := ucast d, 1 := ucast (drop_bit 8 d), 2 := ucast (drop_bit 16 d), 3 := ucast (drop_bit 24 d)]))"

definition NET_RB64 :: "8 word list \<Rightarrow> 64 word cres" where
  "NET_RB64 x = (if length x < 8 then Inl OutOfBounds
     else Inr (push_bit 56 (ucast (x ! 0)) OR push_bit 48 (ucast (x ! 1)) OR push_bit 40 (ucast (x ! 2)) OR push_bit 32 (ucast (x ! 3)) OR push_bit 24 (ucast (x ! 4)) OR push_bit 16 (ucast (x ! 5)) OR push_bit 8 (ucast (x ! 6)) OR ucast (x ! 7)))"

definition NET_WB64 :: "8 word list \<Rightarrow> 'a :: len word \<Rightarrow> 8 word list cres" where
  "NET_WB64 p d = (if length p < 8 then Inl BufOverflow
     else Inr (p[7 := ucast d, 6 := ucast (drop_bit 8 d), 5 := ucast (drop_bit 16 d), 4 := ucast (drop_bit 24 d), 3 := ucast (drop_bit 32 d), 2 := ucast (drop_bit 40 d), 1 := ucast (drop_bit 48 d), 0 := ucast (drop_bit 56 d)]))"

definition NET_RL64 :: "8 word list \<Rightarrow> 64 word cres" where
  "NET_RL64 x = (if length x < 8 then Inl OutOfBounds
     else Inr (push_bit 56 (ucast (x ! 7)) OR push_bit 48 (ucast (x ! 6)) OR push_bit 40 (ucast (x ! 5)) OR push_bit 32 (ucast (x ! 4)) OR push_bit 24 (ucast (x ! 3)) OR push_bit 16 (ucast (x ! 2)) OR push_bit 8 (ucast (x ! 1)) OR ucast (x ! 0)))"

definition NET_WL64 :: "8 word list \<Rightarrow> 'a :: len word \<Rightarrow> 8 word list cres" where
  "NET_WL64 p d = (if length p < 8 then Inl BufOverflow
     else Inr (p[0 := ucast d, 1 := ucast (drop_bit 8 d), 2 := ucast (drop_bit 16 d), 3 := ucast (drop_bit 24 d), 4 := ucast (drop_bit 32 d), 5 := ucast (drop_bit 40 d), 6 := ucast (drop_bit 48 d), 7 := ucast (drop_bit 56 d)]))"

definition NET_RB24 :: "8 word list \<Rightarrow> 32 word cres" where
  "NET_RB24 x = (if length x < 3 then Inl OutOfBounds
     else Inr (push_bit 16 (ucast (x ! 0)) OR push_bit 8 (ucast (x ! 1)) OR ucast (x ! 2)))"

definition NET_WB24 :: "8 word list \<Rightarrow> 'a :: len word \<Rightarrow> 8 word list cres" where
  "NET_WB24 p d = (if length p < 3 then Inl BufOverflow
     else Inr (p[2 := ucast d, 1 := ucast (drop_bit 8 d), 0 := ucast (drop_bit 16 d)]))"

definition NET_RL24 :: "8 word list \<Rightarrow> 32 word cres" where
  "NET_RL24 x = (if length x < 3 then Inl OutOfBounds
     else Inr (push_bit 16 (ucast (x ! 2)) OR push_bit 8 (ucast (x ! 1)) OR ucast (x ! 0)))"

definition NET_WL24 :: "8 word list \<Rightarrow> 'a :: len word \<Rightarrow> 8 word list cres" where
  "NET_WL24 p d = (if length p < 3 then Inl BufOverflow
     else Inr (p[0 := ucast d, 1 := ucast (drop_bit 8 d), 2 := ucast (drop_bit 16 d)]))"

definition net_clip :: "int \<Rightarrow> int \<Rightarrow> int \<Rightarrow> int" where
  "net_clip a amin amax = (if a < amin then amin else if a > amax then amax else a)"

subsection \<open>What is written is read\<close>

lemma bit_byte: "bit (push_bit k (ucast (ucast (drop_bit k d) :: 8 word)) :: 'b :: len word) n
    \<longleftrightarrow> k \<le> n \<and> n < k + 8 \<and> n < LENGTH('b) \<and> bit (d :: 'a :: len word) n"
  by (auto simp: bit_simps dest: bit_imp_le_length)

lemma bit_byte0: "bit (ucast (ucast d :: 8 word) :: 'b :: len word) n \<longleftrightarrow> n < 8 \<and> n < LENGTH('b) \<and> bit (d :: 'a :: len word) n"
  by (auto simp: bit_simps dest: bit_imp_le_length)

lemma bytes16: "(push_bit 8 (ucast (ucast (drop_bit 8 d) :: 8 word)) OR ucast (ucast d :: 8 word) :: 32 word)
    = ucast d" for d :: "16 word"
proof (rule bit_word_eqI)
  fix n assume "n < LENGTH(32)"
  then show "bit (push_bit 8 (ucast (ucast (drop_bit 8 d) :: 8 word)) OR ucast (ucast d :: 8 word) :: 32 word) n
    \<longleftrightarrow> bit (ucast d :: 32 word) n"
    unfolding bit_or_iff bit_byte bit_byte0 bit_take_bit_iff bit_ucast_iff
    by (cases "bit d n") (auto dest: bit_imp_le_length)
qed

lemma bytes24: "(push_bit 16 (ucast (ucast (drop_bit 16 d) :: 8 word)) OR push_bit 8 (ucast (ucast (drop_bit 8 d) :: 8 word)) OR ucast (ucast d :: 8 word) :: 32 word)
    = take_bit 24 d" for d :: "32 word"
proof (rule bit_word_eqI)
  fix n assume "n < LENGTH(32)"
  then show "bit (push_bit 16 (ucast (ucast (drop_bit 16 d) :: 8 word)) OR push_bit 8 (ucast (ucast (drop_bit 8 d) :: 8 word)) OR ucast (ucast d :: 8 word) :: 32 word) n
    \<longleftrightarrow> bit (take_bit 24 d :: 32 word) n"
    unfolding bit_or_iff bit_byte bit_byte0 bit_take_bit_iff bit_ucast_iff
    by (cases "bit d n") (auto dest: bit_imp_le_length)
qed

lemma bytes32: "(push_bit 24 (ucast (ucast (drop_bit 24 d) :: 8 word)) OR push_bit 16 (ucast (ucast (drop_bit 16 d) :: 8 word)) OR push_bit 8 (ucast (ucast (drop_bit 8 d) :: 8 word)) OR ucast (ucast d :: 8 word) :: 32 word)
    = d" for d :: "32 word"
proof (rule bit_word_eqI)
  fix n assume "n < LENGTH(32)"
  then show "bit (push_bit 24 (ucast (ucast (drop_bit 24 d) :: 8 word)) OR push_bit 16 (ucast (ucast (drop_bit 16 d) :: 8 word)) OR push_bit 8 (ucast (ucast (drop_bit 8 d) :: 8 word)) OR ucast (ucast d :: 8 word) :: 32 word) n
    \<longleftrightarrow> bit (d :: 32 word) n"
    unfolding bit_or_iff bit_byte bit_byte0 bit_take_bit_iff bit_ucast_iff
    by (cases "bit d n") (auto dest: bit_imp_le_length)
qed

lemma bytes64: "(push_bit 56 (ucast (ucast (drop_bit 56 d) :: 8 word)) OR push_bit 48 (ucast (ucast (drop_bit 48 d) :: 8 word)) OR push_bit 40 (ucast (ucast (drop_bit 40 d) :: 8 word)) OR push_bit 32 (ucast (ucast (drop_bit 32 d) :: 8 word)) OR push_bit 24 (ucast (ucast (drop_bit 24 d) :: 8 word)) OR push_bit 16 (ucast (ucast (drop_bit 16 d) :: 8 word)) OR push_bit 8 (ucast (ucast (drop_bit 8 d) :: 8 word)) OR ucast (ucast d :: 8 word) :: 64 word)
    = d" for d :: "64 word"
proof (rule bit_word_eqI)
  fix n assume "n < LENGTH(64)"
  then show "bit (push_bit 56 (ucast (ucast (drop_bit 56 d) :: 8 word)) OR push_bit 48 (ucast (ucast (drop_bit 48 d) :: 8 word)) OR push_bit 40 (ucast (ucast (drop_bit 40 d) :: 8 word)) OR push_bit 32 (ucast (ucast (drop_bit 32 d) :: 8 word)) OR push_bit 24 (ucast (ucast (drop_bit 24 d) :: 8 word)) OR push_bit 16 (ucast (ucast (drop_bit 16 d) :: 8 word)) OR push_bit 8 (ucast (ucast (drop_bit 8 d) :: 8 word)) OR ucast (ucast d :: 8 word) :: 64 word) n
    \<longleftrightarrow> bit (d :: 64 word) n"
    unfolding bit_or_iff bit_byte bit_byte0 bit_take_bit_iff bit_ucast_iff
    by (cases "bit d n") (auto dest: bit_imp_le_length)
qed

lemma net16:
  assumes "2 \<le> length p"
  shows "\<exists>q. NET_WB16 p (d :: 16 word) = Inr q \<and> length q = length p \<and> NET_RB16 q = Inr (ucast d)"
    and "\<exists>q. NET_WL16 p (d :: 16 word) = Inr q \<and> length q = length p \<and> NET_RL16 q = Inr (ucast d)"
proof -
  have "p \<noteq> []" using assms by auto
  with assms show "\<exists>q. NET_WB16 p d = Inr q \<and> length q = length p \<and> NET_RB16 q = Inr (ucast d)"
    "\<exists>q. NET_WL16 p d = Inr q \<and> length q = length p \<and> NET_RL16 q = Inr (ucast d)"
    by (simp_all add: NET_WB16_def NET_RB16_def NET_WL16_def NET_RL16_def nth_list_update bytes16)
qed

lemma net24:
  assumes "3 \<le> length p"
  shows "\<exists>q. NET_WB24 p (d :: 32 word) = Inr q \<and> length q = length p \<and> NET_RB24 q = Inr (take_bit 24 d)"
    and "\<exists>q. NET_WL24 p (d :: 32 word) = Inr q \<and> length q = length p \<and> NET_RL24 q = Inr (take_bit 24 d)"
proof -
  have "p \<noteq> []" using assms by auto
  with assms show "\<exists>q. NET_WB24 p d = Inr q \<and> length q = length p \<and> NET_RB24 q = Inr (take_bit 24 d)"
    "\<exists>q. NET_WL24 p d = Inr q \<and> length q = length p \<and> NET_RL24 q = Inr (take_bit 24 d)"
    by (simp_all add: NET_WB24_def NET_RB24_def NET_WL24_def NET_RL24_def nth_list_update bytes24)
qed

lemma net32:
  assumes "4 \<le> length p"
  shows "\<exists>q. NET_WB32 p (d :: 32 word) = Inr q \<and> length q = length p \<and> NET_RB32 q = Inr (d)"
    and "\<exists>q. NET_WL32 p (d :: 32 word) = Inr q \<and> length q = length p \<and> NET_RL32 q = Inr (d)"
proof -
  have "p \<noteq> []" using assms by auto
  with assms show "\<exists>q. NET_WB32 p d = Inr q \<and> length q = length p \<and> NET_RB32 q = Inr (d)"
    "\<exists>q. NET_WL32 p d = Inr q \<and> length q = length p \<and> NET_RL32 q = Inr (d)"
    by (simp_all add: NET_WB32_def NET_RB32_def NET_WL32_def NET_RL32_def nth_list_update bytes32)
qed

lemma net64:
  assumes "8 \<le> length p"
  shows "\<exists>q. NET_WB64 p (d :: 64 word) = Inr q \<and> length q = length p \<and> NET_RB64 q = Inr (d)"
    and "\<exists>q. NET_WL64 p (d :: 64 word) = Inr q \<and> length q = length p \<and> NET_RL64 q = Inr (d)"
proof -
  have "p \<noteq> []" using assms by auto
  with assms show "\<exists>q. NET_WB64 p d = Inr q \<and> length q = length p \<and> NET_RB64 q = Inr (d)"
    "\<exists>q. NET_WL64 p d = Inr q \<and> length q = length p \<and> NET_RL64 q = Inr (d)"
    by (simp_all add: NET_WB64_def NET_RB64_def NET_WL64_def NET_RL64_def nth_list_update bytes64)
qed

end
