(* ===== verification/NvModule.thy ===== *)
theory NvModule
  imports Control
begin

text \<open>
  \<^verbatim>\<open>os_lesson/rw_bios_nv\<close>: the kernel module behind \<^verbatim>\<open>/dev/RW_BIOS_NV\<close>, in its two builds, for
  VDI terminals (\<^verbatim>\<open>vdi_bios_nv/rw_bios_nv_km\<close>) and for IDV terminals (\<^verbatim>\<open>idv_rw_bios_nv\<close>),
  which differ in the structure they exchange. A request is copied into
  kernel memory, handed to the firmware by an interrupt, and copied back. The firmware
  is a parameter: what it does to the bytes in kernel memory and to its variables. It
  provides the device that \<^verbatim>\<open>BiosNv\<close> and \<^verbatim>\<open>Control\<close> use.
\<close>

unbundle bit_operations_syntax

subsection \<open>Structures as bytes\<close>

definition le16 :: "16 word \<Rightarrow> 8 word list" where
  "le16 v = [ucast v, ucast (drop_bit 8 v)]"

definition get16 :: "8 word list \<Rightarrow> nat \<Rightarrow> 16 word" where
  "get16 bs i = push_bit 8 (ucast (bs ! Suc i)) OR ucast (bs ! i)"

text \<open>The structures are packed.\<close>

definition bytes_GET :: "GET_VAR_STRUCTURE \<Rightarrow> 8 word list" where
  "bytes_GET r = le16 (var_name r) @ le16 (var_value r) @ le16 (RetStatus r)"

definition GET_bytes :: "8 word list \<Rightarrow> GET_VAR_STRUCTURE" where
  "GET_bytes bs = \<lparr>var_name = get16 bs 0, var_value = get16 bs 2, RetStatus = get16 bs 4\<rparr>"

definition bytes_BIOS :: "BIOS_VAR_STRUCTURE \<Rightarrow> 8 word list" where
  "bytes_BIOS r = le16 (bios_name r) @ le16 (bios_value r) @ le16 (RtcWake r) @ le16 (var_hour r) @ le16 (var_minute r)
     @ le16 (var_second r) @ le16 (MinIncrease r) @ le16 (bios_status r)"

definition BIOS_bytes :: "8 word list \<Rightarrow> BIOS_VAR_STRUCTURE" where
  "BIOS_bytes bs = \<lparr>bios_name = get16 bs 0, bios_value = get16 bs 2, RtcWake = get16 bs 4, var_hour = get16 bs 6,
     var_minute = get16 bs 8, var_second = get16 bs 10, MinIncrease = get16 bs 12, bios_status = get16 bs 14\<rparr>"

subsection \<open>Request numbers\<close>

definition IOC :: "32 word \<Rightarrow> 32 word \<Rightarrow> 32 word \<Rightarrow> 32 word" where
  "IOC dir nr sz = push_bit 30 dir OR push_bit 16 sz OR push_bit 8 0x6B OR nr"

definition RW_BIOS_NV_IOCPRINT :: "32 word" where "RW_BIOS_NV_IOCPRINT = IOC 0 1 0"
definition RW_BIOS_NV_IOCGETDATA :: "32 word" where "RW_BIOS_NV_IOCGETDATA = IOC 2 2 8"
definition RW_BIOS_NV_IOCGETBIOSNV :: "nat \<Rightarrow> 32 word" where "RW_BIOS_NV_IOCGETBIOSNV sz = IOC 1 3 (of_nat sz)"
definition RW_BIOS_NV_IOCSETBIOSNV :: "nat \<Rightarrow> 32 word" where "RW_BIOS_NV_IOCSETBIOSNV sz = IOC 1 4 (of_nat sz)"

definition VDI_SIZE :: nat where "VDI_SIZE = 6"
definition IDV_SIZE :: nat where "IDV_SIZE = 16"

subsection \<open>The module\<close>

definition ALLOC_SIZE :: nat where "ALLOC_SIZE = 500"
definition EINVAL :: int where "EINVAL = 22"

record 'f firmware =
  smi_get :: "'f \<Rightarrow> 8 word list \<Rightarrow> 16 word \<times> 8 word list"
  smi_set :: "'f \<Rightarrow> 8 word list \<Rightarrow> 16 word \<times> 8 word list \<times> 'f"

text \<open>
  A build of the module is given by the size of its structure. \<open>alloc\<close>: whether
  \<^verbatim>\<open>kmalloc\<close> succeeded, which is not checked by the requests; \<open>arg\<close>: the memory of the
  caller at the pointer, which is accessible.
\<close>

definition copy_in :: "nat \<Rightarrow> 8 word list \<Rightarrow> 8 word list" where
  "copy_in sz arg = take sz arg @ replicate (ALLOC_SIZE - sz) 0"

definition copy_out_if :: "bool \<Rightarrow> nat \<Rightarrow> 8 word list \<Rightarrow> 8 word list \<Rightarrow> 8 word list" where
  "copy_out_if ok sz kmem arg = (if ok then take sz kmem @ drop sz arg else arg)"

definition RW_BIOS_NV_ioctl ::
  "nat \<Rightarrow> 'f firmware \<Rightarrow> bool \<Rightarrow> 8 word list \<Rightarrow> 32 word \<Rightarrow> 8 word list \<Rightarrow> 'f \<Rightarrow> (int \<times> 8 word list \<times> 'f) cres" where
  "RW_BIOS_NV_ioctl sz F alloc palm cmd arg f =
     (if \<not> alloc then Inl NullDeref
      else if take_bit 8 (drop_bit 8 cmd) \<noteq> 0x6B then Inr (- EINVAL, arg, f)
      else if take_bit 8 cmd > 4 then Inr (- EINVAL, arg, f)
      else if cmd = RW_BIOS_NV_IOCPRINT then Inr (0, arg, f)
      else if cmd = RW_BIOS_NV_IOCGETDATA then Inr (0, copy_out_if True 8 palm arg, f)
      else if cmd = RW_BIOS_NV_IOCGETBIOSNV sz
      then let (st, kmem) = smi_get F f (copy_in sz arg)
           in Inr (0, copy_out_if (st = 1) sz kmem arg, f)
      else if cmd = RW_BIOS_NV_IOCSETBIOSNV sz
      then let (st, kmem, f') = smi_set F f (copy_in sz arg)
           in Inr (0, copy_out_if (st = 1) sz kmem arg, f')
      else Inr (- EINVAL, arg, f))"

text \<open>Reading and writing the device copies \<open>count\<close> bytes from or to an array without a check.\<close>

definition RW_BIOS_NV_write :: "8 word list \<Rightarrow> nat \<Rightarrow> 8 word list \<Rightarrow> (int \<times> 8 word list) cres" where
  "RW_BIOS_NV_write buf count buf_dev =
     (if length buf_dev < count then Inl BufOverflow
      else if length buf < count then Inl OutOfBounds
      else Inr (0, take count buf @ drop count buf_dev))"

definition RW_BIOS_NV_read :: "8 word list \<Rightarrow> nat \<Rightarrow> 8 word list \<Rightarrow> (int \<times> 8 word list) cres" where
  "RW_BIOS_NV_read buf count buf_dev =
     (if length buf_dev < count then Inl OutOfBounds
      else if length buf < count then Inl BufOverflow
      else Inr (int count, take count buf_dev @ drop count buf))"

text \<open>
  The device as the library sees it: the call returns \<^verbatim>\<open>-1\<close> for every error of the module; a
  failed allocation crashes the kernel and gives no answer.
\<close>

definition km_call :: "nat \<Rightarrow> 'f firmware \<Rightarrow> 32 word \<Rightarrow> 8 word list \<Rightarrow> 'f \<Rightarrow> int \<times> 8 word list \<times> 'f" where
  "km_call sz F cmd arg f =
     (case RW_BIOS_NV_ioctl sz F True (replicate 8 0) cmd arg f of
        Inr (ret, arg', f') \<Rightarrow> (if ret < 0 then - 1 else ret, arg', f')
      | Inl _ \<Rightarrow> (- 1, arg, f))"

definition km_device :: "nat \<Rightarrow> 'f firmware \<Rightarrow> 'f nv_device" where
  "km_device sz F =
     \<lparr>nv_open = True,
      vdi_get = (\<lambda>f r. let (ret, bs, _) = km_call sz F (RW_BIOS_NV_IOCGETBIOSNV VDI_SIZE) (bytes_GET r) f in (ret, GET_bytes bs)),
      vdi_set = (\<lambda>f r. let (ret, bs, f') = km_call sz F (RW_BIOS_NV_IOCSETBIOSNV VDI_SIZE) (bytes_GET r) f in (ret, GET_bytes bs, f')),
      idv_get = (\<lambda>f r. let (ret, bs, _) = km_call sz F (RW_BIOS_NV_IOCGETBIOSNV IDV_SIZE) (bytes_BIOS r) f in (ret, BIOS_bytes bs)),
      idv_set = (\<lambda>f r. let (ret, bs, f') = km_call sz F (RW_BIOS_NV_IOCSETBIOSNV IDV_SIZE) (bytes_BIOS r) f in (ret, BIOS_bytes bs, f'))\<rparr>"

subsection \<open>The requests of both builds\<close>

lemma get16_le16: "get16 (le16 v @ cs) 0 = v" "get16 (le16 v @ cs) (Suc (Suc i)) = get16 cs i"
proof -
  have "(push_bit 8 (ucast (ucast (drop_bit 8 v) :: 8 word)) OR ucast (ucast v :: 8 word) :: 16 word) = v"
    by (rule bit_word_eqI) (auto simp: bit_simps dest: bit_imp_le_length)
  then show "get16 (le16 v @ cs) 0 = v" "get16 (le16 v @ cs) (Suc (Suc i)) = get16 cs i" by (simp_all add: get16_def le16_def)
qed

lemma GET_bytes_inv [simp]: "GET_bytes (bytes_GET r @ cs) = r" "GET_bytes (bytes_GET r) = r"
  using get16_le16 [of _ "[]"] by (simp_all add: GET_bytes_def bytes_GET_def get16_le16 eval_nat_numeral)

lemma BIOS_bytes_inv [simp]: "BIOS_bytes (bytes_BIOS r @ cs) = r" "BIOS_bytes (bytes_BIOS r) = r"
  using get16_le16 [of _ "[]"] by (simp_all add: BIOS_bytes_def bytes_BIOS_def get16_le16 eval_nat_numeral)

lemma bytes_lengths [simp]: "length (bytes_GET r) = 6" "length (bytes_BIOS q) = 16"
  by (simp_all add: bytes_GET_def bytes_BIOS_def le16_def)

text \<open>The numbers of the two builds differ, so that neither answers the requests of the other.\<close>

lemma ioctl_numbers:
  "RW_BIOS_NV_IOCGETBIOSNV VDI_SIZE = 0x40066B03" "RW_BIOS_NV_IOCSETBIOSNV VDI_SIZE = 0x40066B04"
  "RW_BIOS_NV_IOCGETBIOSNV IDV_SIZE = 0x40106B03" "RW_BIOS_NV_IOCSETBIOSNV IDV_SIZE = 0x40106B04"
  "RW_BIOS_NV_IOCPRINT = 0x6B01" "RW_BIOS_NV_IOCGETDATA = 0x80086B02"
  by code_simp+

lemma ioctl_fields:
  fixes c :: "32 word"
  assumes "c \<in> {0x40066B03, 0x40066B04, 0x40106B03, 0x40106B04}"
  shows "take_bit 8 (drop_bit 8 c) = 0x6B \<and> \<not> 4 < take_bit 8 c"
proof -
  have "list_all (\<lambda>c. take_bit 8 (drop_bit 8 c) = (0x6B :: 32 word) \<and> \<not> (4 :: 32 word) < take_bit 8 c)
    [0x40066B03, 0x40066B04, 0x40106B03, 0x40106B04]" by code_simp
  with assms show ?thesis by auto
qed

lemma ioctl_accepted:
  assumes "sz = VDI_SIZE \<or> sz = IDV_SIZE"
  shows "RW_BIOS_NV_ioctl sz F True palm (RW_BIOS_NV_IOCGETBIOSNV sz) arg f
      = (let (st, kmem) = smi_get F f (copy_in sz arg) in Inr (0, copy_out_if (st = 1) sz kmem arg, f))"
    and "RW_BIOS_NV_ioctl sz F True palm (RW_BIOS_NV_IOCSETBIOSNV sz) arg f
      = (let (st, kmem, f') = smi_set F f (copy_in sz arg) in Inr (0, copy_out_if (st = 1) sz kmem arg, f'))"
proof -
  have n: "RW_BIOS_NV_IOCGETBIOSNV sz \<in> {0x40066B03, 0x40106B03}" "RW_BIOS_NV_IOCSETBIOSNV sz \<in> {0x40066B04, 0x40106B04}"
    using assms by (auto simp: ioctl_numbers)
  then show "RW_BIOS_NV_ioctl sz F True palm (RW_BIOS_NV_IOCGETBIOSNV sz) arg f
      = (let (st, kmem) = smi_get F f (copy_in sz arg) in Inr (0, copy_out_if (st = 1) sz kmem arg, f))"
    "RW_BIOS_NV_ioctl sz F True palm (RW_BIOS_NV_IOCSETBIOSNV sz) arg f
      = (let (st, kmem, f') = smi_set F f (copy_in sz arg) in Inr (0, copy_out_if (st = 1) sz kmem arg, f'))"
    using ioctl_fields [of "RW_BIOS_NV_IOCGETBIOSNV sz"] ioctl_fields [of "RW_BIOS_NV_IOCSETBIOSNV sz"]
    by (auto simp: RW_BIOS_NV_ioctl_def ioctl_numbers(5,6))
qed

lemma km_call_get:
  assumes "sz = VDI_SIZE \<or> sz = IDV_SIZE"
  shows "km_call sz F (RW_BIOS_NV_IOCGETBIOSNV sz) arg f
    = (let (st, kmem) = smi_get F f (copy_in sz arg) in (0, copy_out_if (st = 1) sz kmem arg, f))"
    and "km_call sz F (RW_BIOS_NV_IOCSETBIOSNV sz) arg f
    = (let (st, kmem, f') = smi_set F f (copy_in sz arg) in (0, copy_out_if (st = 1) sz kmem arg, f'))"
  by (simp_all add: km_call_def ioctl_accepted [OF assms] split_beta)

lemma km_call_other:
  "km_call VDI_SIZE F (RW_BIOS_NV_IOCGETBIOSNV IDV_SIZE) arg f = (- 1, arg, f)"
  "km_call VDI_SIZE F (RW_BIOS_NV_IOCSETBIOSNV IDV_SIZE) arg f = (- 1, arg, f)"
  "km_call IDV_SIZE F (RW_BIOS_NV_IOCGETBIOSNV VDI_SIZE) arg f = (- 1, arg, f)"
  "km_call IDV_SIZE F (RW_BIOS_NV_IOCSETBIOSNV VDI_SIZE) arg f = (- 1, arg, f)"
  using ioctl_fields [of "0x40066B03"] ioctl_fields [of "0x40066B04"] ioctl_fields [of "0x40106B03"] ioctl_fields [of "0x40106B04"]
  by (auto simp: km_call_def RW_BIOS_NV_ioctl_def ioctl_numbers EINVAL_def)

subsection \<open>The power state through the module\<close>

text \<open>What is assumed of the firmware, on the bytes in kernel memory.\<close>

definition vdi_firmware_ok :: "'f firmware \<Rightarrow> ('f \<Rightarrow> 16 word) \<Rightarrow> bool" where
  "vdi_firmware_ok F val \<longleftrightarrow>
     (\<forall>f r. var_name r = 0 \<longrightarrow> (\<exists>rest. smi_get F f (copy_in VDI_SIZE (bytes_GET r))
        = (1, bytes_GET (r\<lparr>var_value := val f, RetStatus := 1\<rparr>) @ rest)))
     \<and> (\<forall>f r. var_name r = 0 \<longrightarrow> (\<exists>kmem f'. smi_set F f (copy_in VDI_SIZE (bytes_GET r)) = (1, kmem, f') \<and> val f' = var_value r))"

definition idv_firmware_ok :: "'f firmware \<Rightarrow> ('f \<Rightarrow> BIOS_VAR_STRUCTURE) \<Rightarrow> bool" where
  "idv_firmware_ok F vars \<longleftrightarrow>
     (\<forall>f r. bios_name r = 0 \<longrightarrow> (\<exists>rest. smi_get F f (copy_in IDV_SIZE (bytes_BIOS r))
        = (1, bytes_BIOS ((vars f)\<lparr>bios_name := 0, bios_status := 1\<rparr>) @ rest)))
     \<and> (\<forall>f r. bios_name r = 0 \<longrightarrow> (\<exists>kmem f'. smi_set F f (copy_in IDV_SIZE (bytes_BIOS r)) = (1, kmem, f') \<and> vars f' = r))"

lemma vdi_module_ok:
  assumes "vdi_firmware_ok F val"
  shows "vdi_device_ok (km_device VDI_SIZE F) val"
  unfolding vdi_device_ok_def
proof (intro conjI allI impI)
  fix f and r :: GET_VAR_STRUCTURE assume r: "var_name r = 0"
  note km = km_call_get [of VDI_SIZE F "bytes_GET r" f]
  from assms r obtain rest where "smi_get F f (copy_in VDI_SIZE (bytes_GET r))
      = (1, bytes_GET (r\<lparr>var_value := val f, RetStatus := 1\<rparr>) @ rest)" unfolding vdi_firmware_ok_def by blast
  then show "vdi_get (km_device VDI_SIZE F) f r = (0, r\<lparr>var_value := val f, RetStatus := 1\<rparr>)"
    using km(1) by (simp add: km_device_def copy_out_if_def VDI_SIZE_def)
  from assms r obtain kmem f' where "smi_set F f (copy_in VDI_SIZE (bytes_GET r)) = (1, kmem, f')" "val f' = var_value r"
    unfolding vdi_firmware_ok_def by blast
  then show "\<exists>r' f'. vdi_set (km_device VDI_SIZE F) f r = (0, r', f') \<and> val f' = var_value r"
    using km(2) by (simp add: km_device_def)
qed (simp add: km_device_def)

lemma idv_module_ok:
  assumes "idv_firmware_ok F vars"
  shows "idv_device_ok (km_device IDV_SIZE F) vars"
  unfolding idv_device_ok_def
proof (intro conjI allI impI)
  fix f and r :: BIOS_VAR_STRUCTURE assume r: "bios_name r = 0"
  note km = km_call_get [of IDV_SIZE F "bytes_BIOS r" f]
  from assms r obtain rest where "smi_get F f (copy_in IDV_SIZE (bytes_BIOS r))
      = (1, bytes_BIOS ((vars f)\<lparr>bios_name := 0, bios_status := 1\<rparr>) @ rest)" unfolding idv_firmware_ok_def by blast
  then show "idv_get (km_device IDV_SIZE F) f r = (0, (vars f)\<lparr>bios_name := 0, bios_status := 1\<rparr>)"
    using km(1) by (simp add: km_device_def copy_out_if_def IDV_SIZE_def)
  from assms r obtain kmem f' where "smi_set F f (copy_in IDV_SIZE (bytes_BIOS r)) = (1, kmem, f')" "vars f' = r"
    unfolding idv_firmware_ok_def by blast
  then show "\<exists>r' f'. idv_set (km_device IDV_SIZE F) f r = (0, r', f') \<and> vars f' = r"
    using km(2) by (simp add: km_device_def)
qed (simp add: km_device_def)

text \<open>
  C27. On a terminal with the build of the module for its type, the power state that was
  set is the one that is returned, through library, kernel module and
  firmware; on an IDV terminal the times at which it wakes up stay as they were.
  The firmware is assumed to keep its variables.
\<close>

theorem power_state_module:
  assumes "g_isinit s"
    and "c_str (platform_type (sysInfo s)) = ''VDI'' \<and> sz = VDI_SIZE \<and> vdi_firmware_ok F val
      \<or> c_str (platform_type (sysInfo s)) = ''IDV'' \<and> sz = IDV_SIZE \<and> idv_firmware_ok F vars"
  shows "\<exists>s1 s2. setPowerState (km_device sz F) sh j1 j2 k s = Inr (0, s1)
    \<and> getPowerState (km_device sz F) sh' j3 s1 = Inr (if k \<noteq> 0 then 1 else 0, s2)
    \<and> (c_str (platform_type (sysInfo s)) = ''IDV'' \<longrightarrow>
        (let v = vars (nv s); v1 = vars (nv s1)
         in RtcWake v1 = RtcWake v \<and> var_hour v1 = var_hour v \<and> var_minute v1 = var_minute v
          \<and> var_second v1 = var_second v \<and> MinIncrease v1 = MinIncrease v))"
proof -
  have "c_str (platform_type (sysInfo s)) = ''VDI'' \<and> vdi_device_ok (km_device sz F) val
      \<or> c_str (platform_type (sysInfo s)) = ''IDV'' \<and> idv_device_ok (km_device sz F) vars"
    using assms(2) vdi_module_ok idv_module_ok by blast
  from power_state_kept [OF assms(1) this] show ?thesis .
qed

definition ex_firmware :: "BIOS_VAR_STRUCTURE firmware" where
  "ex_firmware = \<lparr>smi_get = (\<lambda>f kmem. (1, bytes_BIOS (f\<lparr>bios_name := 0, bios_status := 1\<rparr>) @ drop 16 kmem)),
     smi_set = (\<lambda>f kmem. (1, kmem, BIOS_bytes kmem))\<rparr>"

lemma ex_firmware_ok: "idv_firmware_ok ex_firmware id"
  by (auto simp: idv_firmware_ok_def ex_firmware_def copy_in_def IDV_SIZE_def)

definition ex_vars :: BIOS_VAR_STRUCTURE where
  "ex_vars = \<lparr>bios_name = 0, bios_value = 0, RtcWake = 1, var_hour = 7, var_minute = 30, var_second = 0, MinIncrease = 2, bios_status = 1\<rparr>"

definition ex_idv :: "BIOS_VAR_STRUCTURE system" where
  "ex_idv = (ex_system ex_vars)\<lparr>sysInfo := zero_info\<lparr>platform_type := ''IDV'' @ replicate 61 NUL\<rparr>\<rparr>"

lemma ex_idv_facts:
  "g_isinit ex_idv" "nv ex_idv = ex_vars" "c_str (platform_type (sysInfo ex_idv)) = ''IDV''"
proof -
  have "c_str (''IDV'' @ replicate 61 NUL) = ''IDV''" by code_simp
  then show "g_isinit ex_idv" "nv ex_idv = ex_vars" "c_str (platform_type (sysInfo ex_idv)) = ''IDV''"
    by (simp_all add: ex_idv_def ex_system_def machine.defs ex_machine_def)
qed

theorem power_state_module_witness:
  "\<exists>s1 s2. setPowerState (km_device IDV_SIZE ex_firmware) (\<lambda>_ _ fs. Some ([], 0, fs)) 9 ex_vars 1 ex_idv = Inr (0, s1)
    \<and> getPowerState (km_device IDV_SIZE ex_firmware) (\<lambda>_ _ fs. None) ex_vars s1 = Inr (1, s2) \<and> var_hour (nv s1) = 7"
  using power_state_module [of ex_idv IDV_SIZE ex_firmware "\<lambda>_. 0" id "\<lambda>_ _ fs. Some ([], 0, fs)" 9 ex_vars 1 "\<lambda>_ _ fs. None" ex_vars]
    ex_idv_facts ex_firmware_ok
  by (auto simp: Let_def ex_vars_def)

text \<open>
  With the build of the module for the other type of terminal the power state is
  never changed although success is reported, and it reads as off.
\<close>

theorem power_state_other_build:
  assumes "g_isinit s"
    and "c_str (platform_type (sysInfo s)) = ''VDI'' \<and> sz = IDV_SIZE \<or> c_str (platform_type (sysInfo s)) = ''IDV'' \<and> sz = VDI_SIZE"
  shows "(\<exists>s1. setPowerState (km_device sz F) sh j1 j2 k s = Inr (0, s1) \<and> nv s1 = nv s)
    \<and> (\<exists>s2. getPowerState (km_device sz F) sh j3 s = Inr (0, s2))"
proof -
  obtain fs rs where "load_module sh s = Inr (s\<lparr>files := fs, runs := rs\<rparr>)" using load_module_total by blast
  with assms terminal_type_known [OF assms(1), of "''VDI''"] terminal_type_known [OF assms(1), of "''IDV''"] show ?thesis
    by (auto simp: setPowerState_def getPowerState_def init_int_def SUCCESS_0_def km_device_def km_call_other
        vdi_bios_nv_write_user_def vdi_bios_nv_read_user_def idv_bios_nv_write_user_def idv_bios_nv_read_user_def)
qed

theorem power_state_other_build_witness:
  "(\<exists>s1. setPowerState (km_device VDI_SIZE ex_firmware) (\<lambda>_ _ fs. None) 9 ex_vars 1 ex_idv = Inr (0, s1) \<and> nv s1 = ex_vars)
    \<and> (\<exists>s2. getPowerState (km_device VDI_SIZE ex_firmware) (\<lambda>_ _ fs. None) ex_vars ex_idv = Inr (0, s2))"
  using power_state_other_build [of ex_idv VDI_SIZE ex_firmware "\<lambda>_ _ fs. None" 9 ex_vars 1 ex_vars] ex_idv_facts by simp

lemma ucast_16_0: "(ucast (v :: 16 word) :: 32 word) = 0 \<longleftrightarrow> v = 0"
proof
  assume "(ucast v :: 32 word) = 0"
  then have "bit (ucast v :: 32 word) n = False" for n by simp
  then show "v = 0" by (intro bit_word_eqI) (auto simp: bit_ucast_iff)
qed simp

text \<open>
  When the firmware rejects a read on an IDV terminal, the module reports success
  without an answer and the library returns what happened to be in the memory of
  its request, which it never initialised.
\<close>

theorem power_state_garbage:
  assumes "g_isinit s" "c_str (platform_type (sysInfo s)) = ''IDV''"
    and "fst (smi_get F (nv s) (copy_in IDV_SIZE (bytes_BIOS (junk\<lparr>bios_name := 0\<rparr>)))) \<noteq> 1"
  shows "\<exists>s1. getPowerState (km_device IDV_SIZE F) sh junk s
    = Inr (if bios_status junk = 1 \<and> bios_value junk \<noteq> 0 then 1 else 0, s1)"
proof -
  obtain fs rs where "load_module sh s = Inr (s\<lparr>files := fs, runs := rs\<rparr>)" using load_module_total by blast
  moreover have "km_call IDV_SIZE F (RW_BIOS_NV_IOCGETBIOSNV IDV_SIZE) (bytes_BIOS (junk\<lparr>bios_name := 0\<rparr>)) (nv s)
      = (0, bytes_BIOS (junk\<lparr>bios_name := 0\<rparr>), nv s)"
    using assms(3) km_call_get(1) [of IDV_SIZE F "bytes_BIOS (junk\<lparr>bios_name := 0\<rparr>)" "nv s"]
    by (auto simp: copy_out_if_def split_beta)
  ultimately show ?thesis using assms(1) terminal_type_known [OF assms(1,2)]
    by (auto simp: getPowerState_def init_int_def km_device_def idv_bios_nv_read_user_def ucast_16_0)
qed

theorem power_state_garbage_witness:
  "\<exists>s1. getPowerState (km_device IDV_SIZE (ex_firmware\<lparr>smi_get := \<lambda>f kmem. (0x82, kmem)\<rparr>)) (\<lambda>_ _ fs. None) (ex_vars\<lparr>bios_value := 5\<rparr>) ex_idv
    = Inr (1, s1)"
  using power_state_garbage [of ex_idv "ex_firmware\<lparr>smi_get := \<lambda>f kmem. (0x82, kmem)\<rparr>" "ex_vars\<lparr>bios_value := 5\<rparr>" "\<lambda>_ _ fs. None"]
    ex_idv_facts by (simp add: ex_vars_def)

end
