(* ===== verification/CuBase.thy ===== *)
theory CuBase
  imports CPrelude
begin

text \<open>
  Shared vocabulary of the theories on \<^verbatim>\<open>utils/coreutils\<close>: how one of its functions can
  stop the program, and the memory functions of \<^verbatim>\<open>lib/xmalloc.c\<close> and
  \<^verbatim>\<open>lib/xalloc.h\<close>. A pointer whose value matters is a 64-bit word, with 0 for NULL.
\<close>

datatype cu_stop =
    Crash c_fault
  | Abort
  | Exit int

type_synonym 'a cu = "cu_stop + 'a"
type_synonym ptr = "64 word"

definition SIZE_MAX :: nat where
  "SIZE_MAX = 2 ^ 64 - 1"

definition EXIT_FAILURE :: int where
  "EXIT_FAILURE = 1"

definition lift_cu :: "'a cres \<Rightarrow> 'a cu" where
  "lift_cu r = (case r of Inl e \<Rightarrow> Inl (Crash e) | Inr x \<Rightarrow> Inr x)"

lemma lift_cu_simps [simp]: "lift_cu (Inl e) = Inl (Crash e)" "lift_cu (Inr x) = Inr x"
  by (simp_all add: lift_cu_def)

subsection \<open>Allocation\<close>

definition xalloc_die :: "'a cu" where
  "xalloc_die = Inl (Exit EXIT_FAILURE)"

definition xalloc_oversized :: "nat \<Rightarrow> nat \<Rightarrow> bool" where
  "xalloc_oversized n s \<longleftrightarrow> SIZE_MAX div s < n"

text \<open>\<^verbatim>\<open>xmalloc\<close>: an allocation that fails ends the program unless nothing was requested.\<close>

definition xmalloc :: "nat \<Rightarrow> mem \<Rightarrow> mem cu" where
  "xmalloc n m = (let (ok, m') = malloc m in if \<not> ok \<and> n \<noteq> 0 then xalloc_die else Inr m')"

lemma xmalloc_no_fail [mem_simps]: "no_fail m \<Longrightarrow> xmalloc n m = Inr (tl m)"
  by (simp add: xmalloc_def mem_simps)

definition xnmalloc :: "nat \<Rightarrow> nat \<Rightarrow> mem \<Rightarrow> mem cu" where
  "xnmalloc n s m = (if xalloc_oversized n s then xalloc_die else xmalloc (n * s) m)"

text \<open>\<^verbatim>\<open>x2nrealloc\<close>: the new number of elements for an array of \<open>n\<close> elements of \<open>s\<close> bytes.\<close>

definition x2nrealloc :: "bool \<Rightarrow> nat \<Rightarrow> nat \<Rightarrow> mem \<Rightarrow> (nat \<times> mem) cu" where
  "x2nrealloc null n s m =
     (if null
      then let n' = (if n = 0 then (if 64 div s = 0 then 1 else 64 div s) else n)
           in cbind (xmalloc ((n' * s) mod 2 ^ 64) m) (\<lambda>m'. Inr (n', m'))
      else if SIZE_MAX div 3 * 2 div s \<le> n then xalloc_die
      else let n' = n + (n + 1) div 2
           in cbind (xmalloc (n' * s) m) (\<lambda>m'. Inr (n', m')))"

text \<open>Growing an array makes it larger and its size in bytes does not wrap around.\<close>

lemma x2nrealloc_grows:
  assumes "x2nrealloc False n s m = Inr (n', m')" "0 < n" "0 < s"
  shows "n < n'" "n' * s \<le> SIZE_MAX"
proof -
  have c: "n < SIZE_MAX div 3 * 2 div s" and n': "n' = n + (n + 1) div 2"
    using assms(1) by (auto simp: x2nrealloc_def xalloc_die_def Let_def cbind_Inr_iff split: if_splits)
  show "n < n'" using n' assms(2) by simp
  have "Suc n \<le> SIZE_MAX div 3 * 2 div s" using c by simp
  then have "Suc n * s \<le> SIZE_MAX div 3 * 2" using assms(3) by (simp add: less_eq_div_iff_mult_less_eq)
  moreover have "2 * (n' * s) \<le> 3 * (Suc n * s)"
  proof -
    have "2 * n' \<le> 3 * Suc n" using n' by presburger
    then have "(2 * n') * s \<le> (3 * Suc n) * s" by (rule mult_le_mono1)
    then show ?thesis by (simp only: mult.assoc)
  qed
  ultimately show "n' * s \<le> SIZE_MAX" by (simp add: SIZE_MAX_def)
qed

end
