(* ===== verification/CuHash.thy ===== *)
theory CuHash
  imports CuBase RjMath "HOL-Library.Multiset"
begin

text \<open>
  \<^verbatim>\<open>utils/coreutils/lib/hash.c\<close>: the hash table of pointers with overflow chains. A bucket is
  its head pointer (NULL when the bucket is not in use) with the pointers of its overflow entries; the
  list of freed entries is known by its length. The functions for hashing and comparing are given by
  the user of the table and may fault. The counters are 64-bit words.
\<close>

subsection \<open>The table\<close>

record Hash_tuning =
  shrink_threshold :: double
  shrink_factor :: double
  growth_threshold :: double
  growth_factor :: double
  is_n_buckets :: bool

type_synonym hash_entry = "ptr \<times> ptr list"

record hash_table =
  bucket :: "hash_entry list"
  n_buckets_used :: "64 word"
  n_entries :: "64 word"
  tuning :: "Hash_tuning option"
  data_freer :: bool
  free_entry_list :: nat

record hash_functions =
  hasher :: "ptr \<Rightarrow> nat \<Rightarrow> nat cu"
  comparator :: "ptr \<Rightarrow> ptr \<Rightarrow> bool cu"

text \<open>The tuning is a pointer, \<open>None\<close> for the address of the default. \<^verbatim>\<open>0.8\<close> and \<^verbatim>\<open>1.414\<close> are stored as \<^verbatim>\<open>float\<close>.\<close>

definition default_tuning :: Hash_tuning where
  "default_tuning = \<lparr>shrink_threshold = Fin 0, shrink_factor = Fin 1,
     growth_threshold = Fin (13421773 / 2 ^ 24), growth_factor = Fin (11861492 / 2 ^ 23), is_n_buckets = False\<rparr>"

definition hash_reset_tuning :: "Hash_tuning \<Rightarrow> Hash_tuning" where
  "hash_reset_tuning u = default_tuning"

definition tuning_of :: "hash_table \<Rightarrow> Hash_tuning" where
  "tuning_of t = (case tuning t of None \<Rightarrow> default_tuning | Some u \<Rightarrow> u)"

definition n_buckets :: "hash_table \<Rightarrow> nat" where
  "n_buckets t = length (bucket t)"

subsection \<open>Information\<close>

text \<open>The loops over a chain start at the head and run only when the head is not NULL.\<close>

definition chain :: "hash_entry \<Rightarrow> ptr list" where
  "chain b = (if fst b \<noteq> 0 then fst b # snd b else [])"

definition hash_get_n_buckets :: "hash_table \<Rightarrow> nat" where "hash_get_n_buckets t = n_buckets t"
definition hash_get_n_buckets_used :: "hash_table \<Rightarrow> 64 word" where "hash_get_n_buckets_used t = n_buckets_used t"
definition hash_get_n_entries :: "hash_table \<Rightarrow> 64 word" where "hash_get_n_entries t = n_entries t"

definition hash_get_max_bucket_length :: "hash_table \<Rightarrow> nat" where
  "hash_get_max_bucket_length t = fold (\<lambda>b m. if m < length (chain b) then length (chain b) else m) (bucket t) 0"

definition used_count :: "hash_table \<Rightarrow> nat" where
  "used_count t = length (filter (\<lambda>b. fst b \<noteq> 0) (bucket t))"

definition entry_count :: "hash_table \<Rightarrow> nat" where
  "entry_count t = sum_list (map (\<lambda>b. length (chain b)) (bucket t))"

definition hash_table_ok :: "hash_table \<Rightarrow> bool" where
  "hash_table_ok t \<longleftrightarrow> of_nat (used_count t) = n_buckets_used t \<and> of_nat (entry_count t) = n_entries t"

text \<open>\<^verbatim>\<open>entry == data || comparator(entry, data)\<close>\<close>

definition same_entry :: "hash_functions \<Rightarrow> ptr \<Rightarrow> ptr \<Rightarrow> bool cu" where
  "same_entry F entry d = (if entry = d then Inr True else comparator F entry d)"

fun find_in :: "hash_functions \<Rightarrow> ptr \<Rightarrow> ptr list \<Rightarrow> nat \<Rightarrow> nat option cu" where
  "find_in F entry [] i = Inr None"
| "find_in F entry (d # ds) i =
     cbind (same_entry F entry d) (\<lambda>b. if b then Inr (Some i) else find_in F entry ds (Suc i))"

text \<open>The index of the bucket of an entry; an index outside the array aborts the program.\<close>

definition bucket_of :: "hash_functions \<Rightarrow> hash_table \<Rightarrow> ptr \<Rightarrow> nat cu" where
  "bucket_of F t entry =
     cbind (hasher F entry (n_buckets t)) (\<lambda>i. if i < n_buckets t then Inr i else Inl Abort)"

definition hash_lookup :: "hash_functions \<Rightarrow> hash_table \<Rightarrow> ptr \<Rightarrow> ptr cu" where
  "hash_lookup F t entry =
     cbind (bucket_of F t entry) (\<lambda>i.
       let ds = chain (bucket t ! i)
       in cbind (find_in F entry ds 0) (\<lambda>k. Inr (case k of None \<Rightarrow> 0 | Some j \<Rightarrow> ds ! j)))"

subsection \<open>Walking\<close>

fun first_used :: "hash_entry list \<Rightarrow> ptr option" where
  "first_used [] = None"
| "first_used (b # bs) = (if fst b \<noteq> 0 then Some (fst b) else first_used bs)"

definition hash_get_first :: "hash_table \<Rightarrow> ptr cu" where
  "hash_get_first t =
     (if n_entries t = 0 then Inr 0
      else case first_used (bucket t) of None \<Rightarrow> Inl Abort | Some d \<Rightarrow> Inr d)"

text \<open>The first entry that is the given pointer and has a successor in its chain.\<close>

fun next_in :: "ptr \<Rightarrow> ptr list \<Rightarrow> ptr option" where
  "next_in entry (d # e # ds) = (if d = entry then Some e else next_in entry (e # ds))"
| "next_in entry _ = None"

definition hash_get_next :: "hash_functions \<Rightarrow> hash_table \<Rightarrow> ptr \<Rightarrow> ptr cu" where
  "hash_get_next F t entry =
     cbind (bucket_of F t entry) (\<lambda>i. Inr
       (case next_in entry (fst (bucket t ! i) # snd (bucket t ! i)) of
          Some d \<Rightarrow> d
        | None \<Rightarrow> (case first_used (drop (Suc i) (bucket t)) of None \<Rightarrow> 0 | Some d \<Rightarrow> d)))"

definition contents :: "hash_table \<Rightarrow> ptr list" where
  "contents t = concat (map chain (bucket t))"

definition hash_get_entries :: "hash_table \<Rightarrow> nat \<Rightarrow> ptr list" where
  "hash_get_entries t buffer_size = take buffer_size (contents t)"

fun each_loop :: "('s \<Rightarrow> ptr \<Rightarrow> bool \<times> 's) \<Rightarrow> ptr list \<Rightarrow> 's \<Rightarrow> nat \<Rightarrow> nat \<times> 's" where
  "each_loop processor [] s counter = (counter, s)"
| "each_loop processor (d # ds) s counter =
     (let (go_on, s') = processor s d
      in if go_on then each_loop processor ds s' (Suc counter) else (counter, s'))"

definition hash_do_for_each :: "hash_table \<Rightarrow> ('s \<Rightarrow> ptr \<Rightarrow> bool \<times> 's) \<Rightarrow> 's \<Rightarrow> nat \<times> 's" where
  "hash_do_for_each t processor s = each_loop processor (contents t) s 0"

subsection \<open>Sizes\<close>

definition hash_string :: "string \<Rightarrow> nat \<Rightarrow> nat" where
  "hash_string s n = fold (\<lambda>c v. ((v * 31 + of_char c) mod 2 ^ 64) mod n) s 0"

text \<open>
  \<^verbatim>\<open>is_prime\<close>: \<open>square\<close> is the square of \<open>divisor\<close>. The sums do not wrap around for candidates
  below \<open>(2 ^ 32 - 1)\<^sup>2\<close>, which no table reaches.
\<close>

function prime_loop :: "nat \<Rightarrow> nat \<Rightarrow> nat \<Rightarrow> nat" where
  "prime_loop candidate divisor square =
     (if square < candidate \<and> candidate mod divisor \<noteq> 0
      then prime_loop candidate (divisor + 2) (square + 4 * (divisor + 1)) else divisor)"
  by pat_completeness auto
termination
  by (relation "measure (\<lambda>(c, d, q). c - q)") auto

declare prime_loop.simps [simp del]

definition is_prime :: "nat \<Rightarrow> bool" where
  "is_prime candidate \<longleftrightarrow> candidate mod prime_loop candidate 3 9 \<noteq> 0"

function next_prime_loop :: "nat \<Rightarrow> nat" where
  "next_prime_loop candidate =
     (if candidate < SIZE_MAX \<and> \<not> is_prime candidate then next_prime_loop (candidate + 2) else candidate)"
  by pat_completeness auto
termination
  by (relation "measure (\<lambda>c. SIZE_MAX - c)") auto

declare next_prime_loop.simps [simp del]

definition next_prime :: "nat \<Rightarrow> nat" where
  "next_prime candidate = (let c = (if candidate < 10 then 10 else candidate) in next_prime_loop (if even c then c + 1 else c))"

text \<open>The conversion of a \<^verbatim>\<open>float\<close> to \<^verbatim>\<open>size_t\<close>; the callers exclude values outside the range.\<close>

fun d_to_size :: "double \<Rightarrow> nat" where
  "d_to_size (Fin x) = nat (rat_trunc x) mod 2 ^ 64"
| "d_to_size _ = 0"

definition f_of_nat :: "nat \<Rightarrow> double" where
  "f_of_nat n = rnd_f (of_nat n)"

definition compute_bucket_size :: "nat \<Rightarrow> Hash_tuning \<Rightarrow> nat" where
  "compute_bucket_size candidate u =
     (let fc = f_div (f_of_nat candidate) (growth_threshold u)
      in if \<not> is_n_buckets u \<and> d_le (f_of_nat SIZE_MAX) fc then 0
         else let c = next_prime (if is_n_buckets u then candidate else d_to_size fc)
              in if xalloc_oversized c 8 then 0 else c)"

text \<open>\<^verbatim>\<open>epsilon\<close> is \<^verbatim>\<open>0.1f\<close>.\<close>

definition tuning_ok :: "Hash_tuning \<Rightarrow> bool" where
  "tuning_ok u \<longleftrightarrow>
     (let epsilon = Fin (13421773 / 2 ^ 27)
      in d_less epsilon (growth_threshold u)
       \<and> d_less (growth_threshold u) (f_add (Fin 1) (d_neg epsilon))
       \<and> d_less (f_add (Fin 1) epsilon) (growth_factor u)
       \<and> d_le (Fin 0) (shrink_threshold u)
       \<and> d_less (f_add (shrink_threshold u) epsilon) (shrink_factor u)
       \<and> d_le (shrink_factor u) (Fin 1)
       \<and> d_less (f_add (shrink_threshold u) epsilon) (growth_threshold u))"

definition check_tuning :: "hash_table \<Rightarrow> bool \<times> hash_table" where
  "check_tuning t =
     (case tuning t of
        None \<Rightarrow> (True, t)
      | Some u \<Rightarrow> if tuning_ok u then (True, t) else (False, t\<lparr>tuning := None\<rparr>))"

subsection \<open>Allocation and clean-up\<close>

text \<open>\<open>ok\<close> and \<open>m\<close>: the outcome of the allocations. \<^verbatim>\<open>hash_initialize\<close> returns NULL as \<open>None\<close>.\<close>

definition hash_initialize :: "nat \<Rightarrow> Hash_tuning option \<Rightarrow> bool \<Rightarrow> mem \<Rightarrow> hash_table option \<times> mem" where
  "hash_initialize candidate tun freer m =
     (let (ok1, m1) = malloc m;
          t = \<lparr>bucket = [], n_buckets_used = 0, n_entries = 0, tuning = tun, data_freer = freer, free_entry_list = 0\<rparr>
      in if \<not> ok1 then (None, m1)
         else if \<not> fst (check_tuning t) then (None, m1)
         else let n = compute_bucket_size candidate (tuning_of t)
              in if n = 0 then (None, m1)
                 else let (ok2, m2) = malloc m1
                      in if \<not> ok2 then (None, m2) else (Some (t\<lparr>bucket := replicate n (0, [])\<rparr>), m2))"

text \<open>The pointers that are given to the user's function, in the order of the calls, and the cleared table.\<close>

definition hash_clear :: "hash_table \<Rightarrow> ptr list \<times> hash_table" where
  "hash_clear t =
     ((if data_freer t then concat (map (\<lambda>b. if fst b \<noteq> 0 then snd b @ [fst b] else []) (bucket t)) else []),
      t\<lparr>bucket := map (\<lambda>b. if fst b \<noteq> 0 then (0, []) else b) (bucket t),
        free_entry_list := free_entry_list t + sum_list (map (\<lambda>b. if fst b \<noteq> 0 then length (snd b) else 0) (bucket t)),
        n_buckets_used := 0, n_entries := 0\<rparr>)"

definition hash_free :: "hash_table \<Rightarrow> ptr list" where
  "hash_free t = (if data_freer t \<and> n_entries t \<noteq> 0 then contents t else [])"

subsection \<open>Insertion and deletion\<close>

definition allocate_entry :: "hash_table \<Rightarrow> mem \<Rightarrow> bool \<times> hash_table \<times> mem" where
  "allocate_entry t m =
     (if free_entry_list t \<noteq> 0 then (True, t\<lparr>free_entry_list := free_entry_list t - 1\<rparr>, m)
      else let (ok, m') = malloc m in (ok, t, m'))"

definition set_bucket :: "nat \<Rightarrow> hash_entry \<Rightarrow> hash_table \<Rightarrow> hash_table" where
  "set_bucket i b t = t\<lparr>bucket := (bucket t)[i := b]\<rparr>"

text \<open>\<^verbatim>\<open>free_entry\<close>: the entry goes to the list of freed entries.\<close>

definition free_entry :: "hash_table \<Rightarrow> hash_table" where
  "free_entry t = t\<lparr>free_entry_list := Suc (free_entry_list t)\<rparr>"

text \<open>
  \<^verbatim>\<open>hash_find_entry\<close> compares with the head of the bucket even when it is NULL: its test is on
  \<^verbatim>\<open>bucket_head\<close>, the address of a variable of the caller.
\<close>

definition hash_find_entry :: "hash_functions \<Rightarrow> hash_table \<Rightarrow> ptr \<Rightarrow> bool \<Rightarrow> (ptr \<times> nat \<times> hash_table) cu" where
  "hash_find_entry F t entry del =
     cbind (bucket_of F t entry) (\<lambda>i.
       let (d, ds) = bucket t ! i
       in cbind (same_entry F entry d) (\<lambda>b.
            if b
            then Inr (d, i, if \<not> del then t
                            else case ds of [] \<Rightarrow> set_bucket i (0, []) t
                                 | e # es \<Rightarrow> free_entry (set_bucket i (e, es) t))
            else cbind (find_in F entry ds 0) (\<lambda>k. Inr (case k of
                   None \<Rightarrow> (0, i, t)
                 | Some j \<Rightarrow> (ds ! j, i, if \<not> del then t
                                          else free_entry (set_bucket i (d, take j ds @ drop (Suc j) ds) t))))))"

text \<open>\<^verbatim>\<open>transfer_entries\<close>: first the overflow entries of a bucket, then its head.\<close>

fun move_overflow :: "hash_functions \<Rightarrow> ptr list \<Rightarrow> hash_table \<Rightarrow> hash_table cu" where
  "move_overflow F [] dst = Inr dst"
| "move_overflow F (x # xs) dst =
     cbind (bucket_of F dst x) (\<lambda>i.
       let (d, ds) = bucket dst ! i
       in move_overflow F xs
            (if d \<noteq> 0 then set_bucket i (d, x # ds) dst
             else free_entry (set_bucket i (x, ds) (dst\<lparr>n_buckets_used := n_buckets_used dst + 1\<rparr>))))"

definition move_head :: "hash_functions \<Rightarrow> ptr \<Rightarrow> hash_table \<Rightarrow> mem \<Rightarrow> (bool \<times> hash_table \<times> mem) cu" where
  "move_head F x dst m =
     cbind (bucket_of F dst x) (\<lambda>i.
       let (d, ds) = bucket dst ! i
       in if d \<noteq> 0
          then let (ok, dst1, m1) = allocate_entry dst m
               in Inr (ok, if ok then set_bucket i (d, x # ds) dst1 else dst1, m1)
          else Inr (True, set_bucket i (x, ds) (dst\<lparr>n_buckets_used := n_buckets_used dst + 1\<rparr>), m))"

fun transfer_loop ::
  "hash_functions \<Rightarrow> bool \<Rightarrow> nat \<Rightarrow> nat \<Rightarrow> hash_table \<Rightarrow> hash_table \<Rightarrow> mem \<Rightarrow> (bool \<times> hash_table \<times> hash_table \<times> mem) cu" where
  "transfer_loop F safe 0 i dst src m = Inr (True, dst, src, m)"
| "transfer_loop F safe (Suc k) i dst src m =
     (let (d, ds) = bucket src ! i
      in cbind (move_overflow F ds dst) (\<lambda>dst1.
           let src1 = set_bucket i (d, []) src
           in if safe then transfer_loop F safe k (Suc i) dst1 src1 m
              else cbind (move_head F d dst1 m) (\<lambda>(ok, dst2, m2).
                if \<not> ok then Inr (False, dst2, src1, m2)
                else transfer_loop F safe k (Suc i) dst2
                       (set_bucket i (0, []) (src1\<lparr>n_buckets_used := n_buckets_used src1 - 1\<rparr>)) m2)))"

definition transfer_entries ::
  "hash_functions \<Rightarrow> hash_table \<Rightarrow> hash_table \<Rightarrow> bool \<Rightarrow> mem \<Rightarrow> (bool \<times> hash_table \<times> hash_table \<times> mem) cu" where
  "transfer_entries F dst src safe m = transfer_loop F safe (n_buckets src) 0 dst src m"

text \<open>\<^verbatim>\<open>if(!new_size == table->n_buckets)\<close> compares the negated size with the number of buckets.\<close>

definition hash_rehash :: "hash_functions \<Rightarrow> hash_table \<Rightarrow> nat \<Rightarrow> mem \<Rightarrow> (bool \<times> hash_table \<times> mem) cu" where
  "hash_rehash F t candidate m =
     (let new_size = compute_bucket_size candidate (tuning_of t)
      in if new_size = 0 then Inr (False, t, m)
         else if (if new_size = 0 then 1 else 0) = n_buckets t then Inr (True, t, m)
         else let (ok, m1) = malloc m
              in if \<not> ok then Inr (False, t, m1)
                 else let new_table = t\<lparr>bucket := replicate new_size (0, []), n_buckets_used := 0, n_entries := 0\<rparr>
                      in cbind (transfer_entries F new_table t False m1) (\<lambda>(ok2, new1, t1, m2).
                           if ok2
                           then Inr (True, t1\<lparr>bucket := bucket new1, n_buckets_used := n_buckets_used new1,
                                  free_entry_list := free_entry_list new1\<rparr>, m2)
                           else cbind (transfer_entries F (t1\<lparr>free_entry_list := free_entry_list new1\<rparr>) new1 True m2)
                                  (\<lambda>(ok3, t2, new2, m3).
                                cbind (if ok3 then transfer_entries F t2 new2 False m3 else Inr (False, t2, new2, m3))
                                  (\<lambda>(ok4, t3, _, m4). if ok4 then Inr (False, t3, m4) else Inl Abort))))"

definition over_threshold :: "hash_table \<Rightarrow> bool" where
  "over_threshold t \<longleftrightarrow>
     d_less (f_mul (growth_threshold (tuning_of t)) (f_of_nat (n_buckets t))) (f_of_nat (unat (n_buckets_used t)))"

definition grow_candidate :: "hash_table \<Rightarrow> double" where
  "grow_candidate t =
     (let u = tuning_of t; c = f_mul (f_of_nat (n_buckets t)) (growth_factor u)
      in if is_n_buckets u then c else f_mul c (growth_threshold u))"

definition put_entry :: "hash_table \<Rightarrow> ptr \<Rightarrow> nat \<Rightarrow> mem \<Rightarrow> ptr \<times> hash_table \<times> mem" where
  "put_entry t entry i m =
     (let (d, ds) = bucket t ! i
      in if d \<noteq> 0
         then let (ok, t1, m1) = allocate_entry t m
              in if \<not> ok then (0, t1, m1)
                 else (entry, set_bucket i (d, entry # ds) (t1\<lparr>n_entries := n_entries t1 + 1\<rparr>), m1)
         else (entry, set_bucket i (entry, ds) (t\<lparr>n_entries := n_entries t + 1, n_buckets_used := n_buckets_used t + 1\<rparr>), m))"

definition hash_insert :: "hash_functions \<Rightarrow> hash_table \<Rightarrow> ptr \<Rightarrow> mem \<Rightarrow> (ptr \<times> hash_table \<times> mem) cu" where
  "hash_insert F t entry m =
     (if entry = 0 then Inl Abort
      else cbind (hash_find_entry F t entry False) (\<lambda>(d, i, _).
        if d \<noteq> 0 then Inr (d, t, m)
        else let t1 = (if over_threshold t then snd (check_tuning t) else t)
             in if over_threshold t \<and> over_threshold t1
                then let c = grow_candidate t1
                     in if d_le (f_of_nat SIZE_MAX) c then Inr (0, t1, m)
                        else cbind (hash_rehash F t1 (d_to_size c) m) (\<lambda>(ok, t2, m2).
                          if \<not> ok then Inr (0, t2, m2)
                          else cbind (hash_find_entry F t2 entry False) (\<lambda>(d2, i2, _).
                            if d2 \<noteq> 0 then Inl Abort else Inr (put_entry t2 entry i2 m2)))
                else Inr (put_entry t1 entry i m)))"

definition under_threshold :: "hash_table \<Rightarrow> bool" where
  "under_threshold t \<longleftrightarrow>
     d_less (f_of_nat (unat (n_buckets_used t))) (f_mul (shrink_threshold (tuning_of t)) (f_of_nat (n_buckets t)))"

definition shrink_candidate :: "hash_table \<Rightarrow> nat" where
  "shrink_candidate t =
     (let u = tuning_of t; c = f_mul (f_of_nat (n_buckets t)) (shrink_factor u)
      in d_to_size (if is_n_buckets u then c else f_mul c (growth_threshold u)))"

definition hash_delete :: "hash_functions \<Rightarrow> hash_table \<Rightarrow> ptr \<Rightarrow> mem \<Rightarrow> (ptr \<times> hash_table \<times> mem) cu" where
  "hash_delete F t entry m =
     cbind (hash_find_entry F t entry True) (\<lambda>(d, i, t1).
       if d = 0 then Inr (0, t1, m)
       else let t2 = t1\<lparr>n_entries := n_entries t1 - 1\<rparr>
            in if fst (bucket t2 ! i) \<noteq> 0 then Inr (d, t2, m)
               else let t3 = t2\<lparr>n_buckets_used := n_buckets_used t2 - 1\<rparr>;
                        t4 = (if under_threshold t3 then snd (check_tuning t3) else t3)
                    in if under_threshold t3 \<and> under_threshold t4
                       then cbind (hash_rehash F t4 (shrink_candidate t4) m) (\<lambda>(ok, t5, m5).
                              Inr (d, if ok then t5 else t5\<lparr>free_entry_list := 0\<rparr>, m5))
                       else Inr (d, t4, m))"

subsection \<open>The functions for raw pointers\<close>

definition rotr_sz :: "64 word \<Rightarrow> nat \<Rightarrow> 64 word" where
  "rotr_sz x n = or (drop_bit n x) (push_bit (64 - n) x)"

definition raw_hasher :: "ptr \<Rightarrow> nat \<Rightarrow> nat" where
  "raw_hasher p n = unat (rotr_sz p 3) mod n"

definition raw_comparator :: "ptr \<Rightarrow> ptr \<Rightarrow> bool" where
  "raw_comparator a b \<longleftrightarrow> a = b"

definition raw_functions :: hash_functions where
  "raw_functions = \<lparr>hasher = (\<lambda>p n. Inr (raw_hasher p n)), comparator = (\<lambda>a b. Inr (raw_comparator a b))\<rparr>"

subsection \<open>Primes\<close>

definition no_odd_divisor :: "nat \<Rightarrow> nat \<Rightarrow> bool" where
  "no_odd_divisor n e \<longleftrightarrow> (\<forall>d. odd d \<longrightarrow> 3 \<le> d \<longrightarrow> d < e \<longrightarrow> \<not> d dvd n)"

definition loop_exit :: "nat \<Rightarrow> nat \<Rightarrow> bool" where
  "loop_exit n e \<longleftrightarrow> odd e \<and> 3 \<le> e \<and> no_odd_divisor n e \<and> (n \<le> e * e \<or> e dvd n) \<and> (e = 3 \<or> (e - 2) * (e - 2) < n)"

lemma prime_loop_exit:
  assumes "square = divisor * divisor" "odd divisor" "3 \<le> divisor" "no_odd_divisor candidate divisor"
    "divisor = 3 \<or> (divisor - 2) * (divisor - 2) < candidate"
  shows "loop_exit candidate (prime_loop candidate divisor square)"
  using assms
proof (induction candidate divisor square rule: prime_loop.induct)
  case (1 candidate divisor square)
  show ?case
  proof (cases "square < candidate \<and> candidate mod divisor \<noteq> 0")
    case True
    have q: "square + 4 * (divisor + 1) = (divisor + 2) * (divisor + 2)" using "1.prems"(1) by (simp add: algebra_simps)
    have "\<not> d dvd candidate" if "odd d" "3 \<le> d" "d < divisor + 2" for d
    proof (cases "d < divisor")
      case False
      with that "1.prems"(2) have "d = divisor" by presburger
      with True show ?thesis by (simp add: dvd_eq_mod_eq_0)
    qed (use that "1.prems"(4) in \<open>auto simp: no_odd_divisor_def\<close>)
    then have "no_odd_divisor candidate (divisor + 2)" by (simp add: no_odd_divisor_def)
    then have "loop_exit candidate (prime_loop candidate (divisor + 2) (square + 4 * (divisor + 1)))"
      using "1.IH" [OF True q] True "1.prems"(1-3) by simp
    then show ?thesis using True by (simp only: prime_loop.simps [of candidate divisor square] if_True simp_thms)
  next
    case False
    then have "prime_loop candidate divisor square = divisor"
      by (simp only: prime_loop.simps [of candidate divisor square] if_False)
    with False "1.prems" show ?thesis by (auto simp: loop_exit_def dvd_eq_mod_eq_0)
  qed
qed

lemma loop_exit_factor:
  assumes "loop_exit n e" "odd n" "\<not> e dvd n" "n = a * b" "a \<noteq> 1" "b \<noteq> 1"
  shows False
proof -
  have "e < x" if "x dvd n" "x \<noteq> 1" for x
  proof -
    have "odd x" using that assms(2) by (meson dvd_trans)
    then have "3 \<le> x" using that(2) by presburger
    moreover have "\<not> x < e" using assms(1) \<open>odd x\<close> \<open>3 \<le> x\<close> that(1) by (auto simp: loop_exit_def no_odd_divisor_def)
    ultimately show ?thesis using that(1) assms(3) by (cases "x = e") auto
  qed
  then have "e < a" "e < b" using assms(4-6) by auto
  then have "e * e < a * b" by (intro mult_strict_mono') auto
  with assms(1,3,4) show False by (simp add: loop_exit_def)
qed

lemma is_prime_iff:
  assumes "odd n" "9 < n"
  shows "is_prime n \<longleftrightarrow> (\<forall>d. d dvd n \<longrightarrow> d = 1 \<or> d = n)"
proof -
  let ?e = "prime_loop n 3 9"
  have e: "loop_exit n ?e" using assms(2) by (intro prime_loop_exit) (auto simp: no_odd_divisor_def)
  show ?thesis
  proof (cases "?e dvd n")
    case True
    have "?e \<noteq> n"
    proof
      assume "?e = n"
      with e assms(2) have "(n - 2) * (n - 2) < n" by (auto simp: loop_exit_def)
      moreover have "8 * (n - 2) \<le> (n - 2) * (n - 2)" using assms(2) by (intro mult_le_mono1) simp
      ultimately show False using assms(2) by linarith
    qed
    with True e show ?thesis by (auto simp: is_prime_def loop_exit_def dvd_eq_mod_eq_0)
  next
    case False
    then have "is_prime n" by (simp add: is_prime_def dvd_eq_mod_eq_0)
    moreover have "d = 1 \<or> d = n" if "d dvd n" for d
      using that loop_exit_factor [OF e assms(1) False] assms(2) by (metis dvdE mult.right_neutral)
    ultimately show ?thesis by blast
  qed
qed

text \<open>The size of a table is the least prime from the candidate on; \<open>131071\<close> is prime.\<close>

lemma next_prime_loop_bounds:
  assumes "odd c" "c \<le> p" "odd p" "is_prime p" "p < SIZE_MAX"
  shows "c \<le> next_prime_loop c \<and> next_prime_loop c \<le> p \<and> is_prime (next_prime_loop c) \<and> odd (next_prime_loop c)"
  using assms(1,2)
proof (induction c rule: next_prime_loop.induct)
  case (1 c)
  show ?case
  proof (cases "is_prime c")
    case False
    with "1.prems" assms(3,4) have "c \<noteq> p" by auto
    with "1.prems" assms(3) have "c + 2 \<le> p" by presburger
    with "1.IH" False "1.prems" assms(5) show ?thesis by (simp add: next_prime_loop.simps [of c])
  qed (use "1.prems" in \<open>simp add: next_prime_loop.simps [of c]\<close>)
qed

lemma next_prime_bounds:
  assumes "c \<le> 131071"
  shows "c \<le> next_prime c" "10 < next_prime c" "next_prime c \<le> 131071" "is_prime (next_prime c)" "odd (next_prime c)"
proof -
  let ?c = "let c = (if c < 10 then 10 else c) in if even c then c + 1 else c"
  have "is_prime 131071" by (simp add: is_prime_def prime_loop.simps)
  moreover have "odd ?c" "?c \<le> 131071" "c \<le> ?c" "10 < ?c" using assms by (simp_all add: Let_def) presburger+
  ultimately show "c \<le> next_prime c" "10 < next_prime c" "next_prime c \<le> 131071" "is_prime (next_prime c)" "odd (next_prime c)"
    using next_prime_loop_bounds [of ?c 131071] by (simp_all add: next_prime_def Let_def SIZE_MAX_def)
qed

end
