(* ===== verification/CuHashMap.thy ===== *)
theory CuHashMap
  imports CuHash
begin

text \<open>
  What the hash table of \<^verbatim>\<open>lib/hash.c\<close> promises its users: it is a finite map from keys to pointers as long as
  it is not resized, and as many entries as were announced to \<^verbatim>\<open>hash_initialize\<close> fit without resizing.
  Resizing keeps the entries but not the counters. The assumptions on the
  functions of the user are the locale \<open>hash_client\<close>.
\<close>

subsection \<open>Rounding never falls below an integer\<close>


lemma rnd_f_ge_int:
  assumes "of_int k \<le> x" "0 \<le> k" "k < 2 ^ 24"
  shows "\<not> d_less (rnd_f x) (Fin (of_int k))"
proof (cases "0 < x")
  case False
  with assms(1,2) have "x = 0" "k = 0" by (simp_all add: le_less)
  then show ?thesis by (simp add: rnd_to_def)
next
  case True
  define e where "e = max (ilog2 x - 23) (- 149)"
  define y where "y = of_int (round_even (x / 2 powi e)) * (2 :: rat) powi e"
  have "of_int k \<le> y"
  proof (cases "e \<le> 0")
    case True
    then have "(2 :: rat) powi e = inverse (2 ^ nat (- e))" by (simp add: power_int_def power_one_over inverse_eq_divide)
    then have y: "y = of_int (round_even (x * 2 ^ nat (- e))) / 2 ^ nat (- e)" by (simp add: y_def divide_inverse)
    have "of_int (k * 2 ^ nat (- e)) \<le> x * 2 ^ nat (- e)" using assms(1) by simp
    then have "k * 2 ^ nat (- e) \<le> round_even (x * 2 ^ nat (- e))" by (rule round_even_ge)
    then have "(of_int (k * 2 ^ nat (- e)) :: rat) \<le> of_int (round_even (x * 2 ^ nat (- e)))" by (simp only: of_int_le_iff)
    then show ?thesis by (simp add: y field_simps)
  next
    case False
    then have e: "e = ilog2 x - 23" "0 < e" by (auto simp: e_def)
    have "(2 :: rat) powi e * 2 ^ 23 = 2 powi (ilog2 x)" by (simp add: e power_int_diff)
    then have "2 ^ 23 \<le> x / 2 powi e" using ilog2_le [OF \<open>0 < x\<close>] by (simp add: field_simps)
    then have "2 ^ 23 \<le> round_even (x / 2 powi e)" by (intro round_even_ge) simp
    then have "(of_int (2 ^ 23) :: rat) \<le> of_int (round_even (x / 2 powi e))" by (simp only: of_int_le_iff)
    moreover have "(2 :: rat) \<le> 2 powi e" using e(2) power_int_increasing [of 1 e "2 :: rat"] by simp
    ultimately have "(2 :: rat) ^ 23 * 2 \<le> y" unfolding y_def by (intro mult_mono) auto
    moreover have "(of_int k :: rat) \<le> of_int (2 ^ 24)" using assms(3) by (simp only: of_int_le_iff)
    ultimately show ?thesis by simp
  qed
  with True show ?thesis by (simp add: rnd_to_def Let_def e_def [symmetric] y_def [symmetric])
qed

subsection \<open>The announced number of entries fits\<close>

definition theta :: rat where
  "theta = 13421773 / 2 ^ 24"

lemma initial_size:
  assumes "c \<le> 100000"
  defines "n \<equiv> compute_bucket_size c default_tuning"
  shows "10 < n" "n \<le> 131071" "is_prime n" "odd n" "of_nat c - theta < theta * of_nat n"
proof -
  define x where "x = of_nat c / theta"
  have x: "0 \<le> x" "x < 131070" using assms(1) by (simp_all add: x_def theta_def field_simps)
  have c: "f_of_nat c = Fin (of_nat c)" using assms(1) rnd_f_int [of "int c"] by (simp add: f_of_nat_def)
  obtain y where y: "rnd_f x = Fin y" "of_int \<lfloor>x\<rfloor> \<le> y" "y < 131071"
  proof (cases "x = 0")
    case True
    with that [of 0] show thesis by (simp add: rnd_to_def)
  next
    case False
    with x obtain y where "rnd_f x = Fin y" "y \<le> x + 1 / 256" "\<And>i :: int. of_int i / 2 \<le> x \<Longrightarrow> of_int i / 2 \<le> y"
      using rnd_f_near [of x] by auto
    moreover have "of_int (2 * \<lfloor>x\<rfloor>) / 2 \<le> x" by simp
    ultimately have "of_int (2 * \<lfloor>x\<rfloor>) / 2 \<le> y" "y < 131071" using x(2) by (blast, linarith)
    with \<open>rnd_f x = Fin y\<close> show thesis by (intro that) simp_all
  qed
  have y0: "0 \<le> y" using y(2) x(1) by (meson of_int_0_le_iff order_trans zero_le_floor)
  define k where "k = d_to_size (Fin y)"
  have "nat \<lfloor>y\<rfloor> < 131071" using y0 y(3) by (simp add: nat_less_iff floor_less_iff)
  then have k: "k = nat \<lfloor>y\<rfloor>" "k \<le> 131071" using y0 by (simp_all add: k_def rat_trunc_def)
  have S: "f_of_nat SIZE_MAX = Fin (2 ^ 64)" by (simp add: f_of_nat_def SIZE_MAX_def) (code_simp)
  have n: "n = next_prime k"
  proof -
    have "\<not> d_le (f_of_nat SIZE_MAX) (Fin y)" using y(3) by (simp add: S d_le_def)
    moreover have "\<not> xalloc_oversized (next_prime k) 8" using next_prime_bounds(3) [OF k(2)] by (simp add: xalloc_oversized_def SIZE_MAX_def)
    ultimately show ?thesis using c y(1)
      by (simp add: n_def compute_bucket_size_def default_tuning_def theta_def x_def k_def)
  qed
  show "10 < n" "n \<le> 131071" "is_prime n" "odd n" using next_prime_bounds [OF k(2)] n by simp_all
  have "\<lfloor>x\<rfloor> \<le> int k" using y(2) y0 by (simp add: k le_floor_iff)
  then have "x < of_nat n + 1" using next_prime_bounds(1) [OF k(2)] n by linarith
  then show "of_nat c - theta < theta * of_nat n" by (simp add: x_def theta_def field_simps)
qed

definition fresh_table :: "nat \<Rightarrow> bool \<Rightarrow> hash_table" where
  "fresh_table n fr = \<lparr>bucket = replicate n (0, []), n_buckets_used = 0, n_entries = 0, tuning = None,
     data_freer = fr, free_entry_list = 0\<rparr>"

lemma hash_initialize_default:
  assumes "c \<le> 100000" "no_fail m"
  shows "hash_initialize c None fr m = (Some (fresh_table (compute_bucket_size c default_tuning) fr), tl (tl m))"
  using initial_size(1) [OF assms(1)] assms(2)
  by (simp add: hash_initialize_def mem_simps check_tuning_def fresh_table_def tuning_of_def)

text \<open>No resizing before \<open>c\<close> buckets are in use.\<close>

lemma not_over_threshold:
  assumes "tuning t = None" "n_buckets t = compute_bucket_size c default_tuning" "c \<le> 100000" "unat (n_buckets_used t) < c"
  shows "\<not> over_threshold t"
proof -
  define n u where "n = n_buckets t" and "u = unat (n_buckets_used t)"
  have n: "n \<le> 131071" "of_nat c - theta < theta * of_nat n"
    using initial_size(2,5) [OF assms(3)] assms(2) by (simp_all add: n_def)
  have "f_of_nat n = Fin (of_nat n)" using n(1) rnd_f_int [of "int n"] by (simp add: f_of_nat_def)
  moreover have u: "u \<le> c - 1" "u < c" using assms(4) by (simp_all add: u_def)
  then have "f_of_nat u = Fin (of_int (int u))" using assms(3) rnd_f_int [of "int u"] by (simp add: f_of_nat_def)
  moreover have "(of_nat u :: rat) \<le> of_nat (c - 1)" using u by (simp only: of_nat_le_iff)
  then have "of_int (int u) \<le> theta * of_nat n"
    using n(2) u(2) by (simp add: of_nat_diff theta_def)
  then have "\<not> d_less (rnd_f (theta * of_nat n)) (Fin (of_int (int u)))"
    using assms(3) u(2) by (intro rnd_f_ge_int) simp_all
  ultimately show ?thesis
    using assms(1) by (simp add: over_threshold_def tuning_of_def default_tuning_def theta_def flip: n_def u_def)
qed

lemma not_under_threshold:
  assumes "tuning t = None" "n_buckets t \<le> 131071"
  shows "\<not> under_threshold t"
proof -
  define n u where "n = n_buckets t" and "u = unat (n_buckets_used t)"
  have "f_of_nat n = Fin (of_nat n)" using assms(2) rnd_f_int [of "int n"] by (simp add: f_of_nat_def n_def)
  moreover have "\<not> d_less (f_of_nat u) (Fin 0)" using rnd_f_ge_int [of 0 "of_nat u"] by (simp add: f_of_nat_def)
  moreover have "rnd_f 0 = Fin 0" by (simp add: rnd_to_def)
  ultimately show ?thesis using assms(1)
    by (simp add: under_threshold_def tuning_of_def default_tuning_def flip: n_def u_def)
qed

subsection \<open>Buckets\<close>

lemma bucket_split:
  assumes "i < length bs"
  shows "mset (concat (map chain (bs[i := b]))) + mset (chain (bs ! i)) = mset (concat (map chain bs)) + mset (chain b)"
    and "length (filter (\<lambda>b. fst b \<noteq> 0) (bs[i := b])) + of_bool (fst (bs ! i) \<noteq> 0)
      = length (filter (\<lambda>b. fst b \<noteq> 0) bs) + of_bool (fst b \<noteq> (0 :: ptr))"
proof -
  obtain xs c ys where bs: "bs = xs @ c # ys" "length xs = i" using id_take_nth_drop [OF assms] by (metis assms length_take min.absorb4)
  then have up: "bs[i := b] = xs @ b # ys" "bs ! i = c" by auto
  show "mset (concat (map chain (bs[i := b]))) + mset (chain (bs ! i)) = mset (concat (map chain bs)) + mset (chain b)"
    unfolding up by (simp add: bs(1))
  show "length (filter (\<lambda>b. fst b \<noteq> 0) (bs[i := b])) + of_bool (fst (bs ! i) \<noteq> 0)
      = length (filter (\<lambda>b. fst b \<noteq> 0) bs) + of_bool (fst b \<noteq> (0 :: ptr))"
    unfolding up by (simp add: bs(1))
qed

lemma contents_set_bucket:
  "i < n_buckets t \<Longrightarrow> mset (contents (set_bucket i b t)) + mset (chain (bucket t ! i)) = mset (contents t) + mset (chain b)"
  using bucket_split(1) [of i "bucket t" b] by (simp add: contents_def set_bucket_def n_buckets_def)

lemma used_set_bucket:
  "i < n_buckets t \<Longrightarrow> used_count (set_bucket i b t) + of_bool (fst (bucket t ! i) \<noteq> 0) = used_count t + of_bool (fst b \<noteq> 0)"
  using bucket_split(2) [of i "bucket t" b] by (simp add: used_count_def set_bucket_def n_buckets_def)

lemma entry_count_contents: "entry_count t = length (contents t)"
  by (simp add: entry_count_def contents_def length_concat o_def)

lemma set_bucket_simps [simp]:
  "n_buckets (set_bucket i b t) = n_buckets t" "n_buckets_used (set_bucket i b t) = n_buckets_used t"
  "n_entries (set_bucket i b t) = n_entries t" "tuning (set_bucket i b t) = tuning t"
  "free_entry_list (set_bucket i b t) = free_entry_list t" "data_freer (set_bucket i b t) = data_freer t"
  "i < n_buckets t \<Longrightarrow> bucket (set_bucket i b t) ! j = (if j = i then b else bucket t ! j)"
  by (auto simp: set_bucket_def n_buckets_def)

text \<open>
  A table is well-formed when an unused bucket has no overflow, every entry is in the
  bucket of its key, no two entries have the same key, and the counters are right.
\<close>

definition buckets_ok :: "(ptr \<Rightarrow> 'k) \<Rightarrow> ('k \<Rightarrow> nat \<Rightarrow> nat) \<Rightarrow> hash_table \<Rightarrow> bool" where
  "buckets_ok key slot t \<longleftrightarrow> (\<forall>i < n_buckets t. let (d, ds) = bucket t ! i
     in (d = 0 \<longrightarrow> ds = []) \<and> (\<forall>p \<in> set (d # ds). p \<noteq> 0 \<longrightarrow> slot (key p) (n_buckets t) = i))"

definition wf_table :: "(ptr \<Rightarrow> 'k) \<Rightarrow> ('k \<Rightarrow> nat \<Rightarrow> nat) \<Rightarrow> hash_table \<Rightarrow> bool" where
  "wf_table key slot t \<longleftrightarrow> 0 < n_buckets t \<and> buckets_ok key slot t \<and> 0 \<notin> set (contents t)
     \<and> distinct (map key (contents t)) \<and> hash_table_ok t"

text \<open>The map that a table represents.\<close>

definition table_map :: "(ptr \<Rightarrow> 'k) \<Rightarrow> hash_table \<Rightarrow> 'k \<rightharpoonup> ptr" where
  "table_map key t k = find (\<lambda>p. key p = k) (contents t)"

lemma table_map_Some:
  assumes "distinct (map key (contents t))"
  shows "table_map key t k = Some p \<longleftrightarrow> p \<in> set (contents t) \<and> key p = k"
proof -
  have "find (\<lambda>p. key p = k) ps = Some p \<longleftrightarrow> p \<in> set ps \<and> key p = k" if "distinct (map key ps)" for ps
    using that by (induction ps) (auto simp: image_iff)
  with assms show ?thesis by (simp add: table_map_def)
qed

lemma buckets_okD:
  assumes "buckets_ok key slot t" "i < n_buckets t" "bucket t ! i = (d, ds)"
  shows "d = 0 \<Longrightarrow> ds = []" "p \<in> set (d # ds) \<Longrightarrow> p \<noteq> 0 \<Longrightarrow> slot (key p) (n_buckets t) = i"
  using assms unfolding buckets_ok_def by (auto simp: Let_def dest!: spec [of _ i])

lemma in_contents_bucket:
  assumes "buckets_ok key slot t" "p \<noteq> 0" "slot (key p) (n_buckets t) < n_buckets t"
  shows "p \<in> set (contents t) \<longleftrightarrow> p \<in> set (chain (bucket t ! slot (key p) (n_buckets t)))"
proof
  assume "p \<in> set (contents t)"
  then obtain i where i: "i < n_buckets t" "p \<in> set (chain (bucket t ! i))"
    by (auto simp: contents_def n_buckets_def in_set_conv_nth [of _ "bucket t"])
  obtain d ds where b: "bucket t ! i = (d, ds)" by fastforce
  have "slot (key p) (n_buckets t) = i"
    using buckets_okD(2) [OF assms(1) i(1) b _ assms(2)] i(2) b by (auto simp: chain_def split: if_splits)
  with i show "p \<in> set (chain (bucket t ! slot (key p) (n_buckets t)))" by simp
qed (use assms(3) in \<open>auto simp: contents_def n_buckets_def\<close>)

lemma chain_subset: "i < n_buckets t \<Longrightarrow> set (chain (bucket t ! i)) \<subseteq> set (contents t)"
  using nth_mem [of i "bucket t"] by (fastforce simp: contents_def n_buckets_def)

lemma takeWhile_less: "x \<in> set xs \<Longrightarrow> \<not> P x \<Longrightarrow> length (takeWhile P xs) < length xs"
  by (induction xs) auto

lemma find_takeWhile:
  "find P xs = (if \<exists>x \<in> set xs. P x then Some (xs ! length (takeWhile (\<lambda>x. \<not> P x) xs)) else None)"
  by (induction xs) auto

lemma find_unique:
  assumes "p \<in> set xs" "P p" "\<forall>q \<in> set xs. P q \<longrightarrow> q = p"
  shows "find P xs = Some p"
proof (cases "find P xs")
  case None
  with assms(1,2) show ?thesis by (simp add: find_None_iff)
next
  case (Some q)
  then have "q \<in> set xs" "P q" by (auto simp: find_Some_iff)
  with assms(3) Some show ?thesis by simp
qed

lemma table_map_bucket:
  assumes "wf_table key slot t" "slot k (n_buckets t) < n_buckets t"
  shows "table_map key t k = find (\<lambda>p. key p = k) (chain (bucket t ! slot k (n_buckets t)))"
proof -
  let ?ch = "chain (bucket t ! slot k (n_buckets t))"
  have wf: "0 \<notin> set (contents t)" "buckets_ok key slot t" "distinct (map key (contents t))"
    using assms(1) by (simp_all add: wf_table_def)
  have sub: "set ?ch \<subseteq> set (contents t)" using assms(2) by (rule chain_subset)
  have in_ch: "p \<in> set ?ch" if "key p = k" "p \<in> set (contents t)" for p
  proof -
    have "p \<noteq> 0" using that(2) wf(1) by metis
    with in_contents_bucket [OF wf(2), of p] that assms(2) show ?thesis by simp
  qed
  show ?thesis
  proof (cases "table_map key t k")
    case None
    then have "\<forall>p \<in> set (contents t). key p \<noteq> k" by (simp add: table_map_def find_None_iff)
    with sub have "find (\<lambda>p. key p = k) ?ch = None" unfolding find_None_iff by blast
    with None show ?thesis by simp
  next
    case (Some p)
    then have p: "p \<in> set (contents t)" "key p = k" using table_map_Some [OF wf(3)] by simp_all
    have "\<forall>q \<in> set ?ch. key q = k \<longrightarrow> q = p"
      using p sub wf(3) unfolding distinct_map inj_on_def by blast
    from find_unique [where P = "\<lambda>p. key p = k", OF in_ch [OF p(2,1)] p(2) this]
    have "find (\<lambda>p. key p = k) ?ch = Some p" .
    with Some show ?thesis by simp
  qed
qed

lemma distinct_keys_mset:
  "mset xs = add_mset p (mset ys) \<Longrightarrow> distinct (map key xs) \<longleftrightarrow> key p \<notin> key ` set ys \<and> distinct (map key ys)"
  using mset_eq_imp_distinct_iff [of "map key xs" "map key (p # ys)"] by simp

lemma table_map_add:
  assumes "mset (contents t') = add_mset p (mset (contents t))" "distinct (map key (contents t'))"
  shows "table_map key t' = (table_map key t)(key p \<mapsto> p)"
proof
  fix k
  note d = distinct_keys_mset [OF assms(1), THEN iffD1, OF assms(2)]
  note m = table_map_Some [OF assms(2)] table_map_Some [of key t]
  have set: "set (contents t') = insert p (set (contents t))" using arg_cong [OF assms(1), of set_mset] by simp
  show "table_map key t' k = ((table_map key t)(key p \<mapsto> p)) k"
  proof (cases "k = key p")
    case False
    then have "table_map key t' k = Some q \<longleftrightarrow> table_map key t k = Some q" for q using m d set by auto
    with False show ?thesis by (cases "table_map key t k") auto
  qed (simp add: m set)
qed

lemma table_map_remove:
  assumes "mset (contents t) = add_mset p (mset (contents t'))" "distinct (map key (contents t))"
  shows "table_map key t' = (table_map key t)(key p := None)"
proof -
  note d = distinct_keys_mset [OF assms(1), THEN iffD1, OF assms(2)]
  have "table_map key t' (key p) = None" using d by (auto simp: table_map_def find_None_iff image_iff)
  then show ?thesis using table_map_add [OF assms] by (auto simp: fun_eq_iff)
qed

lemma buckets_ok_update:
  assumes "buckets_ok key slot t" "i < n_buckets t" "bucket t0 = bucket t" "fst b = 0 \<longrightarrow> snd b = []"
    and "\<forall>p \<in> set (fst b # snd b). p \<noteq> 0 \<longrightarrow> slot (key p) (n_buckets t) = i"
  shows "buckets_ok key slot (set_bucket i b t0)"
proof -
  have n: "n_buckets t0 = n_buckets t" using assms(3) by (simp add: n_buckets_def)
  show ?thesis using assms(1,2,4,5) unfolding buckets_ok_def
    by (auto simp: n assms(3) Let_def split_beta)
qed

lemma chain_all: "(fst b = 0 \<longrightarrow> snd b = []) \<Longrightarrow> p \<noteq> 0 \<Longrightarrow> p \<in> set (fst b # snd b) \<longleftrightarrow> p \<in> set (chain b)"
  by (auto simp: chain_def)

lemma wf_table_add:
  assumes "wf_table key slot t" "i < n_buckets t" "slot (key p) (n_buckets t) = i" "p \<noteq> 0" "table_map key t (key p) = None"
    and b: "fst b \<noteq> 0" "mset (chain b) = add_mset p (mset (chain (bucket t ! i)))"
    and t0: "bucket t0 = bucket t" "n_entries t0 = n_entries t + 1"
      "n_buckets_used t0 = n_buckets_used t + of_bool (fst (bucket t ! i) = 0)"
  shows "wf_table key slot (set_bucket i b t0)" "table_map key (set_bucket i b t0) = (table_map key t)(key p \<mapsto> p)"
proof -
  let ?t = "set_bucket i b t0"
  have wf: "0 < n_buckets t" "buckets_ok key slot t" "0 \<notin> set (contents t)" "distinct (map key (contents t))" "hash_table_ok t"
    using assms(1) by (simp_all add: wf_table_def)
  have n: "n_buckets t0 = n_buckets t" "contents t0 = contents t" "used_count t0 = used_count t" "bucket t0 ! i = bucket t ! i"
    using t0(1) by (simp_all add: n_buckets_def contents_def used_count_def)
  have c: "mset (contents ?t) = add_mset p (mset (contents t))"
    using contents_set_bucket [of i t0 b] assms(2) b(2) by (simp add: n)
  have "key p \<notin> key ` set (contents t)" using assms(5) by (auto simp: table_map_def find_None_iff)
  then have d: "distinct (map key (contents ?t))" using distinct_keys_mset [OF c, of key] wf(4) by simp
  show "table_map key ?t = (table_map key t)(key p \<mapsto> p)" by (rule table_map_add [OF c d])
  have ch: "set (chain b) = insert p (set (chain (bucket t ! i)))" using arg_cong [OF b(2), of set_mset] by simp
  have old: "slot (key q) (n_buckets t) = i" if "q \<in> set (chain (bucket t ! i))" "q \<noteq> 0" for q
    using that buckets_okD(2) [OF wf(2) assms(2) surjective_pairing, of q] by (auto simp: chain_def split: if_splits)
  have "fst b = 0 \<longrightarrow> snd b = []" using b(1) by simp
  note all = chain_all [OF this]
  have "\<forall>q \<in> set (fst b # snd b). q \<noteq> 0 \<longrightarrow> slot (key q) (n_buckets t) = i"
  proof (intro ballI impI)
    fix q assume "q \<in> set (fst b # snd b)" "q \<noteq> 0"
    then have "q = p \<or> q \<in> set (chain (bucket t ! i))" using all [of q] ch by simp
    with old [of q] \<open>q \<noteq> 0\<close> assms(3) show "slot (key q) (n_buckets t) = i" by auto
  qed
  then have "buckets_ok key slot ?t" using b(1) by (intro buckets_ok_update [OF wf(2) assms(2) t0(1)]) simp_all
  moreover have "0 \<notin> set (contents ?t)" using arg_cong [OF c, of set_mset] wf(3) assms(4) by simp
  moreover have "used_count ?t = used_count t + of_bool (fst (bucket t ! i) = 0)"
    using used_set_bucket [of i t0 b] assms(2) b(1) by (auto simp: n)
  moreover have "entry_count ?t = Suc (entry_count t)" using arg_cong [OF c, of size] by (simp add: entry_count_contents)
  moreover have "n_buckets_used t = of_nat (used_count t)" "n_entries t = of_nat (entry_count t)"
    using wf(5) by (simp_all add: hash_table_ok_def)
  ultimately show "wf_table key slot ?t" using wf(1) d t0(2,3) by (simp add: wf_table_def n hash_table_ok_def)
qed

lemma wf_table_remove:
  assumes "wf_table key slot t" "i < n_buckets t"
    and b: "fst b = 0 \<longrightarrow> snd b = []" "mset (chain (bucket t ! i)) = add_mset p (mset (chain b))"
    and t0: "bucket t0 = bucket t" "n_entries t0 = n_entries t - 1" "n_buckets_used t0 = n_buckets_used t - of_bool (fst b = 0)"
  shows "wf_table key slot (set_bucket i b t0)" "table_map key (set_bucket i b t0) = (table_map key t)(key p := None)"
proof -
  let ?t = "set_bucket i b t0"
  have wf: "0 < n_buckets t" "buckets_ok key slot t" "0 \<notin> set (contents t)" "distinct (map key (contents t))" "hash_table_ok t"
    using assms(1) by (simp_all add: wf_table_def)
  have n: "n_buckets t0 = n_buckets t" "contents t0 = contents t" "used_count t0 = used_count t" "bucket t0 ! i = bucket t ! i"
    using t0(1) by (simp_all add: n_buckets_def contents_def used_count_def)
  have c: "mset (contents t) = add_mset p (mset (contents ?t))"
    using contents_set_bucket [of i t0 b] assms(2) b(2) by (simp add: n)
  show "table_map key ?t = (table_map key t)(key p := None)" by (rule table_map_remove [OF c wf(4)])
  have d: "distinct (map key (contents ?t))" using distinct_keys_mset [OF c, of key] wf(4) by simp
  have "set (chain b) \<subseteq> set (chain (bucket t ! i))" using arg_cong [OF b(2), of set_mset] by auto
  moreover have "slot (key q) (n_buckets t) = i" if "q \<in> set (chain (bucket t ! i))" "q \<noteq> 0" for q
    using that buckets_okD(2) [OF wf(2) assms(2) surjective_pairing, of q] by (auto simp: chain_def split: if_splits)
  ultimately have "\<forall>q \<in> set (fst b # snd b). q \<noteq> 0 \<longrightarrow> slot (key q) (n_buckets t) = i"
    using chain_all [OF b(1)] by blast
  then have "buckets_ok key slot ?t" by (intro buckets_ok_update [OF wf(2) assms(2) t0(1) b(1)])
  moreover have "0 \<notin> set (contents ?t)" using arg_cong [OF c, of set_mset] wf(3) by simp
  moreover have "fst (bucket t ! i) \<noteq> 0" using b(2) by (auto simp: chain_def split: if_splits)
  then have "used_count t = used_count ?t + of_bool (fst b = 0)"
    using used_set_bucket [of i t0 b] assms(2) by (auto simp: n)
  moreover have "entry_count t = Suc (entry_count ?t)" using arg_cong [OF c, of size] by (simp add: entry_count_contents)
  moreover have "n_buckets_used t = of_nat (used_count t)" "n_entries t = of_nat (entry_count t)"
    using wf(5) by (simp_all add: hash_table_ok_def)
  ultimately show "wf_table key slot ?t" using wf(1) d t0(2,3) by (simp add: wf_table_def n hash_table_ok_def)
qed

lemma n_buckets_update [simp]:
  "n_buckets (t\<lparr>n_entries := a\<rparr>) = n_buckets t" "n_buckets (t\<lparr>n_buckets_used := a\<rparr>) = n_buckets t"
  "n_buckets (t\<lparr>free_entry_list := k\<rparr>) = n_buckets t" "n_buckets (t\<lparr>tuning := u\<rparr>) = n_buckets t"
  by (simp_all add: n_buckets_def)

text \<open>Sequences of operations, on the table and on the map that it stands for.\<close>

datatype hash_op = Insert ptr | Delete ptr | Lookup ptr

fun hash_run :: "hash_functions \<Rightarrow> hash_op list \<Rightarrow> hash_table \<Rightarrow> mem \<Rightarrow> (ptr list \<times> hash_table \<times> mem) cu" where
  "hash_run F [] t m = Inr ([], t, m)"
| "hash_run F (Insert p # ops) t m =
     cbind (hash_insert F t p m) (\<lambda>(r, t1, m1). cbind (hash_run F ops t1 m1) (\<lambda>(rs, tm). Inr (r # rs, tm)))"
| "hash_run F (Delete p # ops) t m =
     cbind (hash_delete F t p m) (\<lambda>(r, t1, m1). cbind (hash_run F ops t1 m1) (\<lambda>(rs, tm). Inr (r # rs, tm)))"
| "hash_run F (Lookup p # ops) t m =
     cbind (hash_lookup F t p) (\<lambda>r. cbind (hash_run F ops t m) (\<lambda>(rs, tm). Inr (r # rs, tm)))"

fun map_run :: "(ptr \<Rightarrow> 'k) \<Rightarrow> hash_op list \<Rightarrow> ('k \<rightharpoonup> ptr) \<Rightarrow> ptr list \<times> ('k \<rightharpoonup> ptr)" where
  "map_run key [] M = ([], M)"
| "map_run key (Insert p # ops) M =
     (case M (key p) of
        None \<Rightarrow> let (rs, M') = map_run key ops (M(key p \<mapsto> p)) in (p # rs, M')
      | Some d \<Rightarrow> let (rs, M') = map_run key ops M in (d # rs, M'))"
| "map_run key (Delete p # ops) M =
     (let (rs, M') = map_run key ops (M(key p := None)) in ((case M (key p) of None \<Rightarrow> 0 | Some d \<Rightarrow> d) # rs, M'))"
| "map_run key (Lookup p # ops) M =
     (let (rs, M') = map_run key ops M in ((case M (key p) of None \<Rightarrow> 0 | Some d \<Rightarrow> d) # rs, M'))"

text \<open>No pointer is NULL and the map never holds more than \<open>c\<close> entries.\<close>

fun map_fits :: "(ptr \<Rightarrow> 'k) \<Rightarrow> nat \<Rightarrow> hash_op list \<Rightarrow> ('k \<rightharpoonup> ptr) \<Rightarrow> bool" where
  "map_fits key c [] M \<longleftrightarrow> True"
| "map_fits key c (Insert p # ops) M \<longleftrightarrow> p \<noteq> 0 \<and>
     (case M (key p) of None \<Rightarrow> card (dom M) < c \<and> map_fits key c ops (M(key p \<mapsto> p)) | Some _ \<Rightarrow> map_fits key c ops M)"
| "map_fits key c (Delete p # ops) M \<longleftrightarrow> p \<noteq> 0 \<and> map_fits key c ops (M(key p := None))"
| "map_fits key c (Lookup p # ops) M \<longleftrightarrow> p \<noteq> 0 \<and> map_fits key c ops M"

lemma table_map_card:
  assumes "distinct (map key (contents t))"
  shows "finite (dom (table_map key t))" "card (dom (table_map key t)) = entry_count t"
proof -
  have "dom (table_map key t) = key ` set (contents t)" using table_map_Some [OF assms] by (auto simp: dom_def)
  moreover have "card (key ` set (contents t)) = length (contents t)" using assms distinct_card [of "map key (contents t)"] by simp
  ultimately show "finite (dom (table_map key t))" "card (dom (table_map key t)) = entry_count t"
    by (simp_all add: entry_count_contents)
qed

lemma used_le_entries: "used_count t \<le> entry_count t"
proof -
  have "length (filter (\<lambda>b. fst b \<noteq> 0) bs) \<le> sum_list (map (\<lambda>b. length (chain b)) bs)" for bs :: "hash_entry list"
    by (induction bs) (auto simp: chain_def)
  then show ?thesis by (simp add: used_count_def entry_count_def)
qed

lemma unat_of_nat_le: "unat (of_nat k :: 64 word) \<le> k"
  by (simp add: unat_of_nat)

definition same_shape :: "hash_table \<Rightarrow> hash_table \<Rightarrow> bool" where
  "same_shape t t' \<longleftrightarrow> tuning t' = tuning t \<and> n_buckets t' = n_buckets t"

locale hash_client =
  fixes F :: hash_functions and key :: "ptr \<Rightarrow> 'k" and slot :: "'k \<Rightarrow> nat \<Rightarrow> nat"
  assumes hasher_ok: "p \<noteq> 0 \<Longrightarrow> 0 < n \<Longrightarrow> hasher F p n = Inr (slot (key p) n)"
    and slot_less: "0 < n \<Longrightarrow> slot k n < n"
    and comparator_ok: "p \<noteq> 0 \<Longrightarrow> q \<noteq> 0 \<Longrightarrow> comparator F p q = Inr (key q = key p)"
    and comparator_null: "p \<noteq> 0 \<Longrightarrow> comparator F p 0 = Inr False"
begin

lemma same_entry_ok: "p \<noteq> 0 \<Longrightarrow> same_entry F p q = Inr (q \<noteq> 0 \<and> key q = key p)"
  by (cases "q = 0"; cases "p = q") (simp_all add: same_entry_def comparator_ok comparator_null)

lemma find_in_ok:
  "\<lbrakk>p \<noteq> 0; 0 \<notin> set ds\<rbrakk> \<Longrightarrow> find_in F p ds i
    = Inr (if \<exists>d \<in> set ds. key d = key p then Some (i + length (takeWhile (\<lambda>d. key d \<noteq> key p) ds)) else None)"
  by (induction ds arbitrary: i) (auto simp: same_entry_ok)

lemma bucket_of_ok: "p \<noteq> 0 \<Longrightarrow> 0 < n_buckets t \<Longrightarrow> bucket_of F t p = Inr (slot (key p) (n_buckets t))"
  using hasher_ok slot_less by (simp add: bucket_of_def)

lemma lookup_ok:
  assumes "wf_table key slot t" "p \<noteq> 0"
  shows "hash_lookup F t p = Inr (case table_map key t (key p) of None \<Rightarrow> 0 | Some d \<Rightarrow> d)"
proof -
  let ?i = "slot (key p) (n_buckets t)"
  have n: "0 < n_buckets t" "?i < n_buckets t" using assms(1) slot_less by (simp_all add: wf_table_def)
  then have z: "0 \<notin> set (chain (bucket t ! ?i))" using assms(1) chain_subset [of ?i t] by (auto simp: wf_table_def)
  show ?thesis using table_map_bucket [OF assms(1) n(2)] bucket_of_ok [OF assms(2) n(1)] find_in_ok [OF assms(2) z, of 0]
    by (simp add: hash_lookup_def find_takeWhile Let_def)
qed

lemma find_entry_ok:
  assumes "wf_table key slot t" "p \<noteq> 0"
  shows "hash_find_entry F t p False
    = Inr (case table_map key t (key p) of None \<Rightarrow> 0 | Some d \<Rightarrow> d, slot (key p) (n_buckets t), t)"
proof -
  let ?i = "slot (key p) (n_buckets t)"
  have n: "0 < n_buckets t" "?i < n_buckets t" using assms(1) slot_less by (simp_all add: wf_table_def)
  obtain d ds where b: "bucket t ! ?i = (d, ds)" by fastforce
  have z: "0 \<notin> set (chain (bucket t ! ?i))" using assms(1) chain_subset [OF n(2)] by (auto simp: wf_table_def)
  have "d = 0 \<Longrightarrow> ds = []" using buckets_okD(1) [of key slot t, OF _ n(2) b] assms(1) by (simp add: wf_table_def)
  with z b have ds: "0 \<notin> set ds" by (auto simp: chain_def split: if_splits)
  show ?thesis using table_map_bucket [OF assms(1) n(2)] bucket_of_ok [OF assms(2) n(1)] find_in_ok [OF assms(2) ds, of 0]
      \<open>d = 0 \<Longrightarrow> ds = []\<close>
    by (auto simp: hash_find_entry_def b same_entry_ok [OF assms(2)] chain_def find_takeWhile split: if_splits)
qed

lemma find_entry_None:
  assumes "wf_table key slot t" "p \<noteq> 0" "table_map key t (key p) = None"
  shows "hash_find_entry F t p del = Inr (0, slot (key p) (n_buckets t), t)"
proof -
  let ?i = "slot (key p) (n_buckets t)"
  obtain d ds where b: "bucket t ! ?i = (d, ds)" by fastforce
  have i: "?i < n_buckets t" using assms(1) slot_less by (simp add: wf_table_def)
  have z: "0 \<notin> set (chain (bucket t ! ?i))" using assms(1) chain_subset [OF i] by (auto simp: wf_table_def)
  have "\<forall>q \<in> set (chain (bucket t ! ?i)). key q \<noteq> key p"
    using table_map_bucket [OF assms(1) i] assms(3) by (simp add: find_None_iff2)
  then have no: "d \<noteq> 0 \<Longrightarrow> key d \<noteq> key p \<and> (\<forall>q \<in> set ds. key q \<noteq> key p)" using b by (auto simp: chain_def)
  have d0: "d = 0 \<Longrightarrow> ds = []" using buckets_okD(1) [of key slot t, OF _ i b] assms(1) by (simp add: wf_table_def)
  then have ds: "0 \<notin> set ds" using z b by (auto simp: chain_def split: if_splits)
  show ?thesis using bucket_of_ok [OF assms(2)] i b no d0
    by (cases "d = 0") (simp_all add: hash_find_entry_def same_entry_ok [OF assms(2)] find_in_ok [OF assms(2) ds])
qed

lemma put_entry_ok:
  assumes "wf_table key slot t" "p \<noteq> 0" "table_map key t (key p) = None" "no_fail m"
  shows "\<exists>t' m'. put_entry t p (slot (key p) (n_buckets t)) m = (p, t', m') \<and> no_fail m' \<and> wf_table key slot t'
    \<and> table_map key t' = (table_map key t)(key p \<mapsto> p) \<and> same_shape t t'"
proof -
  let ?i = "slot (key p) (n_buckets t)"
  obtain d ds where b: "bucket t ! ?i = (d, ds)" by fastforce
  have i: "?i < n_buckets t" using assms(1) slot_less by (simp add: wf_table_def)
  note add = wf_table_add [OF assms(1) i refl assms(2,3)]
  show ?thesis
  proof (cases "d = 0")
    case True
    then have "ds = []" using buckets_okD(1) [of key slot t, OF _ i b] assms(1) by (simp add: wf_table_def)
    with True b assms(2,4) add [of "(p, [])" "t\<lparr>n_entries := n_entries t + 1, n_buckets_used := n_buckets_used t + 1\<rparr>"]
    show ?thesis by (simp add: put_entry_def same_shape_def chain_def)
  next
    case False
    let ?t = "(if free_entry_list t \<noteq> 0 then t\<lparr>free_entry_list := free_entry_list t - 1\<rparr> else t)\<lparr>n_entries := n_entries t + 1\<rparr>"
    have "put_entry t p ?i m = (p, set_bucket ?i (d, p # ds) ?t, if free_entry_list t \<noteq> 0 then m else tl m)"
      using False b assms(4) by (simp add: put_entry_def allocate_entry_def mem_simps)
    moreover have "n_buckets ?t = n_buckets t" by simp
    ultimately show ?thesis using False b assms(4) add [of "(d, p # ds)" ?t] no_fail_tl [OF assms(4)]
      by (simp add: same_shape_def chain_def)
  qed
qed

lemma insert_ok:
  assumes "wf_table key slot t" "p \<noteq> 0" "no_fail m" "\<not> over_threshold t"
  shows "\<exists>t' m'. hash_insert F t p m = Inr (case table_map key t (key p) of None \<Rightarrow> p | Some d \<Rightarrow> d, t', m')
    \<and> no_fail m' \<and> wf_table key slot t' \<and> same_shape t t'
    \<and> table_map key t' = (case table_map key t (key p) of None \<Rightarrow> (table_map key t)(key p \<mapsto> p) | Some d \<Rightarrow> table_map key t)"
proof (cases "table_map key t (key p)")
  case None
  with put_entry_ok [OF assms(1,2) None assms(3)] assms find_entry_ok [OF assms(1,2)] show ?thesis by (auto simp: hash_insert_def)
next
  case (Some d)
  then have "d \<in> set (contents t)" using table_map_Some [of key t] assms(1) by (simp add: wf_table_def)
  then have "d \<noteq> 0" using assms(1) by (auto simp: wf_table_def)
  with Some assms find_entry_ok [OF assms(1,2)] show ?thesis by (simp add: hash_insert_def same_shape_def)
qed

lemma find_delete_ok:
  assumes "wf_table key slot t" "p \<noteq> 0" "table_map key t (key p) = Some d"
  defines "i \<equiv> slot (key p) (n_buckets t)"
  shows "\<exists>b t1. hash_find_entry F t p True = Inr (d, i, set_bucket i b t1) \<and> bucket t1 = bucket t \<and> n_entries t1 = n_entries t
    \<and> n_buckets_used t1 = n_buckets_used t \<and> tuning t1 = tuning t
    \<and> (fst b = 0 \<longrightarrow> snd b = []) \<and> mset (chain (bucket t ! i)) = add_mset d (mset (chain b))"
proof -
  obtain e ds where b: "bucket t ! i = (e, ds)" by fastforce
  have i: "i < n_buckets t" using assms(1) slot_less by (simp add: wf_table_def i_def)
  have z: "0 \<notin> set (chain (bucket t ! i))" using assms(1) chain_subset [OF i] by (auto simp: wf_table_def)
  have d: "find (\<lambda>q. key q = key p) (chain (bucket t ! i)) = Some d"
    using table_map_bucket [OF assms(1) i [unfolded i_def]] assms(3) by (simp add: i_def)
  then have e: "e \<noteq> 0" using b by (auto simp: chain_def split: if_splits)
  with z b have ds: "0 \<notin> set ds" by (simp add: chain_def)
  have F: "bucket_of F t p = Inr i" using bucket_of_ok [OF assms(2)] i by (simp add: i_def)
  have sb: "free_entry (set_bucket i c t) = set_bucket i c (free_entry t)" for c by (simp add: free_entry_def set_bucket_def)
  show ?thesis
  proof (cases "key e = key p")
    case True
    with d b e have "d = e" by (simp add: chain_def)
    show ?thesis
    proof (cases ds)
      case Nil
      with True F b e \<open>d = e\<close> show ?thesis
        by (intro exI [of _ "(0, [])"] exI [of _ t]) (simp add: hash_find_entry_def same_entry_ok [OF assms(2)] chain_def)
    next
      case (Cons f es)
      with True F b e ds \<open>d = e\<close> sb show ?thesis
        by (intro exI [of _ "(f, es)"] exI [of _ "free_entry t"])
           (simp add: hash_find_entry_def same_entry_ok [OF assms(2)] chain_def free_entry_def)
    qed
  next
    case False
    define j where "j = length (takeWhile (\<lambda>q. key q \<noteq> key p) ds)"
    have ex: "\<exists>q \<in> set ds. key q = key p" and dj: "d = ds ! j" using d b e False
      by (auto simp: chain_def find_takeWhile j_def split: if_splits)
    then have "j < length ds" unfolding j_def by (auto intro: takeWhile_less)
    then have "mset ds = add_mset d (mset (take j ds @ drop (Suc j) ds))"
      using dj by (metis append_take_drop_id id_take_nth_drop mset.simps(2) mset_append union_mset_add_mset_right)
    with False F b e ex dj sb show ?thesis
      by (intro exI [of _ "(e, take j ds @ drop (Suc j) ds)"] exI [of _ "free_entry t"])
         (simp add: hash_find_entry_def same_entry_ok [OF assms(2)] find_in_ok [OF assms(2) ds] chain_def free_entry_def flip: j_def)
  qed
qed

lemma delete_ok:
  assumes "wf_table key slot t" "p \<noteq> 0" "tuning t = None" "n_buckets t \<le> 131071"
  shows "\<exists>t'. hash_delete F t p m = Inr (case table_map key t (key p) of None \<Rightarrow> 0 | Some d \<Rightarrow> d, t', m)
    \<and> wf_table key slot t' \<and> table_map key t' = (table_map key t)(key p := None) \<and> same_shape t t'"
proof (cases "table_map key t (key p)")
  case None
  then have "(table_map key t)(key p := None) = table_map key t" by auto
  then show ?thesis using None assms(1) find_entry_None [OF assms(1,2) None] by (simp add: hash_delete_def same_shape_def)
next
  case (Some d)
  define i where "i = slot (key p) (n_buckets t)"
  from find_delete_ok [OF assms(1,2) Some] obtain b t1 where f: "hash_find_entry F t p True = Inr (d, i, set_bucket i b t1)"
    "bucket t1 = bucket t" "n_entries t1 = n_entries t" "n_buckets_used t1 = n_buckets_used t" "tuning t1 = tuning t"
    "fst b = 0 \<longrightarrow> snd b = []" "mset (chain (bucket t ! i)) = add_mset d (mset (chain b))" by (auto simp: i_def)
  have i: "i < n_buckets t" using assms(1) slot_less by (simp add: wf_table_def i_def)
  have dm: "d \<in> set (contents t)" "key d = key p" using Some table_map_Some [of key t] assms(1) by (simp_all add: wf_table_def)
  then have d: "d \<noteq> 0" using assms(1) by (auto simp: wf_table_def)
  let ?t = "t1\<lparr>n_entries := n_entries t1 - 1, n_buckets_used := n_buckets_used t1 - of_bool (fst b = 0)\<rparr>"
  have n: "n_buckets t1 = n_buckets t" "n_buckets ?t = n_buckets t" using f(2) by (simp_all add: n_buckets_def)
  note rm = wf_table_remove [OF assms(1) i f(6,7), of ?t]
  have "set_bucket i b ?t = (if fst b = 0
      then (set_bucket i b t1)\<lparr>n_entries := n_entries t1 - 1, n_buckets_used := n_buckets_used t1 - 1\<rparr>
      else (set_bucket i b t1)\<lparr>n_entries := n_entries t1 - 1\<rparr>)" by (simp add: set_bucket_def)
  moreover have "\<not> under_threshold (set_bucket i b ?t)" using assms(3,4) n f(5) by (intro not_under_threshold) simp_all
  ultimately have "hash_delete F t p m = Inr (d, set_bucket i b ?t, m)"
    using f(1) d i n by (simp add: hash_delete_def Let_def split: if_splits)
  with Some rm f(2-5) dm n show ?thesis by (simp add: same_shape_def)
qed

lemma run_ok:
  assumes "wf_table key slot t" "tuning t = None" "n_buckets t = compute_bucket_size c default_tuning" "c \<le> 100000" "no_fail m"
    and "map_fits key c ops (table_map key t)"
  shows "\<exists>t' m'. hash_run F ops t m = Inr (fst (map_run key ops (table_map key t)), t', m') \<and> wf_table key slot t'
    \<and> table_map key t' = snd (map_run key ops (table_map key t))"
  using assms(1-3,5-)
proof (induction ops arbitrary: t m)
  case (Cons op ops)
  let ?M = "table_map key t"
  have n: "n_buckets t \<le> 131071" using initial_size(2) [OF assms(4)] Cons.prems(3) by simp
  have fin: "finite (dom ?M)" "card (dom ?M) = entry_count t" using table_map_card [of key t] Cons.prems(1) by (simp_all add: wf_table_def)
  show ?case
  proof (cases op)
    case (Insert p)
    with Cons.prems have p: "p \<noteq> 0" by simp
    show ?thesis
    proof (cases "?M (key p)")
      case None
      with Insert Cons.prems have "card (dom ?M) < c" by simp
      moreover have "used_count t \<le> entry_count t" by (rule used_le_entries)
      moreover have "unat (n_buckets_used t) \<le> used_count t"
        using Cons.prems(1) unat_of_nat_le [of "used_count t"] by (auto simp: wf_table_def hash_table_ok_def dest: sym)
      ultimately have "\<not> over_threshold t" using Cons.prems assms(4) fin by (intro not_over_threshold [of t c]) simp_all
      from insert_ok [OF Cons.prems(1) p Cons.prems(4) this] None obtain t1 m1 where
        r: "hash_insert F t p m = Inr (p, t1, m1)" "no_fail m1" "wf_table key slot t1" "same_shape t t1"
        "table_map key t1 = ?M(key p \<mapsto> p)" by auto
      then have "map_fits key c ops (table_map key t1)" "tuning t1 = None" "n_buckets t1 = compute_bucket_size c default_tuning"
        using Cons.prems Insert None by (simp_all add: same_shape_def)
      from Cons.IH [OF r(3) this(2,3) r(2) this(1)] obtain t2 m2 where
        "hash_run F ops t1 m1 = Inr (fst (map_run key ops (table_map key t1)), t2, m2)" "wf_table key slot t2"
        "table_map key t2 = snd (map_run key ops (table_map key t1))" by blast
      with r(1,5) Insert None show ?thesis by (simp add: split_beta)
    next
      case (Some d)
      then have "d \<noteq> 0" using table_map_Some [of key t] Cons.prems(1) by (auto simp: wf_table_def)
      with find_entry_ok [OF Cons.prems(1) p] Some p have "hash_insert F t p m = Inr (d, t, m)" by (simp add: hash_insert_def)
      with Cons.IH [of t m] Cons.prems Insert Some show ?thesis by (auto simp: split_beta)
    qed
  next
    case (Delete p)
    with Cons.prems have p: "p \<noteq> 0" by simp
    from delete_ok [OF Cons.prems(1) p Cons.prems(2) n] obtain t1 where
      r: "hash_delete F t p m = Inr (case ?M (key p) of None \<Rightarrow> 0 | Some d \<Rightarrow> d, t1, m)" "wf_table key slot t1"
      "table_map key t1 = ?M(key p := None)" "same_shape t t1" by blast
    then have "map_fits key c ops (table_map key t1)" "tuning t1 = None" "n_buckets t1 = compute_bucket_size c default_tuning"
      using Cons.prems Delete by (simp_all add: same_shape_def)
    from Cons.IH [OF r(2) this(2,3) Cons.prems(4) this(1)] obtain t2 m2 where
      "hash_run F ops t1 m = Inr (fst (map_run key ops (table_map key t1)), t2, m2)" "wf_table key slot t2"
      "table_map key t2 = snd (map_run key ops (table_map key t1))" by blast
    with r(1,3) Delete show ?thesis by (simp add: split_beta)
  next
    case (Lookup p)
    with Cons.prems have p: "p \<noteq> 0" by simp
    with lookup_ok [OF Cons.prems(1) p] Cons.IH [of t m] Cons.prems Lookup show ?thesis by (auto simp: split_beta)
  qed
qed simp

end

lemma fresh_table_wf:
  assumes "0 < n"
  shows "wf_table key slot (fresh_table n fr)" "table_map key (fresh_table n fr) = Map.empty" "n_buckets (fresh_table n fr) = n"
proof -
  have c: "contents (fresh_table n fr) = []" by (simp add: contents_def fresh_table_def chain_def)
  have "used_count (fresh_table n fr) = 0" by (simp add: used_count_def fresh_table_def)
  then show "wf_table key slot (fresh_table n fr)"
    using assms c by (simp add: wf_table_def buckets_ok_def hash_table_ok_def entry_count_contents n_buckets_def fresh_table_def)
  show "table_map key (fresh_table n fr) = Map.empty" using c by (simp add: table_map_def fun_eq_iff)
  show "n_buckets (fresh_table n fr) = n" by (simp add: n_buckets_def fresh_table_def)
qed

interpretation raw: hash_client raw_functions "\<lambda>p. p" raw_hasher
  by unfold_locales (auto simp: raw_functions_def raw_comparator_def raw_hasher_def)

text \<open>
  C5. The hash table implements a finite map for every user whose functions keep the laws of
  \<open>hash_client\<close>: they do not fault, the hash of a pointer lies in range and depends on its key only, the comparison
  tells whether two pointers have the same key, and it answers false, without reading anything, when the
  other pointer is NULL. With memory available, a table that was announced for \<open>c\<close> entries, at most
  100000, answers every sequence of insertions, deletions and lookups of pointers that keeps at
  most \<open>c\<close> entries as the map does; it never faults, and its counters are right at the end. The
  functions of \<^verbatim>\<open>hash.c\<close> for tables of raw pointers keep these laws; the functions of the
  directory walks do not, because they read behind NULL.
\<close>

theorem hash_table_set:
  assumes "hash_client F key slot" "c \<le> 100000" "no_fail m" "map_fits key c ops Map.empty"
  shows "\<exists>t0 m0 t m'. hash_initialize c None fr m = (Some t0, m0)
    \<and> hash_run F ops t0 m0 = Inr (fst (map_run key ops Map.empty), t, m')
    \<and> hash_table_ok t \<and> hash_get_n_entries t = of_nat (card (dom (snd (map_run key ops Map.empty))))"
proof -
  let ?n = "compute_bucket_size c default_tuning"
  have "0 < ?n" using initial_size(1) [OF assms(2)] by simp
  then have f: "wf_table key slot (fresh_table ?n fr)" "table_map key (fresh_table ?n fr) = Map.empty"
    "n_buckets (fresh_table ?n fr) = ?n" using fresh_table_wf by simp_all
  have "no_fail (tl (tl m))" using assms(3) by (simp add: mem_simps)
  from hash_client.run_ok [OF assms(1) f(1) _ f(3) assms(2) this, of ops] f(2) assms(4) obtain t m' where
    r: "hash_run F ops (fresh_table ?n fr) (tl (tl m)) = Inr (fst (map_run key ops Map.empty), t, m')"
      "wf_table key slot t" "table_map key t = snd (map_run key ops Map.empty)"
    by (auto simp: fresh_table_def)
  moreover have "n_entries t = of_nat (entry_count t)" "distinct (map key (contents t))"
    using r(2) by (simp_all add: wf_table_def hash_table_ok_def)
  ultimately show ?thesis using hash_initialize_default [OF assms(2,3)] table_map_card(2) [of key t]
    by (auto simp: wf_table_def hash_get_n_entries_def)
qed

theorem hash_table_set_witness:
  "\<exists>t0 m0 t m'. hash_initialize 3 None False [] = (Some t0, m0)
    \<and> hash_run raw_functions [Insert 0x1000, Insert 0x2000, Insert 0x1000, Delete 0x2000, Lookup 0x2000, Lookup 0x1000] t0 m0
      = Inr ([0x1000, 0x2000, 0x1000, 0x2000, 0, 0x1000], t, m')
    \<and> hash_table_ok t \<and> hash_get_n_entries t = 1"
  using hash_table_set [OF raw.hash_client_axioms, of 3 "[]" "[Insert 0x1000, Insert 0x2000, Insert 0x1000, Delete 0x2000, Lookup 0x2000, Lookup 0x1000]" False]
  by simp

end
