(* ===== verification/CuHashGrow.thy ===== *)
theory CuHashGrow
  imports CuHashMap
begin

text \<open>
  Resizing the hash table (\<^verbatim>\<open>transfer_entries\<close>, \<^verbatim>\<open>hash_rehash\<close>). The loop moves the heads of
  all buckets, also of those that are not in use, whose head is NULL: it hashes NULL, and either adds an entry
  without data or counts a bucket that stays empty. What users of the table must
  provide for this not to fault is the locale \<open>hash_client_null\<close>.
\<close>

text \<open>
  The state of the new table after \<open>R\<close> has been moved to it and \<open>z\<close> unused buckets have been
  moved too: \<open>a\<close> of these became entries without data, \<open>b\<close> were counted as used.
\<close>

definition moved :: "(ptr \<Rightarrow> 'k) \<Rightarrow> ('k \<Rightarrow> nat \<Rightarrow> nat) \<Rightarrow> ptr multiset \<Rightarrow> nat \<Rightarrow> hash_table \<Rightarrow> bool" where
  "moved key slot R z t \<longleftrightarrow> buckets_ok key slot t \<and> filter_mset (\<lambda>p. p \<noteq> 0) (mset (contents t)) = R
     \<and> (\<exists>a b. a + b = z \<and> entry_count t = size R + a \<and> n_buckets_used t = of_nat (used_count t + b))"

lemma of_nat_64_eq: "m < 2 ^ 64 \<Longrightarrow> n < 2 ^ 64 \<Longrightarrow> (of_nat m :: 64 word) = of_nat n \<longleftrightarrow> m = n"
  by (simp add: word_of_nat_eq_iff take_bit_nat_eq_self)

lemma movedI:
  assumes "buckets_ok key slot t" "filter_mset (\<lambda>p. p \<noteq> 0) (mset (contents t)) = R" "entry_count t = size R + a"
    "n_buckets_used t = of_nat (used_count t + b)" "a + b = z"
  shows "moved key slot R z t"
  using assms unfolding moved_def by blast

definition push_entry :: "nat \<Rightarrow> ptr \<Rightarrow> hash_table \<Rightarrow> hash_table" where
  "push_entry i x t = (let (d, ds) = bucket t ! i
     in if d \<noteq> 0 then set_bucket i (d, x # ds) t
        else set_bucket i (x, ds) (t\<lparr>n_buckets_used := n_buckets_used t + 1\<rparr>))"

lemma moved_free [simp]: "moved key slot R z (t\<lparr>free_entry_list := k\<rparr>) = moved key slot R z t"
  by (simp add: moved_def buckets_ok_def contents_def entry_count_def used_count_def)

lemma push_entry_simps [simp]:
  "n_buckets (push_entry i x t) = n_buckets t" "tuning (push_entry i x t) = tuning t" "n_entries (push_entry i x t) = n_entries t"
  by (simp_all add: push_entry_def split_beta)

lemma push_entry_moved:
  assumes "moved key slot R z t" "i < n_buckets t" "x \<noteq> 0 \<longrightarrow> slot (key x) (n_buckets t) = i"
  shows "moved key slot (if x = 0 then R else add_mset x R) (if x = 0 then Suc z else z) (push_entry i x t)"
proof -
  obtain d ds where b: "bucket t ! i = (d, ds)" by fastforce
  obtain a c where ac: "a + c = z" "entry_count t = size R + a" "n_buckets_used t = of_nat (used_count t + c)"
    and ok: "buckets_ok key slot t" and R: "filter_mset (\<lambda>p. p \<noteq> 0) (mset (contents t)) = R"
    using assms(1) by (auto simp: moved_def)
  have old: "d = 0 \<Longrightarrow> ds = []" "p \<in> set (d # ds) \<Longrightarrow> p \<noteq> 0 \<Longrightarrow> slot (key p) (n_buckets t) = i" for p
    using buckets_okD [OF ok assms(2) b] by blast+
  show ?thesis
  proof (cases "d = 0")
    case False
    let ?t = "set_bucket i (d, x # ds) t"
    have m: "mset (contents ?t) = add_mset x (mset (contents t))"
      using contents_set_bucket [OF assms(2), of "(d, x # ds)"] b False by (simp add: chain_def)
    have "buckets_ok key slot ?t" using old assms(3) False by (intro buckets_ok_update [OF ok assms(2) refl]) auto
    moreover have "entry_count ?t = Suc (entry_count t)" using arg_cong [OF m, of size] by (simp add: entry_count_contents)
    moreover have "used_count ?t = used_count t" using used_set_bucket [OF assms(2), of "(d, x # ds)"] b False by simp
    ultimately have "moved key slot (if x = 0 then R else add_mset x R) (if x = 0 then Suc z else z) ?t"
      using ac R m by (intro movedI [where a = "a + of_bool (x = 0)" and b = c]) auto
    then show ?thesis using False b by (simp add: push_entry_def)
  next
    case True
    then have ds: "ds = []" by (rule old)
    let ?u = "t\<lparr>n_buckets_used := n_buckets_used t + 1\<rparr>" and ?t = "set_bucket i (x, []) (t\<lparr>n_buckets_used := n_buckets_used t + 1\<rparr>)"
    have u: "contents ?u = contents t" "used_count ?u = used_count t" by (simp_all add: contents_def used_count_def)
    have m: "mset (contents ?t) = (if x = 0 then mset (contents t) else add_mset x (mset (contents t)))"
      using contents_set_bucket [of i ?u "(x, [])"] assms(2) b True ds u by (simp add: chain_def)
    have "buckets_ok key slot ?t" using assms(3) by (intro buckets_ok_update [OF ok assms(2)]) auto
    moreover have "entry_count ?t = entry_count t + of_bool (x \<noteq> 0)"
      using arg_cong [OF m, of size] by (simp add: entry_count_contents)
    moreover have "used_count ?t = used_count t + of_bool (x \<noteq> 0)"
      using used_set_bucket [of i ?u "(x, [])"] assms(2) b True u by simp
    ultimately have "moved key slot (if x = 0 then R else add_mset x R) (if x = 0 then Suc z else z) ?t"
      using ac R m by (intro movedI [where a = a and b = "c + of_bool (x = 0)"]) auto
    then show ?thesis using True ds b by (simp add: push_entry_def)
  qed
qed

text \<open>Functions that accept NULL.\<close>

locale hash_client_null = hash_client F key slot
  for F :: hash_functions and key :: "ptr \<Rightarrow> 'k" and slot :: "'k \<Rightarrow> nat \<Rightarrow> nat" +
  fixes null_slot :: "nat \<Rightarrow> nat"
  assumes hasher_null: "0 < n \<Longrightarrow> hasher F 0 n = Inr (null_slot n)"
    and null_slot_less: "0 < n \<Longrightarrow> null_slot n < n"
begin

lemma move_overflow_ok:
  assumes "moved key slot R z dst" "0 < n_buckets dst" "0 \<notin> set xs"
  shows "\<exists>dst'. move_overflow F xs dst = Inr dst' \<and> moved key slot (R + mset xs) z dst' \<and> n_buckets dst' = n_buckets dst"
  using assms
proof (induction xs arbitrary: R dst)
  case (Cons x xs)
  let ?i = "slot (key x) (n_buckets dst)"
  have x: "x \<noteq> 0" using Cons.prems(3) by auto
  have i: "bucket_of F dst x = Inr ?i" "?i < n_buckets dst" using bucket_of_ok [OF x Cons.prems(2)] slot_less Cons.prems(2) by auto
  define d where "d = (if fst (bucket dst ! ?i) \<noteq> 0 then push_entry ?i x dst else free_entry (push_entry ?i x dst))"
  have "move_overflow F (x # xs) dst = move_overflow F xs d"
    using i by (simp add: d_def push_entry_def split_beta)
  moreover have "moved key slot (add_mset x R) z d"
    using push_entry_moved [OF Cons.prems(1) i(2), of x] x by (simp add: d_def free_entry_def)
  moreover have "n_buckets d = n_buckets dst" by (simp add: d_def free_entry_def)
  ultimately show ?case using Cons.IH [of "add_mset x R" d] Cons.prems by simp
qed simp

lemma move_head_ok:
  assumes "moved key slot R z dst" "0 < n_buckets dst" "no_fail m"
  shows "\<exists>dst' m'. move_head F x dst m = Inr (True, dst', m') \<and> no_fail m' \<and> n_buckets dst' = n_buckets dst
    \<and> moved key slot (if x = 0 then R else add_mset x R) (if x = 0 then Suc z else z) dst'"
proof -
  define i where "i = (if x = 0 then null_slot (n_buckets dst) else slot (key x) (n_buckets dst))"
  have i: "bucket_of F dst x = Inr i" "i < n_buckets dst"
    using bucket_of_ok [of x dst] hasher_null null_slot_less slot_less assms(2) by (auto simp: i_def bucket_of_def)
  note mv = push_entry_moved [OF assms(1) i(2), of x]
  show ?thesis
  proof (cases "fst (bucket dst ! i) = 0")
    case True
    then have "move_head F x dst m = Inr (True, push_entry i x dst, m)"
      using i by (simp add: move_head_def push_entry_def split_beta)
    with mv assms(3) show ?thesis by (simp add: i_def)
  next
    case False
    define k where "k = (if free_entry_list dst \<noteq> 0 then free_entry_list dst - 1 else free_entry_list dst)"
    have "move_head F x dst m = Inr (True, (push_entry i x dst)\<lparr>free_entry_list := k\<rparr>, if free_entry_list dst \<noteq> 0 then m else tl m)"
      using i False assms(3)
      by (simp add: move_head_def push_entry_def split_beta allocate_entry_def k_def mem_simps set_bucket_def)
    with mv assms(3) no_fail_tl show ?thesis by (simp add: i_def)
  qed
qed

lemma transfer_ok:
  assumes "moved key slot R z dst" "0 < n_buckets dst" "no_fail m" "i + k = n_buckets src"
    and "\<forall>b \<in> set (drop i (bucket src)). (fst b = 0 \<longrightarrow> snd b = []) \<and> 0 \<notin> set (snd b)"
  shows "\<exists>dst' src' m'. transfer_loop F False k i dst src m = Inr (True, dst', src', m')
    \<and> moved key slot (R + mset (concat (map chain (drop i (bucket src))))) (z + length (filter (\<lambda>b. fst b = 0) (drop i (bucket src)))) dst'
    \<and> no_fail m' \<and> n_buckets dst' = n_buckets dst \<and> n_entries src' = n_entries src"
  using assms
proof (induction k arbitrary: i R z dst src m)
  case (Suc k)
  obtain d ds where b: "bucket src ! i = (d, ds)" by fastforce
  have i: "i < length (bucket src)" using Suc.prems(4) by (simp add: n_buckets_def)
  then have dr: "drop i (bucket src) = (d, ds) # drop (Suc i) (bucket src)" using b by (simp add: Cons_nth_drop_Suc [symmetric])
  with Suc.prems(5) have b0: "d = 0 \<longrightarrow> ds = []" "0 \<notin> set ds" by auto
  obtain d1 where d1: "move_overflow F ds dst = Inr d1" "moved key slot (R + mset ds) z d1" "n_buckets d1 = n_buckets dst"
    using move_overflow_ok [OF Suc.prems(1,2) b0(2)] by blast
  have "0 < n_buckets d1" using d1(3) Suc.prems(2) by simp
  then obtain d2 m2 where d2: "move_head F d d1 m = Inr (True, d2, m2)" "no_fail m2" "n_buckets d2 = n_buckets dst"
    "moved key slot (if d = 0 then R + mset ds else add_mset d (R + mset ds)) (if d = 0 then Suc z else z) d2"
    using move_head_ok [OF d1(2) _ Suc.prems(3), of d] d1(3) by auto
  define s where "s = set_bucket i (0, []) ((set_bucket i (d, []) src)\<lparr>n_buckets_used := n_buckets_used src - 1\<rparr>)"
  have s: "drop (Suc i) (bucket s) = drop (Suc i) (bucket src)" "n_entries s = n_entries src" "n_buckets s = n_buckets src"
    by (simp_all add: s_def set_bucket_def n_buckets_def)
  have "transfer_loop F False (Suc k) i dst src m = transfer_loop F False k (Suc i) d2 s m2"
    using b d1(1) d2(1) by (simp add: s_def Let_def)
  moreover have "\<forall>b \<in> set (drop (Suc i) (bucket s)). (fst b = 0 \<longrightarrow> snd b = []) \<and> 0 \<notin> set (snd b)"
    using Suc.prems(5) dr s(1) by simp
  ultimately show ?case using Suc.IH [OF d2(4) _ d2(2), of "Suc i" s] Suc.prems(2,4) d2(3) s dr b0(1)
    by (auto simp: chain_def add.assoc)
qed (simp add: n_buckets_def)

lemma find_in_null:
  "p \<noteq> 0 \<Longrightarrow> find_in F p ds i = Inr (if \<exists>d \<in> set ds. d \<noteq> 0 \<and> key d = key p
     then Some (i + length (takeWhile (\<lambda>d. \<not> (d \<noteq> 0 \<and> key d = key p)) ds)) else None)"
  by (induction ds arbitrary: i) (auto simp: same_entry_ok)

text \<open>A lookup skips entries without data.\<close>

lemma lookup_moved:
  assumes "buckets_ok key slot t" "0 < n_buckets t" "p \<noteq> 0" "filter_mset (\<lambda>p. p \<noteq> 0) (mset (contents t)) = mset (contents t0)"
    "wf_table key slot t0"
  shows "hash_lookup F t p = hash_lookup F t0 p"
proof -
  let ?i = "slot (key p) (n_buckets t)" and ?P = "\<lambda>d. d \<noteq> 0 \<and> key d = key p"
  let ?ch = "chain (bucket t ! ?i)"
  have i: "?i < n_buckets t" using slot_less assms(2) by simp
  have wf: "distinct (map key (contents t0))" using assms(5) by (simp add: wf_table_def)
  have set: "q \<in> set (contents t) \<longleftrightarrow> q \<in> set (contents t0)" if "q \<noteq> 0" for q
    using that arg_cong [OF assms(4), of set_mset] by auto
  have "find ?P ?ch = table_map key t0 (key p)"
  proof (cases "table_map key t0 (key p)")
    case None
    then have "\<forall>q \<in> set (contents t0). key q \<noteq> key p" by (simp add: table_map_def find_None_iff)
    with set chain_subset [OF i] have "\<forall>q \<in> set ?ch. \<not> ?P q" by blast
    with None show ?thesis by (simp add: find_None_iff)
  next
    case (Some d)
    then have d: "d \<in> set (contents t0)" "key d = key p" using table_map_Some [OF wf] by simp_all
    moreover have "d \<noteq> 0" using d(1) assms(5) by (auto simp: wf_table_def)
    moreover have "d \<in> set ?ch" using in_contents_bucket [OF assms(1), of d] d \<open>d \<noteq> 0\<close> set i by simp
    moreover have "\<forall>q \<in> set ?ch. ?P q \<longrightarrow> q = d"
    proof (intro ballI impI)
      fix q assume "q \<in> set ?ch" "?P q"
      then have "q \<in> set (contents t0)" "key q = key d" using chain_subset [OF i] set d(2) by auto
      with d(1) wf show "q = d" by (auto simp: distinct_map dest: inj_onD)
    qed
    ultimately have "find ?P ?ch = Some d" using find_unique [of d ?ch ?P] by blast
    with Some show ?thesis by simp
  qed
  then show ?thesis using lookup_ok [OF assms(5,3)] bucket_of_ok [OF assms(3,2)] find_in_null [OF assms(3), of ?ch 0]
    by (auto simp: hash_lookup_def Let_def find_takeWhile split: if_splits dest: sym)
qed

lemma rehash_ok:
  assumes "wf_table key slot t" "no_fail m" "compute_bucket_size candidate (tuning_of t) \<noteq> 0"
    and "entry_count t + n_buckets t < 2 ^ 64"
  shows "\<exists>t' m'. hash_rehash F t candidate m = Inr (True, t', m') \<and> (\<forall>p. p \<noteq> 0 \<longrightarrow> hash_lookup F t' p = hash_lookup F t p)
    \<and> (\<exists>a b. used_count t + a + b = n_buckets t \<and> entry_count t' = entry_count t + a \<and> n_entries t' = n_entries t
         \<and> n_buckets_used t' = of_nat (used_count t' + b))
    \<and> (hash_table_ok t' \<longleftrightarrow> used_count t = n_buckets t)"
proof -
  define n where "n = compute_bucket_size candidate (tuning_of t)"
  define new where "new = t\<lparr>bucket := replicate n (0, []), n_buckets_used := 0, n_entries := 0\<rparr>"
  have wf: "0 < n_buckets t" "buckets_ok key slot t" "0 \<notin> set (contents t)" "hash_table_ok t" using assms(1) by (simp_all add: wf_table_def)
  have nn: "n_buckets new = n" "0 < n" "contents new = []" "used_count new = 0"
    using assms(3) by (simp_all add: new_def n_buckets_def n_def contents_def chain_def used_count_def)
  have mv: "moved key slot {#} 0 new" using nn
    by (intro movedI [where a = 0 and b = 0]) (simp_all add: buckets_ok_def entry_count_contents, simp_all add: new_def n_buckets_def)
  have src: "\<forall>b \<in> set (drop 0 (bucket t)). (fst b = 0 \<longrightarrow> snd b = []) \<and> 0 \<notin> set (snd b)"
  proof
    fix b assume "b \<in> set (drop 0 (bucket t))"
    then obtain i where i: "i < n_buckets t" "bucket t ! i = b" by (auto simp: in_set_conv_nth n_buckets_def)
    then have b: "fst b = 0 \<longrightarrow> snd b = []" using buckets_okD(1) [OF wf(2) i(1), of "fst b" "snd b"] by (simp add: prod_eq_iff)
    moreover have "0 \<notin> set (chain b)" using chain_subset [OF i(1)] i(2) wf(3) by auto
    ultimately show "(fst b = 0 \<longrightarrow> snd b = []) \<and> 0 \<notin> set (snd b)" by (auto simp: chain_def split: if_splits)
  qed
  let ?z = "length (filter (\<lambda>b. fst b = 0) (bucket t))"
  obtain new' t1 m1 where tr: "transfer_entries F new t False (tl m) = Inr (True, new', t1, m1)"
    "moved key slot (mset (contents t)) ?z new'" "n_buckets new' = n" "n_entries t1 = n_entries t"
    using transfer_ok [OF mv _ no_fail_tl [OF assms(2)], of 0 "n_buckets t" t] nn(1,2) src
    by (auto simp: transfer_entries_def contents_def)
  let ?t = "t1\<lparr>bucket := bucket new', n_buckets_used := n_buckets_used new', free_entry_list := free_entry_list new'\<rparr>"
  have re: "hash_rehash F t candidate m = Inr (True, ?t, m1)"
    using tr(1) assms(2,3) wf(1) by (simp add: hash_rehash_def mem_simps new_def n_def Let_def)
  have t: "contents ?t = contents new'" "entry_count ?t = entry_count new'" "used_count ?t = used_count new'" "n_buckets ?t = n"
    using tr(3) by (simp_all add: contents_def entry_count_def used_count_def n_buckets_def)
  obtain a b where ab: "a + b = ?z" "entry_count new' = entry_count t + a" "n_buckets_used new' = of_nat (used_count new' + b)"
    "buckets_ok key slot new'" "filter_mset (\<lambda>p. p \<noteq> 0) (mset (contents new')) = mset (contents t)"
    using tr(2) by (auto simp: moved_def entry_count_contents)
  have z: "used_count t + ?z = n_buckets t"
    using sum_length_filter_compl [of "\<lambda>b. fst b \<noteq> 0" "bucket t"] by (simp add: used_count_def n_buckets_def)
  have le: "used_count new' \<le> entry_count new'" by (rule used_le_entries)
  have "buckets_ok key slot ?t" using ab(4) t(4) tr(3) by (simp add: buckets_ok_def)
  then have "hash_lookup F ?t p = hash_lookup F t p" if "p \<noteq> 0" for p
    using that lookup_moved [of ?t p t] ab(5) t nn(2) assms(1) by simp
  moreover have "hash_table_ok ?t \<longleftrightarrow> (of_nat (used_count new') :: 64 word) = of_nat (used_count new' + b)
      \<and> (of_nat (entry_count t + a) :: 64 word) = of_nat (entry_count t)"
    using t ab(2,3) tr(4) wf(4) by (simp add: hash_table_ok_def)
  then have "hash_table_ok ?t \<longleftrightarrow> b = 0 \<and> a = 0"
    using assms(4) ab(1,2) z le of_nat_64_eq [of "used_count new'" "used_count new' + b"]
      of_nat_64_eq [of "entry_count t + a" "entry_count t"] by simp
  moreover have "used_count t + a + b = n_buckets t" "entry_count ?t = entry_count t + a" "n_entries ?t = n_entries t"
    "n_buckets_used ?t = of_nat (used_count ?t + b)" using ab t tr(4) z by simp_all
  moreover have "b = 0 \<and> a = 0 \<longleftrightarrow> used_count t = n_buckets t" using ab(1) z by auto
  ultimately show ?thesis using re by blast
qed

end

interpretation raw_null: hash_client_null raw_functions "\<lambda>p. p" raw_hasher "\<lambda>n. 0"
  by unfold_locales (simp_all add: raw_functions_def raw_hasher_def rotr_sz_def)

text \<open>
  C36. Resizing a well-formed table, with memory available and for functions that do not fault on NULL, as those for raw
  pointers: every lookup finds what it found before. The counters suffer from the buckets that were
  not in use: each of them became either an entry without data, which the number of entries does
  not count, or a bucket that is counted as used and is empty. So both counters are right afterwards exactly when every
  bucket was in use before; one of them can be right without that.
\<close>

theorem hash_rehash_counters:
  assumes "hash_client_null F key slot null_slot" "wf_table key slot t" "no_fail m"
    and "compute_bucket_size candidate (tuning_of t) \<noteq> 0" "entry_count t + n_buckets t < 2 ^ 64"
  shows "\<exists>t' m'. hash_rehash F t candidate m = Inr (True, t', m')
    \<and> (\<forall>p. p \<noteq> 0 \<longrightarrow> hash_lookup F t' p = hash_lookup F t p)
    \<and> (\<exists>a b. used_count t + a + b = n_buckets t \<and> entry_count t' = entry_count t + a \<and> n_entries t' = n_entries t
         \<and> n_buckets_used t' = of_nat (used_count t' + b))
    \<and> (hash_table_ok t' \<longleftrightarrow> used_count t = n_buckets t)"
  using assms by (rule hash_client_null.rehash_ok)

theorem hash_rehash_counters_witness:
  "\<exists>t' m'. hash_rehash raw_functions (fresh_table 11 False) 20 [] = Inr (True, t', m')
    \<and> hash_lookup raw_functions t' 0x1000 = Inr 0 \<and> \<not> hash_table_ok t'"
proof -
  have f: "wf_table (\<lambda>p. p) raw_hasher (fresh_table 11 False)" "n_buckets (fresh_table 11 False) = 11"
    by (rule fresh_table_wf, simp)+
  have c: "entry_count (fresh_table 11 False) = 0" "used_count (fresh_table 11 False) = 0"
    by (simp_all add: entry_count_def used_count_def fresh_table_def chain_def)
  have "tuning_of (fresh_table 11 False) = default_tuning" by (simp add: tuning_of_def fresh_table_def)
  then have "compute_bucket_size 20 (tuning_of (fresh_table 11 False)) \<noteq> 0" using initial_size(1) [of 20] by simp
  moreover have "hash_lookup raw_functions (fresh_table 11 False) 0x1000 = Inr 0"
    using raw.lookup_ok [OF f(1), of "0x1000"] fresh_table_wf(2) [of 11 "\<lambda>p. p" False] by simp
  ultimately show ?thesis using hash_rehash_counters [OF raw_null.hash_client_null_axioms f(1), of "[]" 20] f(2) c by auto
qed

end
