(* ===== verification/CuFts.thy ===== *)
theory CuFts
  imports CuHashGrow
begin

text \<open>
  The users of the hash table: \<^verbatim>\<open>lib/hash-pjw.c\<close>, \<^verbatim>\<open>lib/hash-triple.c\<close>, \<^verbatim>\<open>lib/file-set.c\<close> and
  \<^verbatim>\<open>seen_triple\<close> of \<^verbatim>\<open>lib/canonicalize.c\<close> for sets of files, and \<^verbatim>\<open>lib/fts-cycle.c\<close> with
  \<^verbatim>\<open>lib/cycle-check.c\<close> for cycles in a tree of directories. Objects are in a store, a map from
  addresses; NULL is not an address. The address of a new object is a parameter.
\<close>

unbundle bit_operations_syntax

definition deref :: "(ptr \<rightharpoonup> 'a) \<Rightarrow> ptr \<Rightarrow> 'a cu" where
  "deref store p =
     (if p = 0 then Inl (Crash NullDeref) else case store p of None \<Rightarrow> Inl (Crash UseAfterFree) | Some a \<Rightarrow> Inr a)"

subsection \<open>Sets of files\<close>

record F_triple =
  t_name :: string
  t_ino :: "64 word"
  t_dev :: "64 word"

text \<open>The characters are signed; sums wrap around.\<close>

definition schar :: "char \<Rightarrow> 64 word" where
  "schar c = (let k = (of_char c :: int) in of_int (if k < 128 then k else k - 256))"

definition hash_pjw :: "string \<Rightarrow> nat \<Rightarrow> nat" where
  "hash_pjw s tablesize = unat (fold (\<lambda>c h. schar c + (push_bit 9 h OR drop_bit (64 - 9) h)) s 0) mod tablesize"

definition triple_hash :: "(ptr \<rightharpoonup> F_triple) \<Rightarrow> ptr \<Rightarrow> nat \<Rightarrow> nat cu" where
  "triple_hash store x table_size =
     cbind (deref store x) (\<lambda>p. Inr (unat (of_nat (hash_pjw (t_name p) table_size) XOR t_ino p) mod table_size))"

definition triple_compare_ino_str :: "(ptr \<rightharpoonup> F_triple) \<Rightarrow> ptr \<Rightarrow> ptr \<Rightarrow> bool cu" where
  "triple_compare_ino_str store x y =
     cbind (deref store x) (\<lambda>a. cbind (deref store y) (\<lambda>b.
       Inr (t_ino a = t_ino b \<and> t_dev a = t_dev b \<and> t_name a = t_name b)))"

definition triple_functions :: "(ptr \<rightharpoonup> F_triple) \<Rightarrow> hash_functions" where
  "triple_functions store = \<lparr>hasher = triple_hash store, comparator = triple_compare_ino_str store\<rparr>"

text \<open>\<open>adr\<close>: the address of the new triple. The result is the table, the store and the memory.\<close>

definition record_file ::
  "hash_table option \<Rightarrow> F_triple \<Rightarrow> ptr \<Rightarrow> (ptr \<rightharpoonup> F_triple) \<Rightarrow> mem \<Rightarrow> (hash_table option \<times> (ptr \<rightharpoonup> F_triple) \<times> mem) cu" where
  "record_file ht f adr store m =
     (case ht of
        None \<Rightarrow> Inr (None, store, m)
      | Some t \<Rightarrow>
          cbind (xmalloc 24 m) (\<lambda>m1. cbind (xmalloc (length (t_name f) + 1) m1) (\<lambda>m2.
            let store1 = store(adr \<mapsto> f)
            in cbind (hash_insert (triple_functions store1) t adr m2) (\<lambda>(r, t', m3).
                 if r = 0 then xalloc_die
                 else Inr (Some t', if r \<noteq> adr then store1(adr := None) else store1, m3)))))"

definition seen_file :: "hash_table option \<Rightarrow> F_triple \<Rightarrow> ptr \<Rightarrow> (ptr \<rightharpoonup> F_triple) \<Rightarrow> bool cu" where
  "seen_file ht f adr store =
     (case ht of
        None \<Rightarrow> Inr False
      | Some t \<Rightarrow> cbind (hash_lookup (triple_functions (store(adr \<mapsto> f))) t adr) (\<lambda>r. Inr (r \<noteq> 0)))"

definition seen_triple ::
  "hash_table option \<Rightarrow> F_triple \<Rightarrow> ptr \<Rightarrow> ptr \<Rightarrow> (ptr \<rightharpoonup> F_triple) \<Rightarrow> mem
    \<Rightarrow> (bool \<times> hash_table option \<times> (ptr \<rightharpoonup> F_triple) \<times> mem) cu" where
  "seen_triple ht f local adr store m =
     (let (ht1, m1) = (case ht of None \<Rightarrow> hash_initialize 7 None True m | Some t \<Rightarrow> (Some t, m))
      in if ht1 = None then xalloc_die
         else cbind (seen_file ht1 f local store) (\<lambda>seen.
              if seen then Inr (True, ht1, store, m1)
              else cbind (record_file ht1 f adr store m1) (\<lambda>(ht2, store2, m2). Inr (False, ht2, store2, m2))))"

subsection \<open>Cycles of directories\<close>

record dev_ino =
  st_ino :: "64 word"
  st_dev :: "64 word"

record cycle_check_state =
  cc_dev_ino :: dev_ino
  chdir_counter :: "64 word"
  magic :: int

text \<open>\<^verbatim>\<open>CC_MAGIC\<close> is defined in both files, with different values.\<close>

definition CC_MAGIC_init :: int where "CC_MAGIC_init = 9827862"
definition CC_MAGIC :: int where "CC_MAGIC = 9828862"

definition cycle_check_init :: "cycle_check_state \<Rightarrow> cycle_check_state" where
  "cycle_check_init s = s\<lparr>chdir_counter := 0, magic := CC_MAGIC_init\<rparr>"

definition is_zero_or_power_of_two :: "64 word \<Rightarrow> bool" where
  "is_zero_or_power_of_two i \<longleftrightarrow> i AND (i - 1) = 0"

definition cycle_check :: "cycle_check_state \<Rightarrow> dev_ino \<Rightarrow> (bool \<times> cycle_check_state) cu" where
  "cycle_check s sb =
     (if magic s \<noteq> CC_MAGIC then Inl Abort
      else if chdir_counter s \<noteq> 0 \<and> sb = cc_dev_ino s then Inr (True, s)
      else let s1 = s\<lparr>chdir_counter := chdir_counter s + 1\<rparr>
           in if is_zero_or_power_of_two (chdir_counter s1)
              then if chdir_counter s1 = 0 then Inr (True, s1) else Inr (False, s1\<lparr>cc_dev_ino := sb\<rparr>)
              else Inr (False, s1))"

text \<open>\<^verbatim>\<open>CYCLE_CHECK_REFLECT_CHDIR_UP\<close>: the directory is not used.\<close>

definition reflect_chdir_up :: "cycle_check_state \<Rightarrow> dev_ino \<Rightarrow> dev_ino \<Rightarrow> cycle_check_state cu" where
  "reflect_chdir_up s dir subdir =
     (if chdir_counter s = 0 then Inl Abort
      else Inr (if cc_dev_ino s = subdir then s\<lparr>cc_dev_ino := subdir\<rparr> else s))"

record Active_dir =
  ad_node :: dev_ino
  fts_ent :: nat

definition AD_compare :: "(ptr \<rightharpoonup> Active_dir) \<Rightarrow> ptr \<Rightarrow> ptr \<Rightarrow> bool cu" where
  "AD_compare store x y = cbind (deref store x) (\<lambda>a. cbind (deref store y) (\<lambda>b. Inr (ad_node a = ad_node b)))"

definition AD_hash :: "(ptr \<rightharpoonup> Active_dir) \<Rightarrow> ptr \<Rightarrow> nat \<Rightarrow> nat cu" where
  "AD_hash store x table_size = cbind (deref store x) (\<lambda>a. Inr (unat (st_ino (ad_node a)) mod table_size))"

definition AD_functions :: "(ptr \<rightharpoonup> Active_dir) \<Rightarrow> hash_functions" where
  "AD_functions store = \<lparr>hasher = AD_hash store, comparator = AD_compare store\<rparr>"

text \<open>
  \<open>fts_logical\<close>: \<^verbatim>\<open>FTS_TIGHT_CYCLE_CHECK\<close> or \<^verbatim>\<open>FTS_LOGICAL\<close> is set, so that the union
  \<^verbatim>\<open>fts_cycle\<close> is a hash table; otherwise it is the state of \<^verbatim>\<open>cycle_check\<close>.
\<close>

record fts =
  fts_logical :: bool
  cycle_ht :: hash_table
  cycle_state :: cycle_check_state
  active :: "ptr \<rightharpoonup> Active_dir"

definition setup_dir :: "fts \<Rightarrow> mem \<Rightarrow> bool \<times> fts \<times> mem" where
  "setup_dir f m =
     (if fts_logical f
      then (case hash_initialize 31 None True m of
              (None, m1) \<Rightarrow> (False, f, m1)
            | (Some t, m1) \<Rightarrow> (True, f\<lparr>cycle_ht := t\<rparr>, m1))
      else let (ok, m1) = malloc m
           in if \<not> ok then (False, f, m1) else (True, f\<lparr>cycle_state := cycle_check_init (cycle_state f)\<rparr>, m1))"

text \<open>
  \<^verbatim>\<open>enter_dir\<close> for entry number \<open>ent\<close> with status \<open>st\<close>; \<open>adr\<close> is the address of the new object.
  The second component of the result is the entry that closes a cycle.
\<close>

definition enter_dir :: "fts \<Rightarrow> nat \<Rightarrow> dev_ino \<Rightarrow> ptr \<Rightarrow> mem \<Rightarrow> (bool \<times> nat option \<times> fts \<times> mem) cu" where
  "enter_dir f ent st adr m =
     (if fts_logical f
      then let (ok, m1) = malloc m
           in if \<not> ok then Inr (False, None, f, m1)
              else let store1 = (active f)(adr \<mapsto> \<lparr>ad_node = st, fts_ent = ent\<rparr>)
                   in cbind (hash_insert (AD_functions store1) (cycle_ht f) adr m1) (\<lambda>(r, t', m2).
                        if r = adr then Inr (True, None, f\<lparr>cycle_ht := t', active := store1\<rparr>, m2)
                        else if r = 0 then Inr (False, None, f\<lparr>cycle_ht := t'\<rparr>, m2)
                        else cbind (deref store1 r) (\<lambda>a. Inr (True, Some (fts_ent a), f\<lparr>cycle_ht := t'\<rparr>, m2)))
      else cbind (cycle_check (cycle_state f) st) (\<lambda>(cyc, s'). Inr (True, if cyc then Some ent else None, f\<lparr>cycle_state := s'\<rparr>, m)))"

text \<open>\<^verbatim>\<open>leave_dir\<close>: \<open>local\<close> is the address of its variable; \<open>parent\<close> the status of the parent, if its level is not negative.\<close>

definition leave_dir :: "fts \<Rightarrow> dev_ino \<Rightarrow> dev_ino option \<Rightarrow> ptr \<Rightarrow> mem \<Rightarrow> (fts \<times> mem) cu" where
  "leave_dir f st parent local m =
     (if fts_logical f
      then cbind (hash_delete (AD_functions ((active f)(local \<mapsto> \<lparr>ad_node = st, fts_ent = 0\<rparr>))) (cycle_ht f) local m) (\<lambda>(r, t', m1).
             if r = 0 then Inl Abort else Inr (f\<lparr>cycle_ht := t', active := (active f)(r := None)\<rparr>, m1))
      else case parent of
             None \<Rightarrow> Inr (f, m)
           | Some d \<Rightarrow> cbind (reflect_chdir_up (cycle_state f) d st) (\<lambda>s'. Inr (f\<lparr>cycle_state := s'\<rparr>, m)))"

text \<open>The objects that are released when the walk ends.\<close>

definition free_dir :: "fts \<Rightarrow> ptr list" where
  "free_dir f = (if fts_logical f then hash_free (cycle_ht f) else [])"

subsection \<open>The first insertion\<close>

text \<open>Inserting into a bucket that is not in use calls the function of the user with NULL.\<close>

lemma insert_null:
  assumes "bucket_of F t p = Inr i" "bucket t ! i = (0, [])" "p \<noteq> 0" "comparator F p 0 = Inl e"
  shows "hash_insert F t p m = Inl e"
  using assms by (simp add: hash_insert_def hash_find_entry_def same_entry_def)

lemma fresh_bucket: "i < n \<Longrightarrow> bucket (fresh_table n fr) ! i = (0, [])"
  by (simp add: fresh_table_def)

text \<open>
  C40. No walk through a directory tree gets past its first directory: the walk that follows
  links reads the object at NULL, and the other one stops at the assertion on the
  number that \<^verbatim>\<open>cycle_check_init\<close> stored.
\<close>

theorem fts_first_directory:
  assumes "setup_dir f m = (True, f1, m1)" "no_fail m" "adr \<noteq> 0"
  shows "enter_dir f1 ent st adr m1 = Inl (if fts_logical f then Crash NullDeref else Abort)"
proof (cases "fts_logical f")
  case True
  let ?n = "compute_bucket_size 31 default_tuning"
  have m1: "m1 = tl (tl m)" and f1: "f1 = f\<lparr>cycle_ht := fresh_table ?n True\<rparr>"
    using assms(1) True hash_initialize_default [of 31 m True] assms(2) by (simp_all add: setup_dir_def)
  let ?F = "AD_functions ((active f)(adr \<mapsto> \<lparr>ad_node = st, fts_ent = ent\<rparr>))"
  have n: "n_buckets (fresh_table ?n True) = ?n" "0 < ?n" using initial_size(1) [of 31] by (simp_all add: n_buckets_def fresh_table_def)
  have "bucket_of ?F (fresh_table ?n True) adr = Inr (unat (st_ino st) mod ?n)"
    using n assms(3) by (simp add: bucket_of_def AD_functions_def AD_hash_def deref_def)
  moreover have "comparator ?F adr 0 = Inl (Crash NullDeref)" using assms(3) by (simp add: AD_functions_def AD_compare_def deref_def)
  ultimately have "hash_insert ?F (fresh_table ?n True) adr m' = Inl (Crash NullDeref)" for m'
    using fresh_bucket [of "unat (st_ino st) mod ?n" ?n True] n(2) assms(3) by (intro insert_null) simp_all
  with True f1 m1 assms(2) show ?thesis by (simp add: enter_dir_def mem_simps)
next
  case False
  then show ?thesis using assms(1,2)
    by (auto simp: setup_dir_def mem_simps enter_dir_def cycle_check_def cycle_check_init_def CC_MAGIC_def CC_MAGIC_init_def)
qed

definition ex_fts :: fts where
  "ex_fts = \<lparr>fts_logical = False, cycle_ht = fresh_table 1 False,
     cycle_state = \<lparr>cc_dev_ino = \<lparr>st_ino = 0, st_dev = 0\<rparr>, chdir_counter = 0, magic = 0\<rparr>, active = Map.empty\<rparr>"

theorem fts_first_directory_witness:
  "fst (setup_dir ex_fts []) \<and> enter_dir (fst (snd (setup_dir ex_fts []))) 1 \<lparr>st_ino = 2, st_dev = 5\<rparr> 0x1000 [] = Inl Abort"
  using fts_first_directory [of ex_fts "[]" "fst (snd (setup_dir ex_fts []))" "[]" "0x1000" 1 "\<lparr>st_ino = 2, st_dev = 5\<rparr>"]
  by (simp add: setup_dir_def ex_fts_def malloc_def)

text \<open>The set of files has the same defect: the first file cannot be recorded.\<close>

lemma seen_triple_first:
  assumes "no_fail m" "adr \<noteq> 0" "local \<noteq> 0"
  shows "seen_triple None f local adr store m = Inl (Crash NullDeref)"
proof -
  let ?n = "compute_bucket_size 7 default_tuning" and ?F = "\<lambda>p. triple_functions (store(p \<mapsto> f))"
  let ?t = "fresh_table ?n True"
  define h where "h = unat (of_nat (hash_pjw (t_name f) ?n) XOR t_ino f) mod ?n"
  have n: "n_buckets ?t = ?n" "0 < ?n" using initial_size(1) [of 7] by (simp_all add: n_buckets_def fresh_table_def)
  have b: "bucket_of (?F p) ?t p = Inr h" "h < ?n" if "p \<noteq> 0" for p
    using n that by (simp_all add: bucket_of_def triple_functions_def triple_hash_def deref_def h_def)
  have "hash_lookup (?F local) ?t local = Inr 0"
    using b [OF assms(3)] fresh_bucket by (simp add: hash_lookup_def chain_def)
  moreover have "hash_insert (?F adr) ?t adr m' = Inl (Crash NullDeref)" for m'
    using b [OF assms(2)] fresh_bucket assms(2)
    by (intro insert_null) (simp_all add: triple_functions_def triple_compare_ino_str_def deref_def)
  ultimately show ?thesis using assms(1)
    by (simp add: seen_triple_def hash_initialize_default seen_file_def record_file_def xmalloc_def mem_simps)
qed

subsection \<open>Detecting a cycle\<close>

lemma and_pred_nat: "0 < n \<Longrightarrow> n AND (n - 1) = (0 :: nat) \<longleftrightarrow> (\<exists>k. n = 2 ^ k)"
proof (induction n rule: less_induct)
  case (less n)
  show ?case
  proof (cases "even n")
    case True
    then obtain m where m: "n = 2 * m" "0 < m" using less.prems by auto
    then have "n - 1 = 2 * (m - 1) + 1" by simp
    then have "n AND (n - 1) = 2 * (m AND (m - 1))" using m(1) and_rec [of "2 * m" "2 * (m - 1) + 1"] by simp
    moreover have "(\<exists>k. n = 2 ^ k) \<longleftrightarrow> (\<exists>k. m = 2 ^ k)"
    proof
      assume "\<exists>k. n = 2 ^ k"
      then obtain k where "2 * m = 2 ^ k" using m(1) by auto
      then show "\<exists>k. m = 2 ^ k" using m(2) by (cases k) auto
    qed (auto simp: m(1) simp flip: power_Suc)
    ultimately show ?thesis using less.IH [of m] m by simp
  next
    case False
    then obtain m where m: "n = 2 * m + 1" by (auto elim: oddE)
    then have "n AND (n - 1) = 2 * m" using and_rec [of "2 * m + 1" "2 * m"] by simp
    moreover have "(\<exists>k. n = 2 ^ k) \<longleftrightarrow> m = 0"
    proof
      assume "\<exists>k. n = 2 ^ k"
      then obtain k where "2 * m + 1 = (2 :: nat) ^ k" using m by auto
      then show "m = 0" by (cases k) (auto, presburger)
    qed (auto simp: m intro: exI [of _ 0])
    ultimately show ?thesis by simp
  qed
qed

lemma power_of_two_word:
  assumes "0 < c" "c < 2 ^ 64"
  shows "is_zero_or_power_of_two (of_nat c) \<longleftrightarrow> (\<exists>k. c = 2 ^ k)"
proof -
  have "unat (of_nat c :: 64 word) = c" using assms(2) by (simp add: unat_of_nat take_bit_nat_eq_self)
  moreover have "unat (of_nat c - 1 :: 64 word) = c - 1"
  proof -
    have "(of_nat c - 1 :: 64 word) = of_nat (c - 1)" using assms(1) by (simp add: of_nat_diff)
    then show ?thesis using assms(2) by (simp add: unat_of_nat take_bit_nat_eq_self)
  qed
  ultimately have "unat (of_nat c AND (of_nat c - 1) :: 64 word) = c AND (c - 1)" by (simp add: unsigned_and_eq)
  then show ?thesis using and_pred_nat [OF assms(1)] by (metis is_zero_or_power_of_two_def unat_eq_zero)
qed

text \<open>The index of the first call that reports a cycle, for a sequence of directories.\<close>

fun cycle_run :: "cycle_check_state \<Rightarrow> dev_ino list \<Rightarrow> nat option cu" where
  "cycle_run s [] = Inr None"
| "cycle_run s (x # xs) =
     cbind (cycle_check s x) (\<lambda>(found, s').
       if found then Inr (Some 0) else cbind (cycle_run s' xs) (\<lambda>r. Inr (map_option Suc r)))"

text \<open>After \<open>c\<close> calls the directory of the last call whose number is a power of two is stored.\<close>

definition cycle_inv :: "(nat \<Rightarrow> dev_ino) \<Rightarrow> nat \<Rightarrow> cycle_check_state \<Rightarrow> bool" where
  "cycle_inv walk c s \<longleftrightarrow> magic s = CC_MAGIC \<and> chdir_counter s = of_nat c
     \<and> (\<forall>k. 2 ^ k \<le> c \<and> c < 2 ^ Suc k \<longrightarrow> cc_dev_ino s = walk (2 ^ k - 1))"

lemma log_ex: "0 < c \<Longrightarrow> \<exists>k. 2 ^ k \<le> c \<and> c < (2 :: nat) ^ Suc k"
  using ex_power_ivl1 [of 2 c] by auto

lemma log_unique: "\<lbrakk>2 ^ k \<le> c; c < (2 :: nat) ^ Suc k; 2 ^ j \<le> c; c < 2 ^ Suc j\<rbrakk> \<Longrightarrow> j = k"
  by (meson le_less_trans less_Suc_eq_le nat_power_less_imp_less order.antisym zero_less_numeral)

lemma cycle_step:
  assumes "cycle_inv walk c s" "Suc c < 2 ^ 64"
  shows "cycle_check s (walk c) = Inr (True, s) \<and> (\<exists>j < c. walk j = walk c)
    \<or> (\<exists>s'. cycle_check s (walk c) = Inr (False, s') \<and> cycle_inv walk (Suc c) s'
        \<and> (\<forall>k. 2 ^ k \<le> c \<and> c < 2 ^ Suc k \<longrightarrow> walk c \<noteq> walk (2 ^ k - 1)))"
proof -
  have s: "magic s = CC_MAGIC" "chdir_counter s = of_nat c" using assms(1) by (simp_all add: cycle_inv_def)
  have nz: "(of_nat c :: 64 word) = 0 \<longleftrightarrow> c = 0" "(of_nat (Suc c) :: 64 word) \<noteq> 0"
    using of_nat_64_eq [of c 0] of_nat_64_eq [of "Suc c" 0] assms(2) by simp_all
  show ?thesis
  proof (cases "0 < c \<and> walk c = cc_dev_ino s")
    case True
    then obtain k where k: "2 ^ k \<le> c" "c < 2 ^ Suc k" using log_ex by blast
    with assms(1) True have "walk (2 ^ k - 1) = walk c" by (simp add: cycle_inv_def)
    moreover have "2 ^ k - 1 < c" using k(1) by (metis One_nat_def diff_less le_trans less_le_trans not_le zero_less_one zero_less_numeral zero_less_power)
    ultimately show ?thesis using True s nz by (auto simp: cycle_check_def)
  next
    case False
    define s1 where "s1 = s\<lparr>chdir_counter := of_nat (Suc c), cc_dev_ino := (if \<exists>k. Suc c = 2 ^ k then walk c else cc_dev_ino s)\<rparr>"
    have "cycle_check s (walk c) = Inr (False, s1)"
      using False s nz power_of_two_word [of "Suc c"] assms(2)
      by (auto simp: cycle_check_def s1_def Let_def add.commute)
    moreover have "cycle_inv walk (Suc c) s1"
    proof -
      have "cc_dev_ino s1 = walk (2 ^ k - 1)" if k: "2 ^ k \<le> Suc c" "Suc c < 2 ^ Suc k" for k
      proof (cases "\<exists>j. Suc c = 2 ^ j")
        case True
        then obtain j where j: "Suc c = 2 ^ j" by blast
        then have "j = k" using k log_unique [of k "Suc c" j] by simp
        then have "2 ^ k - 1 = c" using j by simp
        with True show ?thesis by (simp add: s1_def)
      next
        case False
        then have "2 ^ k \<le> c" using k(1) by (metis le_Suc_eq)
        with k(2) assms(1) False show ?thesis by (auto simp: cycle_inv_def s1_def)
      qed
      with s show ?thesis by (auto simp: cycle_inv_def s1_def)
    qed
    moreover have "walk c \<noteq> walk (2 ^ k - 1)" if "2 ^ k \<le> c" "c < 2 ^ Suc k" for k
    proof -
      have "0 < c" using that(1) by (metis le_eq_less_or_eq not_le zero_less_numeral zero_less_power le_trans)
      with that assms(1) False show ?thesis by (auto simp: cycle_inv_def)
    qed
    ultimately show ?thesis by blast
  qed
qed

lemma cycle_run_ok:
  assumes "cycle_inv walk c s" "c + n < 2 ^ 64"
  shows "\<exists>r. cycle_run s (map walk [c..<c + n]) = Inr r
    \<and> (\<forall>i. r = Some i \<longrightarrow> i < n \<and> (\<exists>j < c + i. walk j = walk (c + i)))
    \<and> (r = None \<longrightarrow> (\<forall>i k. c \<le> i \<and> i < c + n \<and> 2 ^ k \<le> i \<and> i < 2 ^ Suc k \<longrightarrow> walk i \<noteq> walk (2 ^ k - 1)))"
  using assms
proof (induction n arbitrary: c s)
  case (Suc n)
  have up: "[c..<c + Suc n] = c # [Suc c..<Suc c + n]" by (simp add: upt_conv_Cons)
  have "Suc c < 2 ^ 64" using Suc.prems(2) by simp
  from cycle_step [OF Suc.prems(1) this] consider
    (found) "cycle_check s (walk c) = Inr (True, s)" "\<exists>j < c. walk j = walk c"
  | (on) s' where "cycle_check s (walk c) = Inr (False, s')" "cycle_inv walk (Suc c) s'"
      "\<forall>k. 2 ^ k \<le> c \<and> c < 2 ^ Suc k \<longrightarrow> walk c \<noteq> walk (2 ^ k - 1)" by blast
  then show ?case
  proof cases
    case found
    then have "cycle_run s (map walk [c..<c + Suc n]) = Inr (Some 0)" unfolding up by simp
    with found(2) show ?thesis by simp
  next
    case on
    from Suc.IH [OF on(2)] Suc.prems(2) obtain r where r: "cycle_run s' (map walk [Suc c..<Suc c + n]) = Inr r"
      "\<forall>i. r = Some i \<longrightarrow> i < n \<and> (\<exists>j < Suc c + i. walk j = walk (Suc c + i))"
      "r = None \<longrightarrow> (\<forall>i k. Suc c \<le> i \<and> i < Suc c + n \<and> 2 ^ k \<le> i \<and> i < 2 ^ Suc k \<longrightarrow> walk i \<noteq> walk (2 ^ k - 1))" by auto
    have "cycle_run s (map walk [c..<c + Suc n]) = Inr (map_option Suc r)" using on(1) r(1) unfolding up by simp
    moreover have "walk i \<noteq> walk (2 ^ k - 1)" if "r = None" "c \<le> i" "i < c + Suc n" "2 ^ k \<le> i" "i < 2 ^ Suc k" for i k
      using that on(3) r(3) by (cases "i = c") auto
    ultimately show ?thesis using r(2) by auto
  qed
qed auto

text \<open>
  C23. With the number that it expects, \<^verbatim>\<open>cycle_check\<close> reports only directories that were
  entered before; when the walk turns forever through a cycle of length \<open>p\<close> that it has entered before
  step \<open>2 ^ k\<close>, with \<open>p \<le> 2 ^ k\<close>, it reports it within \<open>2 ^ k + p\<close> steps.
\<close>

theorem cycle_check_detects:
  assumes "magic s = CC_MAGIC" "chdir_counter s = 0" "k < 62"
    and "\<forall>i \<ge> mu. walk (i + p) = walk i" "0 < p" "p \<le> 2 ^ k" "mu < 2 ^ k"
  shows "\<exists>n j. cycle_run s (map walk [0..<2 ^ k + p]) = Inr (Some n) \<and> n < 2 ^ k + p \<and> j < n \<and> walk j = walk n"
proof -
  have inv: "cycle_inv walk 0 s" using assms(1,2) by (simp add: cycle_inv_def)
  have "(2 :: nat) ^ k \<le> 2 ^ 62" using assms(3) by (intro power_increasing) simp_all
  then have "0 + (2 ^ k + p) < 2 ^ 64" using assms(6) by simp
  from cycle_run_ok [OF inv this] obtain r where r: "cycle_run s (map walk [0..<2 ^ k + p]) = Inr r"
    "\<forall>i. r = Some i \<longrightarrow> i < 2 ^ k + p \<and> (\<exists>j < i. walk j = walk i)"
    "r = None \<longrightarrow> (\<forall>i k'. i < 2 ^ k + p \<and> 2 ^ k' \<le> i \<and> i < 2 ^ Suc k' \<longrightarrow> walk i \<noteq> walk (2 ^ k' - 1))" by auto
  have "mu \<le> 2 ^ k - 1" using assms(7) by simp
  then have "walk (2 ^ k - 1 + p) = walk (2 ^ k - 1)" using assms(4) by blast
  moreover have "2 ^ k \<le> 2 ^ k - 1 + p" "2 ^ k - 1 + p < 2 ^ Suc k" "2 ^ k - 1 + p < 2 ^ k + p"
    unfolding power_Suc using assms(5,6) one_le_power [of "2 :: nat" k] by linarith+
  ultimately have "r \<noteq> None" using r(3) by blast
  with r(1,2) show ?thesis by auto
qed

theorem cycle_check_detects_witness:
  "\<exists>n j. cycle_run \<lparr>cc_dev_ino = \<lparr>st_ino = 0, st_dev = 0\<rparr>, chdir_counter = 0, magic = 9828862\<rparr>
     (map (\<lambda>i. \<lparr>st_ino = of_nat (i mod 2), st_dev = 1\<rparr>) [0..<2 ^ 1 + 2]) = Inr (Some n) \<and> n < 4 \<and> j < n"
  using cycle_check_detects [of "\<lparr>cc_dev_ino = \<lparr>st_ino = 0, st_dev = 0\<rparr>, chdir_counter = 0, magic = 9828862\<rparr>" 1 0
      "\<lambda>i. \<lparr>st_ino = of_nat (i mod 2), st_dev = 1\<rparr>" 2]
  by (auto simp: CC_MAGIC_def)

end
