(* ===== verification/CuMode.thy ===== *)
theory CuMode
  imports CuBase CStdio
begin

text \<open>
  \<^verbatim>\<open>lib/modechange.c\<close>: reading a file mode, given in octal or by symbols, and applying it; and its user
  \<^verbatim>\<open>src/mkfifo.c\<close>. The text of a mode is a part of the program's arguments, which lie one behind the other in
  memory; it is read backwards too, so that the bytes before it are an argument of the model. A position is
  an index into both together. The loop over the operations of a clause may run forever, so that the result
  of reading a mode is an option. Reading before the first of these bytes is a fault.
\<close>

unbundle bit_operations_syntax

type_synonym mode_t = "32 word"

subsection \<open>The bits of a mode\<close>

definition S_ISUID :: mode_t where "S_ISUID = 0x800"
definition S_ISGID :: mode_t where "S_ISGID = 0x400"
definition S_ISVTX :: mode_t where "S_ISVTX = 0x200"
definition S_IRUSR :: mode_t where "S_IRUSR = 0x100"
definition S_IWUSR :: mode_t where "S_IWUSR = 0x80"
definition S_IXUSR :: mode_t where "S_IXUSR = 0x40"
definition S_IRGRP :: mode_t where "S_IRGRP = 0x20"
definition S_IWGRP :: mode_t where "S_IWGRP = 0x10"
definition S_IXGRP :: mode_t where "S_IXGRP = 0x8"
definition S_IROTH :: mode_t where "S_IROTH = 0x4"
definition S_IWOTH :: mode_t where "S_IWOTH = 0x2"
definition S_IXOTH :: mode_t where "S_IXOTH = 0x1"
definition S_IRWXU :: mode_t where "S_IRWXU = S_IRUSR OR S_IWUSR OR S_IXUSR"
definition S_IRWXG :: mode_t where "S_IRWXG = S_IRGRP OR S_IWGRP OR S_IXGRP"
definition S_IRWXO :: mode_t where "S_IRWXO = S_IROTH OR S_IWOTH OR S_IXOTH"
definition S_IRWXUGO :: mode_t where "S_IRWXUGO = S_IRWXU OR S_IRWXG OR S_IRWXO"
definition CHMOD_MODE_BITS :: mode_t where
  "CHMOD_MODE_BITS = S_ISUID OR S_ISGID OR S_ISVTX OR S_IRWXU OR S_IRWXG OR S_IRWXO"
definition R_ALL :: mode_t where "R_ALL = S_IRUSR OR S_IRGRP OR S_IROTH"
definition W_ALL :: mode_t where "W_ALL = S_IWUSR OR S_IWGRP OR S_IWOTH"
definition X_ALL :: mode_t where "X_ALL = S_IXUSR OR S_IXGRP OR S_IXOTH"
definition ALLM :: nat where "ALLM = 4095"

lemmas mode_bits_defs = S_ISUID_def S_ISGID_def S_ISVTX_def S_IRUSR_def S_IWUSR_def S_IXUSR_def
  S_IRGRP_def S_IWGRP_def S_IXGRP_def S_IROTH_def S_IWOTH_def S_IXOTH_def
  S_IRWXU_def S_IRWXG_def S_IRWXO_def S_IRWXUGO_def CHMOD_MODE_BITS_def R_ALL_def W_ALL_def X_ALL_def

text \<open>The octal values of the header are those of the system on Linux, where the conversion is the identity.\<close>

definition octal_to_mode :: "nat \<Rightarrow> mode_t" where
  "octal_to_mode octal = of_nat octal"

subsection \<open>Reading a mode\<close>

datatype mode_flag = MODE_DONE | MODE_ORDINARY_CHANGE | MODE_X_IF_ANY_X | MODE_COPY_EXISTING

record mode_change =
  mc_op :: char
  mc_flag :: mode_flag
  mc_affected :: mode_t
  mc_value :: mode_t
  mc_mentioned :: mode_t

text \<open>The last element of an array; only its flag is set.\<close>

definition mode_done :: mode_change where
  "mode_done = \<lparr>mc_op = NUL, mc_flag = MODE_DONE, mc_affected = 0, mc_value = 0, mc_mentioned = 0\<rparr>"

definition make_node_op_equals :: "mode_t \<Rightarrow> mode_t \<Rightarrow> mem \<Rightarrow> (mode_change list \<times> mem) cu" where
  "make_node_op_equals new_mode ment m =
     cbind (xmalloc 32 m) (\<lambda>m1.
       Inr ([\<lparr>mc_op = CHR ''='', mc_flag = MODE_ORDINARY_CHANGE, mc_affected = CHMOD_MODE_BITS,
              mc_value = new_mode, mc_mentioned = ment\<rparr>, mode_done], m1))"

definition isoctal :: "char \<Rightarrow> bool" where
  "isoctal c \<longleftrightarrow> 48 \<le> (of_char c :: nat) \<and> (of_char c :: nat) < 56"

definition char_at :: "string \<Rightarrow> nat \<Rightarrow> char" where
  "char_at s k = (if k < length s then s ! k else NUL)"

text \<open>The loop over the octal digits; its body runs before the test.\<close>

fun octal_loop :: "string \<Rightarrow> nat \<Rightarrow> (nat \<times> string) option" where
  "octal_loop [] octal_mode = Some (octal_mode, [])"
| "octal_loop (c # s) octal_mode =
     (let v = 8 * octal_mode + of_char c - 48
      in if ALLM < v then None
         else if isoctal (char_at s 0) then octal_loop s v else Some (v, s))"

definition is_op :: "char \<Rightarrow> bool" where
  "is_op c \<longleftrightarrow> c = CHR ''='' \<or> c = CHR ''+'' \<or> c = CHR ''-''"

text \<open>\<^verbatim>\<open>[ugoa]*\<close>: the position of the operator and the affected bits; \<open>None\<close> for \<^verbatim>\<open>goto invalid\<close>.\<close>

fun who_loop :: "string \<Rightarrow> nat \<Rightarrow> mode_t \<Rightarrow> (nat \<times> mode_t) option" where
  "who_loop [] k affected = None"
| "who_loop (c # s) k affected =
     (if c = CHR ''u'' then who_loop s (k + 1) (affected OR S_ISUID OR S_IRWXU)
      else if c = CHR ''g'' then who_loop s (k + 1) (affected OR S_ISGID OR S_IRWXG)
      else if c = CHR ''o'' then who_loop s (k + 1) (affected OR S_ISVTX OR S_IRWXO)
      else if c = CHR ''a'' then who_loop s (k + 1) (affected OR CHMOD_MODE_BITS)
      else if is_op c then Some (k, affected)
      else None)"

fun perm_loop :: "string \<Rightarrow> nat \<Rightarrow> mode_t \<Rightarrow> mode_flag \<Rightarrow> nat \<times> mode_t \<times> mode_flag" where
  "perm_loop [] k v fl = (k, v, fl)"
| "perm_loop (c # s) k v fl =
     (if c = CHR ''r'' then perm_loop s (k + 1) (v OR R_ALL) fl
      else if c = CHR ''w'' then perm_loop s (k + 1) (v OR W_ALL) fl
      else if c = CHR ''x'' then perm_loop s (k + 1) (v OR X_ALL) fl
      else if c = CHR ''X'' then perm_loop s (k + 1) v MODE_X_IF_ANY_X
      else if c = CHR ''s'' then perm_loop s (k + 1) (v OR S_ISUID OR S_ISGID) fl
      else if c = CHR ''t'' then perm_loop s (k + 1) (v OR S_ISVTX) fl
      else (k, v, fl))"

text \<open>
  One operation, from the position of its operator: the operator is looked at again as if it were
  the first character behind it, and the permissions are read from the position before it.
\<close>

definition one_change :: "string \<Rightarrow> mode_t \<Rightarrow> nat \<Rightarrow> (nat \<times> mode_change) cu" where
  "one_change s affected k =
     (let c = char_at s k;
          mk = (\<lambda>v fl. \<lparr>mc_op = c, mc_flag = fl, mc_affected = affected, mc_value = v,
                  mc_mentioned = (if affected \<noteq> 0 then affected AND v else v)\<rparr>)
      in if c = CHR ''u'' then Inr (k, mk S_IRWXU MODE_COPY_EXISTING)
         else if c = CHR ''g'' then Inr (k, mk S_IRWXG MODE_COPY_EXISTING)
         else if c = CHR ''o'' then Inr (k, mk S_IRWXO MODE_COPY_EXISTING)
         else if k = 0 then Inl (Crash OutOfBounds)
         else let (k', v, fl) = perm_loop (drop (k - 1) s) (k - 1) 0 MODE_ORDINARY_CHANGE
              in Inr (k', mk v fl))"

partial_function (option) ops_loop ::
  "string \<Rightarrow> nat \<Rightarrow> mode_t \<Rightarrow> nat \<Rightarrow> mode_change list \<Rightarrow> (nat \<times> mode_change list) cu option" where
  [code]: "ops_loop s needed affected k mc =
     (case one_change s affected k of
        Inl e \<Rightarrow> Some (Inl e)
      | Inr (k', ch) \<Rightarrow>
          if needed \<le> length mc then Some (Inl (Crash BufOverflow))
          else if is_op (char_at s k') then ops_loop s needed affected k' (mc @ [ch])
          else Some (Inr (k', mc @ [ch])))"

partial_function (option) clause_loop ::
  "string \<Rightarrow> nat \<Rightarrow> nat \<Rightarrow> mode_change list \<Rightarrow> mode_change list option cu option" where
  [code]: "clause_loop s needed k mc =
     (case who_loop (drop k s) k 0 of
        None \<Rightarrow> Some (Inr None)
      | Some (k1, affected) \<Rightarrow>
          Option.bind (ops_loop s needed affected k1 mc) (\<lambda>r.
            case r of
              Inl e \<Rightarrow> Some (Inl e)
            | Inr (k2, mc') \<Rightarrow>
                if char_at s k2 = CHR '','' then clause_loop s needed (k2 + 1) mc'
                else if char_at s k2 \<noteq> NUL then Some (Inr None)
                else if needed \<le> length mc' then Some (Inl (Crash BufOverflow))
                else Some (Inr (Some (mc' @ [mode_done])))))"

text \<open>
  The result of \<^verbatim>\<open>mode_compile\<close> is \<open>Inr (None, _)\<close> for NULL. \<open>before\<close> are the bytes before the text \<open>s\<close>. The size of
  an element is 16 bytes.
\<close>

definition mode_compile :: "string \<Rightarrow> string \<Rightarrow> mem \<Rightarrow> (mode_change list option \<times> mem) cu option" where
  "mode_compile before s m =
     (if isoctal (char_at s 0)
      then case octal_loop s 0 of
             None \<Rightarrow> Some (Inr (None, m))
           | Some (octal, rest) \<Rightarrow>
               if rest \<noteq> [] then Some (Inr (None, m))
               else let mode = octal_to_mode octal;
                        ment = (mode AND (S_ISUID OR S_ISGID)) OR S_ISVTX OR S_IRWXUGO
                    in Some (cbind (make_node_op_equals mode ment m) (\<lambda>(mc, m1). Inr (Some mc, m1)))
      else let needed = 1 + length (filter is_op s)
           in case xnmalloc needed 16 m of
                Inl e \<Rightarrow> Some (Inl e)
              | Inr m1 \<Rightarrow> Option.bind (clause_loop (before @ s) needed (length before) []) (\<lambda>r.
                           Some (cbind r (\<lambda>mc. Inr (mc, m1)))))"

subsection \<open>Applying a mode\<close>

text \<open>The value of a change, before the umask: copied bits, and execute bits under a condition.\<close>

definition change_value :: "mode_change \<Rightarrow> bool \<Rightarrow> mode_t \<Rightarrow> mode_t" where
  "change_value ch dir newmode =
     (case mc_flag ch of
        MODE_COPY_EXISTING \<Rightarrow>
          (let v = mc_value ch AND newmode
           in v OR ((if v AND R_ALL \<noteq> 0 then R_ALL else 0)
                 OR (if v AND W_ALL \<noteq> 0 then W_ALL else 0)
                 OR (if v AND X_ALL \<noteq> 0 then X_ALL else 0)))
      | MODE_X_IF_ANY_X \<Rightarrow> if newmode AND X_ALL \<noteq> 0 \<or> dir then mc_value ch OR X_ALL else mc_value ch
      | _ \<Rightarrow> mc_value ch)"

text \<open>One change: the new mode and the bits that changes care about.\<close>

definition adjust_step :: "bool \<Rightarrow> mode_t \<Rightarrow> mode_change \<Rightarrow> mode_t \<times> mode_t \<Rightarrow> mode_t \<times> mode_t" where
  "adjust_step dir umask_value ch = (\<lambda>(newmode, mode_bits).
     let affected = mc_affected ch;
         omit_change = (if dir then S_ISUID OR S_ISGID else 0) AND NOT (mc_mentioned ch);
         v = change_value ch dir newmode
               AND (if affected \<noteq> 0 then affected else NOT umask_value) AND NOT omit_change
     in if mc_op ch = CHR ''='' then
          (let preserved = (if affected \<noteq> 0 then NOT affected else 0) OR omit_change
           in ((newmode AND preserved) OR v, mode_bits OR (CHMOD_MODE_BITS AND NOT preserved)))
        else if mc_op ch = CHR ''+'' then (v, mode_bits OR v)
        else if mc_op ch = CHR ''-'' then (newmode AND NOT v, mode_bits OR v)
        else (newmode, mode_bits))"

fun adjust_loop :: "bool \<Rightarrow> mode_t \<Rightarrow> mode_change list \<Rightarrow> mode_t \<times> mode_t \<Rightarrow> (mode_t \<times> mode_t) cu" where
  "adjust_loop dir umask_value [] st = Inl (Crash OutOfBounds)"
| "adjust_loop dir umask_value (ch # changes) st =
     (if mc_flag ch = MODE_DONE then Inr st
      else adjust_loop dir umask_value changes (adjust_step dir umask_value ch st))"

definition mode_adjust :: "mode_t \<Rightarrow> bool \<Rightarrow> mode_t \<Rightarrow> mode_change list \<Rightarrow> (mode_t \<times> mode_t) cu" where
  "mode_adjust oldmode dir umask_value changes =
     adjust_loop dir umask_value changes (oldmode AND CHMOD_MODE_BITS, 0)"

subsection \<open>mkfifo\<close>

text \<open>
  The calls of the system are a parameter. \<^verbatim>\<open>mkfifo\<close> returns whether it succeeded, \<^verbatim>\<open>umask\<close> the
  previous mask.
\<close>

record 'k fifo_sys =
  sys_umask :: "mode_t \<Rightarrow> 'k \<Rightarrow> mode_t \<times> 'k"
  sys_mkfifo :: "string \<Rightarrow> mode_t \<Rightarrow> 'k \<Rightarrow> bool \<times> 'k"
  sys_setfscreatecon :: "string \<Rightarrow> bool"

text \<open>The argument of \<^verbatim>\<open>-m\<close>: the bytes before it, and its text.\<close>

definition fifo_mode :: "'k fifo_sys \<Rightarrow> (string \<times> string) option \<Rightarrow> mem \<Rightarrow> 'k \<Rightarrow> (mode_t \<times> 'k) cu option" where
  "fifo_mode sys specified_mode m k =
     (let newmode = S_IRUSR OR S_IWUSR OR S_IRGRP OR S_IWGRP OR S_IROTH OR S_IWOTH
      in case specified_mode of
           None \<Rightarrow> Some (Inr (newmode, k))
         | Some (before, txt) \<Rightarrow> Option.bind (mode_compile before txt m) (\<lambda>r.
             Some (cbind r (\<lambda>(changes, m1).
               case changes of
                 None \<Rightarrow> Inl (Exit EXIT_FAILURE)
               | Some mc \<Rightarrow>
                   let (um, k1) = sys_umask sys 0 k
                   in cbind (mode_adjust newmode False um mc) (\<lambda>(nm, bits).
                        if nm AND NOT S_IRWXUGO \<noteq> 0 then Inl (Exit EXIT_FAILURE) else Inr (nm, k1))))))"

text \<open>The exit status, what is printed, and the state of the system after the loop over the operands.\<close>

fun mkfifo_loop :: "'k fifo_sys \<Rightarrow> mode_t \<Rightarrow> nat \<Rightarrow> string list \<Rightarrow> int \<Rightarrow> string \<Rightarrow> 'k \<Rightarrow> int \<times> string \<times> 'k" where
  "mkfifo_loop sys newmode i [] exit_status out k = (exit_status, out, k)"
| "mkfifo_loop sys newmode i (a # as) exit_status out k =
     (let (ok, k1) = sys_mkfifo sys a newmode k
      in mkfifo_loop sys newmode (i + 1) as (if ok then exit_status else EXIT_FAILURE)
           (out @ ''argv['' @ show_nat i @ '']: '' @ a @ [CHR 0x0A]) k1)"

text \<open>\<open>specified_mode\<close>, \<open>scontext\<close> and \<open>optind\<close> are what \<^verbatim>\<open>getopt_long\<close> makes of the options.\<close>

definition mkfifo_main ::
  "'k fifo_sys \<Rightarrow> (string \<times> string) option \<Rightarrow> string option \<Rightarrow> nat \<Rightarrow> string list \<Rightarrow> mem \<Rightarrow> 'k \<Rightarrow> (int \<times> string \<times> 'k) cu option" where
  "mkfifo_main sys specified_mode scontext optind argv m k =
     (let out = ''optind = '' @ show_nat optind @ [CHR 0x0A]
      in if optind = length argv then Some (Inl (Exit EXIT_FAILURE))
         else if (case scontext of None \<Rightarrow> False | Some c \<Rightarrow> \<not> sys_setfscreatecon sys c) then Some (Inl (Exit EXIT_FAILURE))
         else Option.bind (fifo_mode sys specified_mode m k) (\<lambda>r.
                Some (cbind r (\<lambda>(newmode, k1).
                  Inr (mkfifo_loop sys newmode optind (drop optind argv) 0 out k1)))))"

subsection \<open>Octal modes\<close>

definition octal_value :: "string \<Rightarrow> nat" where
  "octal_value s = foldl (\<lambda>v c. 8 * v + (of_char c - 48)) 0 s"

definition octal_text :: "string \<Rightarrow> bool" where
  "octal_text s \<longleftrightarrow> s \<noteq> [] \<and> list_all isoctal s"

lemma isoctal_NUL [simp]: "\<not> isoctal NUL"
  by (simp add: isoctal_def NUL_def)

lemma char_at_simps [simp]: "char_at [] k = NUL" "char_at (c # s) 0 = c"
  by (simp_all add: char_at_def)

lemma octal_fold_ge: "(v :: nat) \<le> foldl (\<lambda>v c. 8 * v + (of_char c - 48)) v s"
proof (induction s arbitrary: v)
  case (Cons c s)
  have "v \<le> 8 * v + (of_char c - 48)" by simp
  also have "\<dots> \<le> foldl (\<lambda>v c. 8 * v + (of_char c - 48)) (8 * v + (of_char c - 48)) s" by (rule Cons.IH)
  finally show ?case by simp
qed simp

lemma octal_loop_value:
  assumes "s \<noteq> []" "isoctal (hd s)"
  shows "octal_loop s v =
    (let w = foldl (\<lambda>v c. 8 * v + (of_char c - 48)) v (takeWhile isoctal s)
     in if ALLM < w then None else Some (w, dropWhile isoctal s))"
  using assms
proof (induction s arbitrary: v)
  case (Cons c s)
  have c: "isoctal c" using Cons.prems by simp
  define w where "w = 8 * v + (of_char c - 48 :: nat)"
  have "8 * v + of_char c - 48 = w" using c unfolding w_def isoctal_def by simp
  then have step: "octal_loop (c # s) v =
      (if ALLM < w then None else if isoctal (char_at s 0) then octal_loop s w else Some (w, s))" by simp
  have fold: "foldl (\<lambda>v c. 8 * v + (of_char c - 48)) v (takeWhile isoctal (c # s)) =
      foldl (\<lambda>v c. 8 * v + (of_char c - 48)) w (takeWhile isoctal s)" using c by (simp add: w_def)
  show ?case
  proof (cases "s \<noteq> [] \<and> isoctal (hd s)")
    case True
    then have "char_at s 0 = hd s" by (cases s) simp_all
    then show ?thesis unfolding step fold using True Cons.IH [of w] c octal_fold_ge [of w "takeWhile isoctal s"] by (auto simp: Let_def)
  next
    case False
    then have "\<not> isoctal (char_at s 0)" "takeWhile isoctal s = []" "dropWhile isoctal s = s" by (cases s; simp)+
    then show ?thesis unfolding step fold using c by simp
  qed
qed simp

lemma octal_loop_text:
  assumes "octal_text s"
  shows "octal_loop s 0 = (if ALLM < octal_value s then None else Some (octal_value s, []))"
proof -
  have "takeWhile isoctal s = s" "dropWhile isoctal s = []" "s \<noteq> []" "isoctal (hd s)"
    using assms by (auto simp: octal_text_def list_all_iff takeWhile_eq_all_conv)
  then show ?thesis using octal_loop_value [of s 0] by (metis octal_value_def)
qed

lemma octal_loop_other:
  assumes "s \<noteq> []" "isoctal (hd s)" "\<not> octal_text s" "octal_loop s 0 = Some (v, r)"
  shows "r \<noteq> []"
proof -
  have "dropWhile isoctal s \<noteq> []" using assms(1,3) by (auto simp: octal_text_def list_all_iff)
  then show ?thesis using octal_loop_value [OF assms(1,2), of 0] assms(4) by (auto simp: Let_def split: if_splits)
qed

definition octal_change :: "mode_t \<Rightarrow> mode_change" where
  "octal_change v = \<lparr>mc_op = CHR ''='', mc_flag = MODE_ORDINARY_CHANGE, mc_affected = CHMOD_MODE_BITS, mc_value = v,
     mc_mentioned = (v AND (S_ISUID OR S_ISGID)) OR S_ISVTX OR S_IRWXUGO\<rparr>"

lemma mode_compile_octal:
  assumes "octal_text s" "octal_value s \<le> ALLM" "no_fail m"
  shows "mode_compile before s m = Some (Inr (Some [octal_change (of_nat (octal_value s)), mode_done], tl m))"
proof -
  have "s \<noteq> []" "isoctal (hd s)" using assms(1) by (auto simp: octal_text_def list_all_iff)
  then have "isoctal (char_at s 0)" by (cases s) simp_all
  then show ?thesis using octal_loop_text [OF assms(1)] assms(2,3)
    by (simp add: mode_compile_def make_node_op_equals_def mem_simps octal_to_mode_def octal_change_def Let_def)
qed

lemma mode_compile_bad_octal:
  assumes "isoctal (char_at s 0)" "\<not> (octal_text s \<and> octal_value s \<le> ALLM)"
  shows "mode_compile before s m = Some (Inr (None, m))"
proof -
  have s: "s \<noteq> []" "isoctal (hd s)" using assms(1) by (cases s; simp)+
  show ?thesis
  proof (cases "octal_loop s 0")
    case (Some a)
    obtain v r where a: "a = (v, r)" by (cases a)
    have "r \<noteq> []" using octal_loop_text [of s] octal_loop_other [OF s _ Some [unfolded a]] Some a assms(2) by (cases "octal_text s") (auto split: if_splits)
    then show ?thesis using assms(1) Some a by (simp add: mode_compile_def)
  qed (use assms(1) in \<open>simp add: mode_compile_def\<close>)
qed

subsection \<open>Symbolic modes\<close>

definition is_who :: "char \<Rightarrow> bool" where
  "is_who c \<longleftrightarrow> c = CHR ''u'' \<or> c = CHR ''g'' \<or> c = CHR ''o'' \<or> c = CHR ''a''"

lemma who_loop_position:
  assumes "who_loop s k a = Some (k1, b)"
  shows "\<exists>j. k1 = k + j \<and> j < length s \<and> is_op (s ! j) \<and> (\<forall>i < j. is_who (s ! i))"
  using assms
proof (induction s k a rule: who_loop.induct)
  case (2 c s k a)
  show ?case
  proof (cases "is_who c")
    case True
    with 2 obtain j where "k1 = Suc k + j" "j < length s" "is_op (s ! j)" "\<forall>i < j. is_who (s ! i)"
      by (auto simp: is_who_def split: if_splits)
    then show ?thesis using True by (intro exI [of _ "Suc j"]) (auto simp: less_Suc_eq_0_disj)
  next
    case False
    then show ?thesis using 2(5-) by (intro exI [of _ 0]) (auto simp: is_who_def split: if_splits)
  qed
qed simp

lemma op_not_who: "is_op c \<Longrightarrow> \<not> is_who c"
  by (auto simp: is_op_def is_who_def)

text \<open>
  The bytes before the text of a mode: the end of the previous argument when the mode is an argument of
  its own, \<^verbatim>\<open>-m\<close> when it follows the option at once, and \<^verbatim>\<open>--mode=\<close> or an abbreviation of it.
\<close>

definition mode_before :: "string \<Rightarrow> bool" where
  "mode_before before \<longleftrightarrow> before \<noteq> [] \<and>
     (last before = NUL \<or> last before = CHR ''m''
      \<or> last before = CHR ''='' \<and> butlast before \<noteq> [] \<and> last (butlast before) \<in> set ''mode'')"

definition bare_change :: "char \<Rightarrow> mode_change" where
  "bare_change c = \<lparr>mc_op = c, mc_flag = MODE_ORDINARY_CHANGE, mc_affected = 0, mc_value = 0, mc_mentioned = 0\<rparr>"

text \<open>At an operator behind a character that is no permission, that character is where the reading stops.\<close>

definition is_perm :: "char \<Rightarrow> bool" where
  "is_perm c \<longleftrightarrow> c \<in> set ''rwxXst''"

lemma one_change_back:
  assumes "is_op (char_at t (Suc p))" "p < length t" "\<not> is_perm (t ! p)"
  shows "one_change t affected (Suc p) = Inr (p, (bare_change (char_at t (Suc p)))\<lparr>mc_affected := affected\<rparr>)"
  using assms
  by (auto simp: one_change_def Let_def is_op_def is_perm_def bare_change_def Cons_nth_drop_Suc [symmetric])

lemma clause_back:
  assumes "who_loop (drop k t) k 0 = Some (Suc p, affected)" "is_op (char_at t (Suc p))" "p < length t"
    and "\<not> is_perm (t ! p)" "\<not> is_op (t ! p)" "t ! p \<noteq> CHR '',''" "1 < needed"
  shows "clause_loop t needed k [] =
    Some (Inr (if t ! p = NUL then Some [(bare_change (char_at t (Suc p)))\<lparr>mc_affected := affected\<rparr>, mode_done] else None))"
  using assms one_change_back [OF assms(2-4), of affected]
  by (simp add: clause_loop.simps ops_loop.simps char_at_def)

text \<open>An operator behind \<^verbatim>\<open>--mode=\<close>: the sign of the option is taken for an operator too.\<close>

lemma clause_back_twice:
  assumes "who_loop (drop k t) k 0 = Some (Suc (Suc p), affected)" "is_op (char_at t (Suc (Suc p)))" "Suc p < length t"
    and "t ! Suc p = CHR ''=''" "t ! p \<in> set ''mode''" "1 < needed"
  shows "clause_loop t needed k [] = Some (Inr None)"
proof -
  have at: "char_at t (Suc p) = CHR ''=''" "char_at t p = t ! p" using assms(3,4) by (simp_all add: char_at_def)
  have "\<not> is_perm (t ! p)" "\<not> is_perm (t ! Suc p)" "\<not> is_op (t ! p)" "t ! p \<noteq> CHR '',''" "t ! p \<noteq> NUL"
    using assms(4,5) by (auto simp: is_perm_def is_op_def NUL_def)
  with one_change_back [OF assms(2,3)] one_change_back [of t p affected] assms at show ?thesis
    by (simp add: clause_loop.simps ops_loop.simps is_op_def)
qed

lemma who_loop_op: "is_op (char_at s 0) \<Longrightarrow> who_loop s k a = Some (k, a)"
  by (cases s) (auto simp: is_op_def NUL_def)

lemma clause_symbolic:
  assumes "mode_before before" "n = 1 + length (filter is_op s)"
  shows "clause_loop (before @ s) n (length before) [] =
    Some (Inr (if is_op (char_at s 0) \<and> last before = NUL then Some [bare_change (char_at s 0), mode_done] else None))"
proof (cases "is_op (char_at s 0)")
  case True
  then obtain c s' where s: "s = c # s'" "is_op c" by (cases s) (auto simp: is_op_def NUL_def)
  obtain b e where before: "before = b @ [e]" using assms(1) by (cases before rule: rev_cases) (auto simp: mode_before_def)
  have who: "who_loop (drop (length before) (before @ s)) (length before) 0 = Some (Suc (length b), 0)"
    using who_loop_op [OF True, of "length before" 0] by (simp add: before)
  have at: "char_at (before @ s) (Suc (length b)) = c" "(before @ s) ! length b = e"
    by (simp_all add: before s char_at_def nth_append)
  have n: "1 < n" using assms(2) s by simp
  show ?thesis
  proof (cases "e = CHR ''=''")
    case False
    then have "e = NUL \<or> e = CHR ''m''" using assms(1) by (auto simp: mode_before_def before)
    then show ?thesis using clause_back [OF who _ _ _ _ _ n] at s
      by (auto simp: before is_perm_def is_op_def NUL_def bare_change_def)
  next
    case True
    then have "b \<noteq> []" "last b \<in> set ''mode''" using assms(1) by (auto simp: mode_before_def before NUL_def)
    then obtain b' x where b: "b = b' @ [x]" "x \<in> set ''mode''" by (cases b rule: rev_cases) simp_all
    from clause_back_twice [of "length before" "before @ s" "length b'" 0 n] who at n s b True show ?thesis
      by (auto simp: before nth_append NUL_def)
  qed
next
  case False
  show ?thesis
  proof (cases "who_loop s (length before) 0")
    case None
    then show ?thesis using False by (simp add: clause_loop.simps)
  next
    case (Some r)
    obtain k1 a where r: "r = (k1, a)" by (cases r)
    from who_loop_position [OF Some [unfolded r]]
    obtain j where j: "k1 = length before + j" "j < length s" "is_op (s ! j)" "\<forall>i < j. is_who (s ! i)" by blast
    with False obtain i where i: "j = Suc i" by (cases j) (auto simp: char_at_def)
    have w: "is_who (s ! i)" "(before @ s) ! (length before + i) = s ! i" "char_at (before @ s) (Suc (length before + i)) = s ! j"
      using j i by (simp_all add: char_at_def nth_append)
    have "0 < length (filter is_op s)" using j(2,3) by (metis filter_empty_conv length_greater_0_conv nth_mem)
    then have n: "1 < n" using assms(2) by simp
    have "\<not> is_perm (s ! i)" "\<not> is_op (s ! i)" "s ! i \<noteq> CHR '',''" "s ! i \<noteq> NUL"
      using w(1) by (auto simp: is_who_def is_perm_def is_op_def NUL_def)
    then show ?thesis using clause_back [of "length before" "before @ s" "length before + i" a n] Some r j i w n False by simp
  qed
qed

lemma mode_compile_symbolic:
  assumes "\<not> isoctal (char_at s 0)" "no_fail m" "length s < 2 ^ 32" "mode_before before"
  shows "mode_compile before s m =
    Some (Inr (if is_op (char_at s 0) \<and> last before = NUL then Some [bare_change (char_at s 0), mode_done] else None, tl m))"
proof -
  let ?n = "1 + length (filter is_op s)"
  have "length (filter is_op s) \<le> length s" by simp
  then have "length (filter is_op s) < 2 ^ 32" using assms(3) by (rule le_less_trans)
  then have "\<not> xalloc_oversized ?n 16" unfolding xalloc_oversized_def SIZE_MAX_def by simp
  then have "xnmalloc ?n 16 m = Inr (tl m)" using assms(2) by (simp add: xnmalloc_def mem_simps)
  then show ?thesis using assms(1) clause_symbolic [OF assms(4) refl, of s] by (simp add: mode_compile_def Let_def)
qed

subsection \<open>What a mode does\<close>

lemma mode_masks:
  "CHMOD_MODE_BITS = mask 12" "S_IRWXUGO = mask 9" "S_ISUID OR S_ISGID = 0xC00" "S_ISVTX OR S_IRWXUGO = mask 10"
  by (simp_all add: mode_bits_defs mask_eq_exp_minus_1)

lemma and_C00: "(0xC00 :: mode_t) AND mask 12 = 0xC00" "mask 10 AND (0xC00 :: mode_t) = 0"
  by (simp_all add: mask_eq_exp_minus_1)

lemma preserved_bits:
  fixes v a M r old :: mode_t
  assumes "a AND M = a" "v AND M = v" "r AND a = 0"
  shows "((old AND M) AND (NOT M OR (a AND NOT ((v AND a) OR r)))) OR (v AND M AND NOT (a AND NOT ((v AND a) OR r))) = v OR (old AND a)"
proof (rule bit_word_eqI)
  fix n assume "n < LENGTH(32)"
  moreover have "bit a n \<Longrightarrow> bit M n" "bit v n \<Longrightarrow> bit M n" "bit r n \<Longrightarrow> \<not> bit a n"
    using assms by (metis bit_and_iff bit_0_eq bot_apply bot_bool_def)+
  ultimately show "bit (((old AND M) AND (NOT M OR (a AND NOT ((v AND a) OR r)))) OR (v AND M AND NOT (a AND NOT ((v AND a) OR r)))) n = bit (v OR (old AND a)) n"
    by (auto simp: bit_simps)
qed

lemma octal_change_simps:
  "mc_op (octal_change v) = CHR ''=''" "mc_flag (octal_change v) = MODE_ORDINARY_CHANGE"
  "mc_affected (octal_change v) = mask 12" "mc_value (octal_change v) = v"
  "mc_mentioned (octal_change v) = (v AND 0xC00) OR mask 10"
  by (simp_all add: octal_change_def mode_masks(1,3)) (simp only: or.assoc mode_masks(4))

lemma adjust_octal:
  assumes "v AND CHMOD_MODE_BITS = v"
  shows "\<exists>bits. mode_adjust old dir um [octal_change v, mode_done] =
    Inr (v OR (if dir then old AND (S_ISUID OR S_ISGID) else 0), bits)"
proof -
  have "mask 12 \<noteq> (0 :: mode_t)" "(old AND mask 12) AND NOT (mask 12) = 0"
    by (simp_all add: mask_eq_exp_minus_1 and.assoc)
  then show ?thesis using preserved_bits [OF and_C00(1) assms [unfolded mode_masks] and_C00(2), of old] assms
    by (cases dir)
      (simp_all add: mode_adjust_def adjust_step_def mode_done_def change_value_def octal_change_simps mode_masks(1,3) Let_def)
qed

lemma adjust_bare:
  assumes "is_op c" "old AND CHMOD_MODE_BITS = old"
  shows "\<exists>bits. mode_adjust old False um [bare_change c, mode_done] = Inr (if c = CHR ''-'' then old else 0, bits)"
  using assms
  by (auto simp: mode_adjust_def adjust_step_def mode_done_def change_value_def bare_change_def is_op_def Let_def)

lemma octal_bits:
  assumes "v \<le> ALLM"
  shows "(of_nat v :: mode_t) AND CHMOD_MODE_BITS = of_nat v" "(of_nat v :: mode_t) AND NOT S_IRWXUGO = 0 \<longleftrightarrow> v \<le> 511"
proof -
  have "take_bit 12 v = v" "take_bit 32 v = v" using assms by (simp_all add: take_bit_nat_eq_self_iff ALLM_def)
  then have "take_bit 12 (of_nat v :: mode_t) = of_nat v" by (simp only: take_bit_of_nat)
  then show "(of_nat v :: mode_t) AND CHMOD_MODE_BITS = of_nat v" by (simp add: mode_masks take_bit_eq_mask)
  have "(of_nat v :: mode_t) AND NOT S_IRWXUGO = 0 \<longleftrightarrow> take_bit 9 (of_nat v :: mode_t) = of_nat v"
    unfolding mode_masks take_bit_eq_mask by (auto simp: bit_eq_iff bit_simps)
  also have "\<dots> \<longleftrightarrow> (of_nat (take_bit 9 v) :: mode_t) = of_nat v" by (simp only: take_bit_of_nat)
  also have "\<dots> \<longleftrightarrow> take_bit 9 v = v"
    using \<open>take_bit 32 v = v\<close> by (simp only: word_of_nat_eq_iff) simp
  also have "\<dots> \<longleftrightarrow> v \<le> 511" by (auto simp: take_bit_nat_eq_self_iff)
  finally show "(of_nat v :: mode_t) AND NOT S_IRWXUGO = 0 \<longleftrightarrow> v \<le> 511" .
qed

fun all_made :: "'k fifo_sys \<Rightarrow> mode_t \<Rightarrow> string list \<Rightarrow> 'k \<Rightarrow> bool" where
  "all_made sys v [] k \<longleftrightarrow> True"
| "all_made sys v (a # as) k \<longleftrightarrow> fst (sys_mkfifo sys a v k) \<and> all_made sys v as (snd (sys_mkfifo sys a v k))"

lemma mkfifo_loop_status:
  "fst (mkfifo_loop sys v i as st out k) = (if all_made sys v as k then st else EXIT_FAILURE)"
  by (induction as arbitrary: i st out k) (auto simp: Let_def split: prod.splits)

lemma mkfifo_loop_state:
  "snd (snd (mkfifo_loop sys v i as st out k)) = fold (\<lambda>a k. snd (sys_mkfifo sys a v k)) as k"
  by (induction as arbitrary: i st out k) (auto simp: Let_def split: prod.splits)

text \<open>
  C32. \<^verbatim>\<open>mkfifo -m\<close> with any text. An octal number of permission bits is the exact mode of every FIFO, whatever the
  umask, and the exit status says whether all were made. No symbolic mode does what it says: one that
  starts with an operator, given as an argument of its own, makes the FIFOs with no permissions at all for
  \<^verbatim>\<open>=\<close> and \<^verbatim>\<open>+\<close> and with the default ones for \<^verbatim>\<open>-\<close>, whatever permissions it names; every other one, and every other
  text, ends the program before anything is made.
\<close>

theorem mkfifo_mode:
  assumes "optind < length argv" "no_fail m" "length arg < 2 ^ 32" "mode_before before"
  shows "case if octal_text arg \<and> octal_value arg \<le> 511 then Some (of_nat (octal_value arg))
              else if is_op (char_at arg 0) \<and> last before = NUL then Some (if char_at arg 0 = CHR ''-'' then 0x1B6 else 0)
              else None of
      Some v \<Rightarrow> \<exists>out. mkfifo_main sys (Some (before, arg)) None optind argv m k =
        Some (Inr (if all_made sys v (drop optind argv) (snd (sys_umask sys 0 k)) then 0 else EXIT_FAILURE, out,
                   fold (\<lambda>a k. snd (sys_mkfifo sys a v k)) (drop optind argv) (snd (sys_umask sys 0 k))))
    | None \<Rightarrow> mkfifo_main sys (Some (before, arg)) None optind argv m k = Some (Inl (Exit EXIT_FAILURE))"
proof -
  let ?v = "of_nat (octal_value arg) :: mode_t" and ?c = "char_at arg 0"
  let ?new = "S_IRUSR OR S_IWUSR OR S_IRGRP OR S_IWGRP OR S_IROTH OR S_IWOTH"
  obtain um k1 where um: "sys_umask sys 0 k = (um, k1)" by fastforce
  have new: "?new = 0x1B6" "?new AND NOT S_IRWXUGO = 0" "?new AND CHMOD_MODE_BITS = ?new" by (simp_all add: mode_bits_defs)
  have mode: "fifo_mode sys (Some (before, arg)) m k = Some
      (if octal_text arg \<and> octal_value arg \<le> 511 then Inr (?v, k1)
       else if is_op ?c \<and> last before = NUL then Inr (if ?c = CHR ''-'' then 0x1B6 else 0, k1)
       else Inl (Exit EXIT_FAILURE))"
  proof (cases "isoctal ?c")
    case True
    then have "\<not> is_op ?c" by (auto simp: isoctal_def is_op_def)
    moreover obtain bits where "octal_value arg \<le> ALLM \<Longrightarrow> mode_adjust ?new False um [octal_change ?v, mode_done] = Inr (?v, bits)"
      using adjust_octal [OF octal_bits(1), of "octal_value arg" ?new False um] by auto
    ultimately show ?thesis
      using True mode_compile_octal [of arg m before] mode_compile_bad_octal [OF True, of before m] assms(2) um
        octal_bits(2) [of "octal_value arg"]
      by (cases "octal_text arg \<and> octal_value arg \<le> ALLM") (auto simp: fifo_mode_def Let_def ALLM_def)
  next
    case False
    then have "\<not> octal_text arg" by (cases arg) (auto simp: octal_text_def)
    then show ?thesis using mode_compile_symbolic [OF False assms(2-4)] adjust_bare [of ?c ?new um] um new
      by (auto simp: fifo_mode_def Let_def)
  qed
  show ?thesis using assms(1) um mode
    by (auto simp: mkfifo_main_def Let_def prod_eq_iff mkfifo_loop_status mkfifo_loop_state)
qed

text \<open>A system whose state is its umask and the files with their modes; a name is made once.\<close>

definition ex_fifo_sys :: "(mode_t \<times> (string \<times> mode_t) list) fifo_sys" where
  "ex_fifo_sys = \<lparr>sys_umask = (\<lambda>v (um, fs). (um, v, fs)),
     sys_mkfifo = (\<lambda>a v (um, fs). if a \<in> fst ` set fs then (False, um, fs) else (True, um, fs @ [(a, v AND NOT um)])),
     sys_setfscreatecon = (\<lambda>c. True)\<rparr>"

theorem mkfifo_mode_witness:
  "(\<exists>out. mkfifo_main ex_fifo_sys (Some ([NUL], ''640'')) None 3 [''mkfifo'', ''-m'', ''640'', ''a'', ''b''] [] (18, []) =
      Some (Inr (0, out, 0, [(''a'', 0x1A0), (''b'', 0x1A0)])))
   \<and> (\<exists>out. mkfifo_main ex_fifo_sys (Some ([NUL], ''=rw'')) None 3 [''mkfifo'', ''-m'', ''=rw'', ''a''] [] (18, []) =
      Some (Inr (0, out, 0, [(''a'', 0)])))
   \<and> mkfifo_main ex_fifo_sys (Some ([NUL], ''u=rw'')) None 3 [''mkfifo'', ''-m'', ''u=rw'', ''a''] [] (18, []) = Some (Inl (Exit 1))"
proof -
  have a: "octal_text ''640''" "octal_value ''640'' = 416" by code_simp+
  have b: "\<not> octal_text ''u=rw''" "\<not> is_op (char_at ''u=rw'' 0)" by code_simp+
  have e: "\<not> octal_text ''=rw''" "is_op (char_at ''=rw'' 0)" "mode_before [NUL]" by code_simp+
  have c: "sys_umask ex_fifo_sys 0 (18, []) = (18, 0, [])" by (simp add: ex_fifo_sys_def)
  have "all_made ex_fifo_sys 416 [''a'', ''b''] (0, [])"
    "fold (\<lambda>a k. snd (sys_mkfifo ex_fifo_sys a 416 k)) [''a'', ''b''] (0, []) = (0, [(''a'', 0x1A0), (''b'', 0x1A0)])"
    "all_made ex_fifo_sys 0 [''a''] (0, [])"
    "fold (\<lambda>a k. snd (sys_mkfifo ex_fifo_sys a 0 k)) [''a''] (0, []) = (0, [(''a'', 0)])"
    by (simp_all add: ex_fifo_sys_def)
  then show ?thesis
    using mkfifo_mode [of 3 "[''mkfifo'', ''-m'', ''640'', ''a'', ''b'']" "[]" "''640''" "[NUL]" ex_fifo_sys "(18, [])"]
      mkfifo_mode [of 3 "[''mkfifo'', ''-m'', ''=rw'', ''a'']" "[]" "''=rw''" "[NUL]" ex_fifo_sys "(18, [])"]
      mkfifo_mode [of 3 "[''mkfifo'', ''-m'', ''u=rw'', ''a'']" "[]" "''u=rw''" "[NUL]" ex_fifo_sys "(18, [])"] a b c e
    by (simp add: EXIT_FAILURE_def)
qed

end
