(* ===== verification/CuCksum.thy ===== *)
theory CuCksum
  imports CuBase CStdio
begin

text \<open>
  \<^verbatim>\<open>src/cksum.c\<close> and \<^verbatim>\<open>lib/inttostr.c\<close>: the POSIX checksum of a file. The register is an
  \<^verbatim>\<open>uint_fast32_t\<close>, which has 64 bits on this platform; only its lower half matters, as is shown. A file is
  the sequence of the answers to \<^verbatim>\<open>fread\<close>; after the last one \<^verbatim>\<open>fread\<close> returns 0. The reference is the division
  of the bits of the message by the generator polynomial, one bit at a time.
\<close>

unbundle bit_operations_syntax

type_synonym byte = "8 word"

subsection \<open>Printing numbers\<close>

text \<open>The digits are written in front of those that are already there.\<close>

function digits_loop :: "nat \<Rightarrow> string \<Rightarrow> string" where
  "digits_loop i p =
     (let p' = char_of (48 + i mod 10) # p
      in if i div 10 \<noteq> 0 then digits_loop (i div 10) p' else p')"
  by pat_completeness auto
termination by (relation "measure fst") auto

declare digits_loop.simps [simp del]

definition umaxtostr :: "nat \<Rightarrow> string" where
  "umaxtostr i = digits_loop i []"

subsection \<open>The program\<close>

definition crctab :: "64 word list" where
  "crctab = [
   0x00000000, 0x04c11db7, 0x09823b6e, 0x0d4326d9, 0x130476dc, 0x17c56b6b, 0x1a864db2, 0x1e475005,
   0x2608edb8, 0x22c9f00f, 0x2f8ad6d6, 0x2b4bcb61, 0x350c9b64, 0x31cd86d3, 0x3c8ea00a, 0x384fbdbd,
   0x4c11db70, 0x48d0c6c7, 0x4593e01e, 0x4152fda9, 0x5f15adac, 0x5bd4b01b, 0x569796c2, 0x52568b75,
   0x6a1936c8, 0x6ed82b7f, 0x639b0da6, 0x675a1011, 0x791d4014, 0x7ddc5da3, 0x709f7b7a, 0x745e66cd,
   0x9823b6e0, 0x9ce2ab57, 0x91a18d8e, 0x95609039, 0x8b27c03c, 0x8fe6dd8b, 0x82a5fb52, 0x8664e6e5,
   0xbe2b5b58, 0xbaea46ef, 0xb7a96036, 0xb3687d81, 0xad2f2d84, 0xa9ee3033, 0xa4ad16ea, 0xa06c0b5d,
   0xd4326d90, 0xd0f37027, 0xddb056fe, 0xd9714b49, 0xc7361b4c, 0xc3f706fb, 0xceb42022, 0xca753d95,
   0xf23a8028, 0xf6fb9d9f, 0xfbb8bb46, 0xff79a6f1, 0xe13ef6f4, 0xe5ffeb43, 0xe8bccd9a, 0xec7dd02d,
   0x34867077, 0x30476dc0, 0x3d044b19, 0x39c556ae, 0x278206ab, 0x23431b1c, 0x2e003dc5, 0x2ac12072,
   0x128e9dcf, 0x164f8078, 0x1b0ca6a1, 0x1fcdbb16, 0x018aeb13, 0x054bf6a4, 0x0808d07d, 0x0cc9cdca,
   0x7897ab07, 0x7c56b6b0, 0x71159069, 0x75d48dde, 0x6b93dddb, 0x6f52c06c, 0x6211e6b5, 0x66d0fb02,
   0x5e9f46bf, 0x5a5e5b08, 0x571d7dd1, 0x53dc6066, 0x4d9b3063, 0x495a2dd4, 0x44190b0d, 0x40d816ba,
   0xaca5c697, 0xa864db20, 0xa527fdf9, 0xa1e6e04e, 0xbfa1b04b, 0xbb60adfc, 0xb6238b25, 0xb2e29692,
   0x8aad2b2f, 0x8e6c3698, 0x832f1041, 0x87ee0df6, 0x99a95df3, 0x9d684044, 0x902b669d, 0x94ea7b2a,
   0xe0b41de7, 0xe4750050, 0xe9362689, 0xedf73b3e, 0xf3b06b3b, 0xf771768c, 0xfa325055, 0xfef34de2,
   0xc6bcf05f, 0xc27dede8, 0xcf3ecb31, 0xcbffd686, 0xd5b88683, 0xd1799b34, 0xdc3abded, 0xd8fba05a,
   0x690ce0ee, 0x6dcdfd59, 0x608edb80, 0x644fc637, 0x7a089632, 0x7ec98b85, 0x738aad5c, 0x774bb0eb,
   0x4f040d56, 0x4bc510e1, 0x46863638, 0x42472b8f, 0x5c007b8a, 0x58c1663d, 0x558240e4, 0x51435d53,
   0x251d3b9e, 0x21dc2629, 0x2c9f00f0, 0x285e1d47, 0x36194d42, 0x32d850f5, 0x3f9b762c, 0x3b5a6b9b,
   0x0315d626, 0x07d4cb91, 0x0a97ed48, 0x0e56f0ff, 0x1011a0fa, 0x14d0bd4d, 0x19939b94, 0x1d528623,
   0xf12f560e, 0xf5ee4bb9, 0xf8ad6d60, 0xfc6c70d7, 0xe22b20d2, 0xe6ea3d65, 0xeba91bbc, 0xef68060b,
   0xd727bbb6, 0xd3e6a601, 0xdea580d8, 0xda649d6f, 0xc423cd6a, 0xc0e2d0dd, 0xcda1f604, 0xc960ebb3,
   0xbd3e8d7e, 0xb9ff90c9, 0xb4bcb610, 0xb07daba7, 0xae3afba2, 0xaafbe615, 0xa7b8c0cc, 0xa379dd7b,
   0x9b3660c6, 0x9ff77d71, 0x92b45ba8, 0x9675461f, 0x8832161a, 0x8cf30bad, 0x81b02d74, 0x857130c3,
   0x5d8a9099, 0x594b8d2e, 0x5408abf7, 0x50c9b640, 0x4e8ee645, 0x4a4ffbf2, 0x470cdd2b, 0x43cdc09c,
   0x7b827d21, 0x7f436096, 0x7200464f, 0x76c15bf8, 0x68860bfd, 0x6c47164a, 0x61043093, 0x65c52d24,
   0x119b4be9, 0x155a565e, 0x18197087, 0x1cd86d30, 0x029f3d35, 0x065e2082, 0x0b1d065b, 0x0fdc1bec,
   0x3793a651, 0x3352bbe6, 0x3e119d3f, 0x3ad08088, 0x2497d08d, 0x2056cd3a, 0x2d15ebe3, 0x29d4f654,
   0xc5a92679, 0xc1683bce, 0xcc2b1d17, 0xc8ea00a0, 0xd6ad50a5, 0xd26c4d12, 0xdf2f6bcb, 0xdbee767c,
   0xe3a1cbc1, 0xe760d676, 0xea23f0af, 0xeee2ed18, 0xf0a5bd1d, 0xf464a0aa, 0xf9278673, 0xfde69bc4,
   0x89b8fd09, 0x8d79e0be, 0x803ac667, 0x84fbdbd0, 0x9abc8bd5, 0x9e7d9662, 0x933eb0bb, 0x97ffad0c,
   0xafb010b1, 0xab710d06, 0xa6322bdf, 0xa2f33668, 0xbcb4666d, 0xb8757bda, 0xb5365d03, 0xb1f740b4]"

definition crc_step :: "64 word \<Rightarrow> 64 word \<Rightarrow> 64 word" where
  "crc_step crc c = push_bit 8 crc XOR crctab ! unat ((drop_bit 24 crc XOR c) AND 0xFF)"

text \<open>
  \<open>reads\<close>: what the calls of \<^verbatim>\<open>fread\<close> return, each with the value of \<^verbatim>\<open>feof\<close> after it.
\<close>

record in_file =
  reads :: "(byte list \<times> bool) list"
  read_error :: bool
  close_ok :: bool

fun read_loop :: "(byte list \<times> bool) list \<Rightarrow> 64 word \<Rightarrow> 64 word \<Rightarrow> (64 word \<times> 64 word \<times> (byte list \<times> bool) list) cu" where
  "read_loop [] crc len = Inr (crc, len, [])"
| "read_loop ((buf, eof) # rs) crc len =
     (if buf = [] then Inr (crc, len, rs)
      else if len + of_nat (length buf) < len then Inl (Exit EXIT_FAILURE)
      else let len' = len + of_nat (length buf);
               crc' = fold (\<lambda>c crc. crc_step crc (ucast c)) buf crc
           in if eof then Inr (crc', len', rs) else read_loop rs crc' len')"

function length_loop :: "64 word \<Rightarrow> 64 word \<Rightarrow> 64 word" where
  "length_loop crc len = (if len = 0 then crc else length_loop (crc_step crc len) (drop_bit 8 len))"
  by pat_completeness auto
termination
proof (relation "measure (\<lambda>(crc, len). unat len)", goal_cases)
  case (2 crc len)
  have "unat (drop_bit 8 len) = unat len div 256" by (simp only: unat_drop_bit_eq) (simp add: drop_bit_eq_div)
  then show ?case using 2 by (simp add: unat_gt_0 div_less_dividend)
qed simp

declare length_loop.simps [simp del]

text \<open>The state: the files, the standard input, what was printed, whether the standard input was read.\<close>

record cksum_state =
  in_files :: "string \<rightharpoonup> in_file"
  in_stdin :: in_file
  printed :: string
  have_read_stdin :: bool

text \<open>\<open>out_ok\<close>: writing to the standard output has not failed.\<close>

definition cksum :: "string \<Rightarrow> bool \<Rightarrow> bool \<Rightarrow> cksum_state \<Rightarrow> (bool \<times> cksum_state) cu" where
  "cksum name print_name out_ok s =
     (let is_stdin = (name = ''-'')
      in case (if is_stdin then Some (in_stdin s) else in_files s name) of
           None \<Rightarrow> Inr (False, s)
         | Some f \<Rightarrow>
             cbind (read_loop (reads f) 0 0) (\<lambda>(crc, len, rest).
               let s1 = (if is_stdin then s\<lparr>have_read_stdin := True, in_stdin := f\<lparr>reads := rest\<rparr>\<rparr> else s)
               in if read_error f then Inr (False, s1)
                  else if \<not> is_stdin \<and> \<not> close_ok f then Inr (False, s1)
                  else let hp = umaxtostr (unat len);
                           crc' = NOT (length_loop crc len) AND 0xFFFFFFFF;
                           line = show_nat (unat (ucast crc' :: 32 word)) @ '' '' @ hp
                                  @ (if print_name then '' '' @ name else []) @ [CHR 0x0A]
                       in if \<not> out_ok then Inl (Exit EXIT_FAILURE)
                          else Inr (True, s1\<lparr>printed := printed s1 @ line\<rparr>)))"

fun cksum_files :: "string list \<Rightarrow> bool \<Rightarrow> bool \<Rightarrow> cksum_state \<Rightarrow> (bool \<times> cksum_state) cu" where
  "cksum_files [] ok out_ok s = Inr (ok, s)"
| "cksum_files (a # as) ok out_ok s =
     cbind (cksum a True out_ok s) (\<lambda>(r, s'). cksum_files as (ok \<and> r) out_ok s')"

text \<open>\<open>args\<close>: the operands from \<^verbatim>\<open>optind\<close> on. The result is the exit status.\<close>

definition cksum_main :: "string list \<Rightarrow> bool \<Rightarrow> cksum_state \<Rightarrow> (int \<times> cksum_state) cu" where
  "cksum_main args out_ok s =
     (let s0 = s\<lparr>have_read_stdin := False\<rparr>
      in cbind (if args = [] then cksum ''-'' False out_ok s0 else cksum_files args True out_ok s0) (\<lambda>(ok, s').
           if have_read_stdin s' \<and> \<not> close_ok (in_stdin s') then Inl (Exit EXIT_FAILURE)
           else Inr (if ok then 0 else EXIT_FAILURE, s')))"

subsection \<open>The reference: division by the generator polynomial\<close>

definition crc_bit :: "32 word \<Rightarrow> bool \<Rightarrow> 32 word" where
  "crc_bit r b = push_bit 1 r XOR (if bit r 31 \<noteq> b then 0x04C11DB7 else 0)"

definition byte_bits :: "byte \<Rightarrow> bool list" where
  "byte_bits c = map (bit c) [7, 6, 5, 4, 3, 2, 1, 0]"

definition crc_bits :: "byte list \<Rightarrow> 32 word" where
  "crc_bits bs = foldl crc_bit 0 (concat (map byte_bits bs))"

text \<open>The bytes of the length, from the lowest to the highest that is not 0.\<close>

fun length_bytes :: "nat \<Rightarrow> byte list" where
  "length_bytes n = (if n = 0 then [] else of_nat n # length_bytes (n div 256))"

declare length_bytes.simps [simp del]

definition posix_cksum :: "byte list \<Rightarrow> 32 word" where
  "posix_cksum bs = NOT (crc_bits (bs @ length_bytes (length bs)))"

subsection \<open>The table\<close>

definition table_entry :: "nat \<Rightarrow> 32 word" where
  "table_entry i = foldl crc_bit 0 (byte_bits (of_nat i))"

lemma crctab_entries: "map ucast crctab = map table_entry [0..<256]"
  unfolding crctab_def by code_simp

subsection \<open>One byte of the table is eight bits of the division\<close>

definition xorb :: "bool \<Rightarrow> bool \<Rightarrow> bool" where
  "xorb p q \<longleftrightarrow> p \<noteq> q"

lemma crc_bit_xor: "crc_bit (a XOR b) (xorb p q) = crc_bit a p XOR crc_bit b q"
  by (auto simp: crc_bit_def xorb_def bit_xor_iff push_bit_xor xor.assoc xor.left_commute)

lemma crc_bits_xor:
  "length ps = length qs \<Longrightarrow>
   foldl crc_bit (a XOR b) (map2 xorb ps qs) = foldl crc_bit a ps XOR foldl crc_bit b qs"
proof (induction ps qs arbitrary: a b rule: list_induct2)
  case (Cons p ps q qs)
  show ?case using Cons.IH [of "crc_bit a p" "crc_bit b q"] by (simp add: crc_bit_xor)
qed simp

lemma byte_bits_xor: "byte_bits (c XOR d) = map2 xorb (byte_bits c) (byte_bits d)"
  by (auto simp: byte_bits_def bit_xor_iff xorb_def)

lemma length_byte_bits [simp]: "length (byte_bits c) = 8"
  by (simp add: byte_bits_def)

lemma crc_bits_split_xor:
  "foldl crc_bit (a XOR x) bs = foldl crc_bit a bs XOR foldl crc_bit x (replicate (length bs) False)"
proof -
  have "map2 xorb bs (replicate (length bs) False) = bs" by (induction bs) (simp_all add: xorb_def)
  then show ?thesis using crc_bits_xor [of bs "replicate (length bs) False" a x] by simp
qed

text \<open>The bits that leave the register are added to the bits that enter it.\<close>

lemma crc_bits_split:
  "length bs \<le> 32 \<Longrightarrow>
   foldl crc_bit r bs = push_bit (length bs) r XOR foldl crc_bit 0 (map2 xorb (map (\<lambda>i. bit r (31 - i)) [0..<length bs]) bs)"
proof (induction bs arbitrary: r)
  case (Cons b bs)
  define x where "x = crc_bit 0 (xorb (bit r 31) b)"
  define ys where "ys = map2 xorb (map (\<lambda>i. bit r (30 - i)) [0..<length bs]) bs"
  have "crc_bit r b = push_bit 1 r XOR x" by (simp add: x_def crc_bit_def xorb_def)
  then have f1: "foldl crc_bit r (b # bs) = foldl crc_bit (push_bit 1 r) bs XOR foldl crc_bit x (replicate (length bs) False)"
    using crc_bits_split_xor by simp
  have f2: "map (\<lambda>i. bit (push_bit 1 r) (31 - i)) [0..<length bs] = map (\<lambda>i. bit r (30 - i)) [0..<length bs]"
    using Cons.prems by (intro map_cong refl) (auto simp only: bit_push_bit_iff set_upt atLeastLessThan_iff; auto)
  have f3: "foldl crc_bit (push_bit 1 r) bs = push_bit (length bs) (push_bit 1 r)
      XOR foldl crc_bit 0 (map2 xorb (map (\<lambda>i. bit (push_bit 1 r) (31 - i)) [0..<length bs]) bs)"
    by (rule Cons.IH) (use Cons.prems in simp)
  have "foldl crc_bit r (b # bs) = (push_bit (length bs) (push_bit 1 r) XOR foldl crc_bit 0 ys)
      XOR foldl crc_bit x (replicate (length bs) False)" by (simp only: f1 f3 f2 ys_def)
  moreover have "foldl crc_bit x ys = foldl crc_bit 0 ys XOR foldl crc_bit x (replicate (length bs) False)"
    using crc_bits_split_xor [of 0 x ys] by (simp add: ys_def)
  moreover have "map2 xorb (map (\<lambda>i. bit r (31 - i)) [0..<length (b # bs)]) (b # bs) = xorb (bit r 31) b # ys"
    unfolding ys_def by (simp add: map_upt_Suc del: upt_Suc)
  ultimately show ?case
    by (simp only: foldl_Cons x_def [symmetric] push_bit_push_bit list.size add.commute xor.assoc) simp
qed simp

lemma crc_byte:
  "foldl crc_bit r (byte_bits c) = push_bit 8 r XOR table_entry (unat (ucast (drop_bit 24 r) XOR c))"
proof -
  have "map (\<lambda>i. bit r (31 - i)) [0..<8] = byte_bits (ucast (drop_bit 24 r))"
    by (simp add: byte_bits_def bit_simps upt_rec)
  then show ?thesis using crc_bits_split [of "byte_bits c" r] by (simp add: table_entry_def byte_bits_xor)
qed

subsection \<open>Files\<close>

lemma digits_loop_show: "digits_loop i p = show_nat i @ p"
proof (induction i p rule: digits_loop.induct)
  case (1 i p)
  show ?case
  proof (cases "i div 10 = 0")
    case True
    then have "i < 10" by (simp add: div_eq_0_iff)
    then show ?thesis by (simp add: digits_loop.simps [of i p] show_nat.simps [of i] digit_char_def)
  next
    case False
    then have "\<not> i < 10" by auto
    then show ?thesis using 1 False by (simp add: digits_loop.simps [of i p] show_nat.simps [of i] digit_char_def Let_def)
  qed
qed

lemma umaxtostr_show: "umaxtostr i = show_nat i"
  by (simp add: umaxtostr_def digits_loop_show)

lemma crctab_nth: "i < 256 \<Longrightarrow> ucast (crctab ! i) = table_entry i"
proof -
  assume i: "i < 256"
  have "length crctab = 256" by (metis crctab_entries length_map length_upt diff_zero)
  then show ?thesis using crctab_entries i by (metis add_0 nth_map nth_upt length_upt diff_zero)
qed

lemma crc_index:
  fixes crc c :: "64 word"
  shows "unat ((drop_bit 24 crc XOR c) AND 0xFF) = unat (ucast (drop_bit 24 (ucast crc :: 32 word)) XOR ucast c :: byte)"
proof -
  have "(drop_bit 24 crc XOR c) AND 0xFF = ucast (ucast (drop_bit 24 (ucast crc :: 32 word)) XOR ucast c :: byte)"
  proof (rule bit_word_eqI)
    fix n assume "n < LENGTH(64)"
    have m: "(0xFF :: 64 word) = mask 8" by (simp add: mask_eq_exp_minus_1)
    show "bit ((drop_bit 24 crc XOR c) AND 0xFF) n = bit (ucast (ucast (drop_bit 24 (ucast crc :: 32 word)) XOR ucast c :: byte) :: 64 word) n"
      unfolding m by (auto simp: bit_simps)
  qed
  moreover have "unat (ucast x :: 64 word) = unat x" for x :: byte
  proof -
    have "unat x < 2 ^ LENGTH(8)" by (rule unsigned_less)
    then show ?thesis by (simp add: unsigned_ucast_eq take_bit_nat_eq_self_iff)
  qed
  ultimately show ?thesis by (simp only:)
qed

lemma crc_step_byte: "ucast (crc_step crc c) = foldl crc_bit (ucast crc) (byte_bits (ucast c))"
proof -
  have "unat (ucast (drop_bit 24 (ucast crc :: 32 word)) XOR ucast c :: byte) < 256"
    using unsigned_less [of "ucast (drop_bit 24 (ucast crc :: 32 word)) XOR ucast c :: byte"] by simp
  moreover have "(ucast (push_bit 8 crc) :: 32 word) = push_bit 8 (ucast crc)" by (rule bit_word_eqI) (auto simp: bit_simps)
  moreover have "(ucast (a XOR b) :: 32 word) = ucast a XOR ucast b" for a b :: "64 word" by (rule bit_word_eqI) (auto simp: bit_simps)
  ultimately show ?thesis by (simp only: crc_step_def crc_index crctab_nth crc_byte)
qed

lemma crc_fold: "ucast (fold (\<lambda>c crc. crc_step crc (ucast c)) buf crc) = foldl crc_bit (ucast crc) (concat (map byte_bits buf))"
proof (induction buf arbitrary: crc)
  case (Cons c buf)
  have "(ucast (ucast c :: 64 word) :: byte) = c" by (rule bit_word_eqI) (simp add: bit_simps)
  then show ?case using Cons by (simp add: crc_step_byte)
qed simp

lemma crc_length: "ucast (length_loop crc len) = foldl crc_bit (ucast crc) (concat (map byte_bits (length_bytes (unat len))))"
proof (induction crc len rule: length_loop.induct)
  case (1 crc len)
  show ?case
  proof (cases "len = 0")
    case False
    have d: "unat (drop_bit 8 len) = unat len div 256" by (simp only: unat_drop_bit_eq) (simp add: drop_bit_eq_div)
    have u: "(ucast len :: byte) = of_nat (unat len)" by simp
    have "ucast (length_loop crc len) = ucast (length_loop (crc_step crc len) (drop_bit 8 len))"
      using False by (simp only: length_loop.simps [of crc len] if_False)
    also have "\<dots> = foldl crc_bit (ucast (crc_step crc len)) (concat (map byte_bits (length_bytes (unat (drop_bit 8 len)))))"
      by (rule 1 [OF False])
    also have "\<dots> = foldl crc_bit (foldl crc_bit (ucast crc) (byte_bits (of_nat (unat len)))) (concat (map byte_bits (length_bytes (unat len div 256))))"
      by (simp only: crc_step_byte d u)
    also have "\<dots> = foldl crc_bit (ucast crc) (concat (map byte_bits (length_bytes (unat len))))"
      using False by (simp add: length_bytes.simps [of "unat len"] unat_eq_zero)
    finally show ?thesis .
  qed (simp add: length_loop.simps length_bytes.simps)
qed

text \<open>The bytes of a file: those read until nothing is read or the end of the file is reported.\<close>

fun file_bytes :: "(byte list \<times> bool) list \<Rightarrow> byte list" where
  "file_bytes [] = []"
| "file_bytes ((buf, eof) # rs) = (if buf = [] then [] else buf @ (if eof then [] else file_bytes rs))"

lemma read_loop_bytes:
  assumes "n + length (file_bytes rs) < 2 ^ 64"
  shows "\<exists>rest. read_loop rs crc (of_nat n) =
    Inr (fold (\<lambda>c crc. crc_step crc (ucast c)) (file_bytes rs) crc, of_nat (n + length (file_bytes rs)), rest)"
  using assms
proof (induction rs arbitrary: n crc)
  case (Cons r rs)
  obtain buf eof where r: "r = (buf, eof)" by fastforce
  show ?case
  proof (cases "buf = []")
    case False
    have fits: "n + length buf < 2 ^ 64" using Cons.prems r False by (auto split: if_splits)
    have u: "unat (of_nat k :: 64 word) = k" if "k < 2 ^ 64" for k using that by (simp add: unat_of_nat take_bit_nat_eq_self_iff)
    have "unat (of_nat n :: 64 word) = n" by (rule u) (use fits in linarith)
    moreover have "unat (of_nat (n + length buf) :: 64 word) = n + length buf" by (rule u [OF fits])
    ultimately have "\<not> (of_nat n + of_nat (length buf) :: 64 word) < of_nat n"
      by (simp add: word_less_nat_alt)
    then show ?thesis using r False Cons.IH [of "n + length buf" "fold (\<lambda>c crc. crc_step crc (ucast c)) buf crc"] Cons.prems
      by (auto simp: Let_def add.assoc)
  qed (simp add: r)
qed simp

definition readable :: "in_file \<Rightarrow> bool" where
  "readable f \<longleftrightarrow> \<not> read_error f \<and> close_ok f"

text \<open>The line for a file: nothing when it cannot be read.\<close>

definition cksum_line :: "cksum_state \<Rightarrow> string \<Rightarrow> string" where
  "cksum_line s a = (case in_files s a of
     None \<Rightarrow> []
   | Some f \<Rightarrow> if readable f
       then show_nat (unat (posix_cksum (file_bytes (reads f)))) @ '' '' @ show_nat (length (file_bytes (reads f))) @ '' '' @ a @ [CHR 0x0A]
       else [])"

definition file_readable :: "cksum_state \<Rightarrow> string \<Rightarrow> bool" where
  "file_readable s a \<longleftrightarrow> (case in_files s a of None \<Rightarrow> False | Some f \<Rightarrow> readable f)"

lemma cksum_named:
  assumes "a \<noteq> ''-''" "\<And>f. in_files s a = Some f \<Longrightarrow> length (file_bytes (reads f)) < 2 ^ 64"
  shows "cksum a True True s = Inr (file_readable s a, s\<lparr>printed := printed s @ cksum_line s a\<rparr>)"
proof (cases "in_files s a")
  case (Some f)
  let ?bs = "file_bytes (reads f)"
  let ?crc = "fold (\<lambda>c crc. crc_step crc (ucast c)) ?bs 0"
  have len: "unat (of_nat (length ?bs) :: 64 word) = length ?bs"
    using assms(2) Some by (simp add: unat_of_nat take_bit_nat_eq_self_iff)
  obtain rest where r: "read_loop (reads f) 0 0 = Inr (?crc, of_nat (length ?bs), rest)"
    using read_loop_bytes [of 0 "reads f" 0] assms(2) Some by auto
  have "(ucast (NOT w AND 0xFFFFFFFF) :: 32 word) = NOT (ucast w)" for w :: "64 word"
  proof (rule bit_word_eqI)
    fix n assume "n < LENGTH(32)"
    moreover have m: "(0xFFFFFFFF :: 64 word) = mask 32" by (simp add: mask_eq_exp_minus_1)
    ultimately show "bit (ucast (NOT w AND 0xFFFFFFFF) :: 32 word) n = bit (NOT (ucast w) :: 32 word) n"
      unfolding m by (auto simp: bit_simps)
  qed
  then have "ucast (NOT (length_loop ?crc (of_nat (length ?bs))) AND 0xFFFFFFFF) = posix_cksum ?bs"
    by (simp only: posix_cksum_def crc_length crc_fold crc_bits_def len map_append concat_append foldl_append) simp
  then show ?thesis using r Some assms(1) len
    by (simp add: cksum_def umaxtostr_show cksum_line_def file_readable_def readable_def Let_def)
qed (use assms(1) in \<open>simp add: cksum_def cksum_line_def file_readable_def\<close>)

lemma cksum_files_lines:
  assumes "''-'' \<notin> set as" "\<forall>a\<in>set as. \<forall>f. in_files s a = Some f \<longrightarrow> length (file_bytes (reads f)) < 2 ^ 64"
  shows "cksum_files as ok True s = Inr (ok \<and> list_all (file_readable s) as, s\<lparr>printed := printed s @ concat (map (cksum_line s) as)\<rparr>)"
  using assms
proof (induction as arbitrary: ok s)
  case (Cons a as)
  let ?s = "s\<lparr>printed := printed s @ cksum_line s a\<rparr>"
  have "cksum_line ?s = cksum_line s" "file_readable ?s = file_readable s"
    by (simp_all add: cksum_line_def file_readable_def fun_eq_iff)
  moreover have "cksum a True True s = Inr (file_readable s a, ?s)" using Cons.prems by (intro cksum_named) auto
  ultimately show ?case using Cons.IH [of ?s "ok \<and> file_readable s a"] Cons.prems by simp
qed simp

text \<open>
  C6. \<^verbatim>\<open>cksum\<close>: for every list of files the table-driven computation prints the POSIX checksum, the complement of the remainder
  of the bits of the file and of its length, in whatever pieces the file is read; files that cannot
  be read have no line and make the exit status 1.
\<close>

theorem cksum_posix:
  assumes "args \<noteq> []" "''-'' \<notin> set args"
    and "\<forall>a\<in>set args. \<forall>f. in_files s a = Some f \<longrightarrow> length (file_bytes (reads f)) < 2 ^ 64"
  shows "cksum_main args True s =
    Inr (if list_all (file_readable s) args then 0 else EXIT_FAILURE,
         s\<lparr>have_read_stdin := False, printed := printed s @ concat (map (cksum_line s) args)\<rparr>)"
proof -
  let ?s = "s\<lparr>have_read_stdin := False\<rparr>"
  have "cksum_line ?s = cksum_line s" "file_readable ?s = file_readable s"
    by (simp_all add: cksum_line_def file_readable_def fun_eq_iff)
  then show ?thesis using cksum_files_lines [of args ?s True] assms by (simp add: cksum_main_def Let_def)
qed

definition ex_cksum :: cksum_state where
  "ex_cksum = \<lparr>in_files = [''f'' \<mapsto> \<lparr>reads = [([0x61, 0x62], False), ([0x63], True)], read_error = False, close_ok = True\<rparr>],
     in_stdin = \<lparr>reads = [], read_error = False, close_ok = True\<rparr>, printed = [], have_read_stdin = False\<rparr>"

theorem cksum_posix_witness:
  "cksum_main [''f'', ''g''] True ex_cksum = Inr (1, ex_cksum\<lparr>printed := ''1219131554 3 f'' @ [CHR 0x0A]\<rparr>)"
proof -
  have f: "in_files ex_cksum ''f'' = Some \<lparr>reads = [([0x61, 0x62], False), ([0x63], True)], read_error = False, close_ok = True\<rparr>"
    "in_files ex_cksum ''g'' = None" by (simp_all add: ex_cksum_def)
  have "posix_cksum [0x61, 0x62, 0x63] = 1219131554" by code_simp
  moreover have "show_nat 1219131554 = ''1219131554''" "show_nat (Suc (Suc (Suc 0))) = ''3''" by (simp add: show_nat.simps digit_char_def; code_simp)+
  ultimately have "cksum_line ex_cksum ''f'' = ''1219131554 3 f'' @ [CHR 0x0A]" "cksum_line ex_cksum ''g'' = []"
    using f by (simp_all add: cksum_line_def readable_def)
  moreover have "\<not> file_readable ex_cksum ''g''" using f by (simp add: file_readable_def)
  ultimately show ?thesis using cksum_posix [of "[''f'', ''g'']" ex_cksum] f by (simp add: EXIT_FAILURE_def ex_cksum_def)
qed

end
