(* ===== verification/CuHuman.thy ===== *)
theory CuHuman
  imports CuCksum
begin

text \<open>
  \<^verbatim>\<open>lib/human.c\<close>: printing a number of blocks, scaled and rounded. The quantity is \<open>n\<close> blocks of
  \<open>from\<close> bytes in units of \<open>to\<close> bytes; the computation is exact with integers when one block size divides
  the other. The branch with \<^verbatim>\<open>long double\<close> is a parameter, as are the conventions of the locale.
  The text is built from its end in an array of \<^verbatim>\<open>LONGEST_HUMAN_READABLE + 1\<close> bytes.
\<close>

subsection \<open>Options\<close>

definition human_ceiling :: "32 word" where "human_ceiling = 0"
definition human_round_to_nearest :: "32 word" where "human_round_to_nearest = 1"
definition human_floor :: "32 word" where "human_floor = 2"
definition human_group_digits :: "32 word" where "human_group_digits = 4"
definition human_suppress_point_zero :: "32 word" where "human_suppress_point_zero = 8"
definition human_autoscale :: "32 word" where "human_autoscale = 16"
definition human_base_1024 :: "32 word" where "human_base_1024 = 32"
definition human_space_before_unit :: "32 word" where "human_space_before_unit = 64"
definition human_SI :: "32 word" where "human_SI = 128"
definition human_B :: "32 word" where "human_B = 256"

lemmas human_option_defs = human_ceiling_def human_round_to_nearest_def human_floor_def human_group_digits_def
  human_suppress_point_zero_def human_autoscale_def human_base_1024_def human_space_before_unit_def human_SI_def human_B_def

definition opt :: "32 word \<Rightarrow> 32 word \<Rightarrow> bool" where
  "opt opts o1 \<longleftrightarrow> opts AND o1 \<noteq> 0"

definition inexact_style :: "32 word \<Rightarrow> 32 word" where
  "inexact_style opts = opts AND (human_round_to_nearest OR human_floor OR human_ceiling)"

definition LONGEST_HUMAN_READABLE :: nat where
  "LONGEST_HUMAN_READABLE = (2 * 8 * 8 * 146 div 485 + 1) * (16 + 1) - 16 + 1 + 3"

record lconv =
  l_decimal_point :: string
  l_grouping :: "nat list"
  l_thousands_sep :: string

definition power_letter :: "nat \<Rightarrow> char" where
  "power_letter i = (NUL # ''KMGTPEZY'') ! i"

definition exponent_max :: nat where "exponent_max = 8"

subsection \<open>Grouping digits\<close>

text \<open>
  \<open>num\<close>: the digits that are left, the first \<open>i\<close> of the number. A group that is not the last has at least one
  digit, as a group length of 0 ends the list of lengths.
\<close>

function group_loop :: "nat list \<Rightarrow> nat \<Rightarrow> string \<Rightarrow> string \<Rightarrow> string \<Rightarrow> string" where
  "group_loop grouping grouplen num sep d =
     (let i = length num;
          ended = (grouping = [] \<or> hd grouping = 0);
          grouplen1 = (if ended then grouplen else if hd grouping < 127 then hd grouping else i);
          grouping1 = (if ended then grouping else tl grouping);
          grouplen2 = (if i < grouplen1 then i else grouplen1);
          d1 = drop (i - grouplen2) num @ d
      in if i - grouplen2 = 0 \<or> grouplen2 = 0 then d1
         else group_loop grouping1 grouplen2 (take (i - grouplen2) num) sep (sep @ d1))"
  by pat_completeness auto
termination by (relation "measure (\<lambda>(g, l, num, sep, d). length num)") (auto simp: Let_def split: if_splits)

declare group_loop.simps [simp del]

definition group_number :: "string \<Rightarrow> nat list \<Rightarrow> string \<Rightarrow> string" where
  "group_number num grouping sep = group_loop grouping SIZE_MAX num sep []"

subsection \<open>Scaling and rounding\<close>

text \<open>
  One division by the base. \<open>rounding\<close> tells how the rest compares with half a tenth: 0 for no rest, 1 for less, 2 for
  equal, 3 for more.
\<close>

definition scale_step :: "nat \<Rightarrow> nat \<times> nat \<times> nat \<Rightarrow> nat \<times> nat \<times> nat" where
  "scale_step base = (\<lambda>(amt, tenths, rounding).
     let r10 = (amt mod base) * 10 + tenths;
         r2 = (r10 mod base) * 2 + rounding div 2
     in (amt div base, r10 div base,
         if r2 < base then (if r2 + rounding \<noteq> 0 then 1 else 0)
         else 2 + (if base < r2 + rounding then 1 else 0)))"

function scale_loop :: "nat \<Rightarrow> nat \<times> nat \<times> nat \<Rightarrow> nat \<Rightarrow> (nat \<times> nat \<times> nat) \<times> nat" where
  "scale_loop base v ex =
     (let v' = scale_step base v
      in if base \<le> fst v' \<and> ex + 1 < exponent_max then scale_loop base v' (ex + 1) else (v', ex + 1))"
  by pat_completeness auto
termination by (relation "measure (\<lambda>(b, v, ex). exponent_max - ex)") auto

declare scale_loop.simps [simp del]

definition tenth_up :: "32 word \<Rightarrow> nat \<Rightarrow> nat \<Rightarrow> bool" where
  "tenth_up style tenths rounding \<longleftrightarrow>
     (if style = human_round_to_nearest then 2 < rounding + tenths mod 2
      else style = human_ceiling \<and> 0 < rounding)"

definition unit_up :: "32 word \<Rightarrow> nat \<Rightarrow> nat \<Rightarrow> nat \<Rightarrow> bool" where
  "unit_up style amt tenths rounding \<longleftrightarrow>
     (if style = human_round_to_nearest then 5 < tenths + (if 0 < rounding + amt mod 2 then 1 else 0)
      else style = human_ceiling \<and> 0 < tenths + rounding)"

text \<open>The first part, with \<^verbatim>\<open>human_autoscale\<close>: a text with a decimal, what is left to print, and the exponent.\<close>

definition human_scale ::
  "32 word \<Rightarrow> nat \<Rightarrow> string \<Rightarrow> nat \<times> nat \<times> nat \<Rightarrow> string \<times> (nat \<times> nat \<times> nat) \<times> nat" where
  "human_scale opts base point v =
     (if base \<le> fst v
      then let ((amt, tenths, rounding), ex) = scale_loop base v 0
           in if amt < 10
              then let (amt1, tenths1, rounding1) =
                         (if tenth_up (inexact_style opts) tenths rounding
                          then (if tenths + 1 = 10 then (amt + 1, 0, 0) else (amt, tenths + 1, 0))
                          else (amt, tenths, rounding))
                   in if amt1 < 10 \<and> (tenths1 \<noteq> 0 \<or> \<not> opt opts human_suppress_point_zero)
                      then (point @ [digit_char tenths1], (amt1, 0, 0), ex)
                      else ([], (amt1, tenths1, rounding1), ex)
              else ([], (amt, tenths, rounding), ex)
      else ([], v, 0))"

text \<open>The integer arithmetic: the text behind the integer part, the integer part and the exponent (\<open>None\<close> for -1).\<close>

definition human_integer ::
  "32 word \<Rightarrow> nat \<Rightarrow> string \<Rightarrow> nat \<times> nat \<times> nat \<Rightarrow> string \<times> nat \<times> nat option" where
  "human_integer opts base point v =
     (let (p, (amt, tenths, rounding), ex) =
            (if opt opts human_autoscale then human_scale opts base point v else ([], v, 0));
          ex1 = (if opt opts human_autoscale then Some ex else None)
      in if unit_up (inexact_style opts) amt tenths rounding
         then if opt opts human_autoscale \<and> amt + 1 = base \<and> ex < exponent_max
              then (if opt opts human_suppress_point_zero then p else point @ ''0'' @ p, 1, Some (ex + 1))
              else (p, amt + 1, ex1)
         else (p, amt, ex1))"

text \<open>The exponent of the output block size; the power wraps around.\<close>

function si_loop :: "nat \<Rightarrow> nat \<Rightarrow> nat \<Rightarrow> nat \<Rightarrow> nat" where
  "si_loop base to_size pw ex =
     (if pw < to_size \<and> ex < exponent_max
      then if ex + 1 = exponent_max then ex + 1
           else si_loop base to_size ((pw * base) mod 2 ^ 64) (ex + 1)
      else ex)"
  by pat_completeness auto
termination by (relation "measure (\<lambda>(b, t, p, ex). exponent_max - ex)") auto

declare si_loop.simps [simp del]

definition human_suffix :: "32 word \<Rightarrow> nat \<Rightarrow> string" where
  "human_suffix opts ex =
     (if (ex \<noteq> 0 \<or> opt opts human_B) \<and> opt opts human_space_before_unit then '' '' else [])
     @ (if ex \<noteq> 0 then [if \<not> opt opts human_base_1024 \<and> ex = 1 then CHR ''k'' else power_letter ex] else [])
     @ (if opt opts human_B then (if opt opts human_base_1024 \<and> ex \<noteq> 0 then ''i'' else []) @ ''B'' else [])"

text \<open>
  The value as an integer, tenths and the class of the rest, when it can be computed exactly: \<open>None\<close> for the branch
  with floating point numbers.
\<close>

definition exact_value :: "nat \<Rightarrow> nat \<Rightarrow> nat \<Rightarrow> (nat \<times> nat \<times> nat) option" where
  "exact_value n from_size to_size =
     (if to_size \<le> from_size
      then if from_size mod to_size = 0
           then let multiplier = from_size div to_size;
                    amt = (n * multiplier) mod 2 ^ 64
                in if amt div multiplier = n then Some (amt, 0, 0) else None
           else None
      else if from_size \<noteq> 0 \<and> to_size mod from_size = 0
      then let divisor = to_size div from_size;
               r10 = ((n mod divisor) * 10) mod 2 ^ 64;
               r2 = ((r10 mod divisor) * 2) mod 2 ^ 64
           in Some (n div divisor, r10 div divisor,
                    if r2 < divisor then (if 0 < r2 then 1 else 0) else 2 + (if divisor < r2 then 1 else 0))
      else None)"

text \<open>
  \<open>float_text\<close>: the text of the branch with floating point numbers, the length of its end that is not
  grouped, and the exponent. A block size of 0 is a division by zero.
\<close>

definition human_readable ::
  "(nat \<Rightarrow> 32 word \<Rightarrow> nat \<Rightarrow> nat \<Rightarrow> string \<times> nat \<times> nat option) \<Rightarrow> lconv \<Rightarrow> nat \<Rightarrow> 32 word \<Rightarrow> nat \<Rightarrow> nat \<Rightarrow> string cu" where
  "human_readable float_text l n opts from_size to_size =
     (let base = (if opt opts human_base_1024 then 1024 else 1000);
          point = (if 0 < length (l_decimal_point l) \<and> length (l_decimal_point l) \<le> 16 then l_decimal_point l else ''.'');
          sep = (if length (l_thousands_sep l) \<le> 16 then l_thousands_sep l else [])
      in if to_size = 0 then Inl (Crash IntOverflow)
         else let (number, rest, ex) =
                (case exact_value n from_size to_size of
                   Some v \<Rightarrow> (case human_integer opts base point v of (p, amt, ex) \<Rightarrow> (digits_loop amt [], p, ex))
                 | None \<Rightarrow> (case float_text n opts from_size to_size of (t, k, ex) \<Rightarrow>
                              (take (length t - k) t, drop (length t - k) t, ex)));
               number1 = (if opt opts human_group_digits then group_number number (l_grouping l) sep else number);
               suffix = (if opt opts human_SI
                         then human_suffix opts (case ex of Some e \<Rightarrow> e | None \<Rightarrow> si_loop base to_size 1 0)
                         else [])
          in if LONGEST_HUMAN_READABLE - 3 < length (number1 @ rest) \<or> 3 < length suffix then Inl (Crash BufOverflow)
             else Inr (number1 @ rest @ suffix))"

subsection \<open>Exact quotients\<close>

text \<open>What the three numbers say of the quotient \<open>N / D\<close>, and the quotient rounded in a style.\<close>

definition enc :: "nat \<Rightarrow> nat \<Rightarrow> nat \<times> nat \<times> nat" where
  "enc N D = (N div D, (N mod D) * 10 div D,
     let q = (N mod D) * 10 mod D
     in if 2 * q < D then (if 0 < q then 1 else 0) else 2 + (if D < 2 * q then 1 else 0))"

definition round_div :: "32 word \<Rightarrow> nat \<Rightarrow> nat \<Rightarrow> nat" where
  "round_div style N D =
     (if style = human_round_to_nearest
      then (if D < 2 * (N mod D) \<or> (2 * (N mod D) = D \<and> odd (N div D)) then N div D + 1 else N div D)
      else if style = human_ceiling then (if N mod D \<noteq> 0 then N div D + 1 else N div D)
      else N div D)"

lemma tenths_split:
  fixes N D :: nat
  assumes "0 < D"
  shows "(N mod D) * 10 = D * ((N mod D) * 10 div D) + (N mod D) * 10 mod D" "(N mod D) * 10 mod D < D"
    "10 * N div D = 10 * (N div D) + (N mod D) * 10 div D" "10 * N mod D = (N mod D) * 10 mod D"
proof -
  have "10 * N = D * (10 * (N div D)) + (N mod D) * 10"
    by (metis (no_types, lifting) add_mult_distrib2 div_mult_mod_eq mult.assoc mult.commute)
  then show "10 * N div D = 10 * (N div D) + (N mod D) * 10 div D" using assms by (metis div_mult_self4 less_irrefl)
  show "10 * N mod D = (N mod D) * 10 mod D" by (metis mod_mult_left_eq mult.commute)
qed (use assms in simp_all)

lemma unit_round:
  assumes "0 < D" "enc N D = (a, t, r)"
  shows "(if unit_up style a t r then a + 1 else a) = round_div style N D"
proof -
  let ?q = "(N mod D) * 10 mod D"
  have a: "a = N div D" and t: "t = (N mod D) * 10 div D" and r: "0 < r \<longleftrightarrow> 0 < ?q"
    using assms by (auto simp: enc_def Let_def split: if_splits)
  have w: "(N mod D) * 10 = D * t + ?q" "?q < D" using tenths_split [OF assms(1), of N] t by simp_all
  have f1: "D < 2 * (N mod D) \<longleftrightarrow> 5 < t \<or> (t = 5 \<and> 0 < ?q)"
  proof (cases "t \<le> 4")
    case True
    then have "D * t \<le> D * 4" by simp
    then show ?thesis using w True by linarith
  next
    case False
    then consider "t = 5" | "6 \<le> t" by linarith
    then show ?thesis
    proof cases
      case 1
      then have "D * t = D * 5" by simp
      then show ?thesis using w 1 by linarith
    next
      case 2
      then have "D * 6 \<le> D * t" by simp
      then show ?thesis using w 2 assms(1) by linarith
    qed
  qed
  have f2: "2 * (N mod D) = D \<longleftrightarrow> t = 5 \<and> ?q = 0"
  proof
    assume "2 * (N mod D) = D"
    then have e: "(N mod D) * 10 = D * 5" by linarith
    show "t = 5 \<and> ?q = 0" unfolding t e using assms(1) by simp
  qed (use w in simp)
  have f3: "0 < t + r \<longleftrightarrow> N mod D \<noteq> 0"
  proof (cases "N mod D = 0")
    case False
    then have "0 < D * t + ?q" using w by linarith
    then show ?thesis using r False by (cases "t = 0") auto
  qed (use t r in simp)
  have "5 < t + (if 0 < r + a mod 2 then 1 else 0) \<longleftrightarrow> 5 < t \<or> (t = 5 \<and> (0 < ?q \<or> odd a))"
    using r by (auto simp: odd_iff_mod_2_eq_one)
  then show ?thesis unfolding unit_up_def round_div_def f1 f2 f3 a by auto
qed

lemma tenth_round:
  assumes "0 < D" "enc N D = (a, t, r)"
  shows "(if tenth_up style t r then 10 * a + t + 1 else 10 * a + t) = round_div style (10 * N) D" "t < 10"
proof -
  let ?q = "(N mod D) * 10 mod D"
  have a: "a = N div D" and t: "t = (N mod D) * 10 div D"
    and r: "r = (if 2 * ?q < D then (if 0 < ?q then 1 else 0) else 2 + (if D < 2 * ?q then 1 else 0))"
    using assms by (auto simp: enc_def Let_def)
  have d: "10 * N div D = 10 * a + t" "10 * N mod D = ?q" using tenths_split [OF assms(1), of N] a t by simp_all
  have "odd (10 * a + t) \<longleftrightarrow> t mod 2 = 1" by presburger
  then show "(if tenth_up style t r then 10 * a + t + 1 else 10 * a + t) = round_div style (10 * N) D"
    unfolding round_div_def d using assms(1)
    by (auto simp: tenth_up_def r human_ceiling_def human_round_to_nearest_def)
  have "N mod D * 10 < 10 * D" using assms(1) by simp
  then show "t < 10" unfolding t using assms(1) by (simp add: div_less_iff_less_mult)
qed

lemma enc_step:
  assumes "0 < D" "even b" "0 < b"
  shows "scale_step b (enc N D) = enc N (D * b)"
proof -
  let ?P = "(N mod (D * b)) * 10" and ?q = "(N mod D) * 10 mod D"
  let ?r10 = "((N div D) mod b) * 10 + (N mod D) * 10 div D"
  have "?P = D * (((N div D) mod b) * 10) + (N mod D) * 10" by (simp add: mod_mult2_eq algebra_simps)
  then have P: "?P div D = ?r10" "?P mod D = ?q" using assms(1) by simp_all
  define k where "k = ?r10 mod b"
  have d: "?P div (D * b) = ?r10 div b" by (simp add: div_mult2_eq P)
  have "?P mod (D * b) = D * (?P div D mod b) + ?P mod D" by (rule mod_mult2_eq)
  then have m: "?P mod (D * b) = D * k + ?q" by (simp only: P k_def)
  have q: "?q < D" using assms(1) by simp
  obtain c where c: "b = 2 * c" using assms(2) by blast
  define rnd where "rnd = (if 2 * ?q < D then (if 0 < ?q then 1 else 0) else 2 + (if D < 2 * ?q then 1 else 0 :: nat))"
  have rnd: "0 < rnd \<longleftrightarrow> 0 < ?q" "rnd \<le> 3" using q by (auto simp: rnd_def)
  have rounding: "(if k * 2 + rnd div 2 < b then (if k * 2 + rnd div 2 + rnd \<noteq> 0 then 1 else 0)
      else 2 + (if b < k * 2 + rnd div 2 + rnd then 1 else 0)) =
    (if 2 * (D * k + ?q) < D * b then (if 0 < D * k + ?q then 1 else 0) else 2 + (if D * b < 2 * (D * k + ?q) then 1 else 0 :: nat))"
  proof (cases "k < c")
    case True
    then have "D * (k + 1) \<le> D * c" by (intro mult_le_mono2) linarith
    then have "2 * (D * k + ?q) < D * b" using q by (simp add: c algebra_simps)
    moreover have "k * 2 + rnd div 2 < b" using True rnd(2) c by linarith
    moreover have "0 < D * k + ?q \<longleftrightarrow> k * 2 + rnd div 2 + rnd \<noteq> 0" using rnd(1) assms(1) by auto
    ultimately show ?thesis by simp
  next
    case False
    then have ge: "D * c \<le> D * k" by simp
    then have "2 * (D * c) \<le> 2 * (D * k + ?q)" by (rule mult_le_mono2 [OF trans_le_add1])
    moreover have "D * b = 2 * (D * c)" by (simp add: c)
    ultimately have "\<not> 2 * (D * k + ?q) < D * b" by (simp only: not_less)
    moreover have "\<not> k * 2 + rnd div 2 < b" using False c by linarith
    moreover have "D * b < 2 * (D * k + ?q) \<longleftrightarrow> b < k * 2 + rnd div 2 + rnd"
    proof (cases "k = c")
      case True
      then show ?thesis using rnd by (auto simp: c)
    next
      case neq: False
      then have "D * (c + 1) \<le> D * k" using False by (intro mult_le_mono2) linarith
      then have "D * b < 2 * (D * k + ?q)" using assms(1) by (simp add: c algebra_simps)
      moreover have "b < k * 2" using False neq c by linarith
      ultimately show ?thesis by linarith
    qed
    ultimately show ?thesis by simp
  qed
  show ?thesis unfolding enc_def scale_step_def prod.case Let_def d m rnd_def [symmetric] k_def [symmetric]
    using rounding by (simp add: div_mult2_eq)
qed

subsection \<open>What is printed\<close>

text \<open>The number of times the base divides into the quotient until less than the base is left, at most 8 times.\<close>

definition human_exp :: "nat \<Rightarrow> nat \<Rightarrow> nat \<Rightarrow> nat" where
  "human_exp base N D = length (takeWhile (\<lambda>e. base \<le> N div (D * base ^ e)) [0..<exponent_max])"

lemma human_expI:
  assumes "\<And>i. i < e \<Longrightarrow> base \<le> N div (D * base ^ i)" "e = exponent_max \<or> (e < exponent_max \<and> N div (D * base ^ e) < base)"
  shows "human_exp base N D = e"
proof -
  have le: "e \<le> exponent_max" using assms(2) by auto
  have "takeWhile (\<lambda>e. base \<le> N div (D * base ^ e)) [0..<exponent_max] = [0..<e]"
  proof -
    have "[0..<exponent_max] = [0..<e] @ [e..<exponent_max]" using le by (metis le0 le_add_diff_inverse upt_add_eq_append)
    moreover have "takeWhile (\<lambda>e. base \<le> N div (D * base ^ e)) [e..<exponent_max] = []"
      using assms(2) by (auto simp: upt_rec [of e])
    ultimately show ?thesis using assms(1) by (simp only:) (subst takeWhile_append2, auto)
  qed
  then show ?thesis by (simp add: human_exp_def)
qed

lemma human_exp_less:
  assumes "human_exp base N D < exponent_max"
  shows "N div (D * base ^ human_exp base N D) < base"
  using nth_length_takeWhile [of "\<lambda>e. base \<le> N div (D * base ^ e)" "[0..<exponent_max]"] assms by (simp add: human_exp_def)

lemma scale_loop_exp:
  assumes "0 < D" "even base" "0 < base" "j < exponent_max" "\<And>i. i \<le> j \<Longrightarrow> base \<le> N div (D * base ^ i)"
  shows "scale_loop base (enc N (D * base ^ j)) j =
    (enc N (D * base ^ human_exp base N D), human_exp base N D) \<and> 0 < human_exp base N D"
  using assms(4,5)
proof (induction "exponent_max - j" arbitrary: j rule: less_induct)
  case less
  have step: "scale_step base (enc N (D * base ^ j)) = enc N (D * base ^ Suc j)"
    using enc_step [of "D * base ^ j" base N] assms(1-3) by (simp add: ac_simps)
  have fst: "fst (enc N (D * base ^ Suc j)) = N div (D * base ^ Suc j)" by (simp add: enc_def)
  show ?case
  proof (cases "base \<le> N div (D * base ^ Suc j) \<and> Suc j < exponent_max")
    case True
    have "base \<le> N div (D * base ^ i)" if "i \<le> Suc j" for i using less.prems(2) True that le_Suc_eq by auto
    then have "scale_loop base (enc N (D * base ^ Suc j)) (Suc j) =
        (enc N (D * base ^ human_exp base N D), human_exp base N D) \<and> 0 < human_exp base N D"
      using less.hyps [of "Suc j"] diff_less_mono2 [of j "Suc j" exponent_max] less.prems(1) True by blast
    then show ?thesis using True unfolding scale_loop.simps [of base _ j] step Let_def fst by (simp del: power_Suc)
  next
    case False
    then have e: "human_exp base N D = Suc j" using less.prems by (intro human_expI) auto
    show ?thesis unfolding e scale_loop.simps [of base _ j] step Let_def fst using False by (auto simp del: power_Suc)
  qed
qed

text \<open>
  The text for the quotient \<open>N / D\<close> with \<^verbatim>\<open>human_autoscale\<close>: the end of the text, the integer part and the
  exponent. One decimal is shown below 10, unless the value is not scaled; a value that is rounded up to the base is 1 of
  the next unit.
\<close>

definition human_spec :: "32 word \<Rightarrow> nat \<Rightarrow> string \<Rightarrow> nat \<Rightarrow> nat \<Rightarrow> string \<times> nat \<times> nat" where
  "human_spec opts base point N D =
     (let e = human_exp base N D;
          t = round_div (inexact_style opts) (10 * N) (D * base ^ e);
          u = round_div (inexact_style opts) N (D * base ^ e);
          sup = opt opts human_suppress_point_zero
      in if 0 < e \<and> N div (D * base ^ e) < 10
         then if 100 \<le> t then ([], 10, e)
              else (if t mod 10 = 0 \<and> sup then [] else point @ [digit_char (t mod 10)], t div 10, e)
         else if u = base \<and> e < exponent_max then (if sup then [] else point @ ''0'', 1, e + 1)
         else ([], u, e))"

lemma round_div_cases: "round_div style N D = N div D \<or> round_div style N D = N div D + 1"
  by (auto simp: round_div_def)

lemma human_integer_spec:
  assumes "0 < D" "even base" "10 < base" "opt opts human_autoscale"
  shows "human_integer opts base point (enc N D) =
    (let (p, a, e) = human_spec opts base point N D in (p, a, Some e))"
proof -
  let ?style = "inexact_style opts"
  obtain e where e: "e = human_exp base N D" by simp
  obtain a t r where enc: "enc N (D * base ^ e) = (a, t, r)" by (metis prod_cases3)
  have D: "0 < D * base ^ e" using assms(1,3) by simp
  have a: "a = N div (D * base ^ e)" using enc by (simp add: enc_def)
  note unit = unit_round [OF D enc, of ?style] and tenth = tenth_round [OF D enc]
  have sc: "human_scale opts base point (enc N D) =
    (if 0 < e \<and> a < 10
     then let (a1, t1, r1) = (if tenth_up ?style t r then (if t + 1 = 10 then (a + 1, 0, 0) else (a, t + 1, 0)) else (a, t, r))
          in if a1 < 10 \<and> (t1 \<noteq> 0 \<or> \<not> opt opts human_suppress_point_zero)
             then (point @ [digit_char t1], (a1, 0, 0), e) else ([], (a1, t1, r1), e)
     else ([], (a, t, r), e))"
  proof (cases "base \<le> N div D")
    case True
    then have "scale_loop base (enc N D) 0 = ((a, t, r), e)" "0 < e"
      using scale_loop_exp [of D base 0 N] assms(1-3) enc e by (simp_all add: exponent_max_def)
    then show ?thesis using True by (simp add: human_scale_def enc_def)
  next
    case False
    then have "e = 0" unfolding e by (intro human_expI) (auto simp: exponent_max_def)
    then show ?thesis using False enc by (simp add: human_scale_def enc_def)
  qed
  show ?thesis
  proof (cases "0 < e \<and> a < 10")
    case True
    let ?T = "round_div ?style (10 * N) (D * base ^ e)"
    obtain a1 t1 r1 where st: "(if tenth_up ?style t r then (if t + 1 = 10 then (a + 1, 0, 0) else (a, t + 1, 0)) else (a, t, r)) = (a1, t1, r1)"
      by (metis prod_cases3)
    then have st': "t1 = 0 \<Longrightarrow> \<not> unit_up ?style a1 0 r1" "a1 \<le> 10" "t1 < 10" "?T = 10 * a1 + t1" "a1 = 10 \<Longrightarrow> t1 = 0"
      using True tenth(1) [of ?style] tenth(2) by (auto simp: unit_up_def tenth_up_def split: if_splits)
    moreover have "\<not> unit_up ?style a1 0 0" by (simp add: unit_up_def)
    ultimately show ?thesis
      using sc [unfolded st] True a assms(4) unfolding human_integer_def human_spec_def e [symmetric] by (auto simp: Let_def)
  next
    case False
    then have "human_scale opts base point (enc N D) = ([], (a, t, r), e)" unfolding sc by (simp only: if_False)
    moreover have "e < exponent_max \<Longrightarrow> a < base" using human_exp_less e a by simp
    ultimately show ?thesis
      using unit False a assms(3,4) unfolding human_integer_def human_spec_def e [symmetric] by (auto simp: Let_def exponent_max_def split: if_splits)
  qed
qed

lemma exact_value_enc:
  assumes "0 < to_size"
    and "to_size \<le> from_size \<and> to_size dvd from_size \<and> N = n * (from_size div to_size) \<and> D = 1 \<and> N < 2 ^ 64
       \<or> from_size < to_size \<and> 0 < from_size \<and> from_size dvd to_size \<and> N = n \<and> D = to_size div from_size \<and> 10 * D \<le> 2 ^ 64"
  shows "exact_value n from_size to_size = Some (enc N D)" "0 < D"
proof -
  have "exact_value n from_size to_size = Some (enc N D) \<and> 0 < D"
    using assms(2)
  proof (elim disjE conjE)
    assume h: "to_size \<le> from_size" "to_size dvd from_size" "N = n * (from_size div to_size)" "D = 1" "N < 2 ^ 64"
    have "0 < from_size div to_size" using h(1) assms(1) by (simp add: div_greater_zero_iff)
    then show ?thesis using h by (simp add: exact_value_def enc_def dvd_eq_mod_eq_0 Let_def)
  next
    assume h: "from_size < to_size" "0 < from_size" "from_size dvd to_size" "N = n" "D = to_size div from_size" "10 * D \<le> 2 ^ 64"
    have D: "0 < D" using h by (simp add: div_greater_zero_iff)
    have "(n mod D) * 10 < 2 ^ 64" using h(6) mod_less_divisor [OF D, of n] by linarith
    moreover have "(n mod D) * 10 mod D * 2 < 2 ^ 64" using h(6) mod_less_divisor [OF D, of "(n mod D) * 10"] by linarith
    ultimately have "((n mod D) * 10) mod 2 ^ 64 = (n mod D) * 10" "((n mod D) * 10 mod D * 2) mod 2 ^ 64 = (n mod D) * 10 mod D * 2"
      by (simp_all only: mod_less)
    moreover have "to_size mod from_size = 0" "\<not> to_size \<le> from_size" "from_size \<noteq> 0" using h by auto
    ultimately show ?thesis using D unfolding exact_value_def enc_def Let_def h(4) h(5) [symmetric] mult.commute [of 2]
      by (simp only: if_False if_True simp_thms nat_0_less_mult_iff zero_less_numeral)
  qed
  then show "exact_value n from_size to_size = Some (enc N D)" "0 < D" by simp_all
qed

lemma human_integer_plain:
  assumes "0 < D" "\<not> opt opts human_autoscale"
  shows "human_integer opts base point (enc N D) = ([], round_div (inexact_style opts) N D, None)"
proof -
  obtain a t r where enc: "enc N D = (a, t, r)" by (metis prod_cases3)
  show ?thesis using unit_round [OF assms(1) enc, of "inexact_style opts"] assms(2)
    by (auto simp: human_integer_def enc Let_def)
qed

text \<open>The text of the number and the exponent that the documentation of the options asks for.\<close>

definition human_number :: "32 word \<Rightarrow> string \<Rightarrow> nat \<Rightarrow> nat \<Rightarrow> nat \<Rightarrow> string \<times> nat" where
  "human_number opts point N D to_size =
     (let base = (if opt opts human_base_1024 then 1024 else 1000)
      in if opt opts human_autoscale
         then (case human_spec opts base point N D of (p, a, e) \<Rightarrow> (show_nat a @ p, e))
         else (show_nat (round_div (inexact_style opts) N D), si_loop base to_size 1 0))"

lemma human_spec_bounds:
  assumes "human_spec opts base point N D = (p, a, e)"
  shows "a \<le> N + 10" "length p \<le> length point + 1"
proof -
  let ?D = "D * base ^ human_exp base N D"
  have u: "round_div (inexact_style opts) N ?D \<le> N + 1"
    using round_div_cases [of "inexact_style opts" N ?D] by (metis div_le_dividend add_le_mono1 le_SucI Suc_eq_plus1)
  then show "a \<le> N + 10" using assms by (auto simp: human_spec_def Let_def split: if_splits)
  show "length p \<le> length point + 1" using assms by (auto simp: human_spec_def Let_def split: if_splits)
qed

lemma human_number_length:
  assumes "N < 2 ^ 64" "length point \<le> 16"
  shows "length (fst (human_number opts point N D to_size)) \<le> 38"
proof -
  have sh: "length (show_nat a) \<le> 21" if "a \<le> N + 10" for a
    using that assms(1) by (intro show_nat_length) simp_all
  let ?base = "if opt opts human_base_1024 then 1024 else 1000"
  obtain p a e where sp: "human_spec opts ?base point N D = (p, a, e)" by (metis prod_cases3)
  have "length (show_nat a @ p) \<le> 38" using sh human_spec_bounds [OF sp] assms(2) by fastforce
  moreover have "round_div (inexact_style opts) N D \<le> N + 10"
    using round_div_cases [of "inexact_style opts" N D] div_le_dividend [of N D] by linarith
  then have "length (show_nat (round_div (inexact_style opts) N D)) \<le> 38" using sh by fastforce
  ultimately show ?thesis unfolding human_number_def Let_def sp by simp
qed

lemma human_readable_exact:
  assumes "0 < to_size" "n < 2 ^ 64" "\<not> opt opts human_group_digits"
    and "0 < length (l_decimal_point l)" "length (l_decimal_point l) \<le> 16"
    and "to_size \<le> from_size \<and> to_size dvd from_size \<and> N = n * (from_size div to_size) \<and> D = 1 \<and> N < 2 ^ 64
       \<or> from_size < to_size \<and> 0 < from_size \<and> from_size dvd to_size \<and> N = n \<and> D = to_size div from_size \<and> 10 * D \<le> 2 ^ 64"
  shows "human_readable fl l n opts from_size to_size =
    (case human_number opts (l_decimal_point l) N D to_size of (num, e) \<Rightarrow>
       if opt opts human_SI \<and> 3 < length (human_suffix opts e) then Inl (Crash BufOverflow)
       else Inr (num @ (if opt opts human_SI then human_suffix opts e else [])))"
proof -
  note ex = exact_value_enc [OF assms(1,6)]
  have "N < 2 ^ 64" using assms(2,6) by blast
  then have len: "length (fst (human_number opts (l_decimal_point l) N D to_size)) \<le> 38"
    using assms(5) by (rule human_number_length)
  have big: "LONGEST_HUMAN_READABLE - 3 = 648" by (simp add: LONGEST_HUMAN_READABLE_def)
  have base: "even (if opt opts human_base_1024 then 1024 else 1000 :: nat)" "10 < (if opt opts human_base_1024 then 1024 else 1000 :: nat)"
    by simp_all
  show ?thesis
  proof (cases "opt opts human_autoscale")
    case True
    obtain p a e where sp: "human_spec opts (if opt opts human_base_1024 then 1024 else 1000) (l_decimal_point l) N D = (p, a, e)"
      by (metis prod_cases3)
    show ?thesis
      using human_integer_spec [OF ex(2) base True, of "l_decimal_point l" N] sp True len assms(1,3,4,5) ex(1)
      by (auto simp: human_readable_def human_number_def digits_loop_show big Let_def)
  next
    case False
    show ?thesis
      using human_integer_plain [OF ex(2) False] False len assms(1,3,4,5) ex(1)
      by (auto simp: human_readable_def human_number_def digits_loop_show big Let_def)
  qed
qed

text \<open>
  C17. \<^verbatim>\<open>human_readable\<close> without the grouping of digits and where it calculates with integers: one block size divides the
  other, and either the number times their quotient is below \<open>2^64\<close> or ten times the quotient is at most \<open>2^64\<close>;
  the decimal point takes one to 16 bytes. Then the number printed is the exact quotient
  rounded in the style asked for (up, down, or to the nearest), to tenths below 10 and to units above, in the unit in
  which it is below the base, followed by the suffix of the unit; the array is overrun exactly when the suffix has four
  characters. The example 8500 of the comment in the source is 8.3 rounded to the nearest or down; rounded up, which is the
  style without an option, it is 8.4.
\<close>

theorem human_rounding:
  assumes "0 < to_size" "n < 2 ^ 64" "\<not> opt opts human_group_digits"
    and "0 < length (l_decimal_point l)" "length (l_decimal_point l) \<le> 16"
    and "to_size \<le> from_size \<and> to_size dvd from_size \<and> N = n * (from_size div to_size) \<and> D = 1 \<and> N < 2 ^ 64
       \<or> from_size < to_size \<and> 0 < from_size \<and> from_size dvd to_size \<and> N = n \<and> D = to_size div from_size \<and> 10 * D \<le> 2 ^ 64"
  shows "human_readable fl l n opts from_size to_size =
    (case human_number opts (l_decimal_point l) N D to_size of (num, e) \<Rightarrow>
       if opt opts human_SI \<and> 3 < length (human_suffix opts e) then Inl (Crash BufOverflow)
       else Inr (num @ (if opt opts human_SI then human_suffix opts e else [])))"
  using assms by (rule human_readable_exact)

theorem human_rounding_witness:
  "human_readable (\<lambda>n opts f t. ([], 0, None)) \<lparr>l_decimal_point = ''.'', l_grouping = [], l_thousands_sep = []\<rparr> 8500
     (human_autoscale OR human_SI OR human_base_1024) 1 1 = Inr ''8.4K''
   \<and> human_readable (\<lambda>n opts f t. ([], 0, None)) \<lparr>l_decimal_point = ''.'', l_grouping = [], l_thousands_sep = []\<rparr> 8500
     (human_autoscale OR human_SI OR human_base_1024 OR human_round_to_nearest) 1 1 = Inr ''8.3K''
   \<and> human_readable (\<lambda>n opts f t. ([], 0, None)) \<lparr>l_decimal_point = ''.'', l_grouping = [], l_thousands_sep = []\<rparr> 8500
     (human_autoscale OR human_SI OR human_base_1024 OR human_B OR human_space_before_unit) 1 1 = Inl (Crash BufOverflow)"
proof -
  let ?l = "\<lparr>l_decimal_point = ''.'', l_grouping = [], l_thousands_sep = []\<rparr>"
  let ?o = "human_autoscale OR human_SI OR human_base_1024"
  let ?r = "human_autoscale OR human_SI OR human_base_1024 OR human_round_to_nearest"
  let ?b = "human_autoscale OR human_SI OR human_base_1024 OR human_B OR human_space_before_unit"
  note eval = human_number_def human_spec_def human_exp_def exponent_max_def upt_rec round_div_def inexact_style_def
    opt_def human_option_defs show_nat.simps digit_char_def human_suffix_def power_letter_def
  have n: "human_number ?o ''.'' 8500 1 1 = (''8.4'', 1)" by (simp add: eval; code_simp)
  have r: "human_number ?r ''.'' 8500 1 1 = (''8.3'', 1)" by (simp add: eval; code_simp)
  have b: "human_number ?b ''.'' 8500 1 1 = (''8.4'', 1)" by (simp add: eval; code_simp)
  have s: "human_suffix ?o 1 = ''K''" "human_suffix ?r 1 = ''K''" "human_suffix ?b 1 = '' KiB''" by (simp_all add: eval)
  have o: "opt ?o human_SI" "opt ?r human_SI" "opt ?b human_SI"
    "\<not> opt ?o human_group_digits" "\<not> opt ?r human_group_digits" "\<not> opt ?b human_group_digits"
    by (simp_all add: opt_def human_option_defs)
  show ?thesis
    using human_rounding [of 1 8500 ?o ?l 1 8500 1 "\<lambda>n opts f t. ([], 0, None)"]
      human_rounding [of 1 8500 ?r ?l 1 8500 1 "\<lambda>n opts f t. ([], 0, None)"]
      human_rounding [of 1 8500 ?b ?l 1 8500 1 "\<lambda>n opts f t. ([], 0, None)"] n r b s o by simp
qed

end
