(* ===== verification/CuSum.thy ===== *)
theory CuSum
  imports CuHuman
begin

text \<open>
  \<^verbatim>\<open>src/sum.c\<close> with \<^verbatim>\<open>lib/safe-read.c\<close>: the checksums of BSD and of System V with the number of blocks. The BSD
  variant reads characters of a stream, the System V variant the answers of \<^verbatim>\<open>read\<close>, which may be
  interrupted; a call with no answer left does not return (\<open>None\<close>).
\<close>

subsection \<open>Reading\<close>

datatype read_ans = Bytes "byte list" | Eintr | Einval | Err

text \<open>\<open>Inl ()\<close> is \<^verbatim>\<open>SAFE_READ_ERROR\<close>.\<close>

fun safe_read :: "nat \<Rightarrow> read_ans list \<Rightarrow> ((unit + byte list) \<times> read_ans list) option" where
  "safe_read cnt [] = None"
| "safe_read cnt (Bytes bs # as) = Some (Inr bs, as)"
| "safe_read cnt (Eintr # as) = safe_read cnt as"
| "safe_read cnt (Einval # as) = (if 2147475456 < cnt then safe_read 2147475456 as else Some (Inl (), as))"
| "safe_read cnt (Err # as) = Some (Inl (), as)"

lemma safe_read_shorter: "safe_read cnt as = Some (r, as') \<Longrightarrow> length as' < length as"
proof (induction cnt as arbitrary: r as' rule: safe_read.induct)
  case (3 cnt as)
  then show ?case by fastforce
next
  case (4 cnt as)
  then show ?case by (fastforce split: if_splits)
qed auto

subsection \<open>The two sums\<close>

record sum_fd =
  fd_answers :: "read_ans list"
  fd_close_ok :: bool

record sum_state = cksum_state +
  fd_files :: "string \<rightharpoonup> sum_fd"
  fd_stdin :: sum_fd

definition printf_05d :: "nat \<Rightarrow> string" where
  "printf_05d i = replicate (5 - length (show_nat i)) (CHR ''0'') @ show_nat i"

definition printf_5s :: "string \<Rightarrow> string" where
  "printf_5s s = replicate (5 - length s) (CHR '' '') @ s"

definition bsd_step :: "byte \<Rightarrow> nat \<Rightarrow> nat" where
  "bsd_step ch checksum = (checksum div 2 + (checksum mod 2) * 2 ^ 15 + unat ch) mod 2 ^ 16"

text \<open>The characters of a stream up to the end of the file, and what a later read returns.\<close>

fun file_rest :: "(byte list \<times> bool) list \<Rightarrow> (byte list \<times> bool) list" where
  "file_rest [] = []"
| "file_rest ((buf, eof) # rs) = (if buf = [] \<or> eof then rs else file_rest rs)"

type_synonym floats = "nat \<Rightarrow> 32 word \<Rightarrow> nat \<Rightarrow> nat \<Rightarrow> string \<times> nat \<times> nat option"

definition bsd_sum_file :: "floats \<Rightarrow> lconv \<Rightarrow> string \<Rightarrow> int \<Rightarrow> sum_state \<Rightarrow> (bool \<times> sum_state) cu" where
  "bsd_sum_file fl l name print_name s =
     (let is_stdin = (name = ''-'')
      in case (if is_stdin then Some (in_stdin s) else in_files s name) of
           None \<Rightarrow> Inr (False, s)
         | Some f \<Rightarrow>
             let bs = file_bytes (reads f);
                 total_bytes = length bs mod 2 ^ 64;
                 checksum = fold bsd_step bs 0;
                 s1 = (if is_stdin then s\<lparr>have_read_stdin := True, in_stdin := f\<lparr>reads := file_rest (reads f)\<rparr>\<rparr> else s)
             in if read_error f then Inr (False, s1)
                else if \<not> is_stdin \<and> \<not> close_ok f then Inr (False, s1)
                else cbind (human_readable fl l total_bytes human_ceiling 1 1024) (\<lambda>h.
                       Inr (True, s1\<lparr>printed := printed s1 @ printf_05d checksum @ '' '' @ printf_5s h
                                  @ (if 1 < print_name then '' '' @ name else []) @ [CHR 0x0A]\<rparr>)))"

text \<open>The loop over the blocks: the sum, the number of bytes and whether reading failed.\<close>

function sysv_loop :: "read_ans list \<Rightarrow> 32 word \<Rightarrow> 64 word \<Rightarrow> ((32 word \<times> 64 word) option \<times> read_ans list) option" where
  "sysv_loop as sm total_bytes =
     (case safe_read 8192 as of
        None \<Rightarrow> None
      | Some (Inl _, as') \<Rightarrow> Some (None, as')
      | Some (Inr bs, as') \<Rightarrow>
          if bs = [] then Some (Some (sm, total_bytes), as')
          else sysv_loop as' (fold (\<lambda>b t. t + ucast b) bs sm) (total_bytes + of_nat (length bs)))"
  by pat_completeness auto
termination by (relation "measure (\<lambda>(as, s, t). length as)") (auto dest: safe_read_shorter)

declare sysv_loop.simps [simp del]

definition sysv_checksum :: "32 word \<Rightarrow> nat" where
  "sysv_checksum sm =
     (let r = unat (sm AND 0xFFFF) + unat (drop_bit 16 (sm AND 0xFFFFFFFF))
      in r mod 2 ^ 16 + r div 2 ^ 16)"

definition sysv_sum_file :: "floats \<Rightarrow> lconv \<Rightarrow> string \<Rightarrow> int \<Rightarrow> sum_state \<Rightarrow> (bool \<times> sum_state) cu option" where
  "sysv_sum_file fl l name print_name s =
     (let is_stdin = (name = ''-'')
      in case (if is_stdin then Some (fd_stdin s) else fd_files s name) of
           None \<Rightarrow> Some (Inr (False, s))
         | Some f \<Rightarrow> Option.bind (sysv_loop (fd_answers f) 0 0) (\<lambda>(r, as).
             let s1 = (if is_stdin then s\<lparr>have_read_stdin := True, fd_stdin := f\<lparr>fd_answers := as\<rparr>\<rparr> else s)
             in case r of
                  None \<Rightarrow> Some (Inr (False, s1))
                | Some (sm, total_bytes) \<Rightarrow>
                    if \<not> is_stdin \<and> \<not> fd_close_ok f then Some (Inr (False, s1))
                    else Some (cbind (human_readable fl l (unat total_bytes) human_ceiling 1 512) (\<lambda>h.
                           Inr (True, s1\<lparr>printed := printed s1 @ printf_05d (sysv_checksum sm) @ '' '' @ printf_5s h
                                      @ (if print_name \<noteq> 0 then '' '' @ name else []) @ [CHR 0x0A]\<rparr>)))))"

definition sum_func :: "bool \<Rightarrow> floats \<Rightarrow> lconv \<Rightarrow> string \<Rightarrow> int \<Rightarrow> sum_state \<Rightarrow> (bool \<times> sum_state) cu option" where
  "sum_func sysv fl l name print_name s =
     (if sysv then sysv_sum_file fl l name print_name s else Some (bsd_sum_file fl l name print_name s))"

fun sum_args :: "bool \<Rightarrow> floats \<Rightarrow> lconv \<Rightarrow> int \<Rightarrow> string list \<Rightarrow> bool \<Rightarrow> sum_state \<Rightarrow> (bool \<times> sum_state) cu option" where
  "sum_args sysv fl l files_given [] ok s = Some (Inr (ok, s))"
| "sum_args sysv fl l files_given (a # as) ok s =
     Option.bind (sum_func sysv fl l a files_given s) (\<lambda>r.
       case r of
         Inl e \<Rightarrow> Some (Inl e)
       | Inr (r1, s1) \<Rightarrow> sum_args sysv fl l files_given as (ok \<and> r1) s1)"

text \<open>\<open>sysv\<close> and \<open>args\<close> are what \<^verbatim>\<open>getopt_long\<close> makes of the options.\<close>

definition sum_main :: "bool \<Rightarrow> floats \<Rightarrow> lconv \<Rightarrow> string list \<Rightarrow> sum_state \<Rightarrow> (int \<times> sum_state) cu option" where
  "sum_main sysv fl l args s =
     (let s0 = s\<lparr>have_read_stdin := False\<rparr>;
          files_given = int (length args)
      in Option.bind (if files_given \<le> 0 then sum_func sysv fl l ''-'' files_given s0
                      else sum_args sysv fl l files_given args True s0) (\<lambda>r.
           Some (cbind r (\<lambda>(ok, s').
             if have_read_stdin s' \<and> \<not> close_ok (in_stdin s') then Inl (Exit EXIT_FAILURE)
             else Inr (if ok then 0 else EXIT_FAILURE, s')))))"

subsection \<open>Reference\<close>

definition bsd_reference :: "byte list \<Rightarrow> 16 word" where
  "bsd_reference bs = fold (\<lambda>b c. word_rotr 1 c + ucast b) bs 0"

definition sysv_reference :: "byte list \<Rightarrow> nat" where
  "sysv_reference bs = (let t = sum_list (map unat bs) mod 2 ^ 32 in if t = 0 then 0 else (t - 1) mod 65535 + 1)"

text \<open>The bytes that a sequence of answers delivers before the first error or the end, and whether it ends without an error.\<close>

fun delivered :: "read_ans list \<Rightarrow> byte list" where
  "delivered [] = []"
| "delivered (Bytes bs # as) = (if bs = [] then [] else bs @ delivered as)"
| "delivered (Eintr # as) = delivered as"
| "delivered (_ # as) = []"

fun complete :: "read_ans list \<Rightarrow> bool" where
  "complete [] \<longleftrightarrow> False"
| "complete (Bytes bs # as) \<longleftrightarrow> bs = [] \<or> complete as"
| "complete (Eintr # as) \<longleftrightarrow> complete as"
| "complete (_ # as) \<longleftrightarrow> False"

fun returns :: "read_ans list \<Rightarrow> bool" where
  "returns [] \<longleftrightarrow> False"
| "returns (Bytes bs # as) \<longleftrightarrow> bs = [] \<or> returns as"
| "returns (Eintr # as) \<longleftrightarrow> returns as"
| "returns (_ # as) \<longleftrightarrow> True"

lemma unat_byte: "unat (b :: byte) < 256"
proof -
  have "unat b < 2 ^ LENGTH(8)" by (rule unsigned_less)
  then show ?thesis by simp
qed

lemma rotr_1: "word_rotr 1 (c :: 16 word) = drop_bit 1 c OR push_bit 15 c"
proof (rule bit_word_eqI)
  fix n assume "n < LENGTH(16)"
  then consider "n = 15" | "n < 15" by fastforce
  then show "bit (word_rotr 1 c) n = bit (drop_bit 1 c OR push_bit 15 c) n"
  proof cases
    case 1
    then show ?thesis by (simp only: bit_word_rotr_iff bit_or_iff bit_drop_bit_eq bit_push_bit_iff o_def) (auto dest: bit_imp_le_length)
  next
    case 2
    then show ?thesis by (simp only: bit_word_rotr_iff bit_or_iff bit_drop_bit_eq bit_push_bit_iff o_def) auto
  qed
qed

lemma bsd_word: "unat (word_rotr 1 (c :: 16 word) + ucast (b :: byte)) = bsd_step b (unat c)"
proof -
  have "drop_bit 1 c OR push_bit 15 c = drop_bit 1 c + push_bit 15 c"
    by (intro disjunctive_add [symmetric]) (simp only: bit_drop_bit_eq bit_push_bit_iff o_def, auto dest: bit_imp_le_length)
  moreover have "unat (drop_bit 1 c) = unat c div 2" by (simp only: unat_drop_bit_eq) (simp add: drop_bit_eq_div)
  moreover have "unat (push_bit 15 c) = (unat c mod 2) * 2 ^ 15"
    by (simp only: unsigned_push_bit_eq push_bit_eq_mult take_bit_eq_mod) (simp add: unat_word_ariths mult_mod_left)
  moreover have "unat (ucast b :: 16 word) = unat b"
    using unat_byte [of b] by (simp add: unsigned_ucast_eq take_bit_nat_eq_self_iff)
  ultimately show ?thesis by (simp add: bsd_step_def rotr_1 unat_word_ariths mod_simps del: One_nat_def)
qed

lemma bsd_fold: "unat (fold (\<lambda>b c. word_rotr 1 c + ucast b) bs c) = fold bsd_step bs (unat (c :: 16 word))"
  by (induction bs arbitrary: c) (simp_all add: bsd_word del: One_nat_def)

lemma bsd_reference_fold: "unat (bsd_reference bs) = fold bsd_step bs 0"
  by (simp only: bsd_reference_def bsd_fold) simp

lemma sysv_words:
  "unat (sm AND 0xFFFF) = unat sm mod 65536" "unat (drop_bit 16 (sm AND 0xFFFFFFFF)) = unat sm div 65536" for sm :: "32 word"
proof -
  have "(0xFFFF :: 32 word) = mask 16" by (simp add: mask_eq_exp_minus_1)
  then have "sm AND 0xFFFF = take_bit 16 sm" by (simp only: take_bit_eq_mask)
  then show "unat (sm AND 0xFFFF) = unat sm mod 65536" by (simp only: unsigned_take_bit_eq) (simp add: take_bit_eq_mod)
  have "(0xFFFFFFFF :: 32 word) = - 1" by code_simp
  then have "sm AND 0xFFFFFFFF = sm" by (simp only: and.right_neutral)
  then show "unat (drop_bit 16 (sm AND 0xFFFFFFFF)) = unat sm div 65536"
    by (simp only: unat_drop_bit_eq) (simp add: drop_bit_eq_div)
qed

lemma fold_twice:
  fixes t :: nat
  assumes "t < 2 ^ 32"
  shows "(t mod 65536 + t div 65536) mod 65536 + (t mod 65536 + t div 65536) div 65536 = (if t = 0 then 0 else (t - 1) mod 65535 + 1)"
proof (cases "t = 0")
  case False
  define a b where "a = t mod 65536" and "b = t div 65536"
  have t: "t = 65536 * b + a" "a < 65536" "b < 65536" using assms by (auto simp: a_def b_def)
  show ?thesis
  proof (cases "a + b < 65536")
    case True
    have "t - 1 = 65535 * b + (a + b - 1)" using t False by linarith
    then have "(t - 1) mod 65535 = a + b - 1" using True by simp
    then show ?thesis using True False t unfolding a_def [symmetric] b_def [symmetric] by (cases "a + b = 0") auto
  next
    case f: False
    then obtain d where d: "a + b = 65536 + d" using le_Suc_ex [of 65536 "a + b"] by auto
    have "t = 65535 * (b + 1) + d + 1" using t(1) d by (simp add: algebra_simps)
    moreover have "d < 65535" using t d by linarith
    ultimately have "(t - 1) mod 65535 = a + b - 65536" using d by simp
    moreover have "(a + b) div 65536 = 1" "(a + b) mod 65536 = a + b - 65536" using f t by (simp_all add: div_nat_eqI le_mod_geq)
    ultimately show ?thesis using False f unfolding a_def [symmetric] b_def [symmetric] by simp
  qed
qed simp

lemma sysv_fold: "unat (fold (\<lambda>b t. t + ucast b) bs (sm :: 32 word)) = (unat sm + sum_list (map unat (bs :: byte list))) mod 2 ^ 32"
proof (induction bs arbitrary: sm)
  case (Cons b bs)
  have "unat (ucast b :: 32 word) = unat b"
    using unat_byte [of b] by (simp add: unsigned_ucast_eq take_bit_nat_eq_self_iff)
  then have "unat (sm + ucast b) = (unat sm + unat b) mod 2 ^ 32" by (simp add: unat_word_ariths)
  then show ?case using Cons by (simp add: mod_simps add.assoc)
next
  case Nil
  have "unat sm < 2 ^ LENGTH(32)" by (rule unsigned_less)
  then show ?case by simp
qed

lemma sysv_checksum_reference: "sysv_checksum (fold (\<lambda>b t. t + ucast b) bs 0) = sysv_reference bs"
  using fold_twice [of "sum_list (map unat bs) mod 2 ^ 32"]
  unfolding sysv_checksum_def Let_def sysv_words sysv_fold sysv_reference_def by simp

lemma sysv_loop_delivered:
  assumes "returns as"
  shows "\<exists>as'. sysv_loop as sm t =
    Some (if complete as then Some (fold (\<lambda>b t. t + ucast b) (delivered as) sm, t + of_nat (length (delivered as))) else None, as')"
  using assms
proof (induction as arbitrary: sm t rule: returns.induct)
  case (2 bs as)
  show ?case
  proof (cases "bs = []")
    case False
    then show ?thesis using 2 (1) [of "fold (\<lambda>b t. t + ucast b) bs sm" "t + of_nat (length bs)"] 2 (2)
      by (auto simp: sysv_loop.simps [of "Bytes bs # as"] add.assoc)
  qed (simp add: sysv_loop.simps)
next
  case (3 as)
  have "sysv_loop (Eintr # as) sm t = sysv_loop as sm t" by (simp add: sysv_loop.simps [of _ sm t])
  then show ?case using 3 (1) [of sm t] 3 (2) by (cases "complete as") simp_all
qed (simp_all add: sysv_loop.simps)

text \<open>The bytes of a file that can be read to its end, for each variant, and the line for it.\<close>

definition sum_bytes :: "bool \<Rightarrow> sum_state \<Rightarrow> string \<Rightarrow> byte list option" where
  "sum_bytes sysv s a =
     (if sysv then case fd_files s a of None \<Rightarrow> None
                   | Some f \<Rightarrow> if complete (fd_answers f) \<and> fd_close_ok f then Some (delivered (fd_answers f)) else None
      else case in_files s a of None \<Rightarrow> None
           | Some f \<Rightarrow> if readable f then Some (file_bytes (reads f)) else None)"

definition sum_line :: "bool \<Rightarrow> nat \<Rightarrow> sum_state \<Rightarrow> string \<Rightarrow> string" where
  "sum_line sysv files s a =
     (case sum_bytes sysv s a of
        None \<Rightarrow> []
      | Some bs \<Rightarrow>
          if sysv then printf_05d (sysv_reference bs) @ '' '' @ printf_5s (show_nat ((length bs + 511) div 512)) @ '' '' @ a @ [CHR 0x0A]
          else printf_05d (unat (bsd_reference bs)) @ '' '' @ printf_5s (show_nat ((length bs + 1023) div 1024))
               @ (if 1 < files then '' '' @ a else []) @ [CHR 0x0A])"

definition sum_input_ok :: "bool \<Rightarrow> sum_state \<Rightarrow> string \<Rightarrow> bool" where
  "sum_input_ok sysv s a \<longleftrightarrow>
     (if sysv then (case fd_files s a of None \<Rightarrow> True | Some f \<Rightarrow> returns (fd_answers f) \<and> length (delivered (fd_answers f)) < 2 ^ 64)
      else (case in_files s a of None \<Rightarrow> True | Some f \<Rightarrow> length (file_bytes (reads f)) < 2 ^ 64))"

lemma div_ceiling:
  fixes k n :: nat
  assumes "0 < k"
  shows "(n + (k - 1)) div k = (if n mod k \<noteq> 0 then n div k + 1 else n div k)"
proof -
  have "n + (k - 1) = k * (n div k) + (n mod k + (k - 1))" by simp
  then have "(n + (k - 1)) div k = n div k + (n mod k + (k - 1)) div k" using assms by (metis div_mult_self4 less_irrefl)
  moreover have "(n mod k + (k - 1)) div k = (if n mod k \<noteq> 0 then 1 else 0)"
    using assms mod_less_divisor [OF assms, of n] by (auto intro!: div_nat_eqI)
  ultimately show ?thesis by simp
qed

lemma human_blocks:
  assumes "n < 2 ^ 64" "k = 512 \<or> k = 1024" "0 < length (l_decimal_point l)" "length (l_decimal_point l) \<le> 16"
  shows "human_readable fl l n human_ceiling 1 k = Inr (show_nat ((n + (k - 1)) div k))"
proof -
  have o: "\<not> opt human_ceiling human_group_digits" "\<not> opt human_ceiling human_autoscale" "\<not> opt human_ceiling human_SI"
    "inexact_style human_ceiling = human_ceiling"
    by (simp_all add: opt_def inexact_style_def human_option_defs)
  have "human_readable fl l n human_ceiling 1 k =
    (case human_number human_ceiling (l_decimal_point l) n k k of (num, e) \<Rightarrow>
       if opt human_ceiling human_SI \<and> 3 < length (human_suffix human_ceiling e) then Inl (Crash BufOverflow)
       else Inr (num @ (if opt human_ceiling human_SI then human_suffix human_ceiling e else [])))"
    using assms o by (intro human_readable_exact) auto
  moreover have "round_div human_ceiling n k = (n + (k - 1)) div k"
    using div_ceiling [of k n] assms(2) by (auto simp: round_div_def human_ceiling_def human_round_to_nearest_def)
  ultimately show ?thesis using o by (simp add: human_number_def)
qed

lemma sum_func_line:
  assumes "a \<noteq> ''-''" "sum_input_ok sysv s a" "0 < length (l_decimal_point l)" "length (l_decimal_point l) \<le> 16" "0 < files"
  shows "sum_func sysv fl l a (int files) s =
    Some (Inr (sum_bytes sysv s a \<noteq> None, s\<lparr>printed := printed s @ sum_line sysv files s a\<rparr>))"
proof (cases sysv)
  case True
  show ?thesis
  proof (cases "fd_files s a")
    case (Some f)
    have f: "returns (fd_answers f)" "length (delivered (fd_answers f)) < 2 ^ 64" using assms(2) True Some by (simp_all add: sum_input_ok_def)
    then have len: "unat (of_nat (length (delivered (fd_answers f))) :: 64 word) = length (delivered (fd_answers f))"
      by (simp add: unat_of_nat take_bit_nat_eq_self_iff)
    obtain as' where "sysv_loop (fd_answers f) 0 0 = Some (if complete (fd_answers f)
        then Some (fold (\<lambda>b t. t + ucast b) (delivered (fd_answers f)) 0, of_nat (length (delivered (fd_answers f)))) else None, as')"
      using sysv_loop_delivered [OF f(1), of 0 0] by auto
    then show ?thesis using Some True assms(1,5) len human_blocks [OF f(2) _ assms(3,4), of 512 fl]
      by (auto simp: sum_func_def sysv_sum_file_def sum_bytes_def sum_line_def sysv_checksum_reference Let_def)
  qed (use True assms(1) in \<open>simp add: sum_func_def sysv_sum_file_def sum_bytes_def sum_line_def\<close>)
next
  case False
  show ?thesis
  proof (cases "in_files s a")
    case (Some f)
    have f: "length (file_bytes (reads f)) < 2 ^ 64" using assms(2) False Some by (simp add: sum_input_ok_def)
    then show ?thesis using Some False assms(1,5) human_blocks [OF f _ assms(3,4), of 1024 fl]
      by (auto simp: sum_func_def bsd_sum_file_def sum_bytes_def sum_line_def readable_def bsd_reference_fold Let_def)
  qed (use False assms(1) in \<open>simp add: sum_func_def bsd_sum_file_def sum_bytes_def sum_line_def\<close>)
qed

lemma sum_args_lines:
  assumes "''-'' \<notin> set as" "\<forall>a\<in>set as. sum_input_ok sysv s a"
    "0 < length (l_decimal_point l)" "length (l_decimal_point l) \<le> 16" "0 < files"
  shows "sum_args sysv fl l (int files) as ok s =
    Some (Inr (ok \<and> list_all (\<lambda>a. sum_bytes sysv s a \<noteq> None) as, s\<lparr>printed := printed s @ concat (map (sum_line sysv files s) as)\<rparr>))"
  using assms
proof (induction as arbitrary: ok s)
  case (Cons a as)
  let ?s = "s\<lparr>printed := printed s @ sum_line sysv files s a\<rparr>"
  have "sum_line sysv files ?s = sum_line sysv files s" "sum_bytes sysv ?s = sum_bytes sysv s" "sum_input_ok sysv ?s = sum_input_ok sysv s"
    by (simp_all add: sum_line_def sum_bytes_def sum_input_ok_def fun_eq_iff)
  moreover have "sum_func sysv fl l a (int files) s = Some (Inr (sum_bytes sysv s a \<noteq> None, ?s))"
    using Cons.prems by (intro sum_func_line) auto
  ultimately show ?case using Cons.IH [of ?s "ok \<and> sum_bytes sysv s a \<noteq> None"] Cons.prems by simp
qed simp

text \<open>
  C26. \<^verbatim>\<open>sum\<close>: for every list of files each that can be read has its line: the 16-bit rotating checksum and blocks of 1024
  bytes, or with \<^verbatim>\<open>-s\<close> the sum of the bytes folded to 16 bits and blocks of 512 bytes, blocks rounded
  up; interrupted and short reads make no difference, and the exit status tells whether all could be read.
\<close>

theorem sum_checksums:
  assumes "args \<noteq> []" "''-'' \<notin> set args" "\<forall>a\<in>set args. sum_input_ok sysv s a"
    and "0 < length (l_decimal_point l)" "length (l_decimal_point l) \<le> 16"
  shows "sum_main sysv fl l args s =
    Some (Inr (if list_all (\<lambda>a. sum_bytes sysv s a \<noteq> None) args then 0 else EXIT_FAILURE,
      s\<lparr>have_read_stdin := False, printed := printed s @ concat (map (sum_line sysv (length args) s) args)\<rparr>))"
proof -
  let ?s = "s\<lparr>have_read_stdin := False\<rparr>"
  have "sum_line sysv (length args) ?s = sum_line sysv (length args) s" "sum_bytes sysv ?s = sum_bytes sysv s"
    "sum_input_ok sysv ?s = sum_input_ok sysv s"
    by (simp_all add: sum_line_def sum_bytes_def sum_input_ok_def fun_eq_iff)
  then show ?thesis using sum_args_lines [of args sysv ?s l "length args" fl True] assms
    by (simp add: sum_main_def Let_def)
qed

definition ex_sum :: sum_state where
  "ex_sum = \<lparr>in_files = [''f'' \<mapsto> \<lparr>reads = [([0x61, 0x62], False), ([0x63], True)], read_error = False, close_ok = True\<rparr>],
     in_stdin = \<lparr>reads = [], read_error = False, close_ok = True\<rparr>, printed = [], have_read_stdin = False,
     fd_files = [''f'' \<mapsto> \<lparr>fd_answers = [Bytes [0x61], Eintr, Bytes [0x62, 0x63], Bytes []], fd_close_ok = True\<rparr>],
     fd_stdin = \<lparr>fd_answers = [], fd_close_ok = True\<rparr>\<rparr>"

definition ex_lconv :: lconv where
  "ex_lconv = \<lparr>l_decimal_point = ''.'', l_grouping = [], l_thousands_sep = []\<rparr>"

theorem sum_checksums_witness:
  "sum_main False (\<lambda>n opts f t. ([], 0, None)) ex_lconv [''f''] ex_sum = Some (Inr (0, ex_sum\<lparr>printed := ''16556     1'' @ [CHR 0x0A]\<rparr>))
   \<and> sum_main True (\<lambda>n opts f t. ([], 0, None)) ex_lconv [''f'', ''g''] ex_sum = Some (Inr (1, ex_sum\<lparr>printed := ''00294     1 f'' @ [CHR 0x0A]\<rparr>))"
proof -
  have bytes: "sum_bytes False ex_sum ''f'' = Some [0x61, 0x62, 0x63]" "sum_bytes True ex_sum ''f'' = Some [0x61, 0x62, 0x63]"
    "sum_bytes True ex_sum ''g'' = None" by (simp_all add: sum_bytes_def ex_sum_def readable_def)
  have "bsd_reference [0x61, 0x62, 0x63] = 16556" by code_simp
  then have r: "unat (bsd_reference [0x61, 0x62, 0x63]) = 16556" "sysv_reference [0x61, 0x62, 0x63] = 294"
    by (simp_all add: sysv_reference_def)
  have n: "show_nat 16556 = ''16556''" by (simp add: show_nat.simps digit_char_def; code_simp)
  have k: "show_nat 294 = ''294''" by (simp add: show_nat.simps digit_char_def; code_simp)
  have p: "printf_05d 16556 = ''16556''" by (simp only: printf_05d_def n) code_simp
  have q: "printf_05d 294 = ''00294''" by (simp only: printf_05d_def k) code_simp
  have h: "printf_5s (show_nat 1) = ''    1''" by code_simp
  have lines: "sum_line False (Suc 0) ex_sum ''f'' = ''16556     1'' @ [CHR 0x0A]" "sum_line True 2 ex_sum ''f'' = ''00294     1 f'' @ [CHR 0x0A]"
    "sum_line True 2 ex_sum ''g'' = []" using bytes r p q h by (simp_all add: sum_line_def)
  have i: "sum_input_ok False ex_sum ''f''" "sum_input_ok True ex_sum ''f''" "sum_input_ok True ex_sum ''g''"
    by (simp_all add: sum_input_ok_def ex_sum_def)
  have "have_read_stdin ex_sum = False" "printed ex_sum = []" by (simp_all add: ex_sum_def)
  then have "ex_sum\<lparr>have_read_stdin := False, printed := printed ex_sum @ p\<rparr> = ex_sum\<lparr>printed := p\<rparr>" for p by simp
  then show ?thesis
    using sum_checksums [of "[''f'']" False ex_sum ex_lconv "\<lambda>n opts f t. ([], 0, None)"]
      sum_checksums [of "[''f'', ''g'']" True ex_sum ex_lconv "\<lambda>n opts f t. ([], 0, None)"] lines i bytes
    by (simp add: ex_lconv_def EXIT_FAILURE_def numeral_2_eq_2)
qed

end
