(* ===== verification/CuComm.thy ===== *)
theory CuComm
  imports CuBase CStdio "HOL-Library.Multiset" "HOL-Library.List_Lexorder"
begin

text \<open>
  \<^verbatim>\<open>lib/linebuffer.c\<close> and \<^verbatim>\<open>src/comm.c\<close>: reading lines into buffers that are used again, and comparing two sorted
  files. A byte of a buffer that was never written is \<open>None\<close>; comparing it is a fault. The locale decides which
  of two equal comparisons is called (\<^verbatim>\<open>memcoll\<close> here ignores the locale).
\<close>

subsection \<open>Line buffers\<close>

record linebuffer =
  lb_size :: nat
  lb_length :: nat
  lb_buffer :: "char option list"

definition initbuffer :: linebuffer where
  "initbuffer = \<lparr>lb_size = 0, lb_length = 0, lb_buffer = []\<rparr>"

text \<open>An input stream: what is left to read, whether reading beyond it is an error, and the two flags.\<close>

record in_stream =
  s_rest :: string
  s_bad :: bool
  s_feof :: bool
  s_ferror :: bool

definition getc :: "in_stream \<Rightarrow> char option \<times> in_stream" where
  "getc st = (case s_rest st of
     c # r \<Rightarrow> (Some c, st\<lparr>s_rest := r\<rparr>)
   | [] \<Rightarrow> (None, if s_bad st then st\<lparr>s_ferror := True\<rparr> else st\<lparr>s_feof := True\<rparr>))"

text \<open>
  \<^verbatim>\<open>*p++ = c\<close> with the growth of the buffer before it: \<open>p\<close> and \<open>lim\<close> are indices. The new bytes of a
  larger buffer have no value.
\<close>

definition put_char :: "char \<Rightarrow> linebuffer \<times> nat \<times> nat \<times> mem \<Rightarrow> (linebuffer \<times> nat \<times> nat \<times> mem) cu" where
  "put_char c = (\<lambda>(lb, p, lim, m).
     cbind (if p = lim
            then cbind (x2nrealloc (lb_size lb = 0) (lb_size lb) 1 m) (\<lambda>(n, m1).
                   Inr (lb\<lparr>lb_size := n, lb_buffer := lb_buffer lb @ replicate (n - length (lb_buffer lb)) None\<rparr>, lb_size lb, n, m1))
            else Inr (lb, p, lim, m)) (\<lambda>(lb1, p1, lim1, m1).
       cbind (lift_cu (aset (lb_buffer lb1) p1 (Some c))) (\<lambda>b.
         Inr (lb1\<lparr>lb_buffer := b\<rparr>, p1 + 1, lim1, m1))))"

text \<open>The loop: \<open>True\<close> when a line was read, \<open>False\<close> for NULL.\<close>

function line_loop :: "char \<Rightarrow> in_stream \<Rightarrow> linebuffer \<times> nat \<times> nat \<times> mem \<Rightarrow> (bool \<times> linebuffer \<times> in_stream \<times> mem) cu" where
  "line_loop delim st v =
     (case getc st of
        (None, st1) \<Rightarrow>
          (case v of (lb, p, lim, m) \<Rightarrow>
             if p = 0 \<or> s_ferror st1 then Inr (False, lb, st1, m)
             else cbind (lift_cu (aget (lb_buffer lb) (p - 1))) (\<lambda>last_char.
                    if last_char = Some delim then Inr (True, lb\<lparr>lb_length := p\<rparr>, st1, m)
                    else cbind (put_char delim v) (\<lambda>(lb1, p1, lim1, m1).
                           Inr (True, lb1\<lparr>lb_length := p1\<rparr>, st1, m1))))
      | (Some c, st1) \<Rightarrow>
          cbind (put_char c v) (\<lambda>(lb1, p1, lim1, m1).
            if c = delim then Inr (True, lb1\<lparr>lb_length := p1\<rparr>, st1, m1)
            else line_loop delim st1 (lb1, p1, lim1, m1)))"
  by pat_completeness auto
termination
  by (relation "measure (\<lambda>(d, st, v). length (s_rest st))") (auto simp: getc_def split: list.splits)

declare line_loop.simps [simp del]

definition readlinebuffer_delim :: "char \<Rightarrow> linebuffer \<Rightarrow> in_stream \<Rightarrow> mem \<Rightarrow> (bool \<times> linebuffer \<times> in_stream \<times> mem) cu" where
  "readlinebuffer_delim delim lb st m =
     (if s_feof st then Inr (False, lb, st, m) else line_loop delim st (lb, 0, lb_length lb, m))"

definition readlinebuffer :: "linebuffer \<Rightarrow> in_stream \<Rightarrow> mem \<Rightarrow> (bool \<times> linebuffer \<times> in_stream \<times> mem) cu" where
  "readlinebuffer = readlinebuffer_delim (CHR 0x0A)"

subsection \<open>Comparing lines\<close>

text \<open>The sign of \<^verbatim>\<open>memcmp\<close> on the first \<open>n\<close> bytes.\<close>

fun memcmp :: "nat \<Rightarrow> char option list \<Rightarrow> char option list \<Rightarrow> int cu" where
  "memcmp 0 a b = Inr 0"
| "memcmp (Suc n) (Some x # a) (Some y # b) =
     (if (of_char x :: nat) < of_char y then Inr (- 1)
      else if (of_char y :: nat) < of_char x then Inr 1 else memcmp n a b)"
| "memcmp (Suc n) [] b = Inl (Crash OutOfBounds)"
| "memcmp (Suc n) a [] = Inl (Crash OutOfBounds)"
| "memcmp (Suc n) a b = Inl (Crash Uninitialised)"

definition memcmp2 :: "char option list \<Rightarrow> nat \<Rightarrow> char option list \<Rightarrow> nat \<Rightarrow> int cu" where
  "memcmp2 s1 n1 s2 n2 =
     cbind (memcmp (if n1 \<le> n2 then n1 else n2) s1 s2) (\<lambda>c.
       Inr (if c = 0 then (if n1 < n2 then - 1 else if n2 < n1 then 1 else 0) else c))"

definition memcoll :: "char option list \<Rightarrow> nat \<Rightarrow> char option list \<Rightarrow> nat \<Rightarrow> int cu" where
  "memcoll s1 n1 s2 n2 =
     cbind (memcmp (if n1 < n2 then n1 else n2) s1 s2) (\<lambda>c.
       Inr (if c = 0 then (if n1 < n2 then - 1 else if n1 \<noteq> n2 then 1 else 0) else c))"

text \<open>\<^verbatim>\<open>memcoll\<close> sets \<^verbatim>\<open>errno\<close> to 0, so that \<^verbatim>\<open>xmemcoll\<close> never reports an error.\<close>

definition xmemcoll :: "char option list \<Rightarrow> nat \<Rightarrow> char option list \<Rightarrow> nat \<Rightarrow> int cu" where
  "xmemcoll = memcoll"

subsection \<open>The program\<close>

datatype order_check = CHECK_ORDER_DEFAULT | CHECK_ORDER_ENABLED | CHECK_ORDER_DISABLED

record comm_opts =
  only_file_1 :: bool
  only_file_2 :: bool
  both :: bool
  check_input_order :: order_check
  delimiter :: string
  hard_LC_COLLATE :: bool

record comm_state =
  seen_unpairable :: bool
  disorder_1 :: bool
  disorder_2 :: bool
  comm_out :: "char option list"

text \<open>A file: its four buffers, the rotation, whether there is a current line, and its stream.\<close>

record comm_file =
  bufs :: "linebuffer list"
  alt0 :: nat
  alt1 :: nat
  alt2 :: nat
  thisline :: bool
  strm :: in_stream

definition cur_line :: "comm_file \<Rightarrow> linebuffer" where
  "cur_line f = bufs f ! alt0 f"

definition writeline :: "comm_opts \<Rightarrow> linebuffer \<Rightarrow> nat \<Rightarrow> comm_state \<Rightarrow> comm_state" where
  "writeline opt_ln lb cls s =
     (let d = map Some (delimiter opt_ln);
          line = take (lb_length lb) (lb_buffer lb);
          out = (\<lambda>t. s\<lparr>comm_out := comm_out s @ t @ line\<rparr>)
      in if cls = 1 then (if only_file_1 opt_ln then out [] else s)
         else if cls = 2 then (if only_file_2 opt_ln then out (if only_file_1 opt_ln then d else []) else s)
         else if cls = 3 then (if both opt_ln
                then out ((if only_file_1 opt_ln then d else []) @ (if only_file_2 opt_ln then d else [])) else s)
         else out [])"

definition check_order :: "comm_opts \<Rightarrow> linebuffer \<Rightarrow> linebuffer \<Rightarrow> bool \<Rightarrow> comm_state \<Rightarrow> comm_state cu" where
  "check_order os prev current file2 s =
     (if check_input_order os \<noteq> CHECK_ORDER_DISABLED \<and> (check_input_order os = CHECK_ORDER_ENABLED \<or> seen_unpairable s)
         \<and> \<not> (if file2 then disorder_2 s else disorder_1 s)
      then cbind ((if hard_LC_COLLATE os then xmemcoll else memcmp2)
                    (lb_buffer prev) (lb_length prev - 1) (lb_buffer current) (lb_length current - 1)) (\<lambda>order.
             if 0 < order
             then if check_input_order os = CHECK_ORDER_ENABLED then Inl (Exit EXIT_FAILURE)
                  else Inr (if file2 then s\<lparr>disorder_2 := True\<rparr> else s\<lparr>disorder_1 := True\<rparr>)
             else Inr s)
      else Inr s)"

definition open_file :: "in_stream option \<Rightarrow> mem \<Rightarrow> (comm_file \<times> mem) cu" where
  "open_file st m =
     (case st of
        None \<Rightarrow> Inl (Exit EXIT_FAILURE)
      | Some st0 \<Rightarrow>
          cbind (readlinebuffer initbuffer st0 m) (\<lambda>(r, lb, st1, m1).
            if s_ferror st1 then Inl (Exit EXIT_FAILURE)
            else Inr (\<lparr>bufs = [lb, initbuffer, initbuffer, initbuffer], alt0 = 0, alt1 = 0, alt2 = 0, thisline = r, strm = st1\<rparr>, m1)))"

definition compare_lines :: "comm_opts \<Rightarrow> comm_file \<Rightarrow> comm_file \<Rightarrow> int cu" where
  "compare_lines os f g =
     (if \<not> thisline f then Inr 1
      else if \<not> thisline g then Inr (- 1)
      else let a = cur_line f; b = cur_line g
           in if hard_LC_COLLATE os
              then xmemcoll (lb_buffer a) (lb_length a - 1) (lb_buffer b) (lb_length b - 1)
              else cbind (memcmp (min (lb_length a) (lb_length b) - 1) (lb_buffer a) (lb_buffer b)) (\<lambda>order.
                     Inr (if order = 0 then (if lb_length a < lb_length b then - 1 else if lb_length a \<noteq> lb_length b then 1 else 0)
                          else order)))"

definition fill_up :: "comm_opts \<Rightarrow> bool \<Rightarrow> comm_file \<Rightarrow> comm_state \<Rightarrow> mem \<Rightarrow> (comm_file \<times> comm_state \<times> mem) cu" where
  "fill_up os file2 f s m =
     (let a2 = alt1 f; a1 = alt0 f; a0 = (alt0 f + 1) mod 4
      in cbind (readlinebuffer (bufs f ! a0) (strm f) m) (\<lambda>(r, lb, st1, m1).
           let bs = (bufs f)[a0 := lb]
           in cbind (if r then check_order os (bs ! a1) lb file2 s
                     else if lb_size (bs ! a2) \<noteq> 0 then check_order os (bs ! a2) (bs ! a1) file2 s
                     else Inr s) (\<lambda>s1.
                if s_ferror st1 then Inl (Exit EXIT_FAILURE)
                else Inr (\<lparr>bufs = bs, alt0 = a0, alt1 = a1, alt2 = a2, thisline = r, strm = st1\<rparr>, s1, m1))))"

partial_function (option) compare_loop ::
  "comm_opts \<Rightarrow> comm_file \<Rightarrow> comm_file \<Rightarrow> comm_state \<Rightarrow> mem \<Rightarrow> comm_state cu option" where
  [code]: "compare_loop os f g s m =
     (if \<not> thisline f \<and> \<not> thisline g then Some (Inr s)
      else case compare_lines os f g of
        Inl e \<Rightarrow> Some (Inl e)
      | Inr order \<Rightarrow>
          let s1 = (if order = 0 then writeline os (cur_line g) 3 s
                    else if order \<le> 0 then writeline os (cur_line f) 1 (s\<lparr>seen_unpairable := True\<rparr>)
                    else writeline os (cur_line g) 2 (s\<lparr>seen_unpairable := True\<rparr>))
          in case (if order \<le> 0 then fill_up os False f s1 m else Inr (f, s1, m)) of
               Inl e \<Rightarrow> Some (Inl e)
             | Inr (f1, s2, m1) \<Rightarrow>
                 (case (if 0 \<le> order then fill_up os True g s2 m1 else Inr (g, s2, m1)) of
                    Inl e \<Rightarrow> Some (Inl e)
                  | Inr (g1, s3, m2) \<Rightarrow> compare_loop os f1 g1 s3 m2))"

text \<open>
  The answers of \<^verbatim>\<open>getopt_long\<close>. The delimiter is \<open>None\<close> until the option sets it; an empty one, or two different
  ones, end the program.
\<close>

datatype comm_opt = Opt_1 | Opt_2 | Opt_3 | Opt_nocheck | Opt_check | Opt_delim string | Opt_help | Opt_other

fun comm_options :: "comm_opt list \<Rightarrow> comm_opts \<Rightarrow> string option \<Rightarrow> (comm_opts \<times> string option) cu" where
  "comm_options [] os d = Inr (os, d)"
| "comm_options (Opt_1 # cs) os d = comm_options cs (os\<lparr>only_file_1 := False\<rparr>) d"
| "comm_options (Opt_2 # cs) os d = comm_options cs (os\<lparr>only_file_2 := False\<rparr>) d"
| "comm_options (Opt_3 # cs) os d = comm_options cs (os\<lparr>both := False\<rparr>) d"
| "comm_options (Opt_nocheck # cs) os d = comm_options cs (os\<lparr>check_input_order := CHECK_ORDER_DISABLED\<rparr>) d"
| "comm_options (Opt_check # cs) os d = comm_options cs (os\<lparr>check_input_order := CHECK_ORDER_ENABLED\<rparr>) d"
| "comm_options (Opt_delim arg # cs) os d =
     (if d \<noteq> None \<and> d \<noteq> Some arg then Inl (Exit EXIT_FAILURE)
      else if arg = [] then Inl (Exit EXIT_FAILURE)
      else comm_options cs os (Some arg))"
| "comm_options (Opt_help # cs) os d = Inl (Exit 0)"
| "comm_options (Opt_other # cs) os d = Inl (Exit EXIT_FAILURE)"

definition comm_defaults :: "bool \<Rightarrow> comm_opts" where
  "comm_defaults hard = \<lparr>only_file_1 = True, only_file_2 = True, both = True, check_input_order = CHECK_ORDER_DEFAULT,
     delimiter = [], hard_LC_COLLATE = hard\<rparr>"

definition default_delimiter :: "string option \<Rightarrow> string" where
  "default_delimiter d = (case d of None \<Rightarrow> [CHR 0x09] | Some t \<Rightarrow> t)"

definition compare_files :: "comm_opts \<Rightarrow> in_stream option \<Rightarrow> in_stream option \<Rightarrow> bool \<Rightarrow> mem \<Rightarrow> comm_state cu option" where
  "compare_files os st1 st2 close_fine m =
     (case open_file st1 m of
        Inl e \<Rightarrow> Some (Inl e)
      | Inr (f, m1) \<Rightarrow>
          (case open_file st2 m1 of
             Inl e \<Rightarrow> Some (Inl e)
           | Inr (g, m2) \<Rightarrow>
               map_option (\<lambda>r. cbind r (\<lambda>s. if close_fine then Inr s else Inl (Exit EXIT_FAILURE)))
                 (compare_loop os f g \<lparr>seen_unpairable = False, disorder_1 = False, disorder_2 = False, comm_out = []\<rparr> m2)))"

text \<open>
  \<open>fopen\<close> gives the stream of an operand (standard input for \<open>''-''\<close>), \<open>None\<close> when it cannot be opened; the two
  operands are different streams. The result is the exit status and what is printed.
\<close>

definition comm_main :: "bool \<Rightarrow> comm_opt list \<Rightarrow> string list \<Rightarrow> (string \<Rightarrow> in_stream option) \<Rightarrow> bool \<Rightarrow> mem
    \<Rightarrow> (int \<times> char option list) cu option" where
  "comm_main hard opts operands fopen close_fine m =
     (case comm_options opts (comm_defaults hard) None of
        Inl e \<Rightarrow> Some (Inl e)
      | Inr (os, d) \<Rightarrow>
          (case operands of
             [a, b] \<Rightarrow>
               map_option (\<lambda>r. cbind r (\<lambda>s. Inr (if disorder_1 s \<or> disorder_2 s then EXIT_FAILURE else 0, comm_out s)))
                 (compare_files (os\<lparr>delimiter := default_delimiter d\<rparr>) (fopen a) (fopen b) close_fine m)
           | _ \<Rightarrow> Some (Inl (Exit EXIT_FAILURE))))"

subsection \<open>What a line buffer holds after a line was read\<close>

abbreviation nl :: char where
  "nl \<equiv> CHR 0x0A"

lemma x2nrealloc_bytes:
  assumes "no_fail m" "k < 2 ^ 62"
  shows "\<exists>n'. x2nrealloc (k = 0) k 1 m = Inr (n', tl m) \<and> k < n'"
  using assms by (auto simp: x2nrealloc_def Let_def xmalloc_no_fail SIZE_MAX_def)

text \<open>The buffer of a line is all there, and the loop is inside it: either its limit is the end of the buffer or there is room.\<close>

definition roomy :: "nat \<Rightarrow> linebuffer \<times> nat \<times> nat \<times> mem \<Rightarrow> bool" where
  "roomy k v \<longleftrightarrow> (case v of (lb, p, lim, m) \<Rightarrow>
     length (lb_buffer lb) = lb_size lb \<and> p \<le> lim \<and> lim \<le> lb_size lb \<and> no_fail m \<and> p + k < 2 ^ 62
     \<and> (lim = lb_size lb \<or> p + k \<le> lim))"

lemma put_char_roomy:
  assumes "roomy (Suc k) (lb, p, lim, m)"
  shows "\<exists>lb1 lim1 m1. put_char c (lb, p, lim, m) = Inr (lb1, p + 1, lim1, m1) \<and> roomy k (lb1, p + 1, lim1, m1)
           \<and> take (p + 1) (lb_buffer lb1) = take p (lb_buffer lb) @ [Some c] \<and> lb_length lb1 = lb_length lb
           \<and> (p < lim \<longrightarrow> lim1 = lim \<and> m1 = m \<and> lb_size lb1 = lb_size lb \<and> drop lim (lb_buffer lb1) = drop lim (lb_buffer lb))"
proof (cases "p = lim")
  case True
  with assms have b: "lim = lb_size lb" "p = lb_size lb" "length (lb_buffer lb) = lb_size lb" "no_fail m" "lb_size lb + Suc k < 2 ^ 62"
    by (auto simp: roomy_def)
  from x2nrealloc_bytes [OF b(4), of "lb_size lb"] b(5) obtain n' where
    n': "x2nrealloc (lb_size lb = 0) (lb_size lb) 1 m = Inr (n', tl m)" "lb_size lb < n'" by auto
  show ?thesis using b n' no_fail_tl [OF b(4)]
    by (simp add: put_char_def roomy_def list_update_append take_Suc_conv_app_nth nth_append)
next
  case False
  with assms have b: "p < lim" "length (lb_buffer lb) = lb_size lb" "lim \<le> lb_size lb"
    by (auto simp: roomy_def)
  then have "take (Suc p) ((lb_buffer lb)[p := Some c]) = take p (lb_buffer lb) @ [Some c]"
    by (simp add: take_Suc_conv_app_nth)
  with False b assms show ?thesis by (simp add: put_char_def roomy_def)
qed

text \<open>A stream whose next line is \<open>l\<close>, with its newline or at the end of the file.\<close>

definition next_line :: "string \<Rightarrow> in_stream \<Rightarrow> in_stream \<Rightarrow> bool" where
  "next_line l st st' \<longleftrightarrow> nl \<notin> set l
     \<and> (s_rest st = l @ nl # s_rest st' \<and> st' = st\<lparr>s_rest := s_rest st'\<rparr>
        \<or> s_rest st = l \<and> l \<noteq> [] \<and> \<not> s_bad st \<and> \<not> s_ferror st \<and> st' = st\<lparr>s_rest := [], s_feof := True\<rparr>)"


lemma line_loop_prefix:
  assumes "roomy (length l + k) (lb, p, lim, m)" "nl \<notin> set l" "s_rest st = l @ r"
  shows "\<exists>lb1 lim1 m1. line_loop nl st (lb, p, lim, m) = line_loop nl (st\<lparr>s_rest := r\<rparr>) (lb1, p + length l, lim1, m1)
           \<and> roomy k (lb1, p + length l, lim1, m1)
           \<and> take (p + length l) (lb_buffer lb1) = take p (lb_buffer lb) @ map Some l \<and> lb_length lb1 = lb_length lb
           \<and> (p + length l \<le> lim \<longrightarrow> lim1 = lim \<and> m1 = m \<and> lb_size lb1 = lb_size lb \<and> drop lim (lb_buffer lb1) = drop lim (lb_buffer lb))"
  using assms
proof (induction l arbitrary: lb p lim m st)
  case Nil
  then have e: "st\<lparr>s_rest := r\<rparr> = st" by simp
  from Nil show ?case by (intro exI [of _ lb] exI [of _ lim] exI [of _ m]) (simp add: e)
next
  case (Cons c l)
  from put_char_roomy [of "length l + k" lb p lim m c] Cons.prems obtain lb1 lim1 m1 where
    b: "put_char c (lb, p, lim, m) = Inr (lb1, p + 1, lim1, m1)" "roomy (length l + k) (lb1, p + 1, lim1, m1)"
       "take (p + 1) (lb_buffer lb1) = take p (lb_buffer lb) @ [Some c]" "lb_length lb1 = lb_length lb"
       "p < lim \<longrightarrow> lim1 = lim \<and> m1 = m \<and> lb_size lb1 = lb_size lb \<and> drop lim (lb_buffer lb1) = drop lim (lb_buffer lb)" by auto
  have e: "line_loop nl st (lb, p, lim, m) = line_loop nl (st\<lparr>s_rest := l @ r\<rparr>) (lb1, p + 1, lim1, m1)"
    using b(1) Cons.prems by (subst line_loop.simps) (auto simp: getc_def)
  from Cons.IH [OF b(2), of "st\<lparr>s_rest := l @ r\<rparr>"] Cons.prems(2) obtain lb2 lim2 m2 where
    i: "line_loop nl (st\<lparr>s_rest := l @ r\<rparr>) (lb1, p + 1, lim1, m1) = line_loop nl (st\<lparr>s_rest := r\<rparr>) (lb2, p + 1 + length l, lim2, m2)"
       "roomy k (lb2, p + 1 + length l, lim2, m2)" "take (p + 1 + length l) (lb_buffer lb2) = take (p + 1) (lb_buffer lb1) @ map Some l"
       "lb_length lb2 = lb_length lb1"
       "p + 1 + length l \<le> lim1 \<longrightarrow> lim2 = lim1 \<and> m2 = m1 \<and> lb_size lb2 = lb_size lb1 \<and> drop lim1 (lb_buffer lb2) = drop lim1 (lb_buffer lb1)"
    by auto
  show ?case
  proof (intro exI conjI)
    show "line_loop nl st (lb, p, lim, m) = line_loop nl (st\<lparr>s_rest := r\<rparr>) (lb2, p + length (c # l), lim2, m2)"
      using e i(1) by simp
  qed (use b(3-5) i(2-5) in auto)
qed

text \<open>The end of the line: the newline is read, or added at the end of the file.\<close>

lemma line_loop_end:
  assumes "roomy 1 (lb, p, lim, m)" "s_rest st = nl # s_rest st' \<and> st' = st\<lparr>s_rest := s_rest st'\<rparr>
      \<or> s_rest st = [] \<and> \<not> s_bad st \<and> \<not> s_ferror st \<and> st' = st\<lparr>s_feof := True\<rparr> \<and> p \<noteq> 0 \<and> lb_buffer lb ! (p - 1) \<noteq> Some nl"
  shows "\<exists>lb1 m1. line_loop nl st (lb, p, lim, m) = Inr (True, lb1, st', m1) \<and> no_fail m1 \<and> lb_length lb1 = p + 1
           \<and> length (lb_buffer lb1) = lb_size lb1 \<and> p + 1 \<le> lb_size lb1
           \<and> take (p + 1) (lb_buffer lb1) = take p (lb_buffer lb) @ [Some nl]"
proof -
  from put_char_roomy [of 0 lb p lim m nl] assms(1) obtain lb1 lim1 m1 where
    b: "put_char nl (lb, p, lim, m) = Inr (lb1, p + 1, lim1, m1)" "roomy 0 (lb1, p + 1, lim1, m1)"
       "take (p + 1) (lb_buffer lb1) = take p (lb_buffer lb) @ [Some nl]" by auto
  have "p \<le> length (lb_buffer lb)" using assms(1) by (auto simp: roomy_def)
  then have "line_loop nl st (lb, p, lim, m) = Inr (True, lb1\<lparr>lb_length := p + 1\<rparr>, st', m1)"
    using assms(2) b(1) by (subst line_loop.simps) (auto simp: getc_def)
  with b(2,3) show ?thesis by (auto simp: roomy_def)
qed

definition holds_line :: "linebuffer \<Rightarrow> char option list \<Rightarrow> bool" where
  "holds_line lb l \<longleftrightarrow> lb_length lb = length l \<and> length (lb_buffer lb) = lb_size lb \<and> length l \<le> lb_size lb
     \<and> take (length l) (lb_buffer lb) = l"

lemma line_loop_line:
  assumes "roomy (length l + 1) (lb, p, lim, m)" "nl \<notin> set l"
    and "s_rest st = l @ nl # s_rest st' \<and> st' = st\<lparr>s_rest := s_rest st'\<rparr>
      \<or> s_rest st = l \<and> \<not> s_bad st \<and> \<not> s_ferror st \<and> st' = st\<lparr>s_rest := [], s_feof := True\<rparr>
         \<and> (l \<noteq> [] \<or> p \<noteq> 0 \<and> lb_buffer lb ! (p - 1) \<noteq> Some nl)"
  shows "\<exists>lb1 m1. line_loop nl st (lb, p, lim, m) = Inr (True, lb1, st', m1) \<and> no_fail m1
           \<and> holds_line lb1 (take p (lb_buffer lb) @ map Some (l @ [nl]))"
proof -
  define r where "r = drop (length l) (s_rest st)"
  have r: "s_rest st = l @ r" using assms(3) by (auto simp: r_def)
  from line_loop_prefix [OF assms(1,2) r] obtain lb1 lim1 m1 where
    b: "line_loop nl st (lb, p, lim, m) = line_loop nl (st\<lparr>s_rest := r\<rparr>) (lb1, p + length l, lim1, m1)"
       "roomy 1 (lb1, p + length l, lim1, m1)"
       "take (p + length l) (lb_buffer lb1) = take p (lb_buffer lb) @ map Some l" by auto
  have pl: "p \<le> length (lb_buffer lb)" "p + length l \<le> length (lb_buffer lb1)" using assms(1) b(2) by (auto simp: roomy_def)
  have "lb_buffer lb1 ! (p + length l - 1) \<noteq> Some nl" if "p + length l \<noteq> 0" "l \<noteq> [] \<or> lb_buffer lb ! (p - 1) \<noteq> Some nl"
  proof -
    have "lb_buffer lb1 ! (p + length l - 1) = (take p (lb_buffer lb) @ map Some l) ! (p + length l - 1)"
      using that(1) pl by (subst b(3) [symmetric]) simp
    also have "\<dots> \<noteq> Some nl"
    proof (cases "l = []")
      case True
      with that pl show ?thesis by (simp add: nth_append)
    next
      case False
      then have "l ! (length l - 1) \<in> set l" by simp
      then have "l ! (length l - 1) \<noteq> nl" using assms(2) by auto
      moreover have "p + length l - 1 = p + (length l - 1)" using False by (cases l) auto
      ultimately show ?thesis using False pl(1) by (simp add: nth_append min_def)
    qed
    finally show ?thesis .
  qed
  then have "s_rest (st\<lparr>s_rest := r\<rparr>) = nl # s_rest st' \<and> st' = (st\<lparr>s_rest := r\<rparr>)\<lparr>s_rest := s_rest st'\<rparr>
      \<or> s_rest (st\<lparr>s_rest := r\<rparr>) = [] \<and> \<not> s_bad (st\<lparr>s_rest := r\<rparr>) \<and> \<not> s_ferror (st\<lparr>s_rest := r\<rparr>)
        \<and> st' = (st\<lparr>s_rest := r\<rparr>)\<lparr>s_feof := True\<rparr> \<and> p + length l \<noteq> 0 \<and> lb_buffer lb1 ! (p + length l - 1) \<noteq> Some nl"
    using assms(3) by (auto simp: r_def)
  from line_loop_end [OF b(2) this] show ?thesis using b(1,3) pl(1)
    by (auto simp: holds_line_def min_def)
qed


lemma put_char_jump: "put_char c (lb, k, k, m) = put_char c (lb, lb_size lb, lb_size lb, m)"
  by (simp add: put_char_def)

lemma line_loop_jump: "s_rest st \<noteq> [] \<Longrightarrow> line_loop nl st (lb, k, k, m) = line_loop nl st (lb, lb_size lb, lb_size lb, m)"
  by (subst (1 2) line_loop.simps) (auto simp: getc_def put_char_jump [of _ lb k] split: list.splits)

text \<open>Into a fresh buffer, and into one whose last line was not shorter, a line is read as it is.\<close>

lemma readlinebuffer_fits:
  assumes "next_line l st st'" "\<not> s_feof st" "no_fail m" "length l + 1 < 2 ^ 62"
    and "lb_length lb \<le> lb_size lb" "length (lb_buffer lb) = lb_size lb" "lb_length lb = lb_size lb \<or> length l < lb_length lb"
  shows "\<exists>lb1 m1. readlinebuffer lb st m = Inr (True, lb1, st', m1) \<and> no_fail m1 \<and> holds_line lb1 (map Some (l @ [nl]))"
proof -
  have "roomy (length l + 1) (lb, 0, lb_length lb, m)" using assms by (auto simp: roomy_def)
  from line_loop_line [OF this, of st st'] assms(1,2) show ?thesis
    by (auto simp: readlinebuffer_def readlinebuffer_delim_def next_line_def)
qed

text \<open>Otherwise the bytes between the end of the last line and the end of the buffer come to lie inside the line.\<close>

lemma readlinebuffer_longer:
  assumes "s_rest st = l @ nl # r" "nl \<notin> set l" "\<not> s_feof st" "no_fail m" "length l + 1 + lb_size lb < 2 ^ 62"
    and "lb_length lb < lb_size lb" "length (lb_buffer lb) = lb_size lb" "lb_length lb \<le> length l"
  shows "\<exists>lb1 m1. readlinebuffer lb st m = Inr (True, lb1, st\<lparr>s_rest := r\<rparr>, m1) \<and> no_fail m1
           \<and> holds_line lb1 (map Some (take (lb_length lb) l) @ drop (lb_length lb) (lb_buffer lb) @ map Some (drop (lb_length lb) l @ [nl]))"
proof -
  let ?L = "lb_length lb" let ?S = "lb_size lb"
  have "roomy (length (take ?L l) + 0) (lb, 0, ?L, m)" using assms by (auto simp: roomy_def)
  moreover have "nl \<notin> set (take ?L l)" using assms(2) by (auto dest: in_set_takeD)
  moreover have "s_rest st = take ?L l @ (drop ?L l @ nl # r)" using assms(1) by simp
  ultimately obtain lb1 where
    b: "line_loop nl st (lb, 0, ?L, m) = line_loop nl (st\<lparr>s_rest := drop ?L l @ nl # r\<rparr>) (lb1, ?L, ?L, m)"
       "roomy 0 (lb1, ?L, ?L, m)" "take ?L (lb_buffer lb1) = map Some (take ?L l)"
       "lb_size lb1 = ?S" "drop ?L (lb_buffer lb1) = drop ?L (lb_buffer lb)"
    using line_loop_prefix [of "take ?L l" 0 lb 0 ?L m st] assms(8) by (auto simp: min_absorb2)
  have e: "take ?S (lb_buffer lb1) = map Some (take ?L l) @ drop ?L (lb_buffer lb)"
  proof -
    have "length (lb_buffer lb1) = ?S" using b(2,4) by (simp add: roomy_def)
    then have "take ?S (lb_buffer lb1) = take ?L (lb_buffer lb1) @ drop ?L (lb_buffer lb1)" by simp
    then show ?thesis by (simp only: b(3,5))
  qed
  let ?st = "st\<lparr>s_rest := drop ?L l @ nl # r\<rparr>"
  have room: "roomy (length (drop ?L l) + 1) (lb1, ?S, ?S, m)" using b(2,4) assms by (auto simp: roomy_def)
  have "nl \<notin> set (drop ?L l)" using assms(2) by (auto dest: in_set_dropD)
  from line_loop_line [OF room this, of ?st "st\<lparr>s_rest := r\<rparr>"] e b(1) line_loop_jump [of ?st lb1 ?L m] b(4) assms(3)
  show ?thesis by (auto simp: readlinebuffer_def readlinebuffer_delim_def)
qed


subsection \<open>The order of two lines\<close>

definition codes :: "string \<Rightarrow> nat list" where
  "codes l = map of_char l"

definition line_cmp :: "string \<Rightarrow> string \<Rightarrow> int" where
  "line_cmp l l' = (if codes l < codes l' then - 1 else if l = l' then 0 else 1)"

lemma codes_eq [simp]: "codes l = codes l' \<longleftrightarrow> l = l'"
  by (simp add: codes_def inj_map_eq_map inj_def)

definition by_length :: "int \<Rightarrow> nat \<Rightarrow> nat \<Rightarrow> int" where
  "by_length c i j = (if c = 0 then (if i < j then - 1 else if j < i then 1 else 0) else c)"

lemma by_length_Suc [simp]: "by_length c (Suc i) (Suc j) = by_length c i j"
  by (simp add: by_length_def)

lemma memcmp_lines:
  "\<exists>c. memcmp (min (length l) (length l')) (map Some l @ A) (map Some l' @ B) = Inr c
     \<and> by_length c (length l) (length l') = line_cmp l l'"
proof (induction l arbitrary: l')
  case Nil
  then show ?case by (cases l') (auto simp: line_cmp_def codes_def by_length_def)
next
  case (Cons x l)
  show ?case
  proof (cases l')
    case Nil
    then show ?thesis by (auto simp: line_cmp_def codes_def by_length_def)
  next
    case (Cons y l2)
    show ?thesis
    proof (cases "x = y")
      case True
      then have "line_cmp (x # l) l' = line_cmp l l2" using Cons by (simp add: line_cmp_def codes_def)
      with Cons.IH [of l2] Cons True show ?thesis by simp
    next
      case False
      then have "(of_char x :: nat) \<noteq> of_char y" by simp
      then show ?thesis using Cons False by (cases "(of_char x :: nat) < of_char y") (auto simp: line_cmp_def codes_def by_length_def)
    qed
  qed
qed

lemma holds_lineE:
  assumes "holds_line lb (map Some (l @ [nl]))"
  obtains A where "lb_buffer lb = map Some l @ A" "lb_length lb = length l + 1"
proof
  have "lb_buffer lb = take (length l + 1) (lb_buffer lb) @ drop (length l + 1) (lb_buffer lb)" by simp
  also have "\<dots> = map Some l @ Some nl # drop (length l + 1) (lb_buffer lb)" using assms by (simp add: holds_line_def)
  finally show "lb_buffer lb = map Some l @ Some nl # drop (length l + 1) (lb_buffer lb)" .
qed (use assms in \<open>simp add: holds_line_def\<close>)

lemma line_order:
  assumes "holds_line lb (map Some (l @ [nl]))" "holds_line lb' (map Some (l' @ [nl]))"
  shows "memcmp2 (lb_buffer lb) (lb_length lb - 1) (lb_buffer lb') (lb_length lb' - 1) = Inr (line_cmp l l')"
    and "xmemcoll (lb_buffer lb) (lb_length lb - 1) (lb_buffer lb') (lb_length lb' - 1) = Inr (line_cmp l l')"
proof -
  from assms(1) obtain A where a: "lb_buffer lb = map Some l @ A" "lb_length lb = length l + 1" by (rule holds_lineE)
  from assms(2) obtain B where b: "lb_buffer lb' = map Some l' @ B" "lb_length lb' = length l' + 1" by (rule holds_lineE)
  from memcmp_lines [of l l' A B] obtain c where
    c: "memcmp (min (length l) (length l')) (map Some l @ A) (map Some l' @ B) = Inr c"
       "by_length c (length l) (length l') = line_cmp l l'" by auto
  show "memcmp2 (lb_buffer lb) (lb_length lb - 1) (lb_buffer lb') (lb_length lb' - 1) = Inr (line_cmp l l')"
    using c by (simp add: memcmp2_def a b min_def by_length_def)
  have "(if length l < length l' then length l else length l') = min (length l) (length l')" by simp
  then show "xmemcoll (lb_buffer lb) (lb_length lb - 1) (lb_buffer lb') (lb_length lb' - 1) = Inr (line_cmp l l')"
    using c by (auto simp: xmemcoll_def memcoll_def a b by_length_def)
qed

lemma compare_lines_cmp:
  assumes "thisline f" "thisline g" "holds_line (cur_line f) (map Some (l @ [nl]))" "holds_line (cur_line g) (map Some (l' @ [nl]))"
  shows "compare_lines os f g = Inr (line_cmp l l')"
proof (cases "hard_LC_COLLATE os")
  case True
  with assms line_order(2) [OF assms(3,4)] show ?thesis by (simp add: compare_lines_def Let_def)
next
  case False
  from assms(3) obtain A where a: "lb_buffer (cur_line f) = map Some l @ A" "lb_length (cur_line f) = length l + 1" by (rule holds_lineE)
  from assms(4) obtain B where b: "lb_buffer (cur_line g) = map Some l' @ B" "lb_length (cur_line g) = length l' + 1" by (rule holds_lineE)
  from memcmp_lines [of l l' A B] obtain c where
    c: "memcmp (min (length l) (length l')) (map Some l @ A) (map Some l' @ B) = Inr c" "by_length c (length l) (length l') = line_cmp l l'"
    by auto
  show ?thesis using False assms(1,2) c by (cases "c = 0") (auto simp: compare_lines_def Let_def a b by_length_def)
qed

lemma check_order_sorted:
  assumes "holds_line lb (map Some (l @ [nl]))" "holds_line lb' (map Some (l' @ [nl]))" "codes l \<le> codes l'"
  shows "check_order os lb lb' file2 s = Inr s"
proof -
  have "line_cmp l l' \<le> 0" using assms(3) by (auto simp: line_cmp_def le_less)
  with line_order [OF assms(1,2)] show ?thesis by (simp add: check_order_def)
qed

subsection \<open>Merging sorted lists\<close>

fun comm_merge :: "string list \<Rightarrow> string list \<Rightarrow> (nat \<times> string) list" where
  "comm_merge [] ys = map (Pair 2) ys"
| "comm_merge (x # xs) [] = map (Pair 1) (x # xs)"
| "comm_merge (x # xs) (y # ys) =
     (if x = y then (3, y) # comm_merge xs ys
      else if codes x < codes y then (1, x) # comm_merge xs (y # ys)
      else (2, y) # comm_merge (x # xs) ys)"

definition in_column :: "nat \<Rightarrow> (nat \<times> string) list \<Rightarrow> string list" where
  "in_column k cs = map snd (filter (\<lambda>c. fst c = k) cs)"

lemma in_column_simps [simp]:
  "in_column k [] = []" "in_column k (c # cs) = (if fst c = k then snd c # in_column k cs else in_column k cs)"
  "in_column k (map (Pair j) xs) = (if j = k then xs else [])"
  by (auto simp: in_column_def filter_map comp_def)

text \<open>The columns of sorted files: what only one of them has, counting repeated lines, and what both have.\<close>

lemma mset_step:
  assumes "x \<notin># B"
  shows "add_mset x A - B = add_mset x (A - B)" "B - add_mset x A = B - A" "add_mset x A \<inter># B = A \<inter># B"
    "B \<inter># add_mset x A = B \<inter># A"
  using assms by (auto simp: multiset_eq_iff not_in_iff)

lemma comm_merge_columns:
  assumes "sorted (map codes xs)" "sorted (map codes ys)"
  shows "mset (in_column 1 (comm_merge xs ys)) = mset xs - mset ys
    \<and> mset (in_column 2 (comm_merge xs ys)) = mset ys - mset xs
    \<and> mset (in_column 3 (comm_merge xs ys)) = mset xs \<inter># mset ys"
  using assms
proof (induction xs ys rule: comm_merge.induct)
  case (3 x xs y ys)
  consider "x = y" | "codes x < codes y" | "codes y < codes x" by (metis codes_eq linorder_neqE)
  then show ?case
  proof cases
    case 1
    with 3(1) 3(4,5) show ?thesis by simp
  next
    case 2
    then have x: "x \<notin># mset (y # ys)" "x \<noteq> y" using 3(5) by auto
    with 2 3(2) 3(4,5) show ?thesis by (simp add: mset_step [OF x(1), simplified])
  next
    case 3
    then have y: "y \<notin># mset (x # xs)" "x \<noteq> y" "\<not> codes x < codes y" using "3.prems" by auto
    with "3.IH" "3.prems" show ?thesis by (simp add: mset_step [OF y(1), simplified])
  qed
qed auto


subsection \<open>Text files\<close>

definition lines_text :: "string list \<Rightarrow> string" where
  "lines_text ls = concat (map (\<lambda>l. l @ [nl]) ls)"

text \<open>A readable stream with the lines \<open>ls\<close> still to read; the last newline may be missing.\<close>

definition text_file :: "string list \<Rightarrow> in_stream \<Rightarrow> bool" where
  "text_file ls st \<longleftrightarrow> (\<forall>l\<in>set ls. nl \<notin> set l \<and> length l + 1 < 2 ^ 62) \<and> \<not> s_bad st \<and> \<not> s_ferror st
     \<and> (if ls = [] then s_rest st = []
        else \<not> s_feof st \<and> (s_rest st = lines_text ls \<or> last ls \<noteq> [] \<and> s_rest st = butlast (lines_text ls)))"

lemma lines_text_Cons: "lines_text (l # ls) = l @ nl # lines_text ls"
  by (simp add: lines_text_def)

lemma lines_text_ne: "ls \<noteq> [] \<Longrightarrow> lines_text ls \<noteq> []"
  by (cases ls) (simp_all add: lines_text_def)

lemma text_file_next:
  assumes "text_file (l # ls) st"
  shows "\<exists>st'. next_line l st st' \<and> text_file ls st'"
proof (cases "s_rest st = lines_text (l # ls)")
  case True
  with assms show ?thesis
    by (intro exI [of _ "st\<lparr>s_rest := lines_text ls\<rparr>"])
      (auto simp: text_file_def next_line_def lines_text_Cons lines_text_def)
next
  case False
  with assms have f: "last (l # ls) \<noteq> []" "s_rest st = butlast (lines_text (l # ls))" by (auto simp: text_file_def)
  show ?thesis
  proof (cases "ls = []")
    case True
    with f have "s_rest st = l" "l \<noteq> []" by (simp_all add: lines_text_def)
    with assms True show ?thesis
      by (intro exI [of _ "st\<lparr>s_rest := [], s_feof := True\<rparr>"]) (auto simp: text_file_def next_line_def)
  next
    case False
    then have "s_rest st = l @ nl # butlast (lines_text ls)" using f(2) lines_text_ne [OF False]
      by (simp add: lines_text_Cons butlast_append)
    with assms False f(1) show ?thesis
      by (intro exI [of _ "st\<lparr>s_rest := butlast (lines_text ls)\<rparr>"]) (auto simp: text_file_def next_line_def)
  qed
qed

lemma text_file_end:
  assumes "text_file [] st"
  shows "\<exists>st'. readlinebuffer lb st m = Inr (False, lb, st', m) \<and> \<not> s_ferror st'"
  using assms by (auto simp: text_file_def readlinebuffer_def readlinebuffer_delim_def line_loop.simps getc_def)

text \<open>No line is longer than the line four before it, whose buffer it takes over.\<close>

definition fitting :: "string list \<Rightarrow> bool" where
  "fitting ls \<longleftrightarrow> (\<forall>i < length ls - 4. length (ls ! (i + 4)) \<le> length (ls ! i))"

subsection \<open>The state of a file\<close>

text \<open>\<open>k\<close> lines were read: the buffers hold the last four of them, or are fresh.\<close>

definition file_inv :: "string list \<Rightarrow> nat \<Rightarrow> comm_file \<Rightarrow> bool" where
  "file_inv ls k f \<longleftrightarrow> 0 < k \<and> k \<le> length ls \<and> thisline f \<and> length (bufs f) = 4 \<and> alt0 f = (k - 1) mod 4 \<and> alt1 f = (k - 2) mod 4
     \<and> text_file (drop k ls) (strm f)
     \<and> (\<forall>t < k. k \<le> t + 4 \<longrightarrow> holds_line (bufs f ! (t mod 4)) (map Some (ls ! t @ [nl])))
     \<and> (\<forall>b < 4. k \<le> b \<longrightarrow> bufs f ! b = initbuffer)"

lemma file_inv_cur: "file_inv ls k f \<Longrightarrow> holds_line (cur_line f) (map Some (ls ! (k - 1) @ [nl]))"
  by (simp add: file_inv_def cur_line_def)

lemma text_file_line: "text_file (drop k ls) st \<Longrightarrow> k < length ls \<Longrightarrow> nl \<notin> set (ls ! k) \<and> length (ls ! k) + 1 < 2 ^ 62"
  by (auto simp: text_file_def Cons_nth_drop_Suc [symmetric])

lemma mod4_ring:
  assumes "t < k" "k < t + 4"
  shows "t mod 4 \<noteq> k mod (4 :: nat)"
proof -
  from assms have "k = t + 1 \<or> k = t + 2 \<or> k = t + 3" by auto
  then show ?thesis by (elim disjE; hypsubst; presburger)
qed

lemma read_next_line:
  assumes "file_inv ls k f" "k < length ls" "fitting ls" "no_fail m"
  shows "\<exists>lb st' m'. readlinebuffer (bufs f ! (k mod 4)) (strm f) m = Inr (True, lb, st', m') \<and> no_fail m'
           \<and> holds_line lb (map Some (ls ! k @ [nl])) \<and> text_file (drop (Suc k) ls) st' \<and> \<not> s_ferror st'"
proof -
  have "text_file (ls ! k # drop (Suc k) ls) (strm f)" using assms(1,2) by (simp add: file_inv_def Cons_nth_drop_Suc)
  from text_file_next [OF this] obtain st' where st': "next_line (ls ! k) (strm f) st'" "text_file (drop (Suc k) ls) st'" by auto
  have fe: "\<not> s_feof (strm f)" using assms(1,2) by (auto simp: file_inv_def text_file_def)
  have len: "length (ls ! k) + 1 < 2 ^ 62" using text_file_line assms(1,2) by (auto simp: file_inv_def)
  let ?lb = "bufs f ! (k mod 4)"
  have "lb_length ?lb \<le> lb_size ?lb \<and> length (lb_buffer ?lb) = lb_size ?lb \<and> (lb_length ?lb = lb_size ?lb \<or> length (ls ! k) < lb_length ?lb)"
  proof (cases "k < 4")
    case True
    then show ?thesis using assms(1) by (simp add: file_inv_def initbuffer_def)
  next
    case False
    then have "holds_line (bufs f ! ((k - 4) mod 4)) (map Some (ls ! (k - 4) @ [nl]))" using assms(1) by (simp add: file_inv_def)
    moreover have "(k - 4) mod 4 = k mod 4" using False by presburger
    moreover have "length (ls ! k) \<le> length (ls ! (k - 4))" using assms(2,3) False by (auto simp: fitting_def dest: spec [of _ "k - 4"])
    ultimately show ?thesis by (simp add: holds_line_def)
  qed
  moreover have "\<not> s_ferror st'" using st'(2) by (simp add: text_file_def)
  ultimately show ?thesis using readlinebuffer_fits [OF st'(1) fe assms(4) len, of ?lb] st'(2) by auto
qed


text \<open>A file of which the lines \<open>rem\<close>, from the current one on, are still to be compared.\<close>

definition file_at :: "string list \<Rightarrow> string list \<Rightarrow> comm_file \<Rightarrow> bool" where
  "file_at ls rem f \<longleftrightarrow> (if rem = [] then \<not> thisline f else \<exists>k. file_inv ls k f \<and> rem = drop (k - 1) ls)"

lemma next_buffer: "0 < k \<Longrightarrow> ((k - 1) mod 4 + 1) mod 4 = k mod 4" for k :: nat
  by (metis Suc_eq_plus1 Suc_pred' mod_Suc_eq)

lemma file_inv_step:
  assumes "file_inv ls k f" "k < length ls" "holds_line lb (map Some (ls ! k @ [nl]))" "text_file (drop (Suc k) ls) st"
  shows "file_inv ls (Suc k) \<lparr>bufs = (bufs f)[k mod 4 := lb], alt0 = k mod 4, alt1 = (k - 1) mod 4, alt2 = a, thisline = True, strm = st\<rparr>"
proof -
  have "holds_line ((bufs f)[k mod 4 := lb] ! (t mod 4)) (map Some (ls ! t @ [nl]))" if "t < Suc k" "Suc k \<le> t + 4" for t
  proof (cases "t = k")
    case True
    then show ?thesis using assms(1,3) by (simp add: file_inv_def)
  next
    case False
    with that have "t mod 4 \<noteq> k mod 4" by (intro mod4_ring) auto
    then show ?thesis using assms(1) that False by (simp add: file_inv_def)
  qed
  moreover have "(bufs f)[k mod 4 := lb] ! b = initbuffer" if "b < 4" "Suc k \<le> b" for b
    using that assms(1) by (simp add: file_inv_def)
  ultimately show ?thesis using assms by (simp add: file_inv_def)
qed

lemma fill_up_ok:
  assumes "file_at ls (l # rem) f" "fitting ls" "sorted (map codes ls)" "no_fail m"
  shows "\<exists>f' m'. fill_up os file2 f s m = Inr (f', s, m') \<and> no_fail m' \<and> file_at ls rem f'"
proof -
  from assms(1) obtain k where k: "file_inv ls k f" "l # rem = drop (k - 1) ls" by (auto simp: file_at_def)
  have k1: "0 < k" "k \<le> length ls" "alt0 f = (k - 1) mod 4" "alt1 f = (k - 2) mod 4" "length (bufs f) = 4" using k(1) by (simp_all add: file_inv_def)
  have rem: "rem = drop k ls"
  proof -
    have "rem = tl (drop (k - 1) ls)" using k(2) by (metis list.sel(3))
    then show ?thesis using k1(1) by (cases k) (simp_all add: drop_Suc tl_drop)
  qed
  have a0: "((k - 1) mod 4 + 1) mod 4 = k mod 4" by (rule next_buffer [OF k1(1)])
  have h1: "holds_line (bufs f ! ((k - 1) mod 4)) (map Some (ls ! (k - 1) @ [nl]))" using k(1) k1(1) by (simp add: file_inv_def)
  have ne: "(k - 1) mod 4 \<noteq> k mod 4" using k1(1) by (intro mod4_ring) auto
  show ?thesis
  proof (cases "k < length ls")
    case True
    from read_next_line [OF k(1) True assms(2,4)] obtain lb st' m' where
      r: "readlinebuffer (bufs f ! (k mod 4)) (strm f) m = Inr (True, lb, st', m')" "no_fail m'"
         "holds_line lb (map Some (ls ! k @ [nl]))" "text_file (drop (Suc k) ls) st'" "\<not> s_ferror st'" by auto
    have "codes (ls ! (k - 1)) \<le> codes (ls ! k)" using assms(3) True by (simp add: sorted_iff_nth_mono)
    then have "check_order os (bufs f ! ((k - 1) mod 4)) lb file2 s = Inr s" by (rule check_order_sorted [OF h1 r(3)])
    with r k1 a0 ne have "fill_up os file2 f s m = Inr (\<lparr>bufs = (bufs f)[k mod 4 := lb], alt0 = k mod 4, alt1 = (k - 1) mod 4,
        alt2 = (k - 2) mod 4, thisline = True, strm = st'\<rparr>, s, m')" by (simp add: fill_up_def Let_def)
    with file_inv_step [OF k(1) True r(3,4)] r(2) True rem show ?thesis
      by (auto simp: file_at_def intro!: exI [of _ "Suc k"])
  next
    case False
    then have e: "k = length ls" using k1 by simp
    then have "text_file [] (strm f)" using k(1) by (simp add: file_inv_def)
    from text_file_end [OF this] obtain st' where
      r: "readlinebuffer (bufs f ! (k mod 4)) (strm f) m = Inr (False, bufs f ! (k mod 4), st', m)" "\<not> s_ferror st'" by blast
    have h2: "holds_line (bufs f ! ((k - 2) mod 4)) (map Some (ls ! (k - 2) @ [nl]))" using k(1) k1(1) by (simp add: file_inv_def)
    have "codes (ls ! (k - 2)) \<le> codes (ls ! (k - 1))" using assms(3) k1 by (simp add: sorted_iff_nth_mono)
    then have "check_order os (bufs f ! ((k - 2) mod 4)) (bufs f ! ((k - 1) mod 4)) file2 s = Inr s" by (rule check_order_sorted [OF h2 h1])
    with r k1 a0 rem e assms(4) show ?thesis by (auto simp: fill_up_def Let_def file_at_def)
  qed
qed


subsection \<open>Comparing two sorted files\<close>

definition column :: "comm_opts \<Rightarrow> nat \<times> string \<Rightarrow> string" where
  "column os c =
     (if fst c = 1 then (if only_file_1 os then snd c @ [nl] else [])
      else if fst c = 2 then (if only_file_2 os then (if only_file_1 os then delimiter os else []) @ snd c @ [nl] else [])
      else if both os then (if only_file_1 os then delimiter os else []) @ (if only_file_2 os then delimiter os else []) @ snd c @ [nl]
      else [])"

lemma writeline_column:
  assumes "holds_line lb (map Some (l @ [nl]))" "cls = 1 \<or> cls = 2 \<or> cls = 3"
  shows "writeline os lb cls s = s\<lparr>comm_out := comm_out s @ map Some (column os (cls, l))\<rparr>"
proof -
  have "take (lb_length lb) (lb_buffer lb) = map Some (l @ [nl])" using assms(1) by (simp add: holds_line_def)
  with assms(2) show ?thesis by (auto simp: writeline_def column_def Let_def)
qed

lemma file_at_Cons:
  assumes "file_at ls (l # rem) f"
  shows "thisline f" "holds_line (cur_line f) (map Some (l @ [nl]))"
proof -
  from assms obtain k where k: "file_inv ls k f" "l # rem = drop (k - 1) ls" by (auto simp: file_at_def)
  then have "0 < k" "k \<le> length ls" "thisline f" by (simp_all add: file_inv_def)
  moreover from this have "ls ! (k - 1) = l" using k(2) by (metis Suc_pred' Suc_le_eq hd_drop_conv_nth list.sel(1))
  ultimately show "thisline f" "holds_line (cur_line f) (map Some (l @ [nl]))" using file_inv_cur [OF k(1)] by simp_all
qed

lemma file_at_Nil: "file_at ls [] f \<Longrightarrow> \<not> thisline f"
  by (simp add: file_at_def)

text \<open>One turn of the loop writes the first line of the merge and goes on behind it.\<close>

definition same_warnings :: "comm_state \<Rightarrow> comm_state \<Rightarrow> bool" where
  "same_warnings s s' \<longleftrightarrow> disorder_1 s' = disorder_1 s \<and> disorder_2 s' = disorder_2 s"

lemma turn_left:
  assumes "file_at xs (x # rx) f" "compare_lines os f g = Inr ord" "ord < 0" "fitting xs" "sorted (map codes xs)" "no_fail m"
  shows "\<exists>f' s' m'. compare_loop os f g s m = compare_loop os f' g s' m' \<and> no_fail m' \<and> file_at xs rx f'
     \<and> same_warnings s s' \<and> comm_out s' = comm_out s @ map Some (column os (1, x))"
proof -
  note x = file_at_Cons [OF assms(1)]
  let ?s = "writeline os (cur_line f) 1 (s\<lparr>seen_unpairable := True\<rparr>)"
  from fill_up_ok [OF assms(1,4-6)] obtain f' m' where
    f': "fill_up os False f ?s m = Inr (f', ?s, m')" "no_fail m'" "file_at xs rx f'" by blast
  have "compare_loop os f g s m = compare_loop os f' g ?s m'" using x(1) f'(1) assms(2,3)
    by (subst compare_loop.simps) simp
  with f'(2,3) writeline_column [OF x(2), of 1] show ?thesis by (fastforce simp: same_warnings_def)
qed

lemma turn_right:
  assumes "file_at ys (y # ry) g" "compare_lines os f g = Inr ord" "0 < ord" "fitting ys" "sorted (map codes ys)" "no_fail m"
  shows "\<exists>g' s' m'. compare_loop os f g s m = compare_loop os f g' s' m' \<and> no_fail m' \<and> file_at ys ry g'
     \<and> same_warnings s s' \<and> comm_out s' = comm_out s @ map Some (column os (2, y))"
proof -
  note y = file_at_Cons [OF assms(1)]
  let ?s = "writeline os (cur_line g) 2 (s\<lparr>seen_unpairable := True\<rparr>)"
  from fill_up_ok [OF assms(1,4-6)] obtain g' m' where
    g': "fill_up os True g ?s m = Inr (g', ?s, m')" "no_fail m'" "file_at ys ry g'" by blast
  have "compare_loop os f g s m = compare_loop os f g' ?s m'" using y(1) g'(1) assms(2,3)
    by (subst compare_loop.simps) simp
  with g'(2,3) writeline_column [OF y(2), of 2] show ?thesis by (fastforce simp: same_warnings_def)
qed

lemma turn_both:
  assumes "file_at xs (x # rx) f" "file_at ys (y # ry) g" "compare_lines os f g = Inr 0"
    and "fitting xs" "sorted (map codes xs)" "fitting ys" "sorted (map codes ys)" "no_fail m"
  shows "\<exists>f' g' s' m'. compare_loop os f g s m = compare_loop os f' g' s' m' \<and> no_fail m' \<and> file_at xs rx f' \<and> file_at ys ry g'
     \<and> same_warnings s s' \<and> comm_out s' = comm_out s @ map Some (column os (3, y))"
proof -
  note y = file_at_Cons [OF assms(2)]
  let ?s = "writeline os (cur_line g) 3 s"
  from fill_up_ok [OF assms(1,4,5,8)] obtain f' m1 where
    f': "fill_up os False f ?s m = Inr (f', ?s, m1)" "no_fail m1" "file_at xs rx f'" by blast
  from fill_up_ok [OF assms(2,6,7) f'(2)] obtain g' m' where
    g': "fill_up os True g ?s m1 = Inr (g', ?s, m')" "no_fail m'" "file_at ys ry g'" by blast
  have "compare_loop os f g s m = compare_loop os f' g' ?s m'" using y(1) f'(1) g'(1) assms(3)
    by (subst compare_loop.simps) simp
  with f'(3) g'(2,3) writeline_column [OF y(2), of 3] show ?thesis by (fastforce simp: same_warnings_def)
qed

text \<open>What the loop does from two files on: it ends, with the output \<open>cs\<close> added and no warning.\<close>

definition loop_gives :: "comm_opts \<Rightarrow> comm_file \<Rightarrow> comm_file \<Rightarrow> comm_state \<Rightarrow> mem \<Rightarrow> (nat \<times> string) list \<Rightarrow> bool" where
  "loop_gives os f g s m cs \<longleftrightarrow> (\<exists>s'. compare_loop os f g s m = Some (Inr s') \<and> same_warnings s s'
     \<and> comm_out s' = comm_out s @ map Some (concat (map (column os) cs)))"

lemma loop_gives_turn:
  assumes "compare_loop os f g s m = compare_loop os f' g' s' m'" "same_warnings s s'"
    "comm_out s' = comm_out s @ map Some (column os c)" "loop_gives os f' g' s' m' cs"
  shows "loop_gives os f g s m (c # cs)"
  using assms by (auto simp: loop_gives_def same_warnings_def)

lemma loop_gives_Nil: "file_at xs [] f \<Longrightarrow> file_at ys [] g \<Longrightarrow> loop_gives os f g s m []"
  unfolding loop_gives_def by (subst compare_loop.simps) (simp add: file_at_Nil same_warnings_def)

lemma compare_loop_right:
  assumes "file_at xs [] f" "file_at ys ry g" "fitting ys" "sorted (map codes ys)" "no_fail m"
  shows "loop_gives os f g s m (map (Pair 2) ry)"
  using assms(2,5)
proof (induction ry arbitrary: g s m)
  case Nil
  with assms(1) show ?case by (simp add: loop_gives_Nil)
next
  case (Cons y ry)
  have "compare_lines os f g = Inr 1" using file_at_Nil [OF assms(1)] by (simp add: compare_lines_def)
  from turn_right [OF Cons.prems(1) this _ assms(3,4) Cons.prems(2), of s] obtain g' s' m' where
    t: "compare_loop os f g s m = compare_loop os f g' s' m'" "no_fail m'" "file_at ys ry g'" "same_warnings s s'"
       "comm_out s' = comm_out s @ map Some (column os (2, y))" by auto
  from loop_gives_turn [OF t(1,4,5) Cons.IH [OF t(3,2)]] show ?case by simp
qed

lemma compare_loop_left:
  assumes "file_at xs rx f" "file_at ys [] g" "fitting xs" "sorted (map codes xs)" "no_fail m"
  shows "loop_gives os f g s m (map (Pair 1) rx)"
  using assms(1,5)
proof (induction rx arbitrary: f s m)
  case Nil
  with assms(2) show ?case by (simp add: loop_gives_Nil)
next
  case (Cons x rx)
  have "compare_lines os f g = Inr (- 1)" using file_at_Nil [OF assms(2)] file_at_Cons(1) [OF Cons.prems(1)]
    by (simp add: compare_lines_def)
  from turn_left [OF Cons.prems(1) this _ assms(3,4) Cons.prems(2), of s] obtain f' s' m' where
    t: "compare_loop os f g s m = compare_loop os f' g s' m'" "no_fail m'" "file_at xs rx f'" "same_warnings s s'"
       "comm_out s' = comm_out s @ map Some (column os (1, x))" by auto
  from loop_gives_turn [OF t(1,4,5) Cons.IH [OF t(3,2)]] show ?case by simp
qed

lemma compare_loop_merge:
  assumes "file_at xs rx f" "file_at ys ry g" "no_fail m"
    and "fitting xs" "sorted (map codes xs)" "fitting ys" "sorted (map codes ys)"
  shows "loop_gives os f g s m (comm_merge rx ry)"
  using assms(1-3)
proof (induction rx ry arbitrary: f g s m rule: comm_merge.induct)
  case (1 ry)
  then show ?case using compare_loop_right [OF 1(1,2) assms(6,7) 1(3)] by simp
next
  case (2 x rx)
  then show ?case using compare_loop_left [OF 2(1,2) assms(4,5) 2(3)] by simp
next
  case (3 x rx y ry)
  note c = compare_lines_cmp [OF file_at_Cons(1) [OF "3.prems"(1)] file_at_Cons(1) [OF "3.prems"(2)]
      file_at_Cons(2) [OF "3.prems"(1)] file_at_Cons(2) [OF "3.prems"(2)], of os]
  consider "x = y" | "x \<noteq> y" "codes x < codes y" | "x \<noteq> y" "\<not> codes x < codes y" by blast
  then show ?case
  proof cases
    case eq: 1
    then have "compare_lines os f g = Inr 0" using c by (simp add: line_cmp_def)
    from turn_both [OF "3.prems"(1,2) this assms(4-7) "3.prems"(3), of s] obtain f' g' s' m' where
      t: "compare_loop os f g s m = compare_loop os f' g' s' m'" "no_fail m'" "file_at xs rx f'" "file_at ys ry g'"
         "same_warnings s s'" "comm_out s' = comm_out s @ map Some (column os (3, y))" by auto
    from loop_gives_turn [OF t(1,5,6) "3.IH"(1) [OF eq t(3,4,2)]] eq show ?thesis by simp
  next
    case lt: 2
    then have "compare_lines os f g = Inr (- 1)" using c by (simp add: line_cmp_def)
    from turn_left [OF "3.prems"(1) this _ assms(4,5) "3.prems"(3), of s] obtain f' s' m' where
      t: "compare_loop os f g s m = compare_loop os f' g s' m'" "no_fail m'" "file_at xs rx f'" "same_warnings s s'"
         "comm_out s' = comm_out s @ map Some (column os (1, x))" by auto
    from loop_gives_turn [OF t(1,4,5) "3.IH"(2) [OF lt t(3) "3.prems"(2) t(2)]] lt show ?thesis by simp
  next
    case gt: 3
    then have "compare_lines os f g = Inr 1" using c by (simp add: line_cmp_def)
    from turn_right [OF "3.prems"(2) this _ assms(6,7) "3.prems"(3), of s] obtain g' s' m' where
      t: "compare_loop os f g s m = compare_loop os f g' s' m'" "no_fail m'" "file_at ys ry g'" "same_warnings s s'"
         "comm_out s' = comm_out s @ map Some (column os (2, y))" by auto
    from loop_gives_turn [OF t(1,4,5) "3.IH"(3) [OF gt "3.prems"(1) t(3,2)]] gt show ?thesis by simp
  qed
qed

lemma open_file_ok:
  assumes "text_file ls st" "no_fail m"
  shows "\<exists>f m'. open_file (Some st) m = Inr (f, m') \<and> no_fail m' \<and> file_at ls ls f"
proof (cases ls)
  case Nil
  with assms(1) text_file_end [of st initbuffer m] obtain st' where
    "readlinebuffer initbuffer st m = Inr (False, initbuffer, st', m)" "\<not> s_ferror st'" by blast
  with assms(2) Nil show ?thesis by (simp add: open_file_def file_at_def)
next
  case (Cons l rem)
  from text_file_next [OF assms(1) [unfolded Cons]] obtain st' where st': "next_line l st st'" "text_file rem st'" by auto
  have "\<not> s_feof st" "length l + 1 < 2 ^ 62" using assms(1) Cons by (auto simp: text_file_def)
  from readlinebuffer_fits [OF st'(1) this(1) assms(2) this(2), of initbuffer] obtain lb m' where
    r: "readlinebuffer initbuffer st m = Inr (True, lb, st', m')" "no_fail m'" "holds_line lb (map Some (l @ [nl]))"
    by (auto simp: initbuffer_def)
  have "\<not> s_ferror st'" using st'(2) by (simp add: text_file_def)
  moreover have "file_inv ls 1 \<lparr>bufs = [lb, initbuffer, initbuffer, initbuffer], alt0 = 0, alt1 = 0, alt2 = 0, thisline = True, strm = st'\<rparr>"
  proof -
    have "[lb, initbuffer, initbuffer, initbuffer] ! b = initbuffer" if "b < 4" "1 \<le> b" for b
      using that by (auto simp: nth_Cons')
    with r(3) st'(2) Cons show ?thesis by (simp add: file_inv_def)
  qed
  ultimately show ?thesis using r(1,2) Cons by (auto simp: open_file_def file_at_def intro!: exI [of _ 1])
qed


text \<open>
  C7. \<^verbatim>\<open>comm\<close> on two readable files in byte order, in which no line is longer than the line four before it: it ends with status 0 and
  prints the merge of the lines, each in its column; column 1 holds the lines only the first file has, column 2 those only the second has
  and column 3 the common ones, repeated lines counted.
\<close>

theorem comm_sorted:
  assumes "comm_options opts (comm_defaults hard) None = Inr (os, d)" "fopen a = Some st1" "fopen b = Some st2"
    and "text_file xs st1" "text_file ys st2" "fitting xs" "fitting ys"
    and "sorted (map codes xs)" "sorted (map codes ys)" "no_fail m"
  shows "comm_main hard opts [a, b] fopen True m =
      Some (Inr (0, map Some (concat (map (column (os\<lparr>delimiter := default_delimiter d\<rparr>)) (comm_merge xs ys)))))
    \<and> mset (in_column 1 (comm_merge xs ys)) = mset xs - mset ys
    \<and> mset (in_column 2 (comm_merge xs ys)) = mset ys - mset xs
    \<and> mset (in_column 3 (comm_merge xs ys)) = mset xs \<inter># mset ys"
proof -
  from open_file_ok [OF assms(4,10)] obtain f m1 where f: "open_file (Some st1) m = Inr (f, m1)" "no_fail m1" "file_at xs xs f" by blast
  from open_file_ok [OF assms(5) f(2)] obtain g m2 where g: "open_file (Some st2) m1 = Inr (g, m2)" "no_fail m2" "file_at ys ys g" by blast
  from compare_loop_merge [OF f(3) g(3,2) assms(6,8,7,9), of "os\<lparr>delimiter := default_delimiter d\<rparr>"] show ?thesis
    using f(1) g(1) assms(1-3) comm_merge_columns [OF assms(8,9)]
    by (fastforce simp: comm_main_def compare_files_def loop_gives_def same_warnings_def)
qed

definition plain_stream :: "string \<Rightarrow> in_stream" where
  "plain_stream t = \<lparr>s_rest = t, s_bad = False, s_feof = False, s_ferror = False\<rparr>"

theorem comm_sorted_witness:
  "comm_main False [] [''p'', ''q'']
     (\<lambda>a. Some (plain_stream (if a = ''p'' then ''a'' @ nl # ''b'' @ [nl] else ''b'' @ nl # ''c''))) True [] =
   Some (Inr (0, map Some (''a'' @ nl # CHR 0x09 # CHR 0x09 # ''b'' @ nl # CHR 0x09 # ''c'' @ [nl])))"
proof -
  have o: "comm_options [] (comm_defaults False) None = Inr (comm_defaults False, None)" by simp
  have t1: "text_file [''a'', ''b''] (plain_stream (''a'' @ nl # ''b'' @ [nl]))"
    and t2: "text_file [''b'', ''c''] (plain_stream (''b'' @ nl # ''c''))"
    by (simp_all add: text_file_def plain_stream_def lines_text_def)
  have fit: "fitting [''a'', ''b'']" "fitting [''b'', ''c'']" by (simp_all add: fitting_def)
  have srt: "sorted (map codes [''a'', ''b''])" "sorted (map codes [''b'', ''c''])" by (simp_all add: codes_def)
  have "comm_merge [''a'', ''b''] [''b'', ''c''] = [(1, ''a''), (3, ''b''), (2, ''c'')]" by (simp add: codes_def)
  with comm_sorted [OF o _ _ t1 t2 fit srt, of "\<lambda>a. Some (plain_stream (if a = ''p'' then ''a'' @ nl # ''b'' @ [nl] else ''b'' @ nl # ''c''))"
      "''p''" "''q''" "[]"]
  show ?thesis by (simp add: column_def comm_defaults_def default_delimiter_def)
qed

text \<open>
  C18. Reading a line into a buffer, fresh or used before: the line is stored as it is when the buffer's last line was not shorter or filled
  the buffer. Otherwise the bytes of the buffer behind its last line, which that line or an older one left there or which were never written, come to lie
  inside the new line.
\<close>

theorem readlinebuffer_line:
  assumes "lb_length lb \<le> lb_size lb" "length (lb_buffer lb) = lb_size lb" "length l + 1 + lb_size lb < 2 ^ 62"
    and "s_rest st = l @ nl # r" "nl \<notin> set l" "\<not> s_feof st" "no_fail m"
  shows "\<exists>lb1 m1. readlinebuffer lb st m = Inr (True, lb1, st\<lparr>s_rest := r\<rparr>, m1) \<and> no_fail m1
     \<and> holds_line lb1 (if length l < lb_length lb \<or> lb_length lb = lb_size lb then map Some (l @ [nl])
         else map Some (take (lb_length lb) l) @ drop (lb_length lb) (lb_buffer lb) @ map Some (drop (lb_length lb) l @ [nl]))"
proof (cases "length l < lb_length lb \<or> lb_length lb = lb_size lb")
  case True
  have "next_line l st (st\<lparr>s_rest := r\<rparr>)" using assms(4,5) by (simp add: next_line_def)
  from readlinebuffer_fits [OF this assms(6,7) _ assms(1,2)] assms(3) True show ?thesis by auto
next
  case False
  then have "lb_length lb < lb_size lb" "lb_length lb \<le> length l" using assms(1) by auto
  from readlinebuffer_longer [OF assms(4-7,3) this(1) assms(2) this(2)] False show ?thesis by simp
qed

theorem readlinebuffer_line_witness:
  "\<exists>lb1 m1. readlinebuffer \<lparr>lb_size = 4, lb_length = 2, lb_buffer = [Some (CHR ''x''), Some nl, None, None]\<rparr>
       (plain_stream (''abc'' @ [nl])) [] = Inr (True, lb1, plain_stream [], m1)
     \<and> holds_line lb1 [Some (CHR ''a''), Some (CHR ''b''), None, None, Some (CHR ''c''), Some nl]"
  using readlinebuffer_line [of "\<lparr>lb_size = 4, lb_length = 2, lb_buffer = [Some (CHR ''x''), Some nl, None, None]\<rparr>" "''abc''"
      "plain_stream (''abc'' @ [nl])" "[]" "[]"]
  by (auto simp: plain_stream_def)

end
