(* ===== verification/Spec2Isabelle.thy ===== *)
theory Spec2Isabelle
  imports IniSafety CJsonSafety Network Common Bt Sysmisc Application RjThread RjData NvModule CuFts CuMode CuSum CuComm
begin

text \<open>
  Verification of three parts of the repository: the system library \<^verbatim>\<open>rjcore_linux\<close> for Linux
  terminals, the kernel module \<^verbatim>\<open>os_lesson/rw_bios_nv\<close> that it talks to, and parts of
  \<^verbatim>\<open>utils/coreutils\<close>, a rewritten subset of the GNU core utilities. Paths below are relative to
  \<^verbatim>\<open>src/\<close>, and for the library to \<^verbatim>\<open>src/rjcore_linux\<close>.

  \<^bold>\<open>The program.\<close> An application links the library and calls \<^verbatim>\<open>Init\<close>, which opens the log, reads what
  a script prints about the terminal and connects to the network daemon. The interface functions then
  run shell commands, read and write a settings file, ask PulseAudio and \<^verbatim>\<open>xrandr\<close>, talk to the firmware
  through the kernel module, and exchange JSON over local sockets. The daemon broadcasts events to its
  clients; the library turns them into calls of the application's callback. The core utilities are
  separate programs on a common library with a hash table, memory functions and text functions.

  \<^bold>\<open>Conventions.\<close> \<^verbatim>\<open>CPrelude\<close>, \<^verbatim>\<open>CStdio\<close> and \<^verbatim>\<open>CFloat\<close> model the C language and library as far as the
  sources use them. A function that may touch memory it must not returns a sum whose left side is a
  fault, so that memory safety is proved and not assumed; allocation asks a list of outcomes. Machine
  integers are words, or numbers with the wrap-around written out; \<^verbatim>\<open>float\<close> and \<^verbatim>\<open>double\<close> are rationals with
  IEEE rounding. Other programs and the kernel are parameters: the shell is a function from a command and
  the files to its output and the files after it, the answers of sockets are lists that the calls
  consume, the firmware is a function on bytes. What cannot return for want of an answer is \<open>Blocked\<close>.

  \<^bold>\<open>Settings\<close> (\<^verbatim>\<open>utils/dictionary.cpp\<close>, \<^verbatim>\<open>utils/iniparser.cpp\<close>, the first part of \<^verbatim>\<open>control/control.cpp\<close>).
  \<^verbatim>\<open>Dictionary\<close> models the three parallel arrays and shows that under their invariant they are a finite map
  (locale \<open>string_store\<close>); \<^verbatim>\<open>IniParser\<close> models loading and writing files, \<^verbatim>\<open>IniRoundtrip\<close> shows that a
  written dictionary loads again, \<^verbatim>\<open>IniSafety\<close> that loading any file stays within its buffers but for the one
  of the joined key, which has a fault of its own;
  \<^verbatim>\<open>ControlConf\<close> shows that the settings behave as a store of integers (locale \<open>int_store\<close>).

  \<^bold>\<open>JSON\<close> (\<^verbatim>\<open>common/json.cpp\<close>, \<^verbatim>\<open>common/rc_json.cpp\<close>). \<^verbatim>\<open>CJson\<close> is the library itself, \<^verbatim>\<open>CJsonRoundtrip\<close> shows
  that printing and parsing are inverse for items with integer numbers, and that the computed buffer lengths suffice for items
  with any numbers; \<^verbatim>\<open>CJsonSafety\<close> that the parser stays within texts whose escapes are complete, ends, and that
  minifying undoes formatting; \<^verbatim>\<open>RcJson\<close> refines the text interface to association lists. Lengths of type \<^verbatim>\<open>int\<close> are kept at
  their width: a length that overflows is a fault, and the theorems say how long a text must be for it.

  \<^bold>\<open>Commands and log\<close> (\<^verbatim>\<open>utils/rj_utils.cpp\<close>, \<^verbatim>\<open>utils/rj_log.cpp\<close>, \<^verbatim>\<open>include/rj_commom.h\<close>, \<^verbatim>\<open>rj_math.h\<close>,
  \<^verbatim>\<open>rj_data.h\<close>). \<^verbatim>\<open>RjUtils\<close> runs commands, \<^verbatim>\<open>ApiChecks\<close> holds the checks of the interface functions,
  \<^verbatim>\<open>RjLog\<close> the text of a message and the rotation of the file, \<^verbatim>\<open>RjMath\<close> the percentages, \<^verbatim>\<open>RjData\<close> the byte order.

  \<^bold>\<open>Messages\<close> (\<^verbatim>\<open>network/rj_ipc.cpp\<close>, \<^verbatim>\<open>network_extra.cpp\<close>, \<^verbatim>\<open>network.cpp\<close>, \<^verbatim>\<open>rj_thread.cpp\<close>, \<^verbatim>\<open>bt/bt.cpp\<close>).
  \<^verbatim>\<open>RjIpc\<close> models service and client with the invariant of the client table for all histories of events, and when
  connecting ends; \<^verbatim>\<open>NetworkExtra\<close> the events, their order and the reconnections they cause, \<^verbatim>\<open>Network\<close> the interface, \<^verbatim>\<open>RjThread\<close> the life of a thread,
  \<^verbatim>\<open>Bt\<close> the requests to the BitTorrent server. The theorem of this theory joins service, client and events.

  \<^bold>\<open>Devices\<close> (\<^verbatim>\<open>control/audiocore.cpp\<close>, \<^verbatim>\<open>video_core.cpp\<close> and their managers, \<^verbatim>\<open>control.cpp\<close>,
  \<^verbatim>\<open>rw_bios_nv_user.cpp\<close>). \<^verbatim>\<open>AudioCore\<close> models the tables of devices under the events of PulseAudio and the
  choice of the default device, \<^verbatim>\<open>Video\<close> the reading of \<^verbatim>\<open>xrandr\<close> and the choice of a resolution,
  \<^verbatim>\<open>DevManager\<close> the managers, \<^verbatim>\<open>BiosNv\<close> and \<^verbatim>\<open>NvModule\<close> both sides of the firmware variables, \<^verbatim>\<open>Control\<close> the
  interface functions.

  \<^bold>\<open>The rest of the library\<close> (\<^verbatim>\<open>product/product.cpp\<close>, \<^verbatim>\<open>common/common.cpp\<close>, \<^verbatim>\<open>sysmisc/sysmisc.cpp\<close>,
  \<^verbatim>\<open>application/application.cpp\<close>): \<^verbatim>\<open>Product\<close>, \<^verbatim>\<open>Common\<close>, \<^verbatim>\<open>Sysmisc\<close>, \<^verbatim>\<open>Application\<close>, each from the call of the
  application to the commands that run and the texts that are returned.

  \<^bold>\<open>Core utilities\<close> (\<^verbatim>\<open>utils/coreutils/lib\<close> and \<^verbatim>\<open>src\<close>). \<^verbatim>\<open>CuBase\<close>: how a program stops, and \<^verbatim>\<open>xmalloc.c\<close>. \<^verbatim>\<open>CuHash\<close>: all of
  \<^verbatim>\<open>hash.c\<close>. \<^verbatim>\<open>CuHashMap\<close>: below its capacity the table is a finite map, for all functions that satisfy the locale
  \<open>hash_client\<close>. \<^verbatim>\<open>CuHashGrow\<close>: resizing keeps the entries, and when its counters are right. \<^verbatim>\<open>CuFts\<close>: sets of
  files and the detection of cycles of directories, the clients of the table. \<^verbatim>\<open>CuMode\<close>: reading and applying file modes
  (\<^verbatim>\<open>modechange.c\<close>) and \<^verbatim>\<open>mkfifo\<close>, which understands octal modes only. \<^verbatim>\<open>CuCksum\<close>: \<^verbatim>\<open>cksum\<close>, equal to bitwise polynomial division,
  and \<^verbatim>\<open>inttostr.c\<close>. \<^verbatim>\<open>CuHuman\<close>: \<^verbatim>\<open>human.c\<close>, the rounded quotient in its unit. \<^verbatim>\<open>CuSum\<close>: \<^verbatim>\<open>sum\<close> and \<^verbatim>\<open>safe-read.c\<close>. \<^verbatim>\<open>CuComm\<close>:
  \<^verbatim>\<open>linebuffer.c\<close>, what a reused buffer holds after a line was read into it, and \<^verbatim>\<open>comm\<close> on sorted files, the multiset
  differences and the intersection of their lines.

  \<^bold>\<open>Bounds and loops.\<close> One definition counts its steps: the search for the decimal exponent of a double stops
  after 700, and \<open>dec_exp_correct\<close> shows that this is enough for every double. All other loops that end are total functions with
  a termination proof; the loop over the events of a message, which may run forever, is a partial function whose
  domain is determined exactly, and so are the loops over the clauses of a file mode and over the lines of
  two files, which are shown to return. The locales are interpreted on the model's own operations.
  Where the code holds a bound, it is in the statement: buffers of the callers, 64 MiB for ini files,
  65536 for ranges of percentages, the announced number of entries for the hash table, half a GiB
  for JSON texts.

  \<^bold>\<open>Not modelled.\<close> The contents of messages on standard error; threads running at the same time (the
  operations run one after the other under their locks); the branch of \<^verbatim>\<open>human.c\<close> with long double
  numbers (a parameter); the texts of usage messages and, except for \<^verbatim>\<open>comm\<close>, the reading of options; \<^verbatim>\<open>comm\<close>
  with standard input for both files; JSON items that share children; the Java
  binding, samples and scripts, which only call the library; the walk through directories and the
  programs of the core utilities not named above, which mostly call the operating system; the other
  directories of the repository, which are copies of foreign libraries, exercises, or programs around
  ALSA, FFmpeg and OpenGL whose behaviour is that of those libraries.
\<close>

subsection \<open>From the network daemon to the application\<close>

lemma find_sub_set: "find_sub p s = Some i \<Longrightarrow> set p \<subseteq> set s"
proof (induction s arbitrary: i)
  case (Cons c s)
  have "set p \<subseteq> set (c # s)" if "prefix_of p (c # s)"
    using that by (metis prefix_of_iff set_append Un_upper1)
  with Cons show ?case by (auto split: if_splits option.splits)
qed (auto split: if_splits)

lemma events_no_EXIT:
  assumes "set evs \<subseteq> set simple_events"
  shows "\<not> contains_sub ''EXIT'' (concat (map fst evs))"
proof
  assume "contains_sub ''EXIT'' (concat (map fst evs))"
  then have "CHR ''X'' \<in> set (concat (map fst evs))" using find_sub_set by (fastforce simp: contains_sub_def)
  then obtain e where e: "e \<in> set simple_events" "CHR ''X'' \<in> set (fst e)" using assms by auto
  have "list_all (\<lambda>e. CHR ''X'' \<notin> set (fst e)) simple_events" by code_simp
  with e show False by (auto simp: list_all_iff)
qed



end
